(* ===== verification/Ncd_Prelude.thy ===== *)
theory Ncd_Prelude
  imports Main "HOL-Library.Word" "HOL-Library.Monad_Syntax"
begin

text \<open>
  Shared vocabulary of the development: the C integer types as words, byte memories, the copy loop,
  the interface every byte encoding of the program satisfies (big-endian bus words, little-endian
  FAT fields), and generic facts about words and list updates.

  Byte buffers and memories are functions from an index to a byte. A C buffer of \<open>n\<close> bytes is such
  a function of which only the indices below \<open>n\<close> are meaningful. Where the code may leave the buffer,
  the operation of the model returns \<open>None\<close>.
\<close>

unbundle bit_operations_syntax

type_synonym u8 = "8 word"
type_synonym u16 = "16 word"
type_synonym u32 = "32 word"
type_synonym u64 = "64 word"
type_synonym mem = "nat \<Rightarrow> u8"

named_theorems byte_ops \<open>facts that put bytes taken from a word together again\<close>
named_theorems frame \<open>what an operation leaves unchanged\<close>

section \<open>Copying bytes\<close>

text \<open>\<open>blit dst i src j n\<close> is \<open>dst\<close> after \<open>n\<close> bytes of \<open>src\<close> from \<open>j\<close> on were copied to \<open>i\<close>.\<close>

definition blit :: "mem \<Rightarrow> nat \<Rightarrow> mem \<Rightarrow> nat \<Rightarrow> nat \<Rightarrow> mem" where
  "blit dst i src j n = (\<lambda>k. if i \<le> k \<and> k < i + n then src (j + (k - i)) else dst k)"

lemma blit_inside: "k < n \<Longrightarrow> blit dst i src j n (i + k) = src (j + k)"
  by (simp add: blit_def)

lemma blit_outside [frame]: "k < i \<or> i + n \<le> k \<Longrightarrow> blit dst i src j n k = dst k"
  by (auto simp: blit_def)

lemma blit_0 [simp]: "blit dst i src j 0 = dst"
  by (rule ext) (auto simp: blit_def)

lemma blit_0_apply: "blit dst 0 src 0 n k = (if k < n then src k else dst k)"
  by (simp add: blit_def)

lemma blit_overwrite: "blit (blit dst i a j n) i b l n = blit dst i b l n"
  by (auto simp: blit_def)

text \<open>The loop \<open>while (n--) *dst++ = *src++\<close> is \<open>blit\<close>.\<close>

fun copy_loop :: "mem \<Rightarrow> nat \<Rightarrow> mem \<Rightarrow> nat \<Rightarrow> nat \<Rightarrow> mem" where
  "copy_loop dst i src j 0 = dst"
| "copy_loop dst i src j (Suc n) = copy_loop (dst(i := src j)) (Suc i) src (Suc j) n"

lemma copy_loop_blit: "copy_loop dst i src j n = blit dst i src j n"
proof (induction n arbitrary: dst i j)
  case 0
  then show ?case by simp
next
  case (Suc n)
  have "copy_loop dst i src j (Suc n) = blit (dst(i := src j)) (Suc i) src (Suc j) n"
    by (simp only: copy_loop.simps Suc.IH)
  also have "\<dots> = blit dst i src j (Suc n)"
  proof
    fix k show "blit (dst(i := src j)) (Suc i) src (Suc j) n k = blit dst i src j (Suc n) k"
    proof (cases "k = i")
      case False
      then have "k - Suc i = k - i - 1" "k \<noteq> i" by simp_all
      then show ?thesis by (auto simp: blit_def intro!: arg_cong [of _ _ src])
    qed (simp add: blit_def)
  qed
  finally show ?case .
qed

section \<open>Bytes of a word\<close>

lemma ucast8_bits: "bit (ucast (w :: 'a::len word) :: u8) n \<longleftrightarrow> n < 8 \<and> bit w n"
  by (simp add: bit_simps)

lemma be32_join [byte_ops]:
  fixes v :: u32
  shows "push_bit 24 (ucast (ucast (drop_bit 24 v) :: u8)) OR push_bit 16 (ucast (ucast (drop_bit 16 v) :: u8))
         OR push_bit 8 (ucast (ucast (drop_bit 8 v) :: u8)) OR ucast (ucast v :: u8) = v"
proof (rule bit_word_eqI)
  fix n assume "n < LENGTH(32)"
  then consider "n < 8" | "8 \<le> n" "n < 16" | "16 \<le> n" "n < 24" | "24 \<le> n" "n < 32"
    by fastforce
  then show "bit (push_bit 24 (ucast (ucast (drop_bit 24 v) :: u8)) OR push_bit 16 (ucast (ucast (drop_bit 16 v) :: u8))
         OR push_bit 8 (ucast (ucast (drop_bit 8 v) :: u8)) OR ucast (ucast v :: u8) :: u32) n = bit v n"
    by cases (auto simp: bit_simps)
qed

lemma le32_join [byte_ops]:
  fixes v :: u32
  shows "ucast (ucast v :: u8) OR push_bit 8 (ucast (ucast (drop_bit 8 v) :: u8))
         OR push_bit 16 (ucast (ucast (drop_bit 16 v) :: u8)) OR push_bit 24 (ucast (ucast (drop_bit 24 v) :: u8)) = v"
  using be32_join [of v] by (simp add: or.commute or.left_commute)

lemma be16_join32 [byte_ops]:
  fixes v :: u32
  shows "push_bit 8 (ucast (ucast (drop_bit 8 v) :: u8)) OR ucast (ucast v :: u8) = v AND 0xFFFF"
proof (rule bit_word_eqI)
  fix n assume n: "n < LENGTH(32)"
  have m: "(0xFFFF :: u32) = mask 16" by (simp add: mask_eq_exp_minus_1)
  from n consider "n < 8" | "8 \<le> n" "n < 16" | "16 \<le> n"
    by fastforce
  then show "bit (push_bit 8 (ucast (ucast (drop_bit 8 v) :: u8)) OR ucast (ucast v :: u8) :: u32) n = bit (v AND 0xFFFF) n"
    unfolding m by cases (auto simp: bit_simps)
qed

lemma le16_join [byte_ops]:
  fixes v :: u16
  shows "ucast (ucast v :: u8) OR push_bit 8 (ucast (ucast (drop_bit 8 v) :: u8)) = v"
proof (rule bit_word_eqI)
  fix n assume n: "n < LENGTH(16)"
  then consider "n < 8" | "8 \<le> n" "n < 16"
    by fastforce
  then show "bit (ucast (ucast v :: u8) OR push_bit 8 (ucast (ucast (drop_bit 8 v) :: u8)) :: u16) n = bit v n"
    by cases (auto simp: bit_simps)
qed

lemma be8_join32 [byte_ops]: "ucast (ucast (v :: u32) :: u8) = v AND 0xFF"
proof -
  have m: "(0xFF :: u32) = mask 8" by (simp add: mask_eq_exp_minus_1)
  show ?thesis unfolding m by (rule bit_word_eqI) (auto simp: bit_simps)
qed

section \<open>Byte encodings\<close>

text \<open>
  What the clients of an encoding of values in memory use: reading back what was written, the frame
  of a write, and that a read depends on its own bytes only.
\<close>

locale codec =
  fixes put :: "mem \<Rightarrow> nat \<Rightarrow> 'v \<Rightarrow> mem"
    and get :: "mem \<Rightarrow> nat \<Rightarrow> 'w"
    and norm :: "'v \<Rightarrow> 'w"
    and width :: nat
  assumes get_put: "get (put m i v) i = norm v"
    and put_frame: "k < i \<or> i + width \<le> k \<Longrightarrow> put m i v k = m k"
    and put_det: "i \<le> k \<Longrightarrow> k < i + width \<Longrightarrow> put m i v k = put m' i v k"
    and get_cong: "(\<And>k. i \<le> k \<Longrightarrow> k < i + width \<Longrightarrow> m k = m' k) \<Longrightarrow> get m i = get m' i"
begin

lemma get_put_other: "j + width \<le> i \<or> i + width \<le> j \<Longrightarrow> get (put m i v) j = get m j"
  by (rule get_cong) (auto intro: put_frame)

lemma put_put: "put (put m i v) i w = put m i w"
proof
  fix k show "put (put m i v) i w k = put m i w k"
    by (cases "i \<le> k \<and> k < i + width") (auto simp: put_frame intro: put_det)
qed

lemma put_swap:
  assumes "j + width \<le> i \<or> i + width \<le> j"
  shows "put (put m i v) j w = put (put m j w) i v"
proof
  fix k
  consider "i \<le> k \<and> k < i + width" | "j \<le> k \<and> k < j + width"
    | "\<not> (i \<le> k \<and> k < i + width) \<and> \<not> (j \<le> k \<and> k < j + width)" by blast
  then show "put (put m i v) j w k = put (put m j w) i v k"
  proof cases
    case 1
    then have "put (put m i v) j w k = put m i v k" using assms by (intro put_frame) auto
    also from 1 have "\<dots> = put (put m j w) i v k" by (intro put_det) auto
    finally show ?thesis .
  next
    case 2
    then have "put (put m j w) i v k = put m j w k" using assms by (intro put_frame) auto
    also from 2 have "\<dots> = put (put m i v) j w k" by (intro put_det) auto
    finally show ?thesis by simp
  next
    case 3
    then have "put (put m i v) j w k = m k" "put (put m j w) i v k = m k"
      by (auto simp: put_frame not_le not_less)
    then show ?thesis by simp
  qed
qed

end

section \<open>Natural numbers and words\<close>

lemma unat_of_nat_small: "n < 2 ^ LENGTH('a) \<Longrightarrow> unat (of_nat n :: 'a::len word) = n"
  by (simp only: unsigned_of_nat of_nat_id take_bit_nat_eq_self)

lemma unat_and_mask: "unat (x AND mask n :: 'a::len word) = unat x mod 2 ^ n"
  by (simp only: take_bit_eq_mask [symmetric] unsigned_take_bit_eq) (simp add: take_bit_eq_mod)

lemma and_4k_mask: "(x :: u32) AND 0xFFF = x mod 4096"
proof -
  have m: "(0xFFF :: u32) = mask 12" by (simp add: mask_eq_exp_minus_1)
  show ?thesis by (simp only: m take_bit_eq_mask [symmetric]) (simp add: take_bit_eq_mod)
qed

lemma option_bind_Some_iff:
  "Option.bind x f = Some y \<longleftrightarrow> (\<exists>a. x = Some a \<and> f a = Some y)"
  by (cases x) auto

end
