(* ===== verification/Nvram.thy ===== *)
theory Nvram
  imports Ncd_Prelude
begin

text \<open>
  \<open>emulator/src/nvram.c\<close>: the 93C46 serial EEPROM behind three bit-banged pins. The state record has
  the fields of \<open>struct nvram\<close>; \<open>nvram_write\<close> is one write of the pin byte, \<open>nvram_sk_rise\<close> the
  work of one rising clock edge, \<open>nvram_exec\<close> the switch on the opcode of a complete command.
  The lemmas relate the edges to whole serial transactions: a read of a word, a write of a word,
  write protection, and the image file.
\<close>

section \<open>The chip\<close>

datatype nv_state = IDLE | CMD | READ_OUT | WRITE_IN

record nvram =
  nv_mem :: "nat \<Rightarrow> u16"
  nv_cs :: bool
  nv_sk :: bool
  nv_di :: bool
  nv_st :: nv_state
  rx_shift :: u32
  rx_count :: int
  tx_shift :: u32
  tx_count :: int
  nv_ewen :: bool
  nv_addr :: nat

definition NVRAM_WORDS :: nat where
  "NVRAM_WORDS = 64"

definition nvram_new :: nvram where
  "nvram_new = \<lparr>nv_mem = (\<lambda>_. 0xFFFF), nv_cs = False, nv_sk = False, nv_di = False, nv_st = IDLE,
     rx_shift = 0, rx_count = 0, tx_shift = 0, tx_count = 0, nv_ewen = True, nv_addr = 0\<rparr>"

definition nvram_set_word :: "nvram \<Rightarrow> nat \<Rightarrow> u16 \<Rightarrow> nvram" where
  "nvram_set_word n addr val = (if addr < NVRAM_WORDS then n\<lparr>nv_mem := (nv_mem n)(addr := val)\<rparr> else n)"

definition nvram_get_word :: "nvram \<Rightarrow> nat \<Rightarrow> u16" where
  "nvram_get_word n addr = (if addr < NVRAM_WORDS then nv_mem n addr else 0xFFFF)"

definition nvram_begin_cmd :: "nvram \<Rightarrow> nvram" where
  "nvram_begin_cmd n = n\<lparr>nv_st := CMD, rx_shift := 0, rx_count := 0, tx_count := 0\<rparr>"

text \<open>The switch on the opcode, entered with the complete command in \<open>rx_shift\<close>.\<close>

definition nvram_exec :: "nvram \<Rightarrow> nvram" where
  "nvram_exec n0 =
     (let cmd = rx_shift n0 AND 0xFF;
          op = unat (drop_bit 6 cmd AND 3);
          addr = unat (cmd AND 0x3F);
          n = n0\<lparr>nv_addr := addr\<rparr> in
      if op = 2 then
        n\<lparr>tx_shift := (if addr < NVRAM_WORDS then ucast (nv_mem n addr) else 0xFFFF),
          tx_count := 0, nv_st := READ_OUT\<rparr>
      else if op = 1 then
        n\<lparr>rx_shift := 0, rx_count := 0, nv_st := WRITE_IN\<rparr>
      else if op = 3 then
        (if nv_ewen n \<and> addr < NVRAM_WORDS then n\<lparr>nv_mem := (nv_mem n)(addr := 0xFFFF)\<rparr> else n)
          \<lparr>nv_st := IDLE\<rparr>
      else
        (let sub = (addr div 16) mod 4 in
         if sub = 0 then n\<lparr>nv_ewen := False\<rparr>
         else if sub = 1 then n
         else if sub = 2 then (if nv_ewen n then n\<lparr>nv_mem := (\<lambda>_. 0xFFFF)\<rparr> else n)
         else n\<lparr>nv_ewen := True\<rparr>)\<lparr>nv_st := IDLE\<rparr>)"

definition nvram_tick_out :: "nvram \<Rightarrow> nvram" where
  "nvram_tick_out n = (if nv_st n = READ_OUT then n\<lparr>tx_count := tx_count n + 1\<rparr> else n)"

definition nvram_sk_rise :: "nvram \<Rightarrow> nvram" where
  "nvram_sk_rise n =
     (if \<not> nv_cs n then n
      else if nv_st n = CMD then
        (let n1 = n\<lparr>rx_shift := push_bit 1 (rx_shift n) OR of_bool (nv_di n), rx_count := rx_count n + 1\<rparr> in
         if rx_count n1 < 9 then n1
         else if \<not> bit (rx_shift n1) 8 \<and> rx_count n1 < 24 then n1
         else nvram_tick_out (nvram_exec n1))
      else if nv_st n = WRITE_IN then
        (let n1 = n\<lparr>rx_shift := push_bit 1 (rx_shift n) OR of_bool (nv_di n), rx_count := rx_count n + 1\<rparr> in
         nvram_tick_out
           (if rx_count n1 = 16 then
              (if nv_ewen n1 \<and> nv_addr n1 < NVRAM_WORDS
               then n1\<lparr>nv_mem := (nv_mem n1)(nv_addr n1 := ucast (rx_shift n1))\<rparr> else n1)\<lparr>nv_st := IDLE\<rparr>
            else n1))
      else nvram_tick_out n)"

definition nvram_read :: "nvram \<Rightarrow> u32 \<Rightarrow> u32" where
  "nvram_read n off =
     (if off \<noteq> 0 then 0
      else if nv_st n = READ_OUT then
        (if tx_count n = 1 then 0
         else if 2 \<le> tx_count n \<and> tx_count n \<le> 17
         then of_bool (bit (tx_shift n) (nat (15 - (tx_count n - 2))))
         else 1)
      else 1)"

definition nvram_write :: "nvram \<Rightarrow> u32 \<Rightarrow> u32 \<Rightarrow> nvram" where
  "nvram_write n off value =
     (if off \<noteq> 0 then n
      else
        (let new_di = bit value 0; new_sk = bit value 1; new_cs = bit value 2;
             n1 = (if new_cs \<and> \<not> nv_cs n then nvram_begin_cmd n else n);
             n2 = (if \<not> new_cs \<and> nv_cs n1 then n1\<lparr>nv_st := IDLE\<rparr> else n1);
             n3 = (if new_sk \<and> \<not> nv_sk n2 \<and> new_cs then nvram_sk_rise n2 else n2) in
         n3\<lparr>nv_cs := new_cs, nv_sk := new_sk, nv_di := new_di\<rparr>))"

text \<open>
  The image file: \<open>fread\<close> delivers at most the 128 bytes asked for; \<open>None\<close> is a file that does not
  open. Words are stored low byte first.
\<close>

definition nvram_load_file :: "nvram \<Rightarrow> u8 list option \<Rightarrow> nvram \<times> int" where
  "nvram_load_file n file =
     (case file of
        None \<Rightarrow> (n, -1)
      | Some bytes \<Rightarrow>
          (let buf = take (2 * NVRAM_WORDS) bytes in
           if length buf \<noteq> 2 * NVRAM_WORDS then (n, -1)
           else (n\<lparr>nv_mem := (\<lambda>i. if i < NVRAM_WORDS
                                then push_bit 8 (ucast (buf ! (2 * i + 1))) OR ucast (buf ! (2 * i))
                                else nv_mem n i)\<rparr>, 0)))"

definition nvram_save_file :: "nvram \<Rightarrow> u8 list" where
  "nvram_save_file n =
     concat (map (\<lambda>i. [ucast (nv_mem n i), ucast (drop_bit 8 (nv_mem n i))]) [0 ..< NVRAM_WORDS])"

section \<open>Serial transactions\<close>

text \<open>
  How a host drives the pins: \<open>nv_pin\<close> is the pin byte, \<open>nv_select\<close> drops and raises CS with the
  clock low, \<open>nv_shift\<close> presents one data bit and then raises the clock.
\<close>

definition nv_pin :: "bool \<Rightarrow> bool \<Rightarrow> bool \<Rightarrow> u32" where
  "nv_pin cs sk di = of_bool di OR push_bit 1 (of_bool sk) OR push_bit 2 (of_bool cs)"

lemma nv_pin_bits [simp]:
  "bit (nv_pin cs sk di) 0 = di" "bit (nv_pin cs sk di) 1 = sk" "bit (nv_pin cs sk di) 2 = cs"
  "bit (nv_pin cs sk di) (Suc 0) = sk"
  by (auto simp: nv_pin_def bit_simps)

definition nv_select :: "nvram \<Rightarrow> nvram" where
  "nv_select n = nvram_write (nvram_write n 0 (nv_pin False False False)) 0 (nv_pin True False False)"

definition nv_shift :: "nvram \<Rightarrow> bool \<Rightarrow> nvram" where
  "nv_shift n b = nvram_write (nvram_write n 0 (nv_pin True False b)) 0 (nv_pin True True b)"

definition nv_shifts :: "nvram \<Rightarrow> bool list \<Rightarrow> nvram" where
  "nv_shifts n bs = foldl nv_shift n bs"

definition bits_of :: "nat \<Rightarrow> 'a::len word \<Rightarrow> bool list" where
  "bits_of k w = map (bit w) (rev [0 ..< k])"

lemma nv_shifts_Nil [simp]: "nv_shifts n [] = n"
  by (simp add: nv_shifts_def)

lemma nv_shifts_Cons [simp]: "nv_shifts n (b # bs) = nv_shifts (nv_shift n b) bs"
  by (simp add: nv_shifts_def)

lemma nv_shifts_append: "nv_shifts n (as @ bs) = nv_shifts (nv_shifts n as) bs"
  by (simp add: nv_shifts_def)

text \<open>One presented bit on a selected chip is one rising edge with that bit latched.\<close>

lemma nv_shift_rise:
  assumes "nv_cs n"
  shows "nv_shift n b =
    (nvram_sk_rise (n\<lparr>nv_cs := True, nv_sk := False, nv_di := b\<rparr>))\<lparr>nv_cs := True, nv_sk := True, nv_di := b\<rparr>"
  using assms by (simp add: nv_shift_def nvram_write_def Let_def)

lemma nv_select_state:
  "nv_select n = n\<lparr>nv_st := CMD, rx_shift := 0, rx_count := 0, tx_count := 0,
     nv_cs := True, nv_sk := False, nv_di := False\<rparr>"
  by (cases "nv_cs n") (simp_all add: nv_select_def nvram_write_def nvram_begin_cmd_def Let_def)


text \<open>The levels of SK and DI before a presented bit do not matter.\<close>

definition nv_core :: "nvram \<Rightarrow> nvram" where
  "nv_core n = n\<lparr>nv_sk := False, nv_di := False\<rparr>"

lemma nv_shift_core: "nv_cs n \<Longrightarrow> nv_shift n b = nv_shift (nv_core n) b"
  by (simp add: nv_shift_rise nv_core_def)

lemma nv_core_cs [simp]: "nv_cs (nv_core n) = nv_cs n"
  by (simp add: nv_core_def)

lemma nv_core_cong: "nv_core n = nv_core m \<Longrightarrow> nv_cs n \<Longrightarrow> nv_shift n b = nv_shift m b"
  by (metis nv_core_cs nv_shift_core)

lemma nv_core_shifts:
  assumes "nv_core n = nv_core m" "nv_cs n" "bs \<noteq> []"
  shows "nv_shifts n bs = nv_shifts m bs"
  using assms nv_core_cong [OF assms(1,2)] by (cases bs) auto

definition shift_in :: "u32 \<Rightarrow> bool list \<Rightarrow> u32" where
  "shift_in s bs = foldl (\<lambda>s b. push_bit 1 s OR of_bool b) s bs"

lemma shift_in_simps [simp]:
  "shift_in s [] = s"
  "shift_in s (b # bs) = shift_in (push_bit 1 s OR of_bool b) bs"
  by (simp_all add: shift_in_def)

lemma shift_in_append: "shift_in s (as @ bs) = shift_in (shift_in s as) bs"
  by (simp add: shift_in_def)

lemma shift_in_zeros [simp]: "shift_in 0 (replicate k False) = 0"
  by (induction k) auto

lemma bits_of_Suc: "bits_of (Suc k) w = bit w k # bits_of k w"
  by (simp add: bits_of_def)

lemma bits_of_0 [simp]: "bits_of 0 w = []"
  by (simp add: bits_of_def)

lemma length_bits_of [simp]: "length (bits_of k w) = k"
  by (simp add: bits_of_def)

lemma shift_in_bits_of: "k \<le> 32 \<Longrightarrow> shift_in s (bits_of k w) = push_bit k s OR take_bit k (ucast w)"
proof (induction k arbitrary: s)
  case 0
  then show ?case by (simp add: bits_of_def)
next
  case (Suc k)
  have "shift_in s (bits_of (Suc k) w) = push_bit k (push_bit 1 s OR of_bool (bit w k)) OR take_bit k (ucast w)"
    using Suc by (simp add: bits_of_Suc)
  also have "\<dots> = push_bit (Suc k) s OR take_bit (Suc k) (ucast w)"
    using Suc.prems by (intro bit_word_eqI) (auto simp: bit_simps less_Suc_eq)
  finally show ?case .
qed

text \<open>While the shift register holds fewer than nine significant bits the chip only collects.\<close>

lemma nv_shifts_collect:
  assumes "nv_cs n" "nv_st n = CMD" "\<And>i. j \<le> i \<Longrightarrow> \<not> bit (rx_shift n) i"
    and "j + length bs \<le> 8" "rx_count n + int (length bs) < 24"
  shows "nv_core (nv_shifts n bs) =
    nv_core (n\<lparr>rx_shift := shift_in (rx_shift n) bs, rx_count := rx_count n + int (length bs)\<rparr>)
    \<and> nv_cs (nv_shifts n bs)"
  using assms
proof (induction bs arbitrary: n j)
  case Nil
  then show ?case by simp
next
  case (Cons b bs)
  let ?m = "n\<lparr>rx_shift := push_bit 1 (rx_shift n) OR of_bool b, rx_count := rx_count n + 1,
      nv_cs := True, nv_sk := True, nv_di := b\<rparr>"
  have "\<not> bit (rx_shift n) 7" using Cons.prems(3,4) by simp
  then have "\<not> bit (push_bit 1 (rx_shift n) OR of_bool b) 8"
    by (simp only: bit_or_iff bit_push_bit_iff bit_of_bool_iff) simp
  then have shift: "nv_shift n b = ?m"
    using Cons.prems by (simp add: nv_shift_rise nvram_sk_rise_def Let_def)
  have hi: "\<not> bit (rx_shift ?m) i" if "Suc j \<le> i" for i
  proof -
    have "\<not> bit (rx_shift n) (i - 1)" "i \<noteq> 0" using that Cons.prems(3) [of "i - 1"] by simp_all
    then have "\<not> bit (push_bit 1 (rx_shift n) OR of_bool b) i"
      by (simp only: bit_or_iff bit_push_bit_iff bit_of_bool_iff) simp
    then show ?thesis by simp
  qed
  have "nv_core (nv_shifts ?m bs) =
      nv_core (?m\<lparr>rx_shift := shift_in (rx_shift ?m) bs, rx_count := rx_count ?m + int (length bs)\<rparr>)
      \<and> nv_cs (nv_shifts ?m bs)"
    using Cons.prems hi by (intro Cons.IH [where j = "Suc j"]) auto
  then show ?case
    using Cons.prems(1) unfolding nv_shifts_Cons shift by (simp add: nv_core_def)
qed

text \<open>A complete command: up to fifteen leading zeros, the start bit, and the command byte.\<close>

definition nv_command :: "nvram \<Rightarrow> nat \<Rightarrow> u8 \<Rightarrow> nvram" where
  "nv_command n k c = nv_shifts (nv_select n) (replicate k False @ True # bits_of 8 c)"

lemma nv_command_exec:
  assumes "k \<le> 15"
  shows "nv_command n k c =
    (nvram_tick_out (nvram_exec (n\<lparr>nv_st := CMD, tx_count := 0, nv_cs := True, nv_sk := False,
       nv_di := bit c 0, rx_shift := 0x100 OR ucast c, rx_count := 9 + int k\<rparr>)))
      \<lparr>nv_cs := True, nv_sk := True, nv_di := bit c 0\<rparr>"
proof -
  let ?z = "replicate k False" and ?p = "True # butlast (bits_of 8 c)"
  let ?m = "n\<lparr>nv_st := CMD, rx_shift := 0, rx_count := int k, tx_count := 0,
      nv_cs := True, nv_sk := False, nv_di := False\<rparr>"
  have len: "length ?p = 8" by simp
  have last: "bits_of 8 c = butlast (bits_of 8 c) @ [bit c 0]"
    by (simp add: bits_of_def upt_rec)
  have z: "nv_core (nv_shifts (nv_select n) ?z) = nv_core ?m \<and> nv_cs (nv_shifts (nv_select n) ?z)"
  proof (cases "k \<le> 8")
    case True
    then show ?thesis
      using nv_shifts_collect [of "nv_select n" 0 ?z] assms
      by (simp add: nv_select_state nv_core_def)
  next
    case False
    let ?z1 = "replicate 8 False" and ?z2 = "replicate (k - 8) False"
    have zz: "?z = ?z1 @ ?z2" using False by (simp flip: replicate_add)
    have z1: "nv_core (nv_shifts (nv_select n) ?z1) = nv_core (?m\<lparr>rx_count := 8\<rparr>)"
      "nv_cs (nv_shifts (nv_select n) ?z1)"
      using nv_shifts_collect [of "nv_select n" 0 ?z1] by (simp_all add: nv_select_state nv_core_def)
    have "nv_shifts (nv_select n) ?z = nv_shifts (?m\<lparr>rx_count := 8\<rparr>) ?z2"
      unfolding zz nv_shifts_append using z1 False by (intro nv_core_shifts) auto
    then show ?thesis
      using nv_shifts_collect [of "?m\<lparr>rx_count := 8\<rparr>" 0 ?z2] assms False
      by (simp add: nv_core_def)
  qed
  have p: "nv_core (nv_shifts ?m ?p) = nv_core (?m\<lparr>rx_shift := shift_in 0 ?p, rx_count := int k + 8\<rparr>)
      \<and> nv_cs (nv_shifts ?m ?p)"
    using nv_shifts_collect [of ?m 0 ?p] assms len by simp
  have "nv_command n k c = nv_shift (nv_shifts (nv_shifts (nv_select n) ?z) ?p) (bit c 0)"
    unfolding nv_command_def by (subst last) (simp add: nv_shifts_append)
  also have "\<dots> = nv_shift (nv_shifts ?m ?p) (bit c 0)"
    using z by (subst nv_core_shifts [of _ ?m]) auto
  also have "\<dots> = nv_shift (?m\<lparr>rx_shift := shift_in 0 ?p, rx_count := int k + 8\<rparr>) (bit c 0)"
    using p by (intro nv_core_cong) auto
  finally have cmd: "nv_command n k c = nv_shift (?m\<lparr>rx_shift := shift_in 0 ?p, rx_count := int k + 8\<rparr>) (bit c 0)" .
  have c8: "n < 8" if "bit c n" for n using bit_imp_le_length [OF that] by simp
  have "shift_in 0 (?p @ [bit c 0]) = shift_in 1 (bits_of 8 c)"
    by (subst (2) last) (simp add: shift_in_append)
  also have "\<dots> = 0x100 OR ucast c"
    by (subst shift_in_bits_of) (auto simp: bit_simps intro!: bit_word_eqI dest: c8)
  finally have full: "push_bit 1 (shift_in 0 ?p) OR of_bool (bit c 0) = 0x100 OR ucast c"
    by (simp add: shift_in_append)
  have "bit (0x100 OR ucast c :: u32) 8" by (simp add: bit_simps)
  then show ?thesis
    unfolding cmd using full by (simp add: nv_shift_rise nvram_sk_rise_def Let_def)
qed


text \<open>Command bytes: two opcode bits, six address bits.\<close>

definition nv_cmd :: "nat \<Rightarrow> nat \<Rightarrow> u8" where
  "nv_cmd op a = of_nat (64 * op + a)"

lemma nv_cmd_byte [simp]: "(0x100 OR ucast (c :: u8) :: u32) AND 0xFF = ucast c"
proof -
  have m: "(0xFF :: u32) = mask 8" by (simp add: mask_eq_exp_minus_1)
  have c8: "n < 8" if "bit c n" for n using bit_imp_le_length [OF that] by simp
  have "\<not> bit (0x100 :: u32) n" if "n < 8" for n
    using that by (auto simp: less_Suc_eq numeral_eq_Suc)
  then show ?thesis unfolding m by (intro bit_word_eqI) (auto simp: bit_simps dest: c8)
qed

lemma nv_cmd_fields:
  assumes "op < 4" "a < 64"
  shows "unat (drop_bit 6 (ucast (nv_cmd op a) :: u32) AND 3) = op"
    and "unat ((ucast (nv_cmd op a) :: u32) AND 0x3F) = a"
proof -
  have m: "(3 :: u32) = mask 2" "(0x3F :: u32) = mask 6" by (simp_all add: mask_eq_exp_minus_1)
  have "unat (nv_cmd op a) = (64 * op + a) mod 256"
    by (simp only: nv_cmd_def unat_of_nat) simp
  then have u: "unat (ucast (nv_cmd op a) :: u32) = 64 * op + a"
    using assms by (simp add: unsigned_ucast_eq take_bit_eq_mod)
  have d: "(64 * op + a) div 64 = op" using assms by simp
  show "unat (drop_bit 6 (ucast (nv_cmd op a) :: u32) AND 3) = op"
    unfolding m unat_and_mask unat_drop_bit_eq u using assms d by (simp add: drop_bit_eq_div)
  show "unat ((ucast (nv_cmd op a) :: u32) AND 0x3F) = a"
    using assms unfolding m by (simp add: unat_and_mask u)
qed

lemma nv_read_command:
  assumes "k \<le> 15" "a < 64"
  shows "nv_command n k (nv_cmd 2 a) =
    n\<lparr>nv_st := READ_OUT, rx_shift := 0x100 OR ucast (nv_cmd 2 a), rx_count := 9 + int k,
      tx_count := 1, tx_shift := ucast (nv_mem n a), nv_addr := a,
      nv_cs := True, nv_sk := True, nv_di := bit (nv_cmd 2 a) 0\<rparr>"
  using assms nv_cmd_fields [of 2 a]
  by (simp add: nv_command_exec nvram_exec_def nvram_tick_out_def Let_def NVRAM_WORDS_def)

lemma nv_write_command:
  assumes "k \<le> 15" "a < 64"
  shows "nv_command n k (nv_cmd 1 a) =
    n\<lparr>nv_st := WRITE_IN, rx_shift := 0, rx_count := 0, tx_count := 0, nv_addr := a,
      nv_cs := True, nv_sk := True, nv_di := bit (nv_cmd 1 a) 0\<rparr>"
  using assms nv_cmd_fields [of 1 a]
  by (simp add: nv_command_exec nvram_exec_def nvram_tick_out_def Let_def)

text \<open>Clocking a word out: the bits the host sees after each further edge, first edge first.\<close>

fun nv_collect :: "nvram \<Rightarrow> nat \<Rightarrow> bool list" where
  "nv_collect n 0 = []"
| "nv_collect n (Suc k) = (nvram_read (nv_shift n False) 0 = 1) # nv_collect (nv_shift n False) k"

lemma nv_shift_read_out:
  assumes "nv_cs n" "nv_st n = READ_OUT"
  shows "nv_shift n b = n\<lparr>tx_count := tx_count n + 1, nv_cs := True, nv_sk := True, nv_di := b\<rparr>"
  using assms by (simp add: nv_shift_rise nvram_sk_rise_def nvram_tick_out_def)

lemma nv_collect_read_out:
  assumes "nv_cs n" "nv_st n = READ_OUT" "tx_count n = 17 - int k" "k \<le> 16"
  shows "nv_collect n k = bits_of k (tx_shift n)"
  using assms
proof (induction k arbitrary: n)
  case 0
  then show ?case by simp
next
  case (Suc k)
  let ?m = "nv_shift n False"
  have m: "nv_cs ?m" "nv_st ?m = READ_OUT" "tx_count ?m = 17 - int k" "tx_shift ?m = tx_shift n"
    using Suc.prems by (simp_all add: nv_shift_read_out)
  have "nvram_read ?m 0 = of_bool (bit (tx_shift n) k)"
    using m Suc.prems(4) by (simp add: nvram_read_def)
  then show ?case using Suc.IH [OF m(1-3)] Suc.prems(4) m(4) by (simp add: bits_of_Suc)
qed

text \<open>Clocking a word in.\<close>

lemma nv_shifts_write_in:
  assumes "nv_cs n" "nv_st n = WRITE_IN" "rx_count n + int (length bs) < 16" "0 \<le> rx_count n"
  shows "nv_core (nv_shifts n bs) =
    nv_core (n\<lparr>rx_shift := shift_in (rx_shift n) bs, rx_count := rx_count n + int (length bs)\<rparr>)
    \<and> nv_cs (nv_shifts n bs)"
  using assms
proof (induction bs arbitrary: n)
  case Nil
  then show ?case by simp
next
  case (Cons b bs)
  let ?m = "n\<lparr>rx_shift := push_bit 1 (rx_shift n) OR of_bool b, rx_count := rx_count n + 1,
      nv_cs := True, nv_sk := True, nv_di := b\<rparr>"
  have shift: "nv_shift n b = ?m"
    using Cons.prems by (simp add: nv_shift_rise nvram_sk_rise_def nvram_tick_out_def Let_def)
  have "nv_core (nv_shifts ?m bs) =
      nv_core (?m\<lparr>rx_shift := shift_in (rx_shift ?m) bs, rx_count := rx_count ?m + int (length bs)\<rparr>)
      \<and> nv_cs (nv_shifts ?m bs)"
    using Cons.prems by (intro Cons.IH) auto
  then show ?case
    using Cons.prems(1) unfolding nv_shifts_Cons shift by (simp add: nv_core_def)
qed

lemma nv_write_word:
  assumes "nv_cs n" "nv_st n = WRITE_IN" "rx_count n = 0" "rx_shift n = 0" "nv_addr n < 64"
  shows "nv_mem (nv_shifts n (bits_of 16 w)) =
      (if nv_ewen n then (nv_mem n)(nv_addr n := w) else nv_mem n)"
    and "nv_ewen (nv_shifts n (bits_of 16 w)) = nv_ewen n"
proof -
  let ?p = "butlast (bits_of 16 w)"
  let ?m = "n\<lparr>rx_shift := shift_in 0 ?p, rx_count := 15\<rparr>"
  have last: "bits_of 16 w = ?p @ [bit w 0]"
    by (simp add: bits_of_def upt_rec)
  have "nv_core (nv_shifts n ?p) = nv_core ?m \<and> nv_cs (nv_shifts n ?p)"
    using nv_shifts_write_in [of n ?p] assms by simp
  then have sh: "nv_shifts n (bits_of 16 w) = nv_shift ?m (bit w 0)"
    by (subst last) (auto simp: nv_shifts_append intro: nv_core_cong)
  have "push_bit 1 (shift_in 0 ?p) OR of_bool (bit w 0) = shift_in 0 (bits_of 16 w)"
    by (subst (2) last) (simp add: shift_in_append)
  also have "\<dots> = take_bit 16 (ucast w)"
    by (subst shift_in_bits_of) auto
  finally have "ucast (push_bit 1 (shift_in 0 ?p) OR of_bool (bit w 0)) = w"
    by (auto simp: bit_simps intro!: bit_word_eqI)
  then show "nv_mem (nv_shifts n (bits_of 16 w)) =
      (if nv_ewen n then (nv_mem n)(nv_addr n := w) else nv_mem n)"
    and "nv_ewen (nv_shifts n (bits_of 16 w)) = nv_ewen n"
    using assms unfolding sh
    by (simp_all add: nv_shift_rise nvram_sk_rise_def nvram_tick_out_def Let_def NVRAM_WORDS_def)
qed


section \<open>Properties\<close>

text \<open>
  Reading a word over the serial pins. After any read command (up to fifteen leading zeros, start
  bit, opcode 10, address) the chip answers the dummy 0, then sixteen clocks deliver the addressed
  word, most significant bit first, so that the host's shift-and-or accumulation is the stored word.
\<close>

theorem nvram_serial_read:
  assumes "k \<le> 15" "a < NVRAM_WORDS"
  shows "nvram_read (nv_command n k (nv_cmd 2 a)) 0 = 0
    \<and> shift_in 0 (nv_collect (nv_command n k (nv_cmd 2 a)) 16) = ucast (nv_mem n a)"
proof -
  let ?m = "nv_command n k (nv_cmd 2 a)"
  have m: "nv_cs ?m" "nv_st ?m = READ_OUT" "tx_count ?m = 1" "tx_shift ?m = ucast (nv_mem n a)"
    using assms by (simp_all add: nv_read_command NVRAM_WORDS_def)
  have c16: "i < 16" if "bit (nv_mem n a) i" for i using bit_imp_le_length [OF that] by simp
  have "shift_in 0 (nv_collect ?m 16) = take_bit 16 (ucast (nv_mem n a))"
    using m by (simp add: nv_collect_read_out shift_in_bits_of)
  also have "\<dots> = ucast (nv_mem n a)"
    by (auto simp: bit_simps intro!: bit_word_eqI dest: c16)
  finally show ?thesis using m by (simp add: nvram_read_def)
qed

theorem nvram_serial_read_witness:
  "shift_in 0 (nv_collect (nv_command nvram_new 3 (nv_cmd 2 5)) 16) = 0xFFFF"
  using nvram_serial_read [of 3 5 nvram_new] by (simp add: NVRAM_WORDS_def nvram_new_def)

text \<open>
  C23: a write transaction. Opcode 01, the address and sixteen data bits store exactly the addressed
  word, and store nothing when the chip is write-disabled; a later read transaction then returns it.
\<close>

theorem nvram_serial_write_read:
  assumes "k \<le> 15" "l \<le> 15" "a < NVRAM_WORDS" "b < NVRAM_WORDS"
  shows "shift_in 0 (nv_collect (nv_command (nv_shifts (nv_command n k (nv_cmd 1 a)) (bits_of 16 w)) l (nv_cmd 2 b)) 16)
    = ucast (if nv_ewen n \<and> b = a then w else nv_mem n b)"
proof -
  let ?m = "nv_command n k (nv_cmd 1 a)"
  let ?t = "nv_shifts ?m (bits_of 16 w)"
  have m: "nv_cs ?m" "nv_st ?m = WRITE_IN" "rx_count ?m = 0" "rx_shift ?m = 0" "nv_addr ?m = a"
    "nv_ewen ?m = nv_ewen n" "nv_mem ?m = nv_mem n"
    using assms by (simp_all add: nv_write_command NVRAM_WORDS_def del: One_nat_def)
  have t: "nv_mem ?t = (if nv_ewen n then (nv_mem n)(a := w) else nv_mem n)"
    using nv_write_word(1) [of ?m w] m assms by (simp add: NVRAM_WORDS_def)
  have c16: "i < 16" if "bit (x :: u16) i" for x i using bit_imp_le_length [OF that] by simp
  let ?r = "nv_command ?t l (nv_cmd 2 b)"
  have r: "nv_cs ?r" "nv_st ?r = READ_OUT" "tx_count ?r = 1" "tx_shift ?r = ucast (nv_mem ?t b)"
    using assms by (simp_all add: nv_read_command NVRAM_WORDS_def)
  have "shift_in 0 (nv_collect ?r 16) = take_bit 16 (ucast (nv_mem ?t b))"
    using r by (simp add: nv_collect_read_out shift_in_bits_of)
  also have "\<dots> = ucast (nv_mem ?t b)"
    by (auto simp: bit_simps intro!: bit_word_eqI dest: c16)
  finally show ?thesis using t by simp
qed

theorem nvram_serial_write_read_witness:
  "shift_in 0 (nv_collect (nv_command (nv_shifts (nv_command nvram_new 0 (nv_cmd 1 9)) (bits_of 16 (0xBEEF :: u16))) 2 (nv_cmd 2 9)) 16)
    = 0xBEEF"
  by (rule trans [OF nvram_serial_write_read]) (simp_all add: NVRAM_WORDS_def nvram_new_def)

text \<open>
  Write protection. While the chip is write-disabled no single pin write changes the array.
\<close>

theorem nvram_write_protected:
  assumes "\<not> nv_ewen n"
  shows "nv_mem (nvram_write n off v) = nv_mem n"
  using assms
  by (simp add: nvram_write_def nvram_sk_rise_def nvram_exec_def nvram_tick_out_def nvram_begin_cmd_def Let_def)

theorem nvram_write_protected_witness:
  "nv_mem (nvram_write (nvram_new\<lparr>nv_ewen := False, nv_cs := True, nv_st := WRITE_IN, rx_count := 15\<rparr>) 0 7) 0 = 0xFFFF"
  using nvram_write_protected [of "nvram_new\<lparr>nv_ewen := False, nv_cs := True, nv_st := WRITE_IN, rx_count := 15\<rparr>" 0 7]
  by (simp add: nvram_new_def)

lemma nvram_save_length: "length (nvram_save_file n) = 2 * NVRAM_WORDS"
  by (simp add: nvram_save_file_def length_concat comp_def sum_list_triv)

lemma concat_pairs_nth:
  "i < length xs \<Longrightarrow> concat (map (\<lambda>x. [f x, g x]) xs) ! (2 * i) = f (xs ! i)
    \<and> concat (map (\<lambda>x. [f x, g x]) xs) ! (2 * i + 1) = g (xs ! i)"
proof (induction xs arbitrary: i)
  case Nil
  then show ?case by simp
next
  case (Cons x xs)
  then show ?case by (cases i) auto
qed

text \<open>
  The image file. Loading what was saved restores every word of the array, whatever follows in
  the file, and a file shorter than 128 bytes is refused and changes nothing.
\<close>

theorem nvram_file_roundtrip:
  assumes "i < NVRAM_WORDS" "length rest < NVRAM_WORDS"
  shows "snd (nvram_load_file m (Some (nvram_save_file n @ rest))) = 0
    \<and> nv_mem (fst (nvram_load_file m (Some (nvram_save_file n @ rest)))) i = nv_mem n i
    \<and> nvram_load_file m (Some rest) = (m, -1)"
proof -
  have "push_bit 8 (ucast (ucast (drop_bit 8 (nv_mem n i)) :: u8)) OR ucast (ucast (nv_mem n i) :: u8) = nv_mem n i"
    using le16_join [of "nv_mem n i"] by (simp add: or.commute)
  moreover have "nvram_save_file n ! (2 * i) = ucast (nv_mem n i)"
    "nvram_save_file n ! (2 * i + 1) = ucast (drop_bit 8 (nv_mem n i))"
    using assms concat_pairs_nth [of i "[0 ..< NVRAM_WORDS]"
        "\<lambda>i. ucast (nv_mem n i) :: u8" "\<lambda>i. ucast (drop_bit 8 (nv_mem n i))"]
    by (simp_all add: nvram_save_file_def)
  ultimately show ?thesis
    using assms nvram_save_length [of n] by (simp add: nvram_load_file_def Let_def)
qed

theorem nvram_file_roundtrip_witness:
  "nv_mem (fst (nvram_load_file nvram_new (Some (nvram_save_file (nvram_set_word nvram_new 3 0x1234) @ [])))) 3 = 0x1234"
  using nvram_file_roundtrip [of 3 "[]" nvram_new "nvram_set_word nvram_new 3 0x1234"]
  by (simp add: NVRAM_WORDS_def nvram_set_word_def)

end
