(* ===== verification/Ring.thy ===== *)
theory Ring
  imports Ncd_Prelude
begin

text \<open>
  Byte queues. The emulator keeps three ring buffers of the same shape (a byte array, a head and a
  tail index, one slot left free): the DUART receive queues, the window keyboard queue and the
  buffer between standard input and the DUART. \<open>ring_list\<close> is the queue such a ring holds; the
  locale \<open>fifo\<close> is what the code that feeds and drains a queue relies on.
\<close>

section \<open>The interface\<close>

fun drain :: "('q \<Rightarrow> u8 \<times> 'q) \<Rightarrow> nat \<Rightarrow> 'q \<Rightarrow> u8 list \<times> 'q" where
  "drain pop 0 q = ([], q)"
| "drain pop (Suc n) q =
     (let (b, q1) = pop q; (bs, q2) = drain pop n q1 in (b # bs, q2))"

locale fifo =
  fixes push :: "'q \<Rightarrow> u8 \<Rightarrow> 'q"
    and pop :: "'q \<Rightarrow> u8 \<times> 'q"
    and contents :: "'q \<Rightarrow> u8 list"
    and ok :: "'q \<Rightarrow> bool"
    and cap :: nat
  assumes push_contents: "ok q \<Longrightarrow> contents (push q b) =
      (if length (contents q) < cap then contents q @ [b] else contents q)"
    and push_ok: "ok q \<Longrightarrow> ok (push q b)"
    and pop_contents: "ok q \<Longrightarrow> contents q = b # bs \<Longrightarrow> fst (pop q) = b \<and> contents (snd (pop q)) = bs"
    and pop_ok: "ok q \<Longrightarrow> ok (snd (pop q))"
    and bounded: "ok q \<Longrightarrow> length (contents q) \<le> cap"
begin

lemma pushes_ok: "ok q \<Longrightarrow> ok (foldl push q bs)"
  by (induction bs arbitrary: q) (auto intro: push_ok)

lemma pushes_contents: "ok q \<Longrightarrow> contents (foldl push q bs) = take cap (contents q @ bs)"
proof (induction bs arbitrary: q)
  case Nil
  then show ?case using bounded by simp
next
  case (Cons b bs)
  have "contents (foldl push q (b # bs)) = take cap (contents (push q b) @ bs)"
    using Cons push_ok by simp
  also have "\<dots> = take cap (contents q @ b # bs)"
    using Cons.prems bounded [of q]
    by (auto simp: push_contents not_less take_Cons' Suc_diff_Suc)
  finally show ?case .
qed

lemma drain_contents:
  "ok q \<Longrightarrow> n \<le> length (contents q) \<Longrightarrow>
    fst (drain pop n q) = take n (contents q) \<and> contents (snd (drain pop n q)) = drop n (contents q)
    \<and> ok (snd (drain pop n q))"
proof (induction n arbitrary: q)
  case 0
  then show ?case by simp
next
  case (Suc n)
  then obtain b bs where q: "contents q = b # bs" by (cases "contents q") auto
  obtain b' q1 where p: "pop q = (b', q1)" by (cases "pop q")
  have q1: "b' = b" "contents q1 = bs" "ok q1"
    using pop_contents [OF Suc.prems(1) q] pop_ok [OF Suc.prems(1)] p by auto
  have "n \<le> length (contents q1)" using Suc.prems(2) q q1(2) by simp
  from Suc.IH [OF q1(3) this] show ?case
    using q q1 by (auto simp: p split: prod.split)
qed

theorem fifo_order:
  assumes "ok q" "contents q = []" "length bs \<le> cap"
  shows "fst (drain pop (length bs) (foldl push q bs)) = bs"
    and "contents (snd (drain pop (length bs) (foldl push q bs))) = []"
  using drain_contents [OF pushes_ok, of q "length bs" bs] pushes_contents [of q bs] assms by simp_all

end

section \<open>Rings\<close>

definition ring_list :: "nat \<Rightarrow> (nat \<Rightarrow> u8) \<Rightarrow> nat \<Rightarrow> nat \<Rightarrow> u8 list" where
  "ring_list N buf h t = map (\<lambda>i. buf ((h + i) mod N)) [0 ..< (t + N - h) mod N]"

lemma ring_dist: "h < N \<Longrightarrow> t < N \<Longrightarrow> (t + N - h) mod N = (if h \<le> t then t - h else t + N - h)"
  for h t N :: nat
  by (metis Nat.add_diff_assoc2 add_diff_inverse_nat less_diff_conv2 less_imp_diff_less mod_add_self2
      mod_less nat_le_linear not_less diff_less_mono2 add.commute le_add_diff_inverse2 less_or_eq_imp_le
      add_less_cancel_left)

lemma ring_inc: "t < N \<Longrightarrow> Suc t mod N = (if Suc t = N then 0 else Suc t)" for t N :: nat
  by simp

lemma ring_wrap: "h < N \<Longrightarrow> i < N \<Longrightarrow> (h + i) mod N = (if h + i < N then h + i else h + i - N)" for h i N :: nat
  by (simp add: le_mod_geq)

lemma ring_length: "h < N \<Longrightarrow> t < N \<Longrightarrow> length (ring_list N buf h t) = (if h \<le> t then t - h else t + N - h)"
  by (simp add: ring_list_def ring_dist)

lemma ring_Nil: "h < N \<Longrightarrow> t < N \<Longrightarrow> ring_list N buf h t = [] \<longleftrightarrow> h = t"
  using ring_length [of h N t buf] by (auto split: if_splits)

lemma ring_full:
  "h < N \<Longrightarrow> t < N \<Longrightarrow> (t + 1) mod N = h \<longleftrightarrow> length (ring_list N buf h t) = N - 1"
  using ring_length [of h N t buf] by (auto simp: ring_inc split: if_splits)

lemma ring_bounded: "h < N \<Longrightarrow> t < N \<Longrightarrow> length (ring_list N buf h t) \<le> N - 1"
  using ring_length [of h N t buf] by (auto split: if_splits)

lemma ring_push:
  assumes "h < N" "t < N" "(t + 1) mod N \<noteq> h"
  shows "ring_list N (buf(t := b)) h ((t + 1) mod N) = ring_list N buf h t @ [b]"
proof -
  let ?n = "(t + N - h) mod N"
  have t': "(t + 1) mod N < N" using assms(1) by simp
  have n': "?n = (if h \<le> t then t - h else t + N - h)" using assms by (intro ring_dist)
  have "((t + 1) mod N + N - h) mod N = Suc ?n"
    unfolding ring_dist [OF assms(1) t'] n' using assms by (auto simp: ring_inc split: if_splits)
  moreover have "(h + ?n) mod N = t"
    unfolding n' using assms by (auto simp: ring_wrap)
  moreover have "(h + i) mod N \<noteq> t" if "i < ?n" for i
    using that assms unfolding n' by (subst ring_wrap) (auto split: if_splits)
  ultimately show ?thesis
    unfolding ring_list_def by simp
qed

lemma ring_pop:
  assumes "h < N" "t < N" "h \<noteq> t"
  shows "ring_list N buf h t = buf h # ring_list N buf ((h + 1) mod N) t"
proof -
  let ?k = "(t + N - (h + 1) mod N) mod N"
  have h': "(h + 1) mod N < N" using assms(1) by simp
  have n: "(t + N - h) mod N = Suc ?k"
    unfolding ring_dist [OF assms(1,2)] ring_dist [OF h' assms(2)]
    using assms by (auto simp: ring_inc split: if_splits)
  show ?thesis
    unfolding ring_list_def n using assms(1)
    by (simp add: upt_conv_Cons map_Suc_upt [symmetric] mod_simps del: upt_Suc)
qed

end
