(* ===== verification/Duart.thy ===== *)
theory Duart
  imports Nvram Ring
begin

text \<open>
  \<open>emulator/src/duart.c\<close>: the MC68681 DUART of the console, with the serial EEPROM on its output
  port, and the small register devices of the same file (cartridge identification, memory controller,
  video timing). The C array \<open>regs\<close> has sixteen entries while the decoded register number has five
  bits; an access beyond the array is undefined behaviour of the C code and the model returns \<open>None\<close>.
\<close>

section \<open>The DUART\<close>

record duart =
  d_regs :: "nat \<Rightarrow> u8"
  d_sra :: u8
  d_srb :: u8
  mr_ptr :: "nat \<Rightarrow> nat"
  rx_queue :: "nat \<Rightarrow> nat \<Rightarrow> u8"
  rx_head :: "nat \<Rightarrow> nat"
  rx_tail :: "nat \<Rightarrow> nat"
  log_tx :: bool
  d_nv :: nvram
  d_opr :: u8
  d_out :: "(nat \<times> u8) list"

text \<open>\<open>d_out\<close> is what the device printed, as (channel, byte), first byte first.\<close>

abbreviation "SR_RXRDY \<equiv> 0x01 :: u8"
abbreviation "SR_TXRDY \<equiv> 0x04 :: u8"
abbreviation "SR_TXEMT \<equiv> 0x08 :: u8"

definition DUART_NREGS :: nat where
  "DUART_NREGS = 16"

definition duart_new :: duart where
  "duart_new = \<lparr>d_regs = (\<lambda>_. 0), d_sra = SR_TXRDY OR SR_TXEMT, d_srb = SR_TXRDY OR SR_TXEMT,
     mr_ptr = (\<lambda>_. 0), rx_queue = (\<lambda>_ _. 0), rx_head = (\<lambda>_. 0), rx_tail = (\<lambda>_. 0), log_tx = True,
     d_nv = nvram_new, d_opr = 0, d_out = []\<rparr>"

definition duart_tx :: "duart \<Rightarrow> nat \<Rightarrow> u8 \<Rightarrow> duart" where
  "duart_tx d ch byte = (if \<not> log_tx d then d else d\<lparr>d_out := d_out d @ [(ch, byte)]\<rparr>)"

definition duart_rx_has :: "duart \<Rightarrow> nat \<Rightarrow> bool" where
  "duart_rx_has d ch \<longleftrightarrow> rx_head d ch \<noteq> rx_tail d ch"

definition duart_rx_pop :: "duart \<Rightarrow> nat \<Rightarrow> u8 \<times> duart" where
  "duart_rx_pop d ch =
     (if \<not> duart_rx_has d ch then (0, d)
      else (rx_queue d ch (rx_head d ch),
            d\<lparr>rx_head := (rx_head d)(ch := (rx_head d ch + 1) mod 16)\<rparr>))"

definition duart_feed_input :: "duart \<Rightarrow> nat \<Rightarrow> u8 \<Rightarrow> duart" where
  "duart_feed_input d ch byte =
     (let next = (rx_tail d ch + 1) mod 16 in
      if next = rx_head d ch then d
      else d\<lparr>rx_queue := (rx_queue d)(ch := (rx_queue d ch)(rx_tail d ch := byte)),
             rx_tail := (rx_tail d)(ch := next)\<rparr>)"

definition duart_rx_empty :: "duart \<Rightarrow> nat \<Rightarrow> bool" where
  "duart_rx_empty d ch \<longleftrightarrow> rx_head d ch = rx_tail d ch"

definition duart_reg :: "u32 \<Rightarrow> nat" where
  "duart_reg off = (unat off div 4) mod 32"

definition duart_read :: "duart \<Rightarrow> u32 \<Rightarrow> (u32 \<times> duart) option" where
  "duart_read d off =
     (let reg = duart_reg off in
      if reg = 0x00 then Some (ucast (d_regs d (0 + mr_ptr d 0)), d)
      else if reg = 0x01 then
        (let s = (if duart_rx_has d 0 then d_sra d OR SR_RXRDY else d_sra d AND NOT SR_RXRDY)
         in Some (ucast s, d\<lparr>d_sra := s\<rparr>))
      else if reg = 0x03 then (let (b, d1) = duart_rx_pop d 0 in Some (ucast b, d1))
      else if reg = 0x08 then Some (ucast (d_regs d (8 + mr_ptr d 1)), d)
      else if reg = 0x09 then
        (let s = (if duart_rx_has d 1 then d_srb d OR SR_RXRDY else d_srb d AND NOT SR_RXRDY)
         in Some (ucast s, d\<lparr>d_srb := s\<rparr>))
      else if reg = 0x0B then (let (b, d1) = duart_rx_pop d 1 in Some (ucast b, d1))
      else if reg = 0x04 then
        Some (ucast ((d_regs d 4 AND NOT 0x04)
                     OR (if nvram_read (d_nv d) 0 AND 1 \<noteq> 0 then 0x04 else 0)), d)
      else if reg < DUART_NREGS then Some (ucast (d_regs d reg), d)
      else None)"

text \<open>The pin byte of the EEPROM: DI from OP4, SK from OP6, CS from OP5.\<close>

definition nvram_pins_from_opr :: "u8 \<Rightarrow> u32" where
  "nvram_pins_from_opr opr =
     ucast (drop_bit 4 opr AND 1) OR push_bit 1 (ucast (drop_bit 6 opr AND 1))
     OR push_bit 2 (ucast (drop_bit 5 opr AND 1))"

definition duart_write :: "duart \<Rightarrow> u32 \<Rightarrow> u32 \<Rightarrow> duart option" where
  "duart_write d off value =
     (let reg = duart_reg off; v = ucast value :: u8 in
      if reg = 0x00 then
        Some (d\<lparr>d_regs := (d_regs d)(0 + mr_ptr d 0 := v),
                mr_ptr := (if mr_ptr d 0 = 0 then (mr_ptr d)(0 := 1) else mr_ptr d)\<rparr>)
      else if reg = 0x02 then
        Some (if drop_bit 4 v AND 7 = 1 then d\<lparr>mr_ptr := (mr_ptr d)(0 := 0)\<rparr> else d)
      else if reg = 0x03 then
        (let d1 = duart_tx d 0 v in Some (d1\<lparr>d_sra := d_sra d1 OR SR_TXRDY OR SR_TXEMT\<rparr>))
      else if reg = 0x08 then
        Some (d\<lparr>d_regs := (d_regs d)(8 + mr_ptr d 1 := v),
                mr_ptr := (if mr_ptr d 1 = 0 then (mr_ptr d)(1 := 1) else mr_ptr d)\<rparr>)
      else if reg = 0x0A then
        Some (if drop_bit 4 v AND 7 = 1 then d\<lparr>mr_ptr := (mr_ptr d)(1 := 0)\<rparr> else d)
      else if reg = 0x0B then
        (let d1 = duart_tx d 1 v in Some (d1\<lparr>d_srb := d_srb d1 OR SR_TXRDY OR SR_TXEMT\<rparr>))
      else if reg = 0x0F then
        Some (d\<lparr>d_opr := v, d_nv := nvram_write (d_nv d) 0 (nvram_pins_from_opr v),
                d_regs := (d_regs d)(15 := v)\<rparr>)
      else if reg < DUART_NREGS then Some (d\<lparr>d_regs := (d_regs d)(reg := v)\<rparr>)
      else None)"


section \<open>The register devices\<close>

record vidctl =
  cart_id :: "nat \<Rightarrow> u8"

definition vidctl_new :: vidctl where
  "vidctl_new = \<lparr>cart_id = (\<lambda>_. 0)\<rparr>"

definition vidctl_read :: "vidctl \<Rightarrow> u32 \<Rightarrow> u32" where
  "vidctl_read v off = (if off < 4 then ucast (cart_id v (unat off)) else 0)"

definition vidctl_write :: "vidctl \<Rightarrow> u32 \<Rightarrow> u32 \<Rightarrow> vidctl" where
  "vidctl_write v off val = v"

record memctl =
  mc_regs :: "nat \<Rightarrow> u32"

definition memctl_new :: memctl where
  "memctl_new = \<lparr>mc_regs = (\<lambda>_. 0)\<rparr>"

definition memctl_read :: "memctl \<Rightarrow> u32 \<Rightarrow> u32" where
  "memctl_read m off = mc_regs m ((unat off div 4) mod 32)"

definition memctl_write :: "memctl \<Rightarrow> u32 \<Rightarrow> u32 \<Rightarrow> memctl" where
  "memctl_write m off val = m\<lparr>mc_regs := (mc_regs m)((unat off div 4) mod 32 := val)\<rparr>"

text \<open>The access histograms of the C struct are diagnostics and are left out.\<close>

record crtc =
  poll_count :: u32
  c_regs :: "nat \<Rightarrow> u32"
  byte_store :: mem

definition crtc_new :: crtc where
  "crtc_new = \<lparr>poll_count = 0, c_regs = (\<lambda>_. 0), byte_store = (\<lambda>_. 0)\<rparr>"

text \<open>The loop that gathers \<open>sz\<close> bytes, most significant first.\<close>

definition crtc_gather :: "mem \<Rightarrow> nat \<Rightarrow> nat \<Rightarrow> u32" where
  "crtc_gather m off sz = foldl (\<lambda>v i. push_bit 8 v OR ucast (m (off + i))) 0 [0 ..< sz]"

definition crtc_read :: "crtc \<Rightarrow> u32 \<Rightarrow> nat \<Rightarrow> u32 \<times> crtc" where
  "crtc_read c0 off sz =
     (let c = c0\<lparr>poll_count := poll_count c0 + 1\<rparr>;
          tick = bit (poll_count c) 4 in
      if unat (off + of_nat sz) > 256 then (0, c)
      else
        (let v = crtc_gather (byte_store c) (unat off) sz;
             v1 = (if off = 0 \<and> sz = 1 then (v AND NOT 2) OR (if tick then 2 else 0) else v);
             v2 = (if off = 0x13 \<and> sz = 1 then (if tick then 0x100 else 0) else v1)
         in (v2, c)))"

definition crtc_write :: "crtc \<Rightarrow> u32 \<Rightarrow> u32 \<Rightarrow> nat \<Rightarrow> crtc" where
  "crtc_write c off val sz =
     (if unat (off + of_nat sz) > 256 then c
      else c\<lparr>byte_store := (\<lambda>k. if unat off \<le> k \<and> k < unat off + sz
                               then ucast (drop_bit ((sz - 1 - (k - unat off)) * 8) val)
                               else byte_store c k),
             c_regs := (c_regs c)((unat off div 4) mod 64 := val)\<rparr>)"

text \<open>The arbiter and catch-all regions of \<open>main.c\<close> read as all ones and ignore writes.\<close>

definition vram_arb_read :: "u32 \<Rightarrow> nat \<Rightarrow> u32" where
  "vram_arb_read off sz = 0xFFFFFFFF"

definition stub_read :: "u32 \<Rightarrow> nat \<Rightarrow> u32" where
  "stub_read off sz = 0xFFFFFFFF"

section \<open>The receive queues\<close>

definition rx_list :: "duart \<Rightarrow> nat \<Rightarrow> u8 list" where
  "rx_list d ch = ring_list 16 (rx_queue d ch) (rx_head d ch) (rx_tail d ch)"

definition rx_ok :: "nat \<Rightarrow> duart \<Rightarrow> bool" where
  "rx_ok ch d \<longleftrightarrow> rx_head d ch < 16 \<and> rx_tail d ch < 16"

lemma rx_has_list: "rx_ok ch d \<Longrightarrow> duart_rx_has d ch \<longleftrightarrow> rx_list d ch \<noteq> []"
  by (simp add: rx_ok_def duart_rx_has_def rx_list_def ring_Nil)

lemma rx_empty_list: "rx_ok ch d \<Longrightarrow> duart_rx_empty d ch \<longleftrightarrow> rx_list d ch = []"
  by (simp add: rx_ok_def duart_rx_empty_def rx_list_def ring_Nil)

lemma rx_ok_new: "rx_ok ch duart_new" "rx_list duart_new ch = []"
  by (simp_all add: rx_ok_def rx_list_def duart_new_def ring_list_def)

interpretation rx: fifo "\<lambda>d b. duart_feed_input d ch b" "\<lambda>d. duart_rx_pop d ch"
    "\<lambda>d. rx_list d ch" "rx_ok ch" 15
  for ch
proof unfold_locales
  fix d b assume ok: "rx_ok ch d"
  have full: "(rx_tail d ch + 1) mod 16 = rx_head d ch \<longleftrightarrow> length (rx_list d ch) = 15"
    using ok ring_full [of "rx_head d ch" 16 "rx_tail d ch" "rx_queue d ch"]
    by (simp add: rx_ok_def rx_list_def)
  have le: "length (rx_list d ch) \<le> 15"
    using ok ring_bounded [of "rx_head d ch" 16 "rx_tail d ch" "rx_queue d ch"]
    by (simp add: rx_ok_def rx_list_def)
  then show "length (rx_list d ch) \<le> 15" .
  show "rx_list (duart_feed_input d ch b) ch
      = (if length (rx_list d ch) < 15 then rx_list d ch @ [b] else rx_list d ch)"
    using ok full le ring_push [of "rx_head d ch" 16 "rx_tail d ch" "rx_queue d ch" b]
    by (auto simp: duart_feed_input_def Let_def rx_ok_def rx_list_def)
  show "rx_ok ch (duart_feed_input d ch b)"
    using ok by (simp add: duart_feed_input_def Let_def rx_ok_def)
  show "rx_ok ch (snd (duart_rx_pop d ch))"
    using ok by (simp add: duart_rx_pop_def rx_ok_def)
next
  fix d b bs assume ok: "rx_ok ch d" and q: "rx_list d ch = b # bs"
  have "rx_head d ch \<noteq> rx_tail d ch"
    using ok q rx_has_list by (auto simp: duart_rx_has_def)
  then show "fst (duart_rx_pop d ch) = b \<and> rx_list (snd (duart_rx_pop d ch)) ch = bs"
    using ok q ring_pop [of "rx_head d ch" 16 "rx_tail d ch" "rx_queue d ch"]
    by (auto simp: duart_rx_pop_def duart_rx_has_def rx_ok_def rx_list_def)
qed

section \<open>The EEPROM through the output port\<close>

definition opr_of :: "bool \<Rightarrow> bool \<Rightarrow> bool \<Rightarrow> u32" where
  "opr_of cs sk di = push_bit 4 (of_bool di) OR push_bit 5 (of_bool cs) OR push_bit 6 (of_bool sk)"

lemma pins_of_opr: "nvram_pins_from_opr (ucast (opr_of cs sk di)) = nv_pin cs sk di"
  by (cases cs; cases sk; cases di) (simp_all add: nvram_pins_from_opr_def opr_of_def nv_pin_def)

text \<open>Writes of the output port register, one per element, as (CS, SK, DI) levels.\<close>

fun duart_drive :: "duart \<Rightarrow> (bool \<times> bool \<times> bool) list \<Rightarrow> duart option" where
  "duart_drive d [] = Some d"
| "duart_drive d ((cs, sk, di) # ps) =
     Option.bind (duart_write d 0x3C (opr_of cs sk di)) (\<lambda>d1. duart_drive d1 ps)"

definition nv_drive :: "nvram \<Rightarrow> (bool \<times> bool \<times> bool) list \<Rightarrow> nvram" where
  "nv_drive n ps = foldl (\<lambda>n (cs, sk, di). nvram_write n 0 (nv_pin cs sk di)) n ps"

lemma duart_write_opr:
  "duart_write d 0x3C (opr_of cs sk di) =
     Some (d\<lparr>d_opr := ucast (opr_of cs sk di), d_nv := nvram_write (d_nv d) 0 (nv_pin cs sk di),
             d_regs := (d_regs d)(15 := ucast (opr_of cs sk di))\<rparr>)"
  by (simp add: duart_write_def duart_reg_def Let_def pins_of_opr)

lemma duart_drive_nv: "\<exists>d'. duart_drive d ps = Some d' \<and> d_nv d' = nv_drive (d_nv d) ps"
proof (induction ps arbitrary: d)
  case Nil
  then show ?case by (simp add: nv_drive_def)
next
  case (Cons p ps)
  obtain cs sk di where p: "p = (cs, sk, di)" by (cases p)
  from Cons.IH obtain d' where
    "duart_drive (d\<lparr>d_opr := ucast (opr_of cs sk di), d_nv := nvram_write (d_nv d) 0 (nv_pin cs sk di),
       d_regs := (d_regs d)(15 := ucast (opr_of cs sk di))\<rparr>) ps = Some d'"
    "d_nv d' = nv_drive (nvram_write (d_nv d) 0 (nv_pin cs sk di)) ps" by fastforce
  then show ?case by (simp add: p duart_write_opr nv_drive_def)
qed

lemma duart_read_ipcr:
  "duart_read d 0x10 = Some (ucast ((d_regs d 4 AND NOT 0x04)
     OR (if nvram_read (d_nv d) 0 AND 1 \<noteq> 0 then 0x04 else 0)), d)"
  by (simp add: duart_read_def duart_reg_def Let_def)

section \<open>Properties\<close>

text \<open>
  Console input order. On a channel with an empty queue up to fifteen bytes fed by the host are
  delivered by the receive register in the order they were fed, after which the queue is empty.
\<close>

theorem duart_rx_order:
  assumes "rx_ok ch d" "rx_list d ch = []" "length bs \<le> 15"
  shows "fst (drain (\<lambda>d. duart_rx_pop d ch) (length bs) (foldl (\<lambda>d b. duart_feed_input d ch b) d bs)) = bs
    \<and> duart_rx_empty (snd (drain (\<lambda>d. duart_rx_pop d ch) (length bs) (foldl (\<lambda>d b. duart_feed_input d ch b) d bs))) ch"
proof -
  let ?e = "foldl (\<lambda>d b. duart_feed_input d ch b) d bs"
  have ok: "rx_ok ch (snd (drain (\<lambda>d. duart_rx_pop d ch) (length bs) ?e))"
    using rx.drain_contents [OF rx.pushes_ok [OF assms(1)], of "length bs" bs]
      rx.pushes_contents [OF assms(1), of bs] assms(2,3) by simp
  show ?thesis using rx.fifo_order [OF assms] rx_empty_list [OF ok] by simp
qed

theorem duart_rx_order_witness:
  "fst (drain (\<lambda>d. duart_rx_pop d 1) 2 (foldl (\<lambda>d b. duart_feed_input d 1 b) duart_new [0x41, 0x42])) = [0x41, 0x42]"
  using duart_rx_order [of 1 duart_new "[0x41, 0x42]"] rx_ok_new by (simp add: numeral_2_eq_2)

text \<open>
  Exactly the register numbers 16 to 31 of the device's 128-byte window reach beyond the register
  array, for reads and for writes; every other access is defined.
\<close>

theorem duart_access_defined:
  "(duart_read d off = None \<longleftrightarrow> 16 \<le> duart_reg off) \<and> (duart_write d off v = None \<longleftrightarrow> 16 \<le> duart_reg off)"
  by (auto simp: duart_read_def duart_write_def Let_def DUART_NREGS_def split: prod.split)

text \<open>
  The receive-ready bit of the console status register tells whether a byte is queued, and reading
  the status changes neither the queues nor any other status bit.
\<close>

theorem duart_status_rxrdy:
  assumes "rx_ok 1 d"
  shows "\<exists>s d'. duart_read d 0x24 = Some (ucast (s :: u8), d') \<and> bit s 0 = (rx_list d 1 \<noteq> [])
    \<and> rx_list d' 1 = rx_list d 1 \<and> rx_list d' 0 = rx_list d 0
    \<and> s AND NOT SR_RXRDY = d_srb d AND NOT SR_RXRDY \<and> d_srb d' = s"
proof -
  let ?s = "if duart_rx_has d 1 then d_srb d OR SR_RXRDY else d_srb d AND NOT SR_RXRDY"
  have "duart_read d 0x24 = Some (ucast ?s, d\<lparr>d_srb := ?s\<rparr>)"
    by (simp add: duart_read_def duart_reg_def Let_def)
  moreover have "bit ?s 0 = (rx_list d 1 \<noteq> [])"
    using rx_has_list [OF assms] by (auto simp: bit_simps)
  moreover have "?s AND NOT SR_RXRDY = d_srb d AND NOT SR_RXRDY"
    by (auto intro!: bit_word_eqI simp: bit_simps)
  ultimately show ?thesis by (intro exI [of _ ?s] exI [of _ "d\<lparr>d_srb := ?s\<rparr>"]) (simp add: rx_list_def)
qed

theorem duart_status_rxrdy_witness:
  "\<exists>s d'. duart_read (duart_feed_input duart_new 1 7) 0x24 = Some (ucast (s :: u8), d') \<and> bit s 0"
proof -
  have ok: "rx_ok 1 (duart_feed_input duart_new 1 7)" by (rule rx.push_ok) (rule rx_ok_new)
  have "rx_list (duart_feed_input duart_new 1 7) 1 = [7]"
    using rx.push_contents [OF rx_ok_new(1), of 1 7] by (simp add: rx_ok_new)
  then show ?thesis using duart_status_rxrdy [OF ok] by auto
qed

text \<open>
  C26: the DUART is a transparent carrier of the EEPROM pins. Any sequence of pin levels written to the
  output port drives the chip exactly as writing the pin byte to it, no access is undefined, and bit 2
  of the input port register is the chip's data output.
\<close>

theorem duart_carries_nvram:
  "\<exists>d'. duart_drive d ps = Some d' \<and> d_nv d' = nv_drive (d_nv d) ps
    \<and> (\<exists>v. duart_read d' 0x10 = Some (v, d') \<and> bit v 2 = bit (nvram_read (nv_drive (d_nv d) ps) 0) 0)"
proof -
  obtain d' where d': "duart_drive d ps = Some d'" "d_nv d' = nv_drive (d_nv d) ps"
    using duart_drive_nv by blast
  have "x AND 1 \<noteq> 0 \<longleftrightarrow> bit x 0" for x :: u32
    by (simp add: and_one_eq bit_0 mod_2_eq_odd)
  then show ?thesis using d' by (auto simp: duart_read_ipcr bit_simps)
qed

text \<open>
  The second mode register of a channel shares its storage with the clock-select register: after
  a pointer reset and the writes of both mode registers, a write of the clock-select register replaces
  what reading the mode register returns.
\<close>

theorem duart_mr2_clobbered:
  assumes "mr_ptr d 0 = 0"
  shows "\<exists>d1 d2 d3. duart_write d 0x00 m1 = Some d1 \<and> duart_write d1 0x00 m2 = Some d2
    \<and> duart_read d2 0x00 = Some (m2 AND 0xFF, d2)
    \<and> duart_write d2 0x04 csr = Some d3 \<and> duart_read d3 0x00 = Some (csr AND 0xFF, d3)"
  using assms
  by (simp add: duart_write_def duart_read_def duart_reg_def Let_def DUART_NREGS_def be8_join32)

theorem duart_mr2_clobbered_witness:
  "\<exists>d1 d2 d3. duart_write duart_new 0x00 0x13 = Some d1 \<and> duart_write d1 0x00 0x07 = Some d2
    \<and> duart_read d2 0x00 = Some (0x07, d2)
    \<and> duart_write d2 0x04 0xBB = Some d3 \<and> duart_read d3 0x00 = Some (0xBB, d3)"
  using duart_mr2_clobbered [of duart_new "0x13" "0x07" "0xBB"] by (simp add: duart_new_def)

end
