(* ===== verification/Lance.thy ===== *)
theory Lance
  imports Ncd_Prelude
begin

text \<open>
  \<open>emulator/src/lance.c\<close>: the Am79C90 Ethernet controller. The chip is a bus master that reaches its
  host through four function pointers; the record \<open>lance_cb\<close> holds them, over any type \<open>'h\<close> of host
  state, and a null pointer is \<open>None\<close>. A callback itself may be undefined (\<open>None\<close>), and so may the
  operations: calling a null pointer and writing past the transmit buffer are undefined.
  The messages the C code prints are left out.
\<close>

section \<open>State\<close>

record 'h lance_cb =
  dma_in_cb :: "(u32 \<Rightarrow> 'h \<Rightarrow> (u16 \<times> 'h) option) option"
  dma_out_cb :: "(u32 \<Rightarrow> u16 \<Rightarrow> 'h \<Rightarrow> 'h option) option"
  intr_out_cb :: "(bool \<Rightarrow> 'h \<Rightarrow> 'h) option"
  send_cb :: "(u8 list \<Rightarrow> 'h \<Rightarrow> 'h) option"

datatype lance_variant = LANCE_AM7990 | LANCE_AM79C90

record lance =
  variant :: lance_variant
  rap :: nat
  csr :: "nat \<Rightarrow> u16"
  l_mode :: u16
  logical_addr_filter :: u64
  physical_addr :: "u8 list"
  rx_ring_base :: u32
  rx_ring_mask :: u8
  rx_ring_pos :: u8
  rx_md :: "nat \<Rightarrow> u16"
  tx_ring_base :: u32
  tx_ring_mask :: u8
  tx_ring_pos :: u8
  tx_md :: "nat \<Rightarrow> u16"
  intr_out_state :: bool
  idon :: int
  lb_buf :: "u8 list"
  lb_hairpin :: bool
  tx_poll_counter :: int
  init_delay :: int

text \<open>
  \<open>lb_buf\<close> holds the first \<open>lb_length\<close> bytes of the loopback buffer; \<open>intr_out_state\<close> is \<open>True\<close> for
  the level 1 (deasserted); \<open>init_delay\<close> is the static counter of \<open>lance_tick\<close>.
\<close>

abbreviation "CSR0_INIT \<equiv> 0x0001 :: u16"
abbreviation "CSR0_STRT \<equiv> 0x0002 :: u16"
abbreviation "CSR0_STOP \<equiv> 0x0004 :: u16"
abbreviation "CSR0_TDMD \<equiv> 0x0008 :: u16"
abbreviation "CSR0_TXON \<equiv> 0x0010 :: u16"
abbreviation "CSR0_RXON \<equiv> 0x0020 :: u16"
abbreviation "CSR0_INEA \<equiv> 0x0040 :: u16"
abbreviation "CSR0_INTR \<equiv> 0x0080 :: u16"
abbreviation "CSR0_IDON \<equiv> 0x0100 :: u16"
abbreviation "CSR0_TINT \<equiv> 0x0200 :: u16"
abbreviation "CSR0_RINT \<equiv> 0x0400 :: u16"
abbreviation "CSR0_MERR \<equiv> 0x0800 :: u16"
abbreviation "CSR0_MISS \<equiv> 0x1000 :: u16"
abbreviation "CSR0_CERR \<equiv> 0x2000 :: u16"
abbreviation "CSR0_BABL \<equiv> 0x4000 :: u16"
abbreviation "CSR0_ERR \<equiv> 0x8000 :: u16"

abbreviation "MODE_DRX \<equiv> 0x0001 :: u16"
abbreviation "MODE_DTX \<equiv> 0x0002 :: u16"
abbreviation "MODE_LOOP \<equiv> 0x0004 :: u16"
abbreviation "MODE_DTCR \<equiv> 0x0008 :: u16"
abbreviation "MODE_COLL \<equiv> 0x0010 :: u16"
abbreviation "MODE_INTL \<equiv> 0x0040 :: u16"
abbreviation "MODE_PROM \<equiv> 0x8000 :: u16"

definition LANCE_TX_POLL_CYCLES :: int where "LANCE_TX_POLL_CYCLES = 19200"
definition LANCE_INIT_DELAY_CYCLES :: int where "LANCE_INIT_DELAY_CYCLES = 500"

definition has :: "u16 \<Rightarrow> u16 \<Rightarrow> bool" where
  "has w m \<longleftrightarrow> w AND m \<noteq> 0"

definition csr0 :: "lance \<Rightarrow> u16" where
  "csr0 l = csr l 0"

definition csr0_set :: "u16 \<Rightarrow> lance \<Rightarrow> lance" where
  "csr0_set m l = l\<lparr>csr := (csr l)(0 := csr l 0 OR m)\<rparr>"

definition csr0_clr :: "u16 \<Rightarrow> lance \<Rightarrow> lance" where
  "csr0_clr m l = l\<lparr>csr := (csr l)(0 := csr l 0 AND NOT m)\<rparr>"

section \<open>Interrupt line and reset\<close>

definition lance_update_interrupts :: "'h lance_cb \<Rightarrow> lance \<Rightarrow> 'h \<Rightarrow> lance \<times> 'h" where
  "lance_update_interrupts cb l h =
     (let new_state = (if has (csr l 0) CSR0_INEA then \<not> has (csr l 0) CSR0_INTR else True) in
      if new_state \<noteq> intr_out_state l then
        (l\<lparr>intr_out_state := new_state\<rparr>,
         case intr_out_cb cb of None \<Rightarrow> h | Some f \<Rightarrow> f new_state h)
      else (l, h))"

definition lance_reset :: "'h lance_cb \<Rightarrow> lance \<Rightarrow> 'h \<Rightarrow> lance \<times> 'h" where
  "lance_reset cb l h =
     lance_update_interrupts cb
       (l\<lparr>rap := 0, csr := (csr l)(0 := CSR0_STOP, 1 := 0, 2 := 0, 3 := 0), l_mode := 0,
          lb_buf := [], idon := 0, tx_poll_counter := LANCE_TX_POLL_CYCLES\<rparr>) h"

definition lance_zero :: lance where
  "lance_zero = \<lparr>variant = LANCE_AM7990, rap = 0, csr = (\<lambda>_. 0), l_mode = 0, logical_addr_filter = 0,
     physical_addr = replicate 6 0, rx_ring_base = 0, rx_ring_mask = 0, rx_ring_pos = 0, rx_md = (\<lambda>_. 0),
     tx_ring_base = 0, tx_ring_mask = 0, tx_ring_pos = 0, tx_md = (\<lambda>_. 0), intr_out_state = False,
     idon = 0, lb_buf = [], lb_hairpin = False, tx_poll_counter = 0, init_delay = LANCE_INIT_DELAY_CYCLES\<rparr>"

text \<open>\<open>lance_init\<close> clears the struct, so its reset runs with null callbacks.\<close>

definition no_cb :: "'h lance_cb" where
  "no_cb = \<lparr>dma_in_cb = None, dma_out_cb = None, intr_out_cb = None, send_cb = None\<rparr>"

definition lance_init :: "lance_variant \<Rightarrow> lance" where
  "lance_init v = fst (lance_reset (no_cb :: unit lance_cb) (lance_zero\<lparr>variant := v, intr_out_state := True\<rparr>) ())"

definition lance_reset_w :: "'h lance_cb \<Rightarrow> lance \<Rightarrow> 'h \<Rightarrow> bool \<Rightarrow> lance \<times> 'h" where
  "lance_reset_w cb l h state = (if \<not> state then lance_reset cb l h else (l, h))"

section \<open>DMA\<close>

definition dma_rd :: "'h lance_cb \<Rightarrow> u32 \<Rightarrow> 'h \<Rightarrow> (u16 \<times> 'h) option" where
  "dma_rd cb a h = (case dma_in_cb cb of None \<Rightarrow> None | Some f \<Rightarrow> f a h)"

definition dma_wr :: "'h lance_cb \<Rightarrow> u32 \<Rightarrow> u16 \<Rightarrow> 'h \<Rightarrow> 'h option" where
  "dma_wr cb a v h = (case dma_out_cb cb of None \<Rightarrow> None | Some f \<Rightarrow> f a v h)"

definition lo8 :: "u16 \<Rightarrow> u8" where "lo8 w = ucast w"
definition hi8 :: "u16 \<Rightarrow> u8" where "hi8 w = ucast (drop_bit 8 w)"
definition word16 :: "u8 \<Rightarrow> u8 \<Rightarrow> u16" where "word16 hi lo = push_bit 8 (ucast hi) OR ucast lo"

fun dma_in_loop :: "'h lance_cb \<Rightarrow> bool \<Rightarrow> u32 \<Rightarrow> nat \<Rightarrow> 'h \<Rightarrow> (u8 list \<times> 'h) option" where
  "dma_in_loop cb bswap addr 0 h = Some ([], h)"
| "dma_in_loop cb bswap addr (Suc 0) h =
     do { (w, h1) \<leftarrow> dma_rd cb addr h; Some ([if bswap then hi8 w else lo8 w], h1) }"
| "dma_in_loop cb bswap addr (Suc (Suc n)) h =
     do { (w, h1) \<leftarrow> dma_rd cb addr h;
          (bs, h2) \<leftarrow> dma_in_loop cb bswap (addr + 2) n h1;
          Some ((if bswap then [hi8 w, lo8 w] else [lo8 w, hi8 w]) @ bs, h2) }"

definition lance_dma_in_block :: "'h lance_cb \<Rightarrow> lance \<Rightarrow> u32 \<Rightarrow> nat \<Rightarrow> 'h \<Rightarrow> (u8 list \<times> 'h) option" where
  "lance_dma_in_block cb l addr len h =
     (let bswap = has (csr l 3) 0x04 in
      if addr AND 1 \<noteq> 0 then
        if len = 0 then None
        else do { (w, h1) \<leftarrow> dma_rd cb (addr AND NOT 1) h;
             (bs, h2) \<leftarrow> dma_in_loop cb bswap (addr + 1) (len - 1) h1;
             Some ((if bswap then lo8 w else hi8 w) # bs, h2) }
      else dma_in_loop cb bswap addr len h)"

fun dma_out_loop :: "'h lance_cb \<Rightarrow> bool \<Rightarrow> u32 \<Rightarrow> u8 list \<Rightarrow> 'h \<Rightarrow> 'h option" where
  "dma_out_loop cb bswap addr [] h = Some h"
| "dma_out_loop cb bswap addr [b] h = dma_wr cb addr (if bswap then word16 b 0 else word16 0 b) h"
| "dma_out_loop cb bswap addr (b # c # bs) h =
     do { h1 \<leftarrow> dma_wr cb addr (if bswap then word16 b c else word16 c b) h;
          dma_out_loop cb bswap (addr + 2) bs h1 }"

definition lance_dma_out_block :: "'h lance_cb \<Rightarrow> lance \<Rightarrow> u32 \<Rightarrow> u8 list \<Rightarrow> 'h \<Rightarrow> 'h option" where
  "lance_dma_out_block cb l addr buf h =
     (let bswap = has (csr l 3) 0x04 in
      if addr AND 1 \<noteq> 0 then
        (case buf of [] \<Rightarrow> None
         | b # bs \<Rightarrow> do { h1 \<leftarrow> dma_wr cb (addr AND NOT 1) (if bswap then word16 0 b else word16 b 0) h;
                          dma_out_loop cb bswap (addr + 1) bs h1 })
      else dma_out_loop cb bswap addr buf h)"

definition lance_get_buf_length :: "lance \<Rightarrow> u16 \<Rightarrow> int" where
  "lance_get_buf_length l data =
     (if variant l = LANCE_AM79C90 \<and> data = 0 then 0
      else if data = 0xF000 then 4096
      else - sint (0xF000 OR data))"

section \<open>CRC-32\<close>

text \<open>The table entry for a byte, and the table-driven checksum.\<close>

definition crc_bit :: "u32 \<Rightarrow> u32" where
  "crc_bit c = (if bit c 0 then 0xEDB88320 XOR drop_bit 1 c else drop_bit 1 c)"

definition crc_table :: "u32 \<Rightarrow> u32" where
  "crc_table i = (crc_bit ^^ 8) i"

definition lance_crc32 :: "u8 list \<Rightarrow> u32" where
  "lance_crc32 buf =
     NOT (foldl (\<lambda>crc b. crc_table ((crc XOR ucast b) AND 0xFF) XOR drop_bit 8 crc) 0xFFFFFFFF buf)"

section \<open>Address filter\<close>

definition ETH_BROADCAST :: "u8 list" where
  "ETH_BROADCAST = replicate 6 0xFF"

definition lance_address_filter :: "lance \<Rightarrow> u8 list \<Rightarrow> bool" where
  "lance_address_filter l buf \<longleftrightarrow>
     has (l_mode l) MODE_PROM
     \<or> (if bit (buf ! 0) 0 then
          take 6 buf = ETH_BROADCAST
          \<or> bit (logical_addr_filter l) (63 - unat (drop_bit 26 (lance_crc32 (take 6 buf))))
        else take 6 buf = physical_addr l)"

section \<open>Initialisation block\<close>

definition init_addr :: "lance \<Rightarrow> u32" where
  "init_addr l = (push_bit 16 (ucast (csr l 2)) OR ucast (csr l 1)) AND 0xFFFFFE"

fun read_words :: "'h lance_cb \<Rightarrow> u32 \<Rightarrow> nat \<Rightarrow> 'h \<Rightarrow> (u16 list \<times> 'h) option" where
  "read_words cb a 0 h = Some ([], h)"
| "read_words cb a (Suc n) h =
     do { (w, h1) \<leftarrow> dma_rd cb a h;
          (ws, h2) \<leftarrow> read_words cb (a + 2) n h1;
          Some (w # ws, h2) }"

definition ring_base :: "u16 \<Rightarrow> u16 \<Rightarrow> u32" where
  "ring_base hi lo = (push_bit 16 (ucast hi) OR ucast lo) AND 0xFFFFF8"

definition ring_mask :: "u16 \<Rightarrow> u8" where
  "ring_mask hi = ucast (NOT (push_bit (unat (drop_bit 13 hi AND 7)) (1 :: u32)))"

definition load_init_block :: "u16 list \<Rightarrow> lance \<Rightarrow> lance" where
  "load_init_block ib l =
     l\<lparr>l_mode := ib ! 0,
       physical_addr := [lo8 (ib ! 1), hi8 (ib ! 1), lo8 (ib ! 2), hi8 (ib ! 2), lo8 (ib ! 3), hi8 (ib ! 3)],
       logical_addr_filter := push_bit 48 (ucast (ib ! 7)) OR push_bit 32 (ucast (ib ! 6))
         OR push_bit 16 (ucast (ib ! 5)) OR ucast (ib ! 4),
       rx_ring_base := ring_base (ib ! 9) (ib ! 8), tx_ring_base := ring_base (ib ! 11) (ib ! 10),
       rx_ring_mask := ring_mask (ib ! 9), tx_ring_mask := ring_mask (ib ! 11),
       rx_ring_pos := 0, tx_ring_pos := 0\<rparr>"

definition lance_initialize :: "'h lance_cb \<Rightarrow> lance \<Rightarrow> 'h \<Rightarrow> (lance \<times> 'h) option" where
  "lance_initialize cb l h =
     (if dma_in_cb cb = None then Some (l, h)
      else do { (ib, h1) \<leftarrow> read_words cb (init_addr l) 12 h;
                let l1 = csr0_clr (CSR0_INIT OR CSR0_STOP OR CSR0_STRT OR CSR0_TXON OR CSR0_RXON) (load_init_block ib l);
                let l2 = csr0_set (CSR0_IDON OR CSR0_INTR) l1;
                Some (lance_update_interrupts cb (l2\<lparr>idon := 0\<rparr>) h1) })"

section \<open>Receive path\<close>

definition rx_desc :: "lance \<Rightarrow> u8 \<Rightarrow> u32" where
  "rx_desc l pos = (rx_ring_base l + push_bit 3 (ucast pos)) AND 0xFFFFF8"

definition tx_desc :: "lance \<Rightarrow> u8 \<Rightarrow> u32" where
  "tx_desc l pos = (tx_ring_base l + push_bit 3 (ucast pos)) AND 0xFFFFF8"

definition rx_next :: "lance \<Rightarrow> u8" where
  "rx_next l = (rx_ring_pos l + 1) AND rx_ring_mask l"

definition tx_next :: "lance \<Rightarrow> u8" where
  "tx_next l = (tx_ring_pos l + 1) AND tx_ring_mask l"

definition md_addr :: "u16 \<Rightarrow> u16 \<Rightarrow> u32" where
  "md_addr md1 md0 = push_bit 16 (ucast (md1 AND 0xFF)) OR ucast md0"

definition rx_room :: "lance \<Rightarrow> u16 \<Rightarrow> nat" where
  "rx_room l d2 = (let n = lance_get_buf_length l d2 in if n \<le> 0 then 64 else nat n)"

lemma rx_room_pos: "0 < rx_room l d2"
  by (auto simp: rx_room_def Let_def)

abbreviation set_rx_md :: "nat \<Rightarrow> u16 \<Rightarrow> lance \<Rightarrow> lance" where
  "set_rx_md i v l \<equiv> l\<lparr>rx_md := (rx_md l)(i := v)\<rparr>"

abbreviation set_tx_md :: "nat \<Rightarrow> u16 \<Rightarrow> lance \<Rightarrow> lance" where
  "set_tx_md i v l \<equiv> l\<lparr>tx_md := (tx_md l)(i := v)\<rparr>"

text \<open>
  The loop over the receive descriptors: \<open>offset\<close> bytes of \<open>buf\<close> are placed, \<open>ra\<close> is the address of
  the current descriptor. \<open>rx_fill\<close> is the first half of a round, which fills the current buffer and
  takes the descriptor back; \<open>rx_ahead\<close> reads the status of the next one. Every round places at least
  one byte, so the loop ends.
\<close>

definition rx_fill :: "'h lance_cb \<Rightarrow> lance \<Rightarrow> u8 list \<Rightarrow> nat \<Rightarrow> u32 \<Rightarrow> 'h \<Rightarrow> (nat \<times> lance \<times> 'h) option" where
  "rx_fill cb l buf offset ra h =
     do { (d0, h1) \<leftarrow> dma_rd cb ra h;
          (d2, h2) \<leftarrow> dma_rd cb (ra OR 4) h1;
          let count = min (length buf - offset) (rx_room l d2);
          h3 \<leftarrow> lance_dma_out_block cb l (md_addr (rx_md l 1) d0) (take count (drop offset buf)) h2;
          Some (offset + count, l\<lparr>rx_md := (rx_md l)(0 := d0, 2 := d2, 1 := rx_md l 1 AND NOT 0x8000)\<rparr>, h3) }"

definition rx_ahead :: "'h lance_cb \<Rightarrow> lance \<Rightarrow> u32 \<Rightarrow> 'h \<Rightarrow> (u32 \<times> u16 \<times> 'h) option" where
  "rx_ahead cb l ra h =
     (let na = rx_desc l (rx_next l) in
      if na \<noteq> ra then do { (md1, h1) \<leftarrow> dma_rd cb (na OR 2) h; Some (na, md1, h1) }
      else Some (na, rx_md l 1, h))"

lemma rx_fill_progress:
  "rx_fill cb l buf offset ra h = Some (o1, l1, h1) \<Longrightarrow> offset < length buf \<Longrightarrow> offset < o1"
  using rx_room_pos by (auto simp: rx_fill_def option_bind_Some_iff Let_def)

function rx_loop :: "'h lance_cb \<Rightarrow> lance \<Rightarrow> u8 list \<Rightarrow> nat \<Rightarrow> u32 \<Rightarrow> 'h \<Rightarrow> (nat \<times> lance \<times> 'h) option" where
  "rx_loop cb l buf offset ra h =
     (if offset < length buf then
        do { (o1, l1, h1) \<leftarrow> rx_fill cb l buf offset ra h;
             if o1 < length buf then
               do { (na, nmd1, h2) \<leftarrow> rx_ahead cb l1 ra h1;
                    if has nmd1 0x8000 then
                      do { h3 \<leftarrow> dma_wr cb (ra OR 2) (rx_md l1 1) h2;
                           rx_loop cb (set_rx_md 1 nmd1 (l1\<lparr>rx_ring_pos := rx_next l1\<rparr>)) buf o1 na h3 }
                    else Some (o1, set_rx_md 1 (rx_md l1 1 OR 0x4400) l1, h2) }
             else Some (o1, l1, h1) }
      else Some (offset, l, h))"
  by pat_completeness auto
termination
  by (relation "measure (\<lambda>(cb, l, buf, offset, ra, h). length buf - offset)")
     (auto dest: rx_fill_progress intro!: diff_less_mono2)

declare rx_loop.simps [simp del]

text \<open>The status word of the last descriptor after the loop: the checksum is verified and the end of the
  packet marked only when the whole frame was placed.\<close>

definition rx_status :: "lance \<Rightarrow> u8 list \<Rightarrow> nat \<Rightarrow> u16" where
  "rx_status l buf offset =
     (let bad_fcs = (\<not> has (l_mode l) MODE_LOOP \<or> has (l_mode l) MODE_DTCR)
                    \<and> lance_crc32 buf \<noteq> 0x2144DF1C in
      if offset = length buf
      then (if bad_fcs then rx_md l 1 OR 0x4800 else rx_md l 1) OR 0x0100
      else rx_md l 1)"

definition lance_receive :: "'h lance_cb \<Rightarrow> lance \<Rightarrow> u8 list \<Rightarrow> 'h \<Rightarrow> (int \<times> lance \<times> 'h) option" where
  "lance_receive cb l buf h =
     (let internal_lb = has (l_mode l) MODE_LOOP \<and> has (l_mode l) MODE_INTL;
          self_addressed = 6 \<le> length buf \<and> take 6 buf = physical_addr l in
      if \<not> internal_lb \<and> \<not> self_addressed \<and> \<not> has (csr l 0) CSR0_RXON then Some (-1, l, h)
      else if length buf < 6 \<and> \<not> has (l_mode l) MODE_PROM then None
      else if \<not> lance_address_filter l buf then Some (-1, l, h)
      else if dma_in_cb cb = None \<or> dma_out_cb cb = None then Some (-1, l, h)
      else
        do { let ra = rx_desc l (rx_ring_pos l);
             (d1, h1) \<leftarrow> dma_rd cb (ra OR 2) h;
             let l1 = set_rx_md 1 d1 l;
             if \<not> has d1 0x8000 then Some (-2, l1, h1)
             else
               do { (offset, l2, h2) \<leftarrow> rx_loop cb (set_rx_md 1 (d1 OR 0x0200) l1) buf 0 ra h1;
                    Some (int offset, set_rx_md 1 (rx_status l2 buf offset) l2, h2) } })"

definition lance_recv_complete :: "'h lance_cb \<Rightarrow> lance \<Rightarrow> int \<Rightarrow> 'h \<Rightarrow> (lance \<times> 'h) option" where
  "lance_recv_complete cb l result h =
     (if result = -1 then Some (l, h)
      else
        do { (l1, h1) \<leftarrow>
               (if result = -2 then Some (csr0_set (CSR0_ERR OR CSR0_MISS) l, h)
                else
                  do { let ra = rx_desc l (rx_ring_pos l);
                       h2 \<leftarrow> dma_wr cb (ra OR 2) (rx_md l 1) h;
                       h3 \<leftarrow> dma_wr cb (ra OR 6) (word_of_int result AND 0x0FFF) h2;
                       Some (l\<lparr>rx_ring_pos := rx_next l\<rparr>, h3) });
             Some (lance_update_interrupts cb (csr0_set (CSR0_RINT OR CSR0_INTR) l1) h1) })"

definition lance_recv :: "'h lance_cb \<Rightarrow> lance \<Rightarrow> u8 list \<Rightarrow> 'h \<Rightarrow> (int \<times> lance \<times> 'h) option" where
  "lance_recv cb l buf h =
     (if length buf < 60 then Some (-1, l, h)
      else if has (l_mode l) MODE_LOOP \<and> has (l_mode l) MODE_INTL then Some (-1, l, h)
      else do { (result, l1, h1) \<leftarrow> lance_receive cb l buf h;
                (l2, h2) \<leftarrow> lance_recv_complete cb l1 result h1;
                Some (if result < 0 then result else 0, l2, h2) })"

section \<open>Transmit path\<close>

definition lance_send_complete :: "'h lance_cb \<Rightarrow> lance \<Rightarrow> int \<Rightarrow> 'h \<Rightarrow> (lance \<times> 'h) option" where
  "lance_send_complete cb l result h =
     do { let ra = tx_desc l (tx_ring_pos l);
          (l1, h1) \<leftarrow>
            (if result = -2 then Some (set_tx_md 1 (tx_md l 1 OR 0x4000) l, h)
             else if result = -1 \<or> result = 0 then
               do { let md3 = tx_md l 3 OR (if result = -1 then 0x0400 else 0x0800);
                    h2 \<leftarrow> dma_wr cb (ra OR 6) md3 h;
                    Some (set_tx_md 3 md3 (set_tx_md 1 (tx_md l 1 OR 0x4000) l), h2) }
             else Some (l, h));
          h3 \<leftarrow> dma_wr cb (ra OR 2) (tx_md l1 1) h1;
          let l2 = csr0_set (CSR0_TINT OR CSR0_INTR) (l1\<lparr>tx_ring_pos := tx_next l1\<rparr>);
          Some (apfst (tx_poll_counter_update (\<lambda>_. 1)) (lance_update_interrupts cb l2 h3)) }"

text \<open>
  The loop that gathers a frame from chained descriptors into the 4096-byte buffer, \<open>buf\<close> being the
  bytes gathered so far. The \<open>bool\<close> of the result tells a frame (\<open>True\<close>) from the early return on a
  zero-length buffer. Whether the loop ends depends on the host memory (each round gives a descriptor
  back), so it is a partial function.
\<close>

definition tx_fill :: "'h lance_cb \<Rightarrow> lance \<Rightarrow> u8 list \<Rightarrow> u32 \<Rightarrow> 'h \<Rightarrow> (bool \<times> lance \<times> u8 list \<times> 'h) option" where
  "tx_fill cb l buf ra h =
     do { (d0, h1) \<leftarrow> dma_rd cb ra h;
          (d2, h2) \<leftarrow> dma_rd cb (ra OR 4) h1;
          let blen = lance_get_buf_length l d2;
          let l1 = l\<lparr>tx_md := (tx_md l)(0 := d0, 2 := d2, 3 := 0, 1 := tx_md l 1 AND NOT 0x8000)\<rparr>;
          if blen \<le> 0 then
            do { h3 \<leftarrow> dma_wr cb (ra OR 2) (tx_md l1 1) h2;
                 Some (False, l1\<lparr>tx_ring_pos := tx_next l1\<rparr>, buf, h3) }
          else
            do { let n = min (nat blen) (4096 - length buf);
                 (bs, h3) \<leftarrow> (if 0 < n then lance_dma_in_block cb l1 (md_addr (tx_md l1 1) d0) n h2
                             else Some ([], h2));
                 Some (True, l1, buf @ bs, h3) } }"

definition tx_ahead :: "'h lance_cb \<Rightarrow> lance \<Rightarrow> u32 \<Rightarrow> 'h \<Rightarrow> (u32 \<times> u16 \<times> 'h) option" where
  "tx_ahead cb l ra h =
     (let na = tx_desc l (tx_next l) in
      if na \<noteq> ra then do { (md1, h1) \<leftarrow> dma_rd cb (na OR 2) h; Some (na, md1, h1) }
      else Some (na, tx_md l 1, h))"

partial_function (option) tx_loop ::
    "'h lance_cb \<Rightarrow> lance \<Rightarrow> u8 list \<Rightarrow> u32 \<Rightarrow> 'h \<Rightarrow> (bool \<times> lance \<times> u8 list \<times> 'h) option" where
  "tx_loop cb l buf ra h =
     do { (frame, l1, buf1, h1) \<leftarrow> tx_fill cb l buf ra h;
          if \<not> frame \<or> has (tx_md l1 1) 0x0100 then Some (frame, l1, buf1, h1)
          else
            do { (na, nmd1, h2) \<leftarrow> tx_ahead cb l1 ra h1;
                 if has nmd1 0x8000 then
                   do { h3 \<leftarrow> dma_wr cb (ra OR 2) (tx_md l1 1) h2;
                        tx_loop cb (set_tx_md 1 nmd1 (l1\<lparr>tx_ring_pos := tx_next l1\<rparr>)) buf1 na h3 }
                 else
                   do { let l2 = set_tx_md 3 (tx_md l1 3 OR 0xC000) (set_tx_md 1 (tx_md l1 1 OR 0x4000) l1);
                        h3 \<leftarrow> dma_wr cb (ra OR 6) (tx_md l2 3) h2;
                        Some (True, csr0_clr CSR0_TXON l2, buf1, h3) } } }"

definition fcs_bytes :: "u8 list \<Rightarrow> u8 list" where
  "fcs_bytes buf =
     (let crc = lance_crc32 buf in
      [ucast crc, ucast (drop_bit 8 crc), ucast (drop_bit 16 crc), ucast (drop_bit 24 crc)])"

text \<open>What \<open>lance_transmit\<close> does with a gathered frame: loopback, external send and hairpin.\<close>

definition tx_external :: "'h lance_cb \<Rightarrow> lance \<Rightarrow> u8 list \<Rightarrow> 'h \<Rightarrow> (lance \<times> 'h) option" where
  "tx_external cb l buf h =
     do { let h1 = (case send_cb cb of None \<Rightarrow> h | Some f \<Rightarrow> f buf h);
          (l1, h2) \<leftarrow> lance_send_complete cb l (int (length buf)) h1;
          if 12 \<le> length buf \<and> take 6 buf = physical_addr l1 \<and> length buf \<le> 100
          then Some (l1\<lparr>lb_buf := buf, lb_hairpin := True\<rparr>, h2)
          else Some (l1, h2) }"

definition tx_deliver :: "'h lance_cb \<Rightarrow> lance \<Rightarrow> bool \<Rightarrow> u8 list \<Rightarrow> 'h \<Rightarrow> (lance \<times> 'h) option" where
  "tx_deliver cb l append_fcs buf h =
     (if has (l_mode l) MODE_LOOP then
        if has (l_mode l) MODE_COLL \<and> has (l_mode l) MODE_INTL then lance_send_complete cb l (-1) h
        else
          (let payload = int (length buf) - (if append_fcs then 4 else 0) in
           if payload < 8 \<or> 32 < payload then lance_send_complete cb l (-2) h
           else
             (let buf1 = take 100 buf; l1 = l\<lparr>lb_buf := buf1\<rparr> in
              if has (l_mode l) MODE_INTL then lance_send_complete cb l1 (int (length buf1)) h
              else tx_external cb l1 buf1 h))
      else tx_external cb l buf h)"

definition lance_transmit :: "'h lance_cb \<Rightarrow> lance \<Rightarrow> 'h \<Rightarrow> (lance \<times> 'h) option" where
  "lance_transmit cb l h =
     do { let append_fcs = (\<not> has (l_mode l) MODE_DTCR
                            \<or> variant l = LANCE_AM79C90 \<and> has (tx_md l 1) 0x2000);
          let l1 = (if variant l = LANCE_AM79C90 then l else set_tx_md 1 (tx_md l 1 AND NOT 0x2000) l);
          (frame, l2, buf, h1) \<leftarrow> tx_loop cb l1 [] (tx_desc l1 (tx_ring_pos l1)) h;
          if \<not> frame then Some (l2, h1)
          else
            do { let l3 = (if 1518 < length buf then csr0_set (CSR0_ERR OR CSR0_BABL) l2 else l2);
                 if append_fcs then
                   if 4096 < length buf + 4 then None
                   else tx_deliver cb l3 append_fcs (buf @ fcs_bytes buf) h1
                 else tx_deliver cb l3 append_fcs buf h1 } }"

definition lance_check_loopback :: "'h lance_cb \<Rightarrow> lance \<Rightarrow> 'h \<Rightarrow> (lance \<times> 'h) option" where
  "lance_check_loopback cb l h =
     (if lb_buf l \<noteq> [] \<and> (has (l_mode l) MODE_LOOP \<or> lb_hairpin l) then
        do { (result, l1, h1) \<leftarrow> lance_receive cb l (lb_buf l) h;
             lance_recv_complete cb (l1\<lparr>lb_buf := [], lb_hairpin := False\<rparr>) result h1 }
      else Some (l, h))"

definition lance_transmit_poll :: "'h lance_cb \<Rightarrow> lance \<Rightarrow> 'h \<Rightarrow> (lance \<times> 'h) option" where
  "lance_transmit_poll cb l h =
     do { (l2, h2) \<leftarrow>
            (if has (csr l 0) CSR0_TXON then
               do { let l1 = csr0_clr CSR0_TDMD l;
                    if dma_in_cb cb = None then Some (l1, h)
                    else
                      do { let ra = tx_desc l1 (tx_ring_pos l1);
                           (d1, h1) \<leftarrow> dma_rd cb (ra OR 2) h;
                           let l2 = set_tx_md 1 d1 l1;
                           if has d1 0x8000 then
                             if \<not> has d1 0x0200 then
                               do { h2 \<leftarrow> dma_wr cb (ra OR 2) (d1 AND NOT 0x8000) h1;
                                    Some (l2\<lparr>tx_ring_pos := tx_next l2\<rparr>, h2) }
                             else lance_transmit cb l2 h1
                           else Some (l2, h1) } }
             else Some (l, h));
          lance_check_loopback cb l2 h2 }"

section \<open>Registers and timer\<close>

definition lance_regs_r :: "lance \<Rightarrow> nat \<Rightarrow> u16" where
  "lance_regs_r l offset =
     (if offset = 0 then
        if rap l \<noteq> 0 \<and> \<not> has (csr l 0) CSR0_STOP then 0xFFFF else csr l (rap l)
      else of_nat (rap l))"

definition w1c_mask :: u16 where
  "w1c_mask = CSR0_BABL OR CSR0_CERR OR CSR0_MISS OR CSR0_MERR OR CSR0_RINT OR CSR0_TINT OR CSR0_IDON"

definition csr0_put :: "bool \<Rightarrow> u16 \<Rightarrow> lance \<Rightarrow> lance" where
  "csr0_put on m l = (if on then csr0_set m l else csr0_clr m l)"

text \<open>The composite flags at the end of a write of CSR0.\<close>

definition csr0_composite :: "lance \<Rightarrow> lance" where
  "csr0_composite l =
     (let l1 = csr0_put (has (csr l 0) (CSR0_BABL OR CSR0_CERR OR CSR0_MISS OR CSR0_MERR)) CSR0_ERR l in
      csr0_put (has (csr l1 0) (CSR0_BABL OR CSR0_MISS OR CSR0_MERR OR CSR0_RINT OR CSR0_TINT OR CSR0_IDON))
        CSR0_INTR l1)"

text \<open>The steps of a write of CSR0, each with its own guard.\<close>

definition csr0_init_step :: "'h lance_cb \<Rightarrow> u16 \<Rightarrow> lance \<Rightarrow> 'h \<Rightarrow> (lance \<times> 'h) option" where
  "csr0_init_step cb data l h =
     (if has data CSR0_INIT \<and> \<not> has (csr l 0) CSR0_INIT then lance_initialize cb l h else Some (l, h))"

definition csr0_strt_step :: "'h lance_cb \<Rightarrow> u16 \<Rightarrow> lance \<Rightarrow> 'h \<Rightarrow> (lance \<times> 'h) option" where
  "csr0_strt_step cb data l h =
     (if has data CSR0_STRT \<and> \<not> has (csr l 0) CSR0_STRT then
        (let l1 = csr0_clr CSR0_STOP (csr0_set CSR0_STRT l);
             l2 = csr0_put (\<not> has (l_mode l) MODE_DRX) CSR0_RXON l1;
             l3 = csr0_put (\<not> has (l_mode l) MODE_DTX) CSR0_TXON l2 in
         lance_transmit_poll cb (l3\<lparr>tx_poll_counter := 1\<rparr>) h)
      else Some (l, h))"

definition csr0_tdmd_step :: "'h lance_cb \<Rightarrow> u16 \<Rightarrow> lance \<Rightarrow> 'h \<Rightarrow> (lance \<times> 'h) option" where
  "csr0_tdmd_step cb data l h =
     (if has data CSR0_TDMD \<and> \<not> has (csr l 0) CSR0_TDMD then
        (let l1 = (csr0_set CSR0_TDMD l)\<lparr>tx_poll_counter := 1\<rparr>;
             l2 = (if \<not> has (csr l1 0) CSR0_STRT then
                     (let a = csr0_set CSR0_STRT l1;
                          b = (if \<not> has (l_mode a) MODE_DRX then csr0_set CSR0_RXON a else a) in
                      if \<not> has (l_mode b) MODE_DTX then csr0_set CSR0_TXON b else b)
                   else l1) in
         lance_transmit_poll cb l2 h)
      else Some (l, h))"

definition csr0_inea_step :: "u16 \<Rightarrow> lance \<Rightarrow> lance" where
  "csr0_inea_step data l =
     (if \<not> has (csr l 0) CSR0_STOP \<or> variant l = LANCE_AM79C90
      then csr0_put (has data CSR0_INEA) CSR0_INEA l else l)"

definition csr0_write :: "'h lance_cb \<Rightarrow> lance \<Rightarrow> u16 \<Rightarrow> 'h \<Rightarrow> (lance \<times> 'h) option" where
  "csr0_write cb l data h =
     (if has data CSR0_STOP then
        Some (if \<not> has (csr l 0) CSR0_STOP then lance_reset cb l h else (l, h))
      else
        do { (l2, h2) \<leftarrow> csr0_init_step cb data (csr0_clr (data AND w1c_mask) l) h;
             (l3, h3) \<leftarrow> csr0_strt_step cb data l2 h2;
             (l4, h4) \<leftarrow> csr0_tdmd_step cb data l3 h3;
             Some (lance_update_interrupts cb (csr0_composite (csr0_inea_step data l4)) h4) })"

definition lance_regs_w :: "'h lance_cb \<Rightarrow> lance \<Rightarrow> nat \<Rightarrow> u16 \<Rightarrow> 'h \<Rightarrow> (lance \<times> 'h) option" where
  "lance_regs_w cb l offset data h =
     (if offset \<noteq> 0 then Some (l\<lparr>rap := unat (data AND 3)\<rparr>, h)
      else if rap l = 0 then csr0_write cb l data h
      else if rap l = 1 then
        Some (if has (csr l 0) CSR0_STOP then l\<lparr>csr := (csr l)(1 := data)\<rparr> else l, h)
      else if rap l = 2 then
        Some (if has (csr l 0) CSR0_STOP then l\<lparr>csr := (csr l)(2 := data)\<rparr> else l, h)
      else if rap l = 3 then
        Some (if has (csr l 0) CSR0_STOP then l\<lparr>csr := (csr l)(3 := data AND 7)\<rparr> else l, h)
      else Some (l, h))"

definition lance_tick :: "'h lance_cb \<Rightarrow> lance \<Rightarrow> int \<Rightarrow> 'h \<Rightarrow> (lance \<times> 'h) option" where
  "lance_tick cb l cycles h =
     (if cycles \<le> 0 then Some (l, h)
      else
        do { let (l2, h2) =
               (if idon l \<noteq> 0 then
                  (let l1 = l\<lparr>init_delay := init_delay l - cycles\<rparr> in
                   if init_delay l1 \<le> 0 then
                     apfst (init_delay_update (\<lambda>_. LANCE_INIT_DELAY_CYCLES))
                       (lance_update_interrupts cb
                          ((csr0_set (CSR0_IDON OR CSR0_INTR) (csr0_clr CSR0_INIT l1))\<lparr>idon := 0\<rparr>) h)
                   else (l1, h))
                else (l, h));
             if 0 < tx_poll_counter l2 then
               (let l3 = l2\<lparr>tx_poll_counter := tx_poll_counter l2 - cycles\<rparr> in
                if tx_poll_counter l3 \<le> 0
                then lance_transmit_poll cb (l3\<lparr>tx_poll_counter := LANCE_TX_POLL_CYCLES\<rparr>) h2
                else Some (l3, h2))
             else Some (l2, h2) })"

section \<open>The checksum\<close>

definition crc_step :: "u32 \<Rightarrow> u8 \<Rightarrow> u32" where
  "crc_step crc b = crc_table ((crc XOR ucast b) AND 0xFF) XOR drop_bit 8 crc"

lemma lance_crc32_steps: "lance_crc32 buf = NOT (foldl crc_step 0xFFFFFFFF buf)"
  unfolding lance_crc32_def crc_step_def ..

text \<open>
  Feeding the byte that the complemented register \<open>d\<close> starts with removes that byte from the register,
  whatever constant \<open>a\<close> was added to it before.
\<close>

lemma crc_step_cancel:
  "crc_step (a XOR d) (ucast (NOT d)) = (crc_table (NOT a AND 0xFF) XOR drop_bit 8 a) XOR drop_bit 8 d"
proof -
  have m: "(0xFF :: u32) = mask 8" by (simp add: mask_eq_exp_minus_1)
  have "(a XOR d XOR ucast (ucast (NOT d) :: u8)) AND 0xFF = NOT a AND 0xFF"
    unfolding m by (rule bit_word_eqI) (auto simp: bit_simps)
  moreover have "drop_bit 8 (a XOR d) = drop_bit 8 a XOR drop_bit 8 d"
    by (simp add: drop_bit_xor)
  ultimately show ?thesis by (simp add: crc_step_def xor.assoc)
qed

lemma crc_table_values:
  "crc_table 0xFF = 0x2D02EF8D" "crc_table 0x72 = 0xBE0B1010"
  "crc_table 0 = 0" "crc_table 0xED = 0xDEBB9EC5"
  by code_simp+

text \<open>The bytes of the complement of \<open>c\<close>, from the lowest, turn every register \<open>c\<close> into one constant.\<close>

lemma crc_absorb:
  "foldl crc_step c [ucast (NOT c), ucast (drop_bit 8 (NOT c)), ucast (drop_bit 16 (NOT c)), ucast (drop_bit 24 (NOT c))]
     = NOT 0x2144DF1C"
proof -
  have low: "(ucast (drop_bit k (NOT c)) :: u8) = ucast (NOT (drop_bit k c))" if "k \<le> 24" for k
    using that by (intro bit_word_eqI) (auto simp: bit_simps)
  define a1 a2 a3 a4 :: u32 where a: "a1 = 0x2D02EF8D" "a2 = 0xBE2612FF" "a3 = 0xBE2612" "a4 = 0xDEBB20E3"
  have t: "crc_table (NOT 0 AND 0xFF) XOR drop_bit 8 0 = a1" "crc_table (NOT a1 AND 0xFF) XOR drop_bit 8 a1 = a2"
    "crc_table (NOT a2 AND 0xFF) XOR drop_bit 8 a2 = a3" "crc_table (NOT a3 AND 0xFF) XOR drop_bit 8 a3 = a4"
    by (simp_all add: a crc_table_values)
  have "crc_step c (ucast (NOT c)) = a1 XOR drop_bit 8 c"
    using crc_step_cancel [of 0 c] t(1) by simp
  moreover have "crc_step (a1 XOR drop_bit 8 c) (ucast (NOT (drop_bit 8 c))) = a2 XOR drop_bit 16 c"
    using crc_step_cancel [of a1 "drop_bit 8 c"] t(2) by simp
  moreover have "crc_step (a2 XOR drop_bit 16 c) (ucast (NOT (drop_bit 16 c))) = a3 XOR drop_bit 24 c"
    using crc_step_cancel [of a2 "drop_bit 16 c"] t(3) by simp
  moreover have "crc_step (a3 XOR drop_bit 24 c) (ucast (NOT (drop_bit 24 c))) = a4 XOR drop_bit 32 c"
    using crc_step_cancel [of a3 "drop_bit 24 c"] t(4) by simp
  moreover have "drop_bit 32 c = 0"
    by (rule bit_word_eqI) (auto simp: bit_simps dest: bit_imp_le_length)
  moreover have "a4 = NOT 0x2144DF1C"
    by (simp add: a)
  ultimately show ?thesis by (simp add: low)
qed

lemma crc_with_fcs: "lance_crc32 (buf @ fcs_bytes buf) = 0x2144DF1C"
proof -
  have "foldl crc_step (foldl crc_step 0xFFFFFFFF buf) (fcs_bytes buf) = NOT 0x2144DF1C"
    unfolding fcs_bytes_def Let_def lance_crc32_steps by (rule crc_absorb)
  then show ?thesis by (simp add: lance_crc32_steps)
qed

section \<open>Flags\<close>

lemma has_pow: "has w (2 ^ k) \<longleftrightarrow> bit w k"
  by (simp add: has_def and_exp_eq_0_iff_not_bit)

lemma has_csr0:
  "has w CSR0_INIT \<longleftrightarrow> bit w 0" "has w CSR0_STRT \<longleftrightarrow> bit w 1" "has w CSR0_STOP \<longleftrightarrow> bit w 2"
  "has w CSR0_TDMD \<longleftrightarrow> bit w 3" "has w CSR0_TXON \<longleftrightarrow> bit w 4" "has w CSR0_RXON \<longleftrightarrow> bit w 5"
  "has w CSR0_INEA \<longleftrightarrow> bit w 6" "has w CSR0_INTR \<longleftrightarrow> bit w 7"
  using has_pow [of w 0] has_pow [of w 1] has_pow [of w 2] has_pow [of w 3] has_pow [of w 4] has_pow [of w 5]
    has_pow [of w 6] has_pow [of w 7] by simp_all

section \<open>The invariant of the chip\<close>

lemma ring_next:
  assumes "n < 8" "unat p < 2 ^ n"
  shows "unat ((p + 1) AND NOT (2 ^ n) :: u8) = (unat p + 1) mod 2 ^ n"
proof -
  have m: "(2::nat) ^ n \<le> 2 ^ 7" using assms(1) by (intro power_increasing) auto
  have p1: "unat (p + 1) = unat p + 1" using assms m by (simp add: unat_word_ariths)
  have two: "unat (2 ^ n :: u8) = 2 ^ n"
  proof -
    have "unat (of_nat (2 ^ n) :: u8) = take_bit LENGTH(8) (2 ^ n)" by (simp only: unsigned_of_nat of_nat_id)
    also have "\<dots> = 2 ^ n" using m by (intro take_bit_nat_eq_self) simp
    finally show ?thesis by (simp only: of_nat_power of_nat_numeral)
  qed
  show ?thesis
  proof (cases "unat p + 1 = 2 ^ n")
    case True
    then have "p + 1 = 2 ^ n"
      using p1 two by (simp add: word_unat_eq_iff)
    then show ?thesis using True by simp
  next
    case False
    then have lt: "unat (p + 1) < 2 ^ n" using assms p1 by simp
    have "\<not> bit (p + 1) n"
    proof -
      have "\<not> bit (unat (p + 1)) n" using lt by (simp only: bit_iff_odd div_less) simp
      then show ?thesis using assms(1) by (simp add: bit_unsigned_iff)
    qed
    then have "(p + 1) AND NOT (2 ^ n) = p + 1"
      by (auto intro!: bit_word_eqI simp: bit_simps bit_exp_iff)
    then show ?thesis using lt p1 by simp
  qed
qed

text \<open>
  A ring position is below the length its mask was made for; a chip that was never initialised has the
  mask 0 and the position 0.
\<close>

definition ring_ok :: "u8 \<Rightarrow> u8 \<Rightarrow> bool" where
  "ring_ok m p \<longleftrightarrow> m = 0 \<and> p = 0 \<or> (\<exists>n < 8. m = NOT (2 ^ n) \<and> unat p < 2 ^ n)"

lemma ring_ok_next: "ring_ok m p \<Longrightarrow> ring_ok m ((p + 1) AND m)"
  by (auto simp: ring_ok_def ring_next)

lemma ring_ok_mask: "ring_ok (ring_mask hi) 0"
proof -
  let ?n = "unat (drop_bit 13 hi AND 7)"
  have m: "(7 :: u16) = mask 3" by (simp add: mask_eq_exp_minus_1)
  have n: "?n < 8" unfolding m unat_and_mask by simp
  have "ring_mask hi = NOT (2 ^ ?n)"
    using n unfolding ring_mask_def by (intro bit_word_eqI) (auto simp: bit_simps push_bit_eq_mult bit_exp_iff)
  then show ?thesis using n unfolding ring_ok_def by auto
qed

text \<open>What the receive loop changes of the chip.\<close>

definition rx_frame :: "lance \<Rightarrow> lance \<Rightarrow> bool" where
  "rx_frame l l' \<longleftrightarrow> (\<exists>md p. l' = l\<lparr>rx_md := md, rx_ring_pos := p\<rparr>
     \<and> (ring_ok (rx_ring_mask l) (rx_ring_pos l) \<longrightarrow> ring_ok (rx_ring_mask l) p))"

lemma rx_frame_trans: "rx_frame a b \<Longrightarrow> rx_frame b c \<Longrightarrow> rx_frame a c"
  unfolding rx_frame_def by fastforce

lemma rx_frame_md: "rx_frame l (l\<lparr>rx_md := m\<rparr>)"
  unfolding rx_frame_def by (rule exI [of _ m], rule exI [of _ "rx_ring_pos l"]) simp

lemma rx_frame_refl: "rx_frame l l"
  using rx_frame_md [of l "rx_md l"] by simp

lemma rx_frame_next: "rx_frame l (l\<lparr>rx_ring_pos := rx_next l, rx_md := m\<rparr>)"
  unfolding rx_frame_def rx_next_def
  by (rule exI [of _ m], rule exI [of _ "(rx_ring_pos l + 1) AND rx_ring_mask l"]) (simp add: ring_ok_next)

lemma rx_fill_frame: "rx_fill cb l buf offset ra h = Some (n, l', h') \<Longrightarrow> rx_frame l l'"
  by (auto simp: rx_fill_def option_bind_Some_iff Let_def intro: rx_frame_md)

lemma rx_loop_frame: "rx_loop cb l buf offset ra h = Some (n, l', h') \<Longrightarrow> rx_frame l l'"
proof (induction cb l buf offset ra h rule: rx_loop.induct)
  case (1 cb l buf offset ra h)
  show ?case
  proof (cases "offset < length buf")
    case True
    with "1.prems" obtain o1 l1 h1 where f: "rx_fill cb l buf offset ra h = Some (o1, l1, h1)"
      by (subst (asm) rx_loop.simps) (auto simp: option_bind_Some_iff)
    have fr: "rx_frame l l1" using f by (rule rx_fill_frame)
    show ?thesis
    proof (cases "o1 < length buf")
      case o1: True
      with "1.prems" True f obtain na md h2 where a: "rx_ahead cb l1 ra h1 = Some (na, md, h2)"
        by (subst (asm) rx_loop.simps) (auto simp: option_bind_Some_iff)
      show ?thesis
      proof (cases "has md 0x8000")
        case own: True
        with "1.prems" True f o1 a obtain h3 where w: "dma_wr cb (ra OR 2) (rx_md l1 1) h2 = Some h3"
          by (subst (asm) rx_loop.simps) (auto simp: option_bind_Some_iff)
        have "rx_frame (set_rx_md 1 md (l1\<lparr>rx_ring_pos := rx_next l1\<rparr>)) l'"
          using "1.prems" True f o1 a own w 
          by (intro "1.IH" [OF True f refl refl o1 a refl refl own w]) (simp add: rx_loop.simps [of cb l])
        then show ?thesis
          using fr rx_frame_trans rx_frame_next by blast
      next
        case False
        then have "l' = set_rx_md 1 (rx_md l1 1 OR 0x4400) l1" 
          using "1.prems" True f o1 a by (simp add: rx_loop.simps [of cb l])
        then show ?thesis using fr rx_frame_trans rx_frame_md by blast
      qed
    next
      case False
      then have "l' = l1" using "1.prems" True f by (simp add: rx_loop.simps [of cb l])
      then show ?thesis using fr by simp
    qed
  next
    case False
    then have "l' = l" using "1.prems" by (simp add: rx_loop.simps [of cb l])
    then show ?thesis by (simp add: rx_frame_refl)
  qed
qed

text \<open>The level of the interrupt pin that the flags call for (\<open>True\<close> is deasserted).\<close>

definition int_line :: "lance \<Rightarrow> bool" where
  "int_line l \<longleftrightarrow> \<not> (has (csr l 0) CSR0_INEA \<and> has (csr l 0) CSR0_INTR)"

definition chip_ok :: "lance \<Rightarrow> bool" where
  "chip_ok l \<longleftrightarrow> rap l < 4 \<and> idon l = 0 \<and> length (lb_buf l) \<le> 100
     \<and> ring_ok (rx_ring_mask l) (rx_ring_pos l) \<and> ring_ok (tx_ring_mask l) (tx_ring_pos l)"

definition lance_inv :: "lance \<Rightarrow> bool" where
  "lance_inv l \<longleftrightarrow> chip_ok l \<and> intr_out_state l = int_line l"

lemma update_interrupts_line:
  "fst (lance_update_interrupts cb l h) = l\<lparr>intr_out_state := int_line l\<rparr>"
  by (auto simp: lance_update_interrupts_def int_line_def Let_def)

lemma update_interrupts_inv: "chip_ok l \<Longrightarrow> lance_inv (fst (lance_update_interrupts cb l h))"
  by (simp add: update_interrupts_line lance_inv_def chip_ok_def int_line_def)

lemma chip_ok_csr0 [simp]: "chip_ok (csr0_set m l) = chip_ok l" "chip_ok (csr0_clr m l) = chip_ok l"
  by (simp_all add: chip_ok_def csr0_set_def csr0_clr_def)

lemma inv_csr0:
  "m AND 0xC0 = 0 \<Longrightarrow> lance_inv l \<Longrightarrow> lance_inv (csr0_set m l)"
  "m AND 0xC0 = 0 \<Longrightarrow> lance_inv l \<Longrightarrow> lance_inv (csr0_clr m l)"
proof -
  assume m: "m AND 0xC0 = 0" and l: "lance_inv l"
  have "\<not> bit (m AND 0xC0) 6" "\<not> bit (m AND 0xC0) 7" by (simp_all add: m)
  then have "\<not> bit m 6" "\<not> bit m 7" by (simp_all add: bit_simps)
  then have "int_line (csr0_set m l) = int_line l" "int_line (csr0_clr m l) = int_line l"
    by (simp_all add: int_line_def has_csr0 csr0_set_def csr0_clr_def bit_simps)
  with l show "lance_inv (csr0_set m l)" "lance_inv (csr0_clr m l)"
    by (simp_all add: lance_inv_def) (simp_all add: csr0_set_def csr0_clr_def)
qed

lemma inv_rx_frame: "rx_frame l l' \<Longrightarrow> lance_inv l \<Longrightarrow> lance_inv l'"
  by (auto simp: rx_frame_def lance_inv_def chip_ok_def int_line_def)

lemma rx_frame_md_left: "rx_frame (l\<lparr>rx_md := m\<rparr>) l' \<Longrightarrow> rx_frame l l'"
  by (rule rx_frame_trans [OF rx_frame_md])

lemma rx_frame_md_right: "rx_frame l l' \<Longrightarrow> rx_frame l (l'\<lparr>rx_md := m\<rparr>)"
  by (erule rx_frame_trans) (rule rx_frame_md)

lemma lance_receive_frame: "lance_receive cb l buf h = Some (r, l', h') \<Longrightarrow> rx_frame l l'"
  unfolding lance_receive_def option_bind_Some_iff Let_def
  by (simp split: if_splits prod.splits) 
    (auto simp: rx_frame_refl rx_frame_md option_bind_Some_iff Let_def 
      dest!: rx_loop_frame rx_frame_md_left intro!: rx_frame_md_right split: if_splits)

lemma update_interrupts_result:
  assumes "lance_update_interrupts cb l h = (l', h')" "chip_ok l"
  shows "lance_inv l'"
  using update_interrupts_inv [OF assms(2), of cb h] assms(1) by simp

lemma inv_chip_ok: "lance_inv l \<Longrightarrow> chip_ok l"
  by (simp add: lance_inv_def)

lemma chip_ok_fields [simp]:
  "chip_ok (l\<lparr>tx_md := m\<rparr>) = chip_ok l" "chip_ok (l\<lparr>rx_md := m\<rparr>) = chip_ok l"
  "chip_ok (l\<lparr>tx_poll_counter := n\<rparr>) = chip_ok l" "chip_ok (l\<lparr>lb_hairpin := b\<rparr>) = chip_ok l"
  by (simp_all add: chip_ok_def)

lemma lance_inv_fields [simp]:
  "lance_inv (l\<lparr>tx_md := m\<rparr>) = lance_inv l" "lance_inv (l\<lparr>rx_md := m\<rparr>) = lance_inv l"
  "lance_inv (l\<lparr>tx_poll_counter := n\<rparr>) = lance_inv l" "lance_inv (l\<lparr>lb_hairpin := b\<rparr>) = lance_inv l"
  by (simp_all add: lance_inv_def) (simp_all add: int_line_def)

lemma chip_ok_next:
  "chip_ok l \<Longrightarrow> chip_ok (l\<lparr>rx_ring_pos := rx_next l\<rparr>)" "chip_ok l \<Longrightarrow> chip_ok (l\<lparr>tx_ring_pos := tx_next l\<rparr>)"
  by (simp_all add: chip_ok_def rx_next_def tx_next_def ring_ok_next)

lemma update_interrupts_dest:
  "lance_update_interrupts cb l h = (l', h') \<Longrightarrow> chip_ok l \<longrightarrow> lance_inv l'"
  by (blast intro: update_interrupts_result)

lemma recv_complete_inv:
  "lance_recv_complete cb l r h = Some (l', h') \<Longrightarrow> lance_inv l \<Longrightarrow> lance_inv l'"
  by (auto simp: lance_recv_complete_def option_bind_Some_iff Let_def chip_ok_next inv_chip_ok
      dest!: update_interrupts_dest split: if_splits)

lemma apfst_eq_iff: "apfst f p = (a, b) \<longleftrightarrow> a = f (fst p) \<and> b = snd p"
  by (cases p) auto

lemma send_complete_inv:
  "lance_send_complete cb l r h = Some (l', h') \<Longrightarrow> lance_inv l \<Longrightarrow> lance_inv l'"
  by (auto simp: lance_send_complete_def option_bind_Some_iff Let_def chip_ok_next inv_chip_ok
      apfst_eq_iff update_interrupts_inv split: if_splits)

text \<open>What the transmit loop changes of the chip.\<close>

definition tx_frame :: "lance \<Rightarrow> lance \<Rightarrow> bool" where
  "tx_frame l l' \<longleftrightarrow> (\<exists>md p c. l' = l\<lparr>tx_md := md, tx_ring_pos := p, csr := (csr l)(0 := c)\<rparr>
     \<and> (c = csr l 0 \<or> c = csr l 0 AND NOT CSR0_TXON)
     \<and> (ring_ok (tx_ring_mask l) (tx_ring_pos l) \<longrightarrow> ring_ok (tx_ring_mask l) p))"

lemma inv_tx_frame: "tx_frame l l' \<Longrightarrow> lance_inv l \<Longrightarrow> lance_inv l'"
  by (auto simp: tx_frame_def lance_inv_def chip_ok_def int_line_def has_csr0 bit_simps)

lemma tx_frame_trans: "tx_frame a b \<Longrightarrow> tx_frame b c \<Longrightarrow> tx_frame a c"
  unfolding tx_frame_def by (clarsimp simp: and.assoc) fastforce

lemma tx_frame_md: "tx_frame l (l\<lparr>tx_md := m\<rparr>)"
  unfolding tx_frame_def
  by (rule exI [of _ m], rule exI [of _ "tx_ring_pos l"], rule exI [of _ "csr l 0"]) simp

lemma tx_next_md [simp]: "tx_next (l\<lparr>tx_md := m\<rparr>) = tx_next l"
  by (simp add: tx_next_def)

lemma tx_frame_next: "tx_frame l (l\<lparr>tx_md := m, tx_ring_pos := tx_next l\<rparr>)"
  unfolding tx_frame_def tx_next_def
  by (rule exI [of _ m], rule exI [of _ "(tx_ring_pos l + 1) AND tx_ring_mask l"], rule exI [of _ "csr l 0"])
    (simp add: ring_ok_next)

lemma tx_frame_next2: "tx_frame l (l\<lparr>tx_ring_pos := tx_next l, tx_md := m\<rparr>)"
  unfolding tx_frame_def tx_next_def
  by (rule exI [of _ m], rule exI [of _ "(tx_ring_pos l + 1) AND tx_ring_mask l"], rule exI [of _ "csr l 0"])
    (simp add: ring_ok_next)

lemma tx_frame_txon: "tx_frame l (csr0_clr CSR0_TXON (l\<lparr>tx_md := m\<rparr>))"
  unfolding tx_frame_def csr0_clr_def
  by (rule exI [of _ m], rule exI [of _ "tx_ring_pos l"], rule exI [of _ "csr l 0 AND NOT CSR0_TXON"]) simp

lemma tx_fill_frame: "tx_fill cb l buf ra h = Some (f, l', buf', h') \<Longrightarrow> tx_frame l l'"
  by (auto simp: tx_fill_def option_bind_Some_iff Let_def intro: tx_frame_md tx_frame_next split: if_splits)


lemma tx_frame_md_right: "tx_frame l l' \<Longrightarrow> tx_frame l (l'\<lparr>tx_md := m\<rparr>)"
  by (erule tx_frame_trans) (rule tx_frame_md)

lemma tx_frame_txon_right: "tx_frame l l' \<Longrightarrow> tx_frame l (csr0_clr CSR0_TXON (l'\<lparr>tx_md := m\<rparr>))"
  by (erule tx_frame_trans) (rule tx_frame_txon)

lemma tx_loop_frame: "tx_loop cb l buf ra h = Some (f, l', buf', h') \<Longrightarrow> tx_frame l l'"
proof -
  have "(\<lambda>(f, l', buf', h'). tx_frame l l') y" if "tx_loop cb l buf ra h = Some y" for y
  proof (rule tx_loop.raw_induct [where P = "\<lambda>cb l buf ra h (f, l', buf', h'). tx_frame l l'", OF _ that])
    fix loop :: "'a lance_cb \<Rightarrow> lance \<Rightarrow> u8 list \<Rightarrow> u32 \<Rightarrow> 'a \<Rightarrow> (bool \<times> lance \<times> u8 list \<times> 'a) option" and cb l buf ra h y
    assume IH: "\<And>cb l buf ra h y. loop cb l buf ra h = Some y \<Longrightarrow> (case y of (f, l', buf', h') \<Rightarrow> tx_frame l l')"
    note IH' = IH [where y = "(_, _, _, _)", simplified]
    assume "do { (frame, l1, buf1, h1) \<leftarrow> tx_fill cb l buf ra h;
          if \<not> frame \<or> has (tx_md l1 1) 0x0100 then Some (frame, l1, buf1, h1)
          else
            do { (na, nmd1, h2) \<leftarrow> tx_ahead cb l1 ra h1;
                 if has nmd1 0x8000 then
                   do { h3 \<leftarrow> dma_wr cb (ra OR 2) (tx_md l1 1) h2;
                        loop cb (set_tx_md 1 nmd1 (l1\<lparr>tx_ring_pos := tx_next l1\<rparr>)) buf1 na h3 }
                 else
                   do { let l2 = set_tx_md 3 (tx_md l1 3 OR 0xC000) (set_tx_md 1 (tx_md l1 1 OR 0x4000) l1);
                        h3 \<leftarrow> dma_wr cb (ra OR 6) (tx_md l2 3) h2;
                        Some (True, csr0_clr CSR0_TXON l2, buf1, h3) } } } = Some y"
    then obtain fr l1 buf1 h1 where fill: "tx_fill cb l buf ra h = Some (fr, l1, buf1, h1)"
      and y: "y = (fr, l1, buf1, h1) \<or> (\<exists>na nmd1 h2 h3. tx_ahead cb l1 ra h1 = Some (na, nmd1, h2) \<and>
         (loop cb (set_tx_md 1 nmd1 (l1\<lparr>tx_ring_pos := tx_next l1\<rparr>)) buf1 na h3 = Some y
          \<or> (\<exists>m. y = (True, csr0_clr CSR0_TXON (l1\<lparr>tx_md := m\<rparr>), buf1, h3))))"
      by (auto simp: option_bind_Some_iff Let_def split: if_splits) metis+
    note fr = tx_fill_frame [OF fill]
    show "case y of (f, l', buf', h') \<Rightarrow> tx_frame l l'"
      using y
    proof (elim disjE exE conjE)
      fix na nmd1 h2 h3
      assume "loop cb (set_tx_md 1 nmd1 (l1\<lparr>tx_ring_pos := tx_next l1\<rparr>)) buf1 na h3 = Some y"
      from IH [OF this] show ?thesis
        using tx_frame_trans [OF fr tx_frame_trans [OF tx_frame_next2]] by auto
    qed (auto intro: fr tx_frame_txon_right)
  qed
  then show "tx_loop cb l buf ra h = Some (f, l', buf', h') \<Longrightarrow> tx_frame l l'" by auto
qed


lemma inv_lb_buf: "lance_inv l \<Longrightarrow> length bs \<le> 100 \<Longrightarrow> lance_inv (l\<lparr>lb_buf := bs\<rparr>)"
  by (simp add: lance_inv_def chip_ok_def int_line_def)

lemma inv_init_delay [simp]: "lance_inv (l\<lparr>init_delay := d\<rparr>) = lance_inv l"
  by (simp add: lance_inv_def chip_ok_def int_line_def)

lemma tx_external_inv: "tx_external cb l buf h = Some (l', h') \<Longrightarrow> lance_inv l \<Longrightarrow> lance_inv l'"
  by (auto simp: tx_external_def option_bind_Some_iff Let_def inv_lb_buf
      dest!: send_complete_inv split: if_splits)

lemma tx_deliver_inv: "tx_deliver cb l f buf h = Some (l', h') \<Longrightarrow> lance_inv l \<Longrightarrow> lance_inv l'"
  by (auto simp: tx_deliver_def Let_def inv_lb_buf
      dest!: send_complete_inv tx_external_inv split: if_splits)

lemma transmit_inv: "lance_transmit cb l h = Some (l', h') \<Longrightarrow> lance_inv l \<Longrightarrow> lance_inv l'"
  by (auto simp: lance_transmit_def Let_def inv_csr0 option_bind_Some_iff
      dest!: tx_loop_frame inv_tx_frame tx_deliver_inv split: if_splits)

lemma check_loopback_inv: "lance_check_loopback cb l h = Some (l', h') \<Longrightarrow> lance_inv l \<Longrightarrow> lance_inv l'"
  by (auto simp: lance_check_loopback_def option_bind_Some_iff inv_lb_buf
      dest!: lance_receive_frame inv_rx_frame recv_complete_inv split: if_splits)

lemma transmit_poll_inv:
  assumes "lance_transmit_poll cb l h = Some (l', h')" "lance_inv l"
  shows "lance_inv l'"
proof -
  have nxt: "lance_inv (l\<lparr>tx_md := m, tx_ring_pos := tx_next l\<rparr>)" if "lance_inv l" for l m
    using that by (rule inv_tx_frame [OF tx_frame_next])
  obtain l2 h2 where r: "lance_check_loopback cb l2 h2 = Some (l', h')" and "lance_inv l2"
    using assms
    by (auto simp: lance_transmit_poll_def Let_def option_bind_Some_iff inv_csr0 nxt
        dest!: transmit_inv split: if_splits)
  then show ?thesis by (rule check_loopback_inv)
qed

lemma chip_ok_init_block: "chip_ok l \<Longrightarrow> chip_ok (load_init_block ib l)"
  by (simp add: chip_ok_def load_init_block_def ring_ok_mask)

lemma chip_ok_idon: "chip_ok l \<Longrightarrow> chip_ok (l\<lparr>idon := 0\<rparr>)"
  by (simp add: chip_ok_def)

lemma initialize_inv:
  assumes "lance_initialize cb l h = Some (l', h')" "lance_inv l"
  shows "lance_inv l'"
proof (cases "dma_in_cb cb = None")
  case True
  then show ?thesis using assms by (simp add: lance_initialize_def)
next
  case False
  with assms(1) obtain ib h1 where
    u: "lance_update_interrupts cb ((csr0_set (CSR0_IDON OR CSR0_INTR)
          (csr0_clr (CSR0_INIT OR CSR0_STOP OR CSR0_STRT OR CSR0_TXON OR CSR0_RXON) (load_init_block ib l)))\<lparr>idon := 0\<rparr>) h1
        = (l', h')"
    by (auto simp: lance_initialize_def Let_def option_bind_Some_iff)
  show ?thesis
    by (rule update_interrupts_result [OF u]) (simp add: chip_ok_idon chip_ok_init_block inv_chip_ok [OF assms(2)])
qed

lemma reset_inv: "lance_reset cb l h = (l', h') \<Longrightarrow> chip_ok l \<Longrightarrow> lance_inv l'"
  by (auto simp: lance_reset_def dest!: update_interrupts_dest) (simp add: chip_ok_def)

lemma inv_put: "m AND 0xC0 = 0 \<Longrightarrow> lance_inv l \<Longrightarrow> lance_inv (csr0_put b m l)"
  by (simp add: csr0_put_def inv_csr0)

lemma init_step_inv: "csr0_init_step cb d l h = Some (l', h') \<Longrightarrow> lance_inv l \<Longrightarrow> lance_inv l'"
  by (auto simp: csr0_init_step_def dest: initialize_inv split: if_splits)

lemma strt_step_inv: "csr0_strt_step cb d l h = Some (l', h') \<Longrightarrow> lance_inv l \<Longrightarrow> lance_inv l'"
  by (auto simp: csr0_strt_step_def Let_def inv_put inv_csr0 dest!: transmit_poll_inv split: if_splits)

lemma tdmd_step_inv: "csr0_tdmd_step cb d l h = Some (l', h') \<Longrightarrow> lance_inv l \<Longrightarrow> lance_inv l'"
  by (auto simp: csr0_tdmd_step_def Let_def inv_put inv_csr0 dest!: transmit_poll_inv split: if_splits)

lemma w1c_mask_low: "(d AND w1c_mask) AND 0xC0 = 0"
  unfolding w1c_mask_def by (simp add: and.assoc)

lemma chip_ok_composite [simp]: "chip_ok (csr0_composite l) = chip_ok l" "chip_ok (csr0_put b m l) = chip_ok l"
  by (simp_all add: csr0_composite_def Let_def csr0_put_def)

lemma chip_ok_inea [simp]: "chip_ok (csr0_inea_step d l) = chip_ok l"
  by (simp add: csr0_inea_step_def)

lemma csr0_write_inv: "csr0_write cb l d h = Some (l', h') \<Longrightarrow> lance_inv l \<Longrightarrow> lance_inv l'"
  by (auto simp: csr0_write_def option_bind_Some_iff inv_csr0 w1c_mask_low inv_chip_ok
      dest!: update_interrupts_dest reset_inv init_step_inv strt_step_inv tdmd_step_inv split: if_splits)

lemma regs_w_inv: "lance_regs_w cb l off d h = Some (l', h') \<Longrightarrow> lance_inv l \<Longrightarrow> lance_inv l'"
proof -
  have m: "(3 :: u16) = mask 2" by (simp add: mask_eq_exp_minus_1)
  have "unat (d AND 3) < 4" unfolding m unat_and_mask by simp
  then have rap: "lance_inv l \<Longrightarrow> lance_inv (l\<lparr>rap := unat (d AND 3)\<rparr>)"
    by (simp add: lance_inv_def chip_ok_def int_line_def)
  have csr: "lance_inv l \<Longrightarrow> k \<noteq> 0 \<Longrightarrow> lance_inv (l\<lparr>csr := (csr l)(k := v)\<rparr>)" for k v
    by (simp add: lance_inv_def chip_ok_def int_line_def)
  show "lance_regs_w cb l off d h = Some (l', h') \<Longrightarrow> lance_inv l \<Longrightarrow> lance_inv l'"
    by (auto simp: lance_regs_w_def rap csr dest: csr0_write_inv split: if_splits)
qed

lemma tick_inv: "lance_tick cb l n h = Some (l', h') \<Longrightarrow> lance_inv l \<Longrightarrow> lance_inv l'"
proof -
  assume t: "lance_tick cb l n h = Some (l', h')" and l: "lance_inv l"
  then have "idon l = 0" by (simp add: lance_inv_def chip_ok_def)
  with t l show "lance_inv l'"
    by (auto simp: lance_tick_def Let_def dest!: transmit_poll_inv split: if_splits)
qed

lemma recv_inv: "lance_recv cb l buf h = Some (r, l', h') \<Longrightarrow> lance_inv l \<Longrightarrow> lance_inv l'"
  by (auto simp: lance_recv_def option_bind_Some_iff
      dest!: lance_receive_frame inv_rx_frame recv_complete_inv split: if_splits)

lemma chip_ok_init: "lance_inv (lance_init v)"
  unfolding lance_init_def lance_reset_def
  by (rule update_interrupts_inv) (simp add: chip_ok_def lance_zero_def ring_ok_def)

text \<open>What the machine does with the chip.\<close>

datatype lance_op = RegW nat u16 | Tick int | Recv "u8 list" | ResetW bool

fun lance_do :: "'h lance_cb \<Rightarrow> lance_op \<Rightarrow> lance \<times> 'h \<Rightarrow> (lance \<times> 'h) option" where
  "lance_do cb (RegW off d) (l, h) = lance_regs_w cb l off d h"
| "lance_do cb (Tick n) (l, h) = lance_tick cb l n h"
| "lance_do cb (Recv buf) (l, h) = map_option snd (lance_recv cb l buf h)"
| "lance_do cb (ResetW b) (l, h) = Some (lance_reset_w cb l h b)"

fun lance_run :: "'h lance_cb \<Rightarrow> lance_op list \<Rightarrow> lance \<times> 'h \<Rightarrow> (lance \<times> 'h) option" where
  "lance_run cb [] s = Some s"
| "lance_run cb (op # ops) s = do { s1 \<leftarrow> lance_do cb op s; lance_run cb ops s1 }"

lemma lance_do_inv: "lance_do cb op s = Some s' \<Longrightarrow> lance_inv (fst s) \<Longrightarrow> lance_inv (fst s')"
  by (cases s; cases s'; cases op)
     (auto simp: lance_reset_w_def inv_chip_ok dest: regs_w_inv tick_inv recv_inv reset_inv split: if_splits)

lemma lance_run_inv: "lance_run cb ops s = Some s' \<Longrightarrow> lance_inv (fst s) \<Longrightarrow> lance_inv (fst s')"
  by (induction ops arbitrary: s) (auto simp: option_bind_Some_iff dest: lance_do_inv)

text \<open>
  C3: After any sequence of register accesses, ticks, received frames and resets, on any host, the
  interrupt pin is asserted exactly when interrupts are enabled and the interrupt flag is set, the
  register pointer selects one of the four registers, the ring positions are inside their rings, the
  loopback buffer is not overrun, and no initialisation is left pending.
\<close>

theorem lance_run_sound:
  assumes "lance_run cb ops (lance_init v, h) = Some (l, h')"
  shows "(\<not> intr_out_state l \<longleftrightarrow> has (csr l 0) CSR0_INEA \<and> has (csr l 0) CSR0_INTR)
    \<and> rap l < 4 \<and> length (lb_buf l) \<le> 100 \<and> idon l = 0
    \<and> ring_ok (rx_ring_mask l) (rx_ring_pos l) \<and> ring_ok (tx_ring_mask l) (tx_ring_pos l)"
  using lance_run_inv [OF assms] chip_ok_init [of v] by (simp add: lance_inv_def chip_ok_def int_line_def)

lemma lance_run_sound_witness:
  "case lance_run no_cb [RegW 1 0, RegW 0 0x42, RegW 1 7] (lance_init LANCE_AM79C90, ()) of None \<Rightarrow> False
   | Some (l, h) \<Rightarrow> rap l = 3 \<and> (\<not> intr_out_state l \<longleftrightarrow> has (csr l 0) CSR0_INEA \<and> has (csr l 0) CSR0_INTR)"
proof -
  have "case lance_run no_cb [RegW 1 0, RegW 0 0x42, RegW 1 7] (lance_init LANCE_AM79C90, ()) of
      None \<Rightarrow> False | Some (l, h) \<Rightarrow> rap l = 3"
    by code_simp
  then show ?thesis
    using lance_run_sound [of no_cb "[RegW 1 0, RegW 0 0x42, RegW 1 7]" LANCE_AM79C90 "()"]
    by (auto split: option.splits)
qed

lemma has_union: "has w (a OR b) \<longleftrightarrow> has w a \<or> has w b"
  by (auto simp: has_def bit_eq_iff bit_simps)

lemma has_events:
  "has w CSR0_IDON \<longleftrightarrow> bit w 8" "has w CSR0_TINT \<longleftrightarrow> bit w 9" "has w CSR0_RINT \<longleftrightarrow> bit w 10"
  "has w CSR0_MERR \<longleftrightarrow> bit w 11" "has w CSR0_MISS \<longleftrightarrow> bit w 12" "has w CSR0_CERR \<longleftrightarrow> bit w 13"
  "has w CSR0_BABL \<longleftrightarrow> bit w 14" "has w CSR0_ERR \<longleftrightarrow> bit w 15"
  using has_pow [of w 8] has_pow [of w 9] has_pow [of w 10] has_pow [of w 11] has_pow [of w 12]
    has_pow [of w 13] has_pow [of w 14] has_pow [of w 15] by simp_all

lemma has_int_events: "has w 0x5F00 \<longleftrightarrow> bit w 8 \<or> bit w 9 \<or> bit w 10 \<or> bit w 11 \<or> bit w 12 \<or> bit w 14"
  using has_union [of w "0x0100 OR 0x0200 OR 0x0400" "0x0800 OR 0x1000 OR 0x4000"]
    has_union [of w "0x0100" "0x0200 OR 0x0400"] has_union [of w "0x0800" "0x1000 OR 0x4000"]
    has_union [of w "0x0200" "0x0400"] has_union [of w "0x1000" "0x4000"]
  by (simp add: has_events)

lemma bit_put: "bit (csr (csr0_put b m l) 0) k \<longleftrightarrow> (if bit m k then b else bit (csr l 0) k)"
  by (cases "k < 16") (auto simp: csr0_put_def csr0_set_def csr0_clr_def bit_simps dest: bit_imp_le_length)

lemma bit_put_pow:
  "j < 16 \<Longrightarrow> bit (csr (csr0_put b (2 ^ j) l) 0) k \<longleftrightarrow> (if k = j then b else bit (csr l 0) k)"
  unfolding bit_put by (auto simp: bit_exp_iff)

lemma put_bits:
  "bit (csr (csr0_put b CSR0_INEA l) 0) k \<longleftrightarrow> (if k = 6 then b else bit (csr l 0) k)"
  "bit (csr (csr0_put b CSR0_INTR l) 0) k \<longleftrightarrow> (if k = 7 then b else bit (csr l 0) k)"
  "bit (csr (csr0_put b CSR0_ERR l) 0) k \<longleftrightarrow> (if k = 15 then b else bit (csr l 0) k)"
  using bit_put_pow [of 6 b l k] bit_put_pow [of 7 b l k] bit_put_pow [of 15 b l k] by simp_all

definition ack_only :: "u16 \<Rightarrow> bool" where
  "ack_only d \<longleftrightarrow> \<not> has d CSR0_STOP \<and> \<not> has d CSR0_INIT \<and> \<not> has d CSR0_STRT \<and> \<not> has d CSR0_TDMD"

text \<open>
  A write of CSR0 that commands nothing acknowledges events: of the seven event flags exactly those
  written as one are cleared, the interrupt flag becomes the disjunction of the events that interrupt,
  interrupts are enabled as written, and the pin follows.
\<close>

theorem csr0_ack:
  assumes "lance_regs_w cb l 0 d h = Some (l', h')" "rap l = 0" "ack_only d" "\<not> has (csr l 0) CSR0_STOP"
  shows "(\<forall>e \<in> {CSR0_BABL, CSR0_CERR, CSR0_MISS, CSR0_MERR, CSR0_RINT, CSR0_TINT, CSR0_IDON}.
            has (csr l' 0) e \<longleftrightarrow> has (csr l 0) e \<and> \<not> has d e)
    \<and> (has (csr l' 0) CSR0_INTR \<longleftrightarrow>
         (\<exists>e \<in> {CSR0_BABL, CSR0_MISS, CSR0_MERR, CSR0_RINT, CSR0_TINT, CSR0_IDON}. has (csr l' 0) e))
    \<and> (has (csr l' 0) CSR0_INEA \<longleftrightarrow> has d CSR0_INEA)
    \<and> (intr_out_state l' \<longleftrightarrow> \<not> (has (csr l' 0) CSR0_INEA \<and> has (csr l' 0) CSR0_INTR))"
proof -
  define l1 where "l1 = csr0_clr (d AND w1c_mask) l"
  have "l' = (let c = csr0_composite (csr0_inea_step d l1) in c\<lparr>intr_out_state := int_line c\<rparr>)"
    using assms update_interrupts_line [of cb "csr0_composite (csr0_inea_step d l1)" h]
    by (simp add: lance_regs_w_def csr0_write_def csr0_init_step_def csr0_strt_step_def csr0_tdmd_step_def
         ack_only_def l1_def Let_def)
  moreover define l2 where "l2 = csr0_inea_step d l1"
  moreover define l3 where "l3 = csr0_composite l2"
  ultimately have l': "l' = l3\<lparr>intr_out_state := int_line l3\<rparr>" by (simp add: Let_def)
  have "\<not> has (csr l1 0) CSR0_STOP"
    using assms(4) by (simp add: has_csr0 l1_def csr0_clr_def bit_simps w1c_mask_def)
  then have b2: "bit (csr l2 0) k \<longleftrightarrow> (if k = 6 then has d CSR0_INEA else bit (csr l1 0) k)" for k
    by (simp add: l2_def csr0_inea_step_def put_bits)
  have b1: "bit (csr l1 0) k \<longleftrightarrow> bit (csr l 0) k \<and> \<not> (bit d k \<and> bit w1c_mask k)" if "k < 16" for k
    using that by (auto simp: l1_def csr0_clr_def bit_simps)
  have b3: "bit (csr l3 0) k \<longleftrightarrow> bit (csr l2 0) k" if "k \<noteq> 7" "k \<noteq> 15" for k
    using that by (simp add: l3_def csr0_composite_def Let_def put_bits)
  have b4: "bit (csr l3 0) 7 \<longleftrightarrow> has (csr l3 0) 0x5F00"
    by (simp add: l3_def csr0_composite_def Let_def put_bits has_int_events)
  show ?thesis unfolding l'
    by (simp add: has_csr0 has_events has_int_events b4 b3 b2 b1 int_line_def w1c_mask_def) blast
qed


text \<open>
  Registers 1 to 3, selected through the register pointer: in the stopped chip they read back what
  was written (register 3 keeps three bits), in a running chip the write is ignored and the read is all
  ones.
\<close>

theorem csr_access:
  assumes "r \<in> {1, 2, 3}" "rap l = 0"
  shows "\<exists>l1 l2. lance_regs_w cb l 1 (of_nat r) h = Some (l1, h) \<and> lance_regs_w cb l1 0 d h = Some (l2, h)
     \<and> lance_regs_r l2 0 =
        (if has (csr l 0) CSR0_STOP then (if r = 3 then d AND 7 else d) else 0xFFFF)
     \<and> csr l2 = (if has (csr l 0) CSR0_STOP then (csr l)(r := if r = 3 then d AND 7 else d) else csr l)"
proof -
  have "unat (of_nat r AND 3 :: u16) = r" using assms by auto
  then show ?thesis using assms 
    by (auto simp: lance_regs_w_def lance_regs_r_def)
qed
lemma csr_access_witness:
  "\<exists>l1 l2. lance_regs_w (no_cb :: unit lance_cb) (lance_init LANCE_AM79C90) 1 (of_nat 2) () = Some (l1, ())
     \<and> lance_regs_w no_cb l1 0 0xBEEF () = Some (l2, ()) \<and> lance_regs_r l2 0 = 0xBEEF"
proof -
  have "rap (lance_init LANCE_AM79C90) = 0" "has (csr (lance_init LANCE_AM79C90) 0) CSR0_STOP" by code_simp+
  then show ?thesis
    using csr_access [of 2 "lance_init LANCE_AM79C90" "no_cb :: unit lance_cb" "()" "0xBEEF"] by auto
qed

lemma csr0_ack_witness:
  "case lance_regs_w (no_cb :: unit lance_cb) (lance_zero\<lparr>csr := (\<lambda>_. 0x07B3)\<rparr>) 0 0x0240 () of
     None \<Rightarrow> False
   | Some (l, h) \<Rightarrow> has (csr l 0) CSR0_RINT \<and> \<not> has (csr l 0) CSR0_TINT \<and> \<not> intr_out_state l"
proof -
  have "lance_regs_w (no_cb :: unit lance_cb) (lance_zero\<lparr>csr := (\<lambda>_. 0x07B3)\<rparr>) 0 0x0240 () \<noteq> None"
    "rap (lance_zero\<lparr>csr := (\<lambda>_. 0x07B3)\<rparr>) = 0" "ack_only 0x0240"
    "\<not> has (csr (lance_zero\<lparr>csr := (\<lambda>_. 0x07B3)\<rparr>) 0) CSR0_STOP"
    by (simp_all add: lance_regs_w_def csr0_write_def csr0_init_step_def csr0_strt_step_def csr0_tdmd_step_def
      has_def lance_zero_def ack_only_def csr0_clr_def w1c_mask_def)
  moreover have "has (0x07B3 :: u16) CSR0_RINT" "has (0x07B3 :: u16) CSR0_TINT"
    "\<not> has (0x0240 :: u16) CSR0_RINT" "has (0x0240 :: u16) CSR0_TINT" "has (0x0240 :: u16) CSR0_INEA"
    by (simp_all add: has_def)
  ultimately show ?thesis
    using csr0_ack [of "no_cb :: unit lance_cb" "lance_zero\<lparr>csr := (\<lambda>_. 0x07B3)\<rparr>" "0x0240" "()"]
    by (auto split: option.splits)
qed

end
