(* ===== verification/Lance_Host.thy ===== *)
theory Lance_Host
  imports Lance
begin

text \<open>
  What the Ethernet controller does to its host's memory, proved against an interface: the host keeps
  16-bit cells, the DMA callbacks read and write them inside a window, and the send callback records
  the frame. The machine provides the interface with its shadow memory (\<open>Lance_Glue\<close>).
\<close>

section \<open>Bytes in cells\<close>

text \<open>Byte \<open>i\<close> of a buffer at an even address lies in the cell \<open>slot addr i\<close>, in a half chosen by the
  byte-swap bit of CSR3.\<close>

definition slot :: "u32 \<Rightarrow> nat \<Rightarrow> u32" where
  "slot addr i = addr + 2 * of_nat (i div 2)"

definition lane :: "bool \<Rightarrow> u16 \<Rightarrow> nat \<Rightarrow> u8" where
  "lane bswap w i = (if even i = bswap then hi8 w else lo8 w)"

definition frame_at :: "(u32 \<Rightarrow> u16) \<Rightarrow> bool \<Rightarrow> u32 \<Rightarrow> nat \<Rightarrow> u8 list" where
  "frame_at c bswap addr n = map (\<lambda>i. lane bswap (c (slot addr i)) i) [0 ..< n]"

lemma slot_Suc2 [simp]: "slot addr (Suc (Suc i)) = slot (addr + 2) i"
  by (simp add: slot_def algebra_simps)

lemma slot_0 [simp]: "slot addr 0 = addr" "slot addr (Suc 0) = addr"
  by (simp_all add: slot_def)

lemma length_frame_at [simp]: "length (frame_at c b a n) = n"
  by (simp add: frame_at_def)

lemma frame_at_Suc2:
  "frame_at c b addr (Suc (Suc n)) = lane b (c addr) 0 # lane b (c addr) 1 # frame_at c b (addr + 2) n"
  unfolding frame_at_def map_upt_Suc by (simp add: lane_def)

lemma frame_at_small [simp]: "frame_at c b addr 0 = []" "frame_at c b addr (Suc 0) = [lane b (c addr) 0]"
  by (simp_all add: frame_at_def)

lemma frame_at_cong: "(\<And>i. i < n \<Longrightarrow> c (slot a i) = c' (slot a i)) \<Longrightarrow> frame_at c b a n = frame_at c' b a n"
  by (simp add: frame_at_def)

lemma hi8_word16 [simp]: "hi8 (word16 a b) = a"
  unfolding hi8_def word16_def by (rule bit_word_eqI) (auto simp: bit_simps dest: bit_imp_le_length)

lemma lo8_word16 [simp]: "lo8 (word16 a b) = b"
  unfolding lo8_def word16_def by (rule bit_word_eqI) (auto simp: bit_simps)

lemma slot_distinct: "i < 2 ^ 31 \<Longrightarrow> addr \<noteq> slot (addr + 2) i"
proof
  assume i: "i < 2 ^ 31" and e: "addr = slot (addr + 2) i"
  let ?k = "2 + 2 * (i div 2)"
  have "addr + of_nat ?k = addr" using e by (simp add: slot_def algebra_simps)
  then have "(of_nat ?k :: u32) = 0" by (metis add_cancel_left_right)
  then have "unat (of_nat ?k :: u32) = 0" by (simp only: unsigned_0)
  moreover have "unat (of_nat ?k :: u32) = ?k"
    using i by (intro unat_of_nat_small) simp
  ultimately show False by simp
qed

section \<open>The host\<close>

locale lance_host =
  fixes cb :: "'h lance_cb"
    and cell :: "'h \<Rightarrow> u32 \<Rightarrow> u16"
    and window :: "u32 \<Rightarrow> bool"
    and sent :: "'h \<Rightarrow> u8 list list"
    and ready :: "'h \<Rightarrow> bool"
  assumes rd_cell: "window a \<Longrightarrow> dma_rd cb a h = Some (cell h a, h)"
    and wr_cell: "ready h \<Longrightarrow> window a \<Longrightarrow> \<exists>h'. dma_wr cb a v h = Some h' \<and> sent h' = sent h \<and> ready h'
          \<and> (\<forall>b. window b \<longrightarrow> cell h' b = (if b = a then v else cell h b))"
    and intr_keeps: "intr_out_cb cb = Some f \<Longrightarrow> cell (f s h) = cell h \<and> sent (f s h) = sent h \<and> ready (f s h) = ready h"
    and sends: "\<exists>g. send_cb cb = Some g \<and> (\<forall>buf h. ready h \<longrightarrow> sent (g buf h) = sent h @ [buf] \<and> cell (g buf h) = cell h \<and> ready (g buf h))"
    and dma_present: "dma_in_cb cb \<noteq> None" "dma_out_cb cb \<noteq> None"
begin

lemma in_loop:
  "\<forall>i < n. window (slot addr i) \<Longrightarrow> dma_in_loop cb b addr n h = Some (frame_at (cell h) b addr n, h)"
proof (induction n arbitrary: addr rule: induct_nat_012)
  case 1
  then have "window addr" by auto
  then show ?case by (simp add: rd_cell lane_def)
next
  case (ge2 n)
  from ge2.prems have w: "window addr" and "\<forall>i < n. window (slot (addr + 2) i)"
    by (auto simp flip: slot_Suc2)
  with ge2.IH(1) [of "addr + 2"]
  have "dma_in_loop cb b (addr + 2) n h = Some (frame_at (cell h) b (addr + 2) n, h)" by blast
  then show ?case by (simp add: rd_cell [OF w] frame_at_Suc2 lane_def)
qed simp

lemma out_loop:
  "ready h \<Longrightarrow> \<forall>i < length buf. window (slot addr i) \<Longrightarrow> length buf < 2 ^ 31 \<Longrightarrow>
   \<exists>h'. dma_out_loop cb b addr buf h = Some h' \<and> sent h' = sent h \<and> ready h' \<and> frame_at (cell h') b addr (length buf) = buf
      \<and> (\<forall>a. window a \<longrightarrow> a \<notin> slot addr ` {..< length buf} \<longrightarrow> cell h' a = cell h a)"
proof (induction buf arbitrary: addr h rule: induct_list012)
  case (2 x)
  then have "window addr" by auto
  from wr_cell [OF "2.prems"(1) this, of "if b then word16 x 0 else word16 0 x"]
  show ?case using \<open>window addr\<close> by (auto simp: lane_def)
next
  case (3 x y buf)
  let ?v = "if b then word16 x y else word16 y x"
  from "3.prems"(2) have w: "window addr" and ws: "\<forall>i < length buf. window (slot (addr + 2) i)"
    by (auto simp flip: slot_Suc2)
  from wr_cell [OF "3.prems"(1) w, of ?v] obtain h1 where
    h1: "dma_wr cb addr ?v h = Some h1" "sent h1 = sent h"
      and r1: "ready h1"
      and h1c: "\<And>a. window a \<Longrightarrow> cell h1 a = (if a = addr then ?v else cell h a)" by blast
  from "3.IH"(1) [OF r1 ws] "3.prems"(3) obtain h2 where
    h2: "dma_out_loop cb b (addr + 2) buf h1 = Some h2" "sent h2 = sent h1" "ready h2"
      "frame_at (cell h2) b (addr + 2) (length buf) = buf"
      "\<And>a. window a \<Longrightarrow> a \<notin> slot (addr + 2) ` {..< length buf} \<Longrightarrow> cell h2 a = cell h1 a" by auto
  have "addr \<notin> slot (addr + 2) ` {..< length buf}"
    using slot_distinct [of _ addr] "3.prems"(3) by (auto simp: image_iff)
  then have c: "cell h2 addr = ?v" using h1c h2(5) w by simp
  have "a \<notin> slot addr ` {..< length (x # y # buf)} \<Longrightarrow> a \<noteq> addr \<and> a \<notin> slot (addr + 2) ` {..< length buf}" for a
    by (auto simp flip: slot_Suc2) (metis imageI lessThan_iff slot_0(1) zero_less_Suc)
  then have "\<forall>a. window a \<longrightarrow> a \<notin> slot addr ` {..< length (x # y # buf)} \<longrightarrow> cell h2 a = cell h a"
    using h1c h2(5) by auto
  then show ?case using h1 h2 c by (auto simp: frame_at_Suc2 lane_def)
qed simp


lemma in_block:
  assumes "addr AND 1 = 0" "\<forall>i < n. window (slot addr i)"
  shows "lance_dma_in_block cb l addr n h = Some (frame_at (cell h) (has (csr l 3) 0x04) addr n, h)"
  using assms by (simp add: lance_dma_in_block_def in_loop)

lemma out_block:
  assumes "addr AND 1 = 0" "\<forall>i < length buf. window (slot addr i)" "length buf < 2 ^ 31" "ready h"
  obtains h' where "lance_dma_out_block cb l addr buf h = Some h'" "sent h' = sent h" "ready h'"
    "frame_at (cell h') (has (csr l 3) 0x04) addr (length buf) = buf"
    "\<And>a. window a \<Longrightarrow> a \<notin> slot addr ` {..< length buf} \<Longrightarrow> cell h' a = cell h a"
  using out_loop [OF assms(4,2,3), of "has (csr l 3) 0x04"] assms(1)
  by (auto simp: lance_dma_out_block_def)

lemma dma_wr_cases:
  assumes "window a" "ready h"
  obtains h' where "dma_wr cb a v h = Some h'" "sent h' = sent h" "ready h'"
    "\<And>b. window b \<Longrightarrow> cell h' b = (if b = a then v else cell h b)"
  using wr_cell [OF assms(2,1), of v] by blast

lemma update_keeps:
  "cell (snd (lance_update_interrupts cb l h)) = cell h" "sent (snd (lance_update_interrupts cb l h)) = sent h"
  using intr_keeps by (auto simp: lance_update_interrupts_def Let_def split: option.splits)

text \<open>The end of a successful transmission.\<close>

lemma send_complete_ok:
  assumes "0 < r" "window (tx_desc l (tx_ring_pos l) OR 2)" "ready h"
  obtains l' h' where "lance_send_complete cb l r h = Some (l', h')" "sent h' = sent h"
    "\<And>a. window a \<Longrightarrow> cell h' a = (if a = tx_desc l (tx_ring_pos l) OR 2 then tx_md l 1 else cell h a)"
    "tx_ring_pos l' = tx_next l" "has (csr l' 0) CSR0_TINT" "has (csr l' 0) CSR0_INTR"
    "physical_addr l' = physical_addr l" "lb_buf l' = lb_buf l"
proof -
  from dma_wr_cases [OF assms(2,3), of "tx_md l 1"] obtain h1 where
    h1: "dma_wr cb (tx_desc l (tx_ring_pos l) OR 2) (tx_md l 1) h = Some h1" "sent h1 = sent h"
      "\<And>a. window a \<Longrightarrow> cell h1 a = (if a = tx_desc l (tx_ring_pos l) OR 2 then tx_md l 1 else cell h a)" by blast
  let ?l2 = "csr0_set (CSR0_TINT OR CSR0_INTR) (l\<lparr>tx_ring_pos := tx_next l\<rparr>)"
  let ?u = "lance_update_interrupts cb ?l2 h1"
  have "lance_send_complete cb l r h = Some (apfst (tx_poll_counter_update (\<lambda>_. 1)) ?u)"
    using assms(1) h1(1) by (simp add: lance_send_complete_def Let_def)
  then show thesis
    using h1 by (intro that [of "(fst ?u)\<lparr>tx_poll_counter := 1\<rparr>" "snd ?u"])
      (simp_all add: update_interrupts_line update_keeps apfst_def map_prod_def case_prod_beta csr0_set_def has_csr0 has_events bit_simps)
qed


text \<open>
  A frame in one descriptor goes out as it lies in memory, followed by its check sequence, and the
  descriptor is given back.
\<close>

lemma transmit_single:
  defines "ra \<equiv> \<lambda>l. tx_desc l (tx_ring_pos l)"
  defines "addr \<equiv> \<lambda>l h. md_addr (cell h (ra l OR 2)) (cell h (ra l))"
  defines "len \<equiv> \<lambda>l h. nat (lance_get_buf_length l (cell h (ra l OR 4)))"
  defines "frame \<equiv> \<lambda>l h. frame_at (cell h) (has (csr l 3) 0x04) (addr l h) (len l h)"
  assumes ready: "ready h"
    and chip: "has (csr l 0) CSR0_TXON" "lb_buf l = []" "variant l = LANCE_AM79C90"
      "\<not> has (l_mode l) MODE_LOOP" "\<not> has (l_mode l) MODE_DTCR"
    and desc: "window (ra l)" "window (ra l OR 2)" "window (ra l OR 4)"
      "has (cell h (ra l OR 2)) 0x8000" "has (cell h (ra l OR 2)) 0x0200" "has (cell h (ra l OR 2)) 0x0100"
    and buf: "0 < len l h" "len l h \<le> 4092" "addr l h AND 1 = 0" "\<forall>i < len l h. window (slot (addr l h) i)"
    and foreign: "take 6 (frame l h @ fcs_bytes (frame l h)) \<noteq> physical_addr l"
  shows "\<exists>l' h'. lance_transmit_poll cb l h = Some (l', h') \<and> sent h' = sent h @ [frame l h @ fcs_bytes (frame l h)]
     \<and> (\<forall>a. window a \<longrightarrow> cell h' a = (if a = ra l OR 2 then cell h a AND NOT 0x8000 else cell h a))
     \<and> tx_ring_pos l' = tx_next l \<and> has (csr l' 0) CSR0_TINT \<and> has (csr l' 0) CSR0_INTR"
proof -
  let ?d1 = "cell h (ra l OR 2)" and ?buf = "frame l h" and ?all = "frame l h @ fcs_bytes (frame l h)"
  define l1 where "l1 = (csr0_clr CSR0_TDMD l)\<lparr>tx_md := (tx_md l)(1 := ?d1)\<rparr>"
  define l2 where "l2 = l1\<lparr>tx_md := (tx_md l1)(0 := cell h (ra l), 2 := cell h (ra l OR 4), 3 := 0, 1 := ?d1 AND NOT 0x8000)\<rparr>"
  define l3 where "l3 = (if 1518 < length ?buf then csr0_set (CSR0_ERR OR CSR0_BABL) l2 else l2)"
  have n: "lance_get_buf_length l (cell h (ra l OR 4)) = int (len l h)" using buf(1) by (simp add: len_def)
  have len_l1: "lance_get_buf_length l1 x = lance_get_buf_length l x" for x
    by (simp add: lance_get_buf_length_def l1_def csr0_clr_def)
  have addr_own: "md_addr (?d1 AND NOT 0x8000) x = md_addr ?d1 x" for x
  proof -
    have "(?d1 AND NOT 0x8000) AND 0xFF = ?d1 AND 0xFF" by (simp add: and.assoc)
    then show ?thesis by (simp only: md_addr_def)
  qed
  have same: "tx_md l2 1 = ?d1 AND NOT 0x8000" "tx_ring_pos l2 = tx_ring_pos l" "tx_desc l2 = tx_desc l"
      "l_mode l2 = l_mode l" "physical_addr l2 = physical_addr l" "lb_buf l2 = lb_buf l" "csr l2 3 = csr l 3"
      "tx_next l2 = tx_next l"
    by (simp_all add: l2_def l1_def csr0_clr_def tx_desc_def tx_next_def fun_eq_iff)
  have same3: "tx_md l3 = tx_md l2" "tx_ring_pos l3 = tx_ring_pos l" "tx_desc l3 = tx_desc l" "l_mode l3 = l_mode l"
      "physical_addr l3 = physical_addr l" "lb_buf l3 = lb_buf l" "tx_next l3 = tx_next l"
    using same by (auto simp: l3_def csr0_set_def tx_desc_def tx_next_def fun_eq_iff)
  have fill: "tx_fill cb l1 [] (ra l) h = Some (True, l2, ?buf, h)"
    using buf desc n in_block [OF buf(3,4), of l2 h] same(7) addr_own
    by (simp add: tx_fill_def rd_cell len_l1 l2_def [symmetric] Let_def frame_def)
       (simp add: l2_def l1_def addr_def)
  have "has (tx_md l2 1) 0x0100"
    using desc(6) by (simp add: same [unfolded One_nat_def] has_events bit_simps)
  then have loop: "tx_loop cb l1 [] (ra l) h = Some (True, l2, ?buf, h)"
    by (subst tx_loop.simps) (simp add: fill)
  have tx: "lance_transmit cb l1 h = tx_deliver cb l3 True ?all h"
    using chip buf(2) loop
    by (simp add: lance_transmit_def Let_def l3_def frame_def) (simp add: l1_def csr0_clr_def tx_desc_def ra_def)
  from sends obtain g where g: "send_cb cb = Some g" "sent (g ?all h) = sent h @ [?all]" "cell (g ?all h) = cell h" "ready (g ?all h)"
    using ready by blast
  have pos: "0 < int (length ?all)" by (simp add: fcs_bytes_def Let_def)
  have win3: "window (tx_desc l3 (tx_ring_pos l3) OR 2)" using desc(2) by (simp add: same3 ra_def)
  obtain l4 h4 where sc: "lance_send_complete cb l3 (int (length ?all)) (g ?all h) = Some (l4, h4)" "sent h4 = sent (g ?all h)"
    "\<And>a. window a \<Longrightarrow> cell h4 a = (if a = tx_desc l3 (tx_ring_pos l3) OR 2 then tx_md l3 1 else cell (g ?all h) a)"
    "tx_ring_pos l4 = tx_next l3" "has (csr l4 0) CSR0_TINT" "has (csr l4 0) CSR0_INTR"
    "physical_addr l4 = physical_addr l3" "lb_buf l4 = lb_buf l3"
    by (rule send_complete_ok [OF pos win3 g(4)]) (rule that)
  have "tx_deliver cb l3 True ?all h = Some (l4, h4)"
    using chip(4) sc foreign by (simp add: tx_deliver_def tx_external_def same3 g Let_def)
  moreover obtain f where "dma_in_cb cb = Some f" using dma_present by blast
  ultimately have "lance_transmit_poll cb l h = lance_check_loopback cb l4 h4"
    using chip desc tx
    by (simp add: lance_transmit_poll_def Let_def rd_cell l1_def csr0_clr_def tx_desc_def ra_def)
  also have "\<dots> = Some (l4, h4)"
    using chip(2) sc(8) by (simp add: lance_check_loopback_def same3)
  finally show ?thesis
    using sc g by (intro exI [of _ l4] exI [of _ h4]) (simp add: same3 same [unfolded One_nat_def] ra_def)
qed


lemma recv_complete_ok:
  fixes l :: lance
  defines "ra \<equiv> rx_desc l (rx_ring_pos l)"
  assumes "window (ra OR 2)" "window (ra OR 6)" "r \<noteq> -1" "r \<noteq> -2" "ready h"
  obtains l' h' where "lance_recv_complete cb l r h = Some (l', h')" "sent h' = sent h"
    "\<And>a. window a \<Longrightarrow> cell h' a = (if a = ra OR 6 then word_of_int r AND 0x0FFF
        else if a = ra OR 2 then rx_md l 1 else cell h a)"
    "rx_ring_pos l' = rx_next l" "has (csr l' 0) CSR0_RINT" "has (csr l' 0) CSR0_INTR"
proof -
  from dma_wr_cases [OF assms(2,6), of "rx_md l 1"] obtain h1 where
    h1: "dma_wr cb (ra OR 2) (rx_md l 1) h = Some h1" "sent h1 = sent h"
      and r1: "ready h1" and h1c: "\<And>a. window a \<Longrightarrow> cell h1 a = (if a = ra OR 2 then rx_md l 1 else cell h a)" by blast
  from dma_wr_cases [OF assms(3) r1, of "word_of_int r AND 0x0FFF"] obtain h2 where
    h2: "dma_wr cb (ra OR 6) (word_of_int r AND 0x0FFF) h1 = Some h2" "sent h2 = sent h1"
      "\<And>a. window a \<Longrightarrow> cell h2 a = (if a = ra OR 6 then word_of_int r AND 0x0FFF else cell h1 a)" by blast
  obtain l' h' where u: "lance_update_interrupts cb (csr0_set (CSR0_RINT OR CSR0_INTR) (l\<lparr>rx_ring_pos := rx_next l\<rparr>)) h2 = (l', h')"
    by (metis surj_pair)
  have "lance_recv_complete cb l r h = Some (l', h')"
    using assms(4,5) h1(1) h2(1) by (simp add: lance_recv_complete_def Let_def ra_def u [simplified])
  moreover have "l' = (csr0_set (CSR0_RINT OR CSR0_INTR) (l\<lparr>rx_ring_pos := rx_next l\<rparr>))
      \<lparr>intr_out_state := int_line (csr0_set (CSR0_RINT OR CSR0_INTR) (l\<lparr>rx_ring_pos := rx_next l\<rparr>))\<rparr>"
    using update_interrupts_line [of cb "csr0_set (CSR0_RINT OR CSR0_INTR) (l\<lparr>rx_ring_pos := rx_next l\<rparr>)" h2] u by simp
  moreover have "cell h' = cell h2" "sent h' = sent h2"
    using update_keeps [of "csr0_set (CSR0_RINT OR CSR0_INTR) (l\<lparr>rx_ring_pos := rx_next l\<rparr>)" h2] u by simp_all
  ultimately show thesis
    using h1 h1c h2 by (intro that [of l' h']) (simp_all add: csr0_set_def has_csr0 has_events bit_simps)
qed

text \<open>
  A frame that the filter accepts and one descriptor can hold ends up in that descriptor's buffer, and
  the descriptor goes back to the host as a whole packet with the frame's length.
\<close>

lemma receive_single:
  defines "ra \<equiv> \<lambda>l. rx_desc l (rx_ring_pos l)"
  defines "addr \<equiv> \<lambda>l h. md_addr (cell h (ra l OR 2)) (cell h (ra l))"
  assumes ready: "ready h"
    and chip: "has (csr l 0) CSR0_RXON" "\<not> has (l_mode l) MODE_LOOP" "lance_address_filter l buf"
    and desc: "window (ra l)" "window (ra l OR 2)" "window (ra l OR 4)" "window (ra l OR 6)"
      "has (cell h (ra l OR 2)) 0x8000"
    and buf: "60 \<le> length buf" "length buf \<le> rx_room l (cell h (ra l OR 4))" "length buf \<le> 4096"
      "lance_crc32 buf = 0x2144DF1C"
      "addr l h AND 1 = 0" "\<forall>i < length buf. window (slot (addr l h) i)"
      "\<forall>i < length buf. slot (addr l h) i \<notin> {ra l OR 2, ra l OR 6}"
  shows "\<exists>l' h'. lance_recv cb l buf h = Some (0, l', h') \<and> sent h' = sent h
     \<and> frame_at (cell h') (has (csr l 3) 0x04) (addr l h) (length buf) = buf
     \<and> cell h' (ra l OR 2) = ((cell h (ra l OR 2) OR 0x0200) AND NOT 0x8000) OR 0x0100
     \<and> cell h' (ra l OR 6) = of_nat (length buf) AND 0x0FFF
     \<and> rx_ring_pos l' = rx_next l \<and> has (csr l' 0) CSR0_RINT \<and> has (csr l' 0) CSR0_INTR"
proof -
  let ?d1 = "cell h (ra l OR 2)"
  define l1 where "l1 = l\<lparr>rx_md := (rx_md l)(1 := ?d1 OR 0x0200)\<rparr>"
  have addr_stp: "md_addr (?d1 OR 0x0200) x = md_addr ?d1 x" for x
  proof -
    have "(?d1 OR 0x0200) AND 0xFF = ?d1 AND 0xFF" by (simp add: bit.conj_disj_distrib2)
    then show ?thesis by (simp only: md_addr_def)
  qed
  have "length buf < 2 ^ 31" using buf(3) by simp
  from out_block [OF buf(5,6) this ready, of l1] obtain h1 where
    h1: "lance_dma_out_block cb l1 (addr l h) buf h = Some h1" "sent h1 = sent h" and r1: "ready h1" and h1c:
      "frame_at (cell h1) (has (csr l 3) 0x04) (addr l h) (length buf) = buf"
      "\<And>a. window a \<Longrightarrow> a \<notin> slot (addr l h) ` {..< length buf} \<Longrightarrow> cell h1 a = cell h a"
    by (auto simp: l1_def)
  define l2 where "l2 = l1\<lparr>rx_md := (rx_md l1)(0 := cell h (ra l), 2 := cell h (ra l OR 4),
      1 := (?d1 OR 0x0200) AND NOT 0x8000)\<rparr>"
  have room: "rx_room l1 = rx_room l" by (simp add: rx_room_def lance_get_buf_length_def l1_def fun_eq_iff)
  have fill: "rx_fill cb l1 buf 0 (ra l) h = Some (length buf, l2, h1)"
    using desc h1(1) buf(2) addr_stp
    by (simp add: rx_fill_def rd_cell room Let_def min_absorb1 l1_def [symmetric])
      (simp add: l2_def l1_def addr_def)
  have "0 < length buf" using buf(1) by (rule less_le_trans [rotated]) simp
  with fill have loop: "rx_loop cb l1 buf 0 (ra l) h = Some (length buf, l2, h1)"
    by (subst rx_loop.simps) simp
  define l3 where "l3 = l2\<lparr>rx_md := (rx_md l2)(1 := rx_status l2 buf (length buf))\<rparr>"
  have st: "rx_md l3 1 = ((?d1 OR 0x0200) AND NOT 0x8000) OR 0x0100"
    using buf(4) by (simp add: l3_def rx_status_def l2_def)
  obtain f where f: "dma_in_cb cb = Some f" using dma_present by blast
  obtain g where g: "dma_out_cb cb = Some g" using dma_present by blast
  have rcv: "lance_receive cb l buf h = Some (int (length buf), l3, h1)"
    using chip desc buf(1) loop f g
    by (simp add: lance_receive_def Let_def rd_cell ra_def l1_def l3_def)
  have same: "rx_desc l3 = rx_desc l" "rx_ring_pos l3 = rx_ring_pos l" "rx_next l3 = rx_next l"
    by (simp_all add: l3_def l2_def l1_def rx_desc_def rx_next_def fun_eq_iff)
  have w: "window (rx_desc l3 (rx_ring_pos l3) OR 2)" "window (rx_desc l3 (rx_ring_pos l3) OR 6)"
    using desc by (simp_all add: same ra_def)
  have r: "int (length buf) \<noteq> -1" "int (length buf) \<noteq> -2" by simp_all
  obtain l' h' where c: "lance_recv_complete cb l3 (int (length buf)) h1 = Some (l', h')" "sent h' = sent h1"
    "\<And>a. window a \<Longrightarrow> cell h' a = (if a = rx_desc l3 (rx_ring_pos l3) OR 6 then word_of_int (int (length buf)) AND 0x0FFF
        else if a = rx_desc l3 (rx_ring_pos l3) OR 2 then rx_md l3 1 else cell h1 a)"
    "rx_ring_pos l' = rx_next l3" "has (csr l' 0) CSR0_RINT" "has (csr l' 0) CSR0_INTR"
    by (rule recv_complete_ok [OF w r r1]) (rule that)
  have "lance_recv cb l buf h = Some (0, l', h')"
    using chip(2) buf(1) rcv c(1) by (simp add: lance_recv_def)
  moreover have "frame_at (cell h') (has (csr l 3) 0x04) (addr l h) (length buf) = buf"
  proof -
    have "cell h' (slot (addr l h) i) = cell h1 (slot (addr l h) i)" if "i < length buf" for i
      using that buf(6,7) by (subst c(3)) (auto simp: same ra_def)
    then show ?thesis using h1c(1) frame_at_cong [of "length buf" "cell h'" _ "cell h1"] by simp
  qed
  moreover have "ra l OR 2 \<noteq> ra l OR 6"
  proof -
    have "\<not> bit (ra l OR 2) 2" by (simp add: ra_def rx_desc_def bit_simps)
    moreover have "bit (ra l OR 6) 2" by (simp add: bit_simps)
    ultimately show ?thesis by metis
  qed
  ultimately show ?thesis
    using c h1(2) desc st by (intro exI [of _ l'] exI [of _ h']) (simp add: same ra_def)
qed

end

section \<open>What the callbacks preserve\<close>

text \<open>Whatever the four callbacks preserve of the host, every operation of the chip preserves.\<close>

locale lance_host_inv =
  fixes cb :: "'h lance_cb" and I :: "'h \<Rightarrow> bool"
  assumes rd_I: "dma_rd cb a h = Some (w, h') \<Longrightarrow> I h \<Longrightarrow> I h'"
    and wr_I: "dma_wr cb a v h = Some h' \<Longrightarrow> I h \<Longrightarrow> I h'"
    and intr_I: "intr_out_cb cb = Some f \<Longrightarrow> I h \<Longrightarrow> I (f s h)"
    and send_I: "send_cb cb = Some g \<Longrightarrow> I h \<Longrightarrow> I (g buf h)"
begin

lemma update_I: "lance_update_interrupts cb l h = (l', h') \<Longrightarrow> I h \<Longrightarrow> I h'"
  using intr_I by (auto simp: lance_update_interrupts_def Let_def split: if_splits option.splits)

lemma update_I_snd: "I h \<Longrightarrow> I (snd (lance_update_interrupts cb l h))"
  using update_I [of l h] by (metis prod.collapse)

lemma in_block_I: "lance_dma_in_block cb l addr n h = Some (bs, h') \<Longrightarrow> I h \<Longrightarrow> I h'"
proof -
  have loop: "dma_in_loop cb b addr n h = Some (bs, h') \<Longrightarrow> I h \<Longrightarrow> I h'" for b addr n bs h h'
    by (induction n arbitrary: addr bs h h' rule: induct_nat_012) (auto simp: option_bind_Some_iff dest: rd_I)
  show "lance_dma_in_block cb l addr n h = Some (bs, h') \<Longrightarrow> I h \<Longrightarrow> I h'"
    by (auto simp: lance_dma_in_block_def Let_def option_bind_Some_iff dest: loop rd_I split: if_splits)
qed

lemma out_block_I: "lance_dma_out_block cb l addr buf h = Some h' \<Longrightarrow> I h \<Longrightarrow> I h'"
proof -
  have loop: "dma_out_loop cb b addr buf h = Some h' \<Longrightarrow> I h \<Longrightarrow> I h'" for b addr buf h h'
    by (induction buf arbitrary: addr h h' rule: induct_list012) (auto simp: option_bind_Some_iff dest: wr_I)
  show "lance_dma_out_block cb l addr buf h = Some h' \<Longrightarrow> I h \<Longrightarrow> I h'"
    by (auto simp: lance_dma_out_block_def Let_def option_bind_Some_iff dest: loop wr_I split: if_splits list.splits)
qed

lemma rx_fill_I: "rx_fill cb l buf offset ra h = Some (n, l', h') \<Longrightarrow> I h \<Longrightarrow> I h'"
  by (auto simp: rx_fill_def option_bind_Some_iff Let_def dest: rd_I out_block_I)

lemma rx_ahead_I: "rx_ahead cb l ra h = Some (na, md, h') \<Longrightarrow> I h \<Longrightarrow> I h'"
  by (auto simp: rx_ahead_def option_bind_Some_iff Let_def dest: rd_I split: if_splits)

lemma rx_loop_I: "rx_loop cb l buf offset ra h = Some (n, l', h') \<Longrightarrow> I h \<Longrightarrow> I h'"
proof (induction "length buf - offset" arbitrary: l offset ra h rule: less_induct)
  case less
  show ?case
  proof (cases "offset < length buf")
    case True
    with less.prems(1) obtain o1 l1 h1 where f: "rx_fill cb l buf offset ra h = Some (o1, l1, h1)"
      by (subst (asm) rx_loop.simps) (auto simp: option_bind_Some_iff)
    have h1: "I h1" using rx_fill_I [OF f] less.prems(2) by blast
    have m: "length buf - o1 < length buf - offset" if "o1 < length buf"
      using rx_fill_progress [OF f True] True by (intro diff_less_mono2)
    show ?thesis
      using less.prems True f h1 m less.hyps [of o1]
      by (subst (asm) rx_loop.simps)
        (auto simp: option_bind_Some_iff dest!: rx_ahead_I wr_I split: if_splits)
  qed (use less.prems in \<open>auto simp: rx_loop.simps [of cb l]\<close>)
qed

lemma receive_I: "lance_receive cb l buf h = Some (r, l', h') \<Longrightarrow> I h \<Longrightarrow> I h'"
  by (auto simp: lance_receive_def option_bind_Some_iff Let_def dest!: rd_I rx_loop_I split: if_splits)

lemma recv_complete_I: "lance_recv_complete cb l r h = Some (l', h') \<Longrightarrow> I h \<Longrightarrow> I h'"
  by (auto simp: lance_recv_complete_def option_bind_Some_iff Let_def dest!: wr_I update_I split: if_splits)

lemma recv_I: "lance_recv cb l buf h = Some (r, l', h') \<Longrightarrow> I h \<Longrightarrow> I h'"
  by (auto simp: lance_recv_def option_bind_Some_iff dest!: receive_I recv_complete_I split: if_splits)

lemma send_complete_I: "lance_send_complete cb l r h = Some (l', h') \<Longrightarrow> I h \<Longrightarrow> I h'"
  by (auto simp: lance_send_complete_def option_bind_Some_iff Let_def apfst_eq_iff update_I_snd
      dest!: wr_I split: if_splits)

lemma tx_fill_I: "tx_fill cb l buf ra h = Some (f, l', buf', h') \<Longrightarrow> I h \<Longrightarrow> I h'"
  by (auto simp: tx_fill_def option_bind_Some_iff Let_def dest!: rd_I wr_I in_block_I split: if_splits)

lemma tx_ahead_I: "tx_ahead cb l ra h = Some (na, md, h') \<Longrightarrow> I h \<Longrightarrow> I h'"
  by (auto simp: tx_ahead_def option_bind_Some_iff Let_def dest: rd_I split: if_splits)

lemma tx_loop_I: "tx_loop cb l buf ra h = Some (f, l', buf', h') \<Longrightarrow> I h \<Longrightarrow> I h'"
proof -
  have "cb' = cb \<longrightarrow> I h \<longrightarrow> I (snd (snd (snd y)))" if "tx_loop cb' l buf ra h = Some y" for cb' y
  proof (rule tx_loop.raw_induct [where P = "\<lambda>cb' l buf ra h y. cb' = cb \<longrightarrow> I h \<longrightarrow> I (snd (snd (snd y)))", OF _ that])
    fix loop :: "'h lance_cb \<Rightarrow> lance \<Rightarrow> u8 list \<Rightarrow> u32 \<Rightarrow> 'h \<Rightarrow> (bool \<times> lance \<times> u8 list \<times> 'h) option" and cb' l buf ra h y
    assume IH: "\<And>cb' l buf ra h y. loop cb' l buf ra h = Some y \<Longrightarrow> cb' = cb \<longrightarrow> I h \<longrightarrow> I (snd (snd (snd y)))"
    assume "do { (frame, l1, buf1, h1) \<leftarrow> tx_fill cb' l buf ra h;
          if \<not> frame \<or> has (tx_md l1 1) 0x0100 then Some (frame, l1, buf1, h1)
          else
            do { (na, nmd1, h2) \<leftarrow> tx_ahead cb' l1 ra h1;
                 if has nmd1 0x8000 then
                   do { h3 \<leftarrow> dma_wr cb' (ra OR 2) (tx_md l1 1) h2;
                        loop cb' (set_tx_md 1 nmd1 (l1\<lparr>tx_ring_pos := tx_next l1\<rparr>)) buf1 na h3 }
                 else
                   do { let l2 = set_tx_md 3 (tx_md l1 3 OR 0xC000) (set_tx_md 1 (tx_md l1 1 OR 0x4000) l1);
                        h3 \<leftarrow> dma_wr cb' (ra OR 6) (tx_md l2 3) h2;
                        Some (True, csr0_clr CSR0_TXON l2, buf1, h3) } } } = Some y"
    then show "cb' = cb \<longrightarrow> I h \<longrightarrow> I (snd (snd (snd y)))"
      by (auto simp: option_bind_Some_iff Let_def split: if_splits dest!: IH tx_fill_I tx_ahead_I wr_I)
  qed
  then show "tx_loop cb l buf ra h = Some (f, l', buf', h') \<Longrightarrow> I h \<Longrightarrow> I h'" by fastforce
qed

lemma tx_external_I: "tx_external cb l buf h = Some (l', h') \<Longrightarrow> I h \<Longrightarrow> I h'"
proof -
  have "I h \<Longrightarrow> I (case send_cb cb of None \<Rightarrow> h | Some f \<Rightarrow> f buf h)"
    by (auto split: option.split intro: send_I)
  then show "tx_external cb l buf h = Some (l', h') \<Longrightarrow> I h \<Longrightarrow> I h'"
    by (auto simp: tx_external_def option_bind_Some_iff Let_def dest!: send_complete_I split: if_splits)
qed

lemma transmit_I: "lance_transmit cb l h = Some (l', h') \<Longrightarrow> I h \<Longrightarrow> I h'"
  by (auto simp: lance_transmit_def tx_deliver_def Let_def option_bind_Some_iff
      dest!: tx_loop_I tx_external_I send_complete_I split: if_splits)

lemma poll_I: "lance_transmit_poll cb l h = Some (l', h') \<Longrightarrow> I h \<Longrightarrow> I h'"
proof -
  have "lance_check_loopback cb l h = Some (l', h') \<Longrightarrow> I h \<Longrightarrow> I h'" for l l' h h'
    by (auto simp: lance_check_loopback_def option_bind_Some_iff dest!: receive_I recv_complete_I split: if_splits)
  then show "lance_transmit_poll cb l h = Some (l', h') \<Longrightarrow> I h \<Longrightarrow> I h'"
    by (auto simp: lance_transmit_poll_def option_bind_Some_iff Let_def dest!: rd_I wr_I transmit_I split: if_splits)
qed

lemma initialize_I: "lance_initialize cb l h = Some (l', h') \<Longrightarrow> I h \<Longrightarrow> I h'"
proof -
  have "read_words cb a n h = Some (ws, h') \<Longrightarrow> I h \<Longrightarrow> I h'" for a n h ws h'
    by (induction n arbitrary: a h ws h') (auto simp: option_bind_Some_iff dest: rd_I)
  then show "lance_initialize cb l h = Some (l', h') \<Longrightarrow> I h \<Longrightarrow> I h'"
    by (auto simp: lance_initialize_def option_bind_Some_iff Let_def dest!: update_I split: if_splits)
qed

lemma regs_w_I: "lance_regs_w cb l off d h = Some (l', h') \<Longrightarrow> I h \<Longrightarrow> I h'"
proof -
  have "csr0_write cb l d h = Some (l', h') \<Longrightarrow> I h \<Longrightarrow> I h'"
    by (auto simp: csr0_write_def csr0_init_step_def csr0_strt_step_def csr0_tdmd_step_def lance_reset_def
        option_bind_Some_iff Let_def dest!: update_I initialize_I poll_I split: if_splits)
  then show "lance_regs_w cb l off d h = Some (l', h') \<Longrightarrow> I h \<Longrightarrow> I h'"
    by (auto simp: lance_regs_w_def split: if_splits)
qed

lemma tick_I: "lance_tick cb l n h = Some (l', h') \<Longrightarrow> I h \<Longrightarrow> I h'"
  by (auto simp: lance_tick_def Let_def update_I_snd apfst_eq_iff dest!: poll_I split: if_splits prod.split_asm)

end

end
