(* ===== verification/Memory.thy ===== *)
theory Memory
  imports Duart Lance
begin

text \<open>
  \<open>emulator/src/memory.c\<close> and the structures of \<open>emu.h\<close> it works on: the physical address map of the
  NCD15, big-endian access to its buffers, the reads the emulator intercepts, and the dispatch to the
  devices. The devices the C code reaches through function pointers are told apart by a tag and their
  states are fields of the bus. The instruction cache belongs to the CPU in C but the bus flushes it,
  so it is a field of the bus, too.

  Access counters, call stacks and traces are diagnostics and are left out. An access that leaves its
  buffer is undefined in C and \<open>None\<close> here.
\<close>

section \<open>Segments\<close>

definition mips_va_to_pa :: "u32 \<Rightarrow> u32" where
  "mips_va_to_pa va =
     (if va \<ge> 0xC0000000 then va
      else if va \<ge> 0xA0000000 then va - 0xA0000000
      else if va \<ge> 0x80000000 then va - 0x80000000
      else va)"

section \<open>Big-endian access\<close>

definition ld_be :: "mem \<Rightarrow> nat \<Rightarrow> nat \<Rightarrow> u32" where
  "ld_be p i sz =
     (if sz = 1 then ucast (p i)
      else if sz = 2 then push_bit 8 (ucast (p i)) OR ucast (p (i + 1))
      else if sz = 4 then push_bit 24 (ucast (p i)) OR push_bit 16 (ucast (p (i + 1)))
                          OR push_bit 8 (ucast (p (i + 2))) OR ucast (p (i + 3))
      else 0)"

definition st_be :: "mem \<Rightarrow> nat \<Rightarrow> u32 \<Rightarrow> nat \<Rightarrow> mem" where
  "st_be p i v sz =
     (if sz = 1 then p(i := ucast v)
      else if sz = 2 then p(i := ucast (drop_bit 8 v), i + 1 := ucast v)
      else if sz = 4 then p(i := ucast (drop_bit 24 v), i + 1 := ucast (drop_bit 16 v),
                            i + 2 := ucast (drop_bit 8 v), i + 3 := ucast v)
      else p)"

text \<open>What an access of a given width keeps of a value.\<close>

definition trunc_size :: "nat \<Rightarrow> u32 \<Rightarrow> u32" where
  "trunc_size sz v = (if sz = 1 then v AND 0xFF else if sz = 2 then v AND 0xFFFF else v)"

lemma be_codec:
  assumes "sz \<in> {1, 2, 4}"
  shows "codec (\<lambda>m i v. st_be m i v sz) (\<lambda>m i. ld_be m i sz) (trunc_size sz) sz"
proof unfold_locales
  fix m m' :: mem and i k v
  have "st_be m i v 2 i = ucast (drop_bit 8 v)" "st_be m i v 2 (i + 1) = ucast v"
    "st_be m i v 4 i = ucast (drop_bit 24 v)" "st_be m i v 4 (i + 1) = ucast (drop_bit 16 v)"
    "st_be m i v 4 (i + 2) = ucast (drop_bit 8 v)" "st_be m i v 4 (i + 3) = ucast v" "st_be m i v 1 i = ucast v"
    by (simp_all add: st_be_def)
  note bytes = this
  have "ld_be (st_be m i v 1) i 1 = trunc_size 1 v" "ld_be (st_be m i v 2) i 2 = trunc_size 2 v"
    "ld_be (st_be m i v 4) i 4 = trunc_size 4 v"
    using be32_join [of v] be16_join32 [of v] be8_join32 [of v]
    unfolding ld_be_def trunc_size_def bytes by simp_all
  then show "ld_be (st_be m i v sz) i sz = trunc_size sz v"
    using assms by blast
  show "k < i \<or> i + sz \<le> k \<Longrightarrow> st_be m i v sz k = m k"
    using assms by (auto simp: st_be_def)
  show "i \<le> k \<Longrightarrow> k < i + sz \<Longrightarrow> st_be m i v sz k = st_be m' i v sz k"
    using assms by (auto simp: st_be_def)
  show "(\<And>k. i \<le> k \<Longrightarrow> k < i + sz \<Longrightarrow> m k = m' k) \<Longrightarrow> ld_be m i sz = ld_be m' i sz"
    using assms by (auto simp: ld_be_def)
qed

interpretation be1: codec "\<lambda>m i v. st_be m i v 1" "\<lambda>m i. ld_be m i 1" "trunc_size 1" 1
  by (rule be_codec) simp
interpretation be2: codec "\<lambda>m i v. st_be m i v 2" "\<lambda>m i. ld_be m i 2" "trunc_size 2" 2
  by (rule be_codec) simp
interpretation be4: codec "\<lambda>m i v. st_be m i v 4" "\<lambda>m i. ld_be m i 4" "trunc_size 4" 4
  by (rule be_codec) simp

section \<open>The instruction cache\<close>

record icache_line =
  ic_tag :: u32
  ic_words :: "nat \<Rightarrow> u32"

type_synonym icache = "nat \<Rightarrow> icache_line"

definition icache_flush_all :: "icache \<Rightarrow> icache" where
  "icache_flush_all c = (\<lambda>i. if i < 256 then (c i)\<lparr>ic_tag := 0xFFFFFFFF\<rparr> else c i)"

definition icache_index :: "u32 \<Rightarrow> nat" where
  "icache_index pa = unat (drop_bit 4 pa AND 255)"

definition icache_tag :: "u32 \<Rightarrow> u32" where
  "icache_tag pa = drop_bit 12 pa"

definition icache_invalidate :: "icache \<Rightarrow> u32 \<Rightarrow> icache" where
  "icache_invalidate c pa =
     (let i = icache_index pa in
      if ic_tag (c i) = icache_tag pa then c(i := (c i)\<lparr>ic_tag := 0xFFFFFFFF\<rparr>) else c)"

section \<open>The bus\<close>

datatype mmio_dev = DUART | VRAM_ARB | VIDCTL | MEMCTL | LANCE | LANCE_SHMEM | CRTC | STUB

record mmio_region =
  r_start :: u32
  r_length :: u32
  r_dev :: mmio_dev

record bus =
  b_rom :: mem
  rom_size :: nat
  dram :: mem
  shadow :: mem
  vram :: mem
  lance_shmem :: mem
  regions :: "mmio_region list"
  last_pc :: u32
  cur_cycles :: u64
  inject_ip :: u32
  inject_mask :: u32
  inject_server :: u32
  inject_gateway :: u32
  flash :: "mem option"
  flash_size :: nat
  ecoff_bytes :: "mem option"
  ecoff_size :: nat
  ecoff_preloaded :: bool
  boot_flash :: bool
  flash_entry :: u32
  boot_flash_done :: bool
  next_irq_cycle :: u64
  cache_isolated :: bool
  lance_irq :: bool
  lance_irq_prev :: bool
  xncd_running :: bool
  b_icache :: icache
  d_duart :: duart
  d_vidctl :: vidctl
  d_memctl :: memctl
  d_crtc :: crtc
  d_chip :: lance
  mirror_prev :: u16
  mirror_cnt :: u8
  net_wired :: bool
  net_sent :: "u8 list list"

text \<open>\<open>rom_size\<close> is the length of the loaded file; \<open>mirror_prev\<close> and \<open>mirror_cnt\<close> are the static
  variables of \<open>lance_glue_mirror_csr0\<close>; \<open>net_sent\<close> is what was given to the network
  backend when one is attached (\<open>net_wired\<close>).\<close>

definition NCD15_ROM_SIZE :: nat where "NCD15_ROM_SIZE = 0x40000"
definition NCD15_DRAM_SIZE :: nat where "NCD15_DRAM_SIZE = 0x400000"
definition NCD15_VRAM_SIZE :: nat where "NCD15_VRAM_SIZE = 0x80000"
definition NCD15_LANCE_SHMEM_SIZE :: nat where "NCD15_LANCE_SHMEM_SIZE = 0x20000"
definition MAX_MMIO_REGIONS :: nat where "MAX_MMIO_REGIONS = 16"

abbreviation "NCD15_ROM_KUSEG \<equiv> 0x1FC00000 :: u32"
abbreviation "SHADOW_BASE \<equiv> 0x0EC00000 :: u32"
abbreviation "SHADOW_END \<equiv> 0x0F000000 :: u32"
abbreviation "NCD15_VRAM_PHYS \<equiv> 0x0EC80000 :: u32"

definition bus_init :: "mem \<Rightarrow> nat \<Rightarrow> bus" where
  "bus_init rom n =
     \<lparr>b_rom = rom, rom_size = n, dram = (\<lambda>_. 0), shadow = (\<lambda>_. 0), vram = (\<lambda>_. 0), lance_shmem = (\<lambda>_. 0),
      regions = [], last_pc = 0, cur_cycles = 0, inject_ip = 0, inject_mask = 0, inject_server = 0,
      inject_gateway = 0, flash = None, flash_size = 0, ecoff_bytes = None, ecoff_size = 0,
      ecoff_preloaded = False, boot_flash = False, flash_entry = 0, boot_flash_done = False,
      next_irq_cycle = 0, cache_isolated = False, lance_irq = False, lance_irq_prev = False,
      xncd_running = False, b_icache = (\<lambda>_. \<lparr>ic_tag = 0, ic_words = (\<lambda>_. 0)\<rparr>), d_duart = duart_new,
      d_vidctl = vidctl_new, d_memctl = memctl_new, d_crtc = crtc_new, d_chip = lance_zero,
      mirror_prev = 0, mirror_cnt = 0, net_wired = False, net_sent = []\<rparr>"

text \<open>A table that is full ends the program.\<close>

definition bus_add_mmio :: "bus \<Rightarrow> mmio_region \<Rightarrow> bus option" where
  "bus_add_mmio b r =
     (if length (regions b) \<ge> MAX_MMIO_REGIONS then None else Some (b\<lparr>regions := regions b @ [r]\<rparr>))"

definition in_region :: "u32 \<Rightarrow> mmio_region \<Rightarrow> bool" where
  "in_region pa r \<longleftrightarrow> r_start r \<le> pa \<and> pa < r_start r + r_length r"

definition find_mmio :: "bus \<Rightarrow> u32 \<Rightarrow> mmio_region option" where
  "find_mmio b pa = find (in_region pa) (regions b)"

section \<open>The window on the Ethernet controller's memory\<close>

definition lance_shmem_off :: "u32 \<Rightarrow> nat" where
  "lance_shmem_off off = unat (push_bit 1 (drop_bit 2 off) OR (off AND 1))"

definition lance_shmem_mmio_read :: "bus \<Rightarrow> u32 \<Rightarrow> nat \<Rightarrow> u32" where
  "lance_shmem_mmio_read b off sz =
     (if sz = 1 then
        (let s = lance_shmem_off off in
         if s \<ge> NCD15_LANCE_SHMEM_SIZE then 0xFF else ucast (lance_shmem b s))
      else
        (let s0 = lance_shmem_off (off AND NOT 3) in
         if s0 + 1 \<ge> NCD15_LANCE_SHMEM_SIZE then 0xFFFFFFFF
         else push_bit 8 (ucast (lance_shmem b s0)) OR ucast (lance_shmem b (s0 + 1))))"

definition lance_shmem_mmio_write :: "bus \<Rightarrow> u32 \<Rightarrow> u32 \<Rightarrow> nat \<Rightarrow> bus" where
  "lance_shmem_mmio_write b off v sz =
     (if sz = 1 then
        (let s = lance_shmem_off off in
         if s < NCD15_LANCE_SHMEM_SIZE then b\<lparr>lance_shmem := (lance_shmem b)(s := ucast v)\<rparr> else b)
      else
        (let s0 = lance_shmem_off (off AND NOT 3) in
         if s0 + 1 \<ge> NCD15_LANCE_SHMEM_SIZE then b
         else b\<lparr>lance_shmem := (lance_shmem b)(s0 := ucast (drop_bit 8 v), s0 + 1 := ucast v)\<rparr>))"

section \<open>Device reads\<close>

text \<open>\<open>lance_glue.c\<close>: which of the two registers an offset of the read window selects.\<close>

definition lance_read_offset_to_reg :: "u32 \<Rightarrow> nat option" where
  "lance_read_offset_to_reg off =
     (let k = off AND 0xE in
      if k = 4 then Some 1 else if k = 6 then Some 0 else if k = 8 then Some 0
      else if k = 0xA then Some 1 else None)"

definition lance_mmio_read :: "lance \<Rightarrow> u32 \<Rightarrow> u32" where
  "lance_mmio_read l off =
     (case lance_read_offset_to_reg off of None \<Rightarrow> 0 | Some reg \<Rightarrow> ucast (lance_regs_r l reg))"

definition dev_read :: "mmio_dev \<Rightarrow> u32 \<Rightarrow> nat \<Rightarrow> bus \<Rightarrow> (u32 \<times> bus) option" where
  "dev_read d off sz b =
     (case d of
        DUART \<Rightarrow> map_option (\<lambda>(v, x). (v, b\<lparr>d_duart := x\<rparr>)) (duart_read (d_duart b) off)
      | VRAM_ARB \<Rightarrow> Some (vram_arb_read off sz, b)
      | VIDCTL \<Rightarrow> Some (vidctl_read (d_vidctl b) off, b)
      | MEMCTL \<Rightarrow> Some (memctl_read (d_memctl b) off, b)
      | LANCE \<Rightarrow> Some (lance_mmio_read (d_chip b) off, b)
      | LANCE_SHMEM \<Rightarrow> Some (lance_shmem_mmio_read b off sz, b)
      | CRTC \<Rightarrow> (let (v, x) = crtc_read (d_crtc b) off sz in Some (v, b\<lparr>d_crtc := x\<rparr>))
      | STUB \<Rightarrow> Some (stub_read off sz, b))"

section \<open>Intercepted reads of the shadow bank\<close>

definition ld_buf :: "mem \<Rightarrow> nat \<Rightarrow> nat \<Rightarrow> nat \<Rightarrow> u32 option" where
  "ld_buf m limit i sz = (if i + sz \<le> limit then Some (ld_be m i sz) else None)"

definition st_buf :: "mem \<Rightarrow> nat \<Rightarrow> nat \<Rightarrow> u32 \<Rightarrow> nat \<Rightarrow> mem option" where
  "st_buf m limit i v sz = (if i + sz \<le> limit then Some (st_be m i v sz) else None)"

definition shadow_resident :: "bus \<Rightarrow> bool" where
  "shadow_resident b \<longleftrightarrow> SHADOW_BASE \<le> last_pc b \<and> last_pc b < SHADOW_END"

text \<open>The reads that \<open>bus_read\<close> answers itself: a value, and the bus after it.\<close>

definition shadow_intercept :: "bus \<Rightarrow> u32 \<Rightarrow> nat \<Rightarrow> (u32 \<times> bus) option" where
  "shadow_intercept b pa sz =
     (if \<not> shadow_resident b then None
      else if pa = 0x0EC01440 \<and> sz = 2 then Some (1, b)
      else if pa = 0x0EC00730 \<and> sz = 4 then
        (let v = ucast (cur_cycles b div 50000) in Some (v, b\<lparr>shadow := st_be (shadow b) 0x730 v 4\<rparr>))
      else if pa = 0x0EC000C8 \<and> sz = 4 \<and> inject_ip b \<noteq> 0 then Some (inject_ip b, b)
      else if pa = 0x0EC000EC \<and> sz = 4 \<and> inject_mask b \<noteq> 0 then Some (inject_mask b, b)
      else if pa = 0x0EC00104 \<and> sz = 4 \<and> inject_server b \<noteq> 0 then Some (inject_server b, b)
      else if pa = 0x0EC000CC \<and> sz = 4 \<and> inject_gateway b \<noteq> 0 then Some (inject_gateway b, b)
      else if pa = 0x0EC0148C \<and> sz = 1 then Some (0, b)
      else if pa = 0x0EC008EC \<and> sz = 4 then Some (0xBE482006, b)
      else if pa = 0x0EC008F0 \<and> sz = 4 then Some (0xBE482004, b)
      else if pa = 0x0EC00C58 \<and> sz = 4 \<and> 0x0EC11774 \<le> last_pc b \<and> last_pc b < 0x0EC1238C then
        Some (ld_be (shadow b) 0xC58 4 AND NOT 0x200, b)
      else if pa = 0x0EC00DC0 \<and> sz = 4 then Some (0x04000000, b)
      else if pa = 0x0EC00168 \<and> sz = 1 \<and> flash b \<noteq> None then Some (1, b)
      else if pa = 0x0EC00DD4 \<and> sz = 4 \<and> flash b \<noteq> None then Some (1, b)
      else None)"

definition shadow_read :: "bus \<Rightarrow> u32 \<Rightarrow> nat \<Rightarrow> (u32 \<times> bus) option" where
  "shadow_read b pa sz =
     (case shadow_intercept b pa sz of
        Some r \<Rightarrow> Some r
      | None \<Rightarrow> map_option (\<lambda>v. (v, b)) (ld_buf (shadow b) NCD15_DRAM_SIZE (unat (pa - SHADOW_BASE)) sz))"

section \<open>The flash window\<close>

definition be_field :: "mem \<Rightarrow> nat \<Rightarrow> u32" where
  "be_field f i = push_bit 24 (ucast (f i)) OR push_bit 16 (ucast (f (i + 1)))
                  OR push_bit 8 (ucast (f (i + 2))) OR ucast (f (i + 3))"

definition ecoff_nscns :: "mem \<Rightarrow> nat" where
  "ecoff_nscns f = unat (push_bit 8 (ucast (f 2) :: u32) OR ucast (f 3))"

text \<open>
  One section of the executable is copied into the shadow bank. Reading a section header beyond the
  file is undefined, and so is a copy that leaves the bank (the end of a section is computed with 32
  bits).
\<close>

definition ecoff_section :: "mem \<Rightarrow> nat \<Rightarrow> nat \<Rightarrow> mem \<Rightarrow> mem option" where
  "ecoff_section f fsize i sh =
     (let h = 0x4C + i * 40 in
      if fsize < h + 24 then None
      else
        (let paddr = be_field f (h + 8); ssize = be_field f (h + 16); scnptr = be_field f (h + 20);
             phys = paddr AND 0x1FFFFFFF in
         if scnptr = 0 \<or> ssize = 0 then Some sh
         else if unat scnptr + unat ssize > fsize then Some sh
         else if phys < SHADOW_BASE \<or> phys + ssize > SHADOW_END then Some sh
         else if unat (phys - SHADOW_BASE) + unat ssize > NCD15_DRAM_SIZE then None
         else Some (blit sh (unat (phys - SHADOW_BASE)) f (unat scnptr) (unat ssize))))"

fun ecoff_sections :: "mem \<Rightarrow> nat \<Rightarrow> nat \<Rightarrow> nat \<Rightarrow> mem \<Rightarrow> mem option" where
  "ecoff_sections f fsize i 0 sh = Some sh"
| "ecoff_sections f fsize i (Suc n) sh =
     do { sh1 \<leftarrow> ecoff_section f fsize i sh; ecoff_sections f fsize (i + 1) n sh1 }"

definition xncd_handler :: "u32 list" where
  "xncd_handler =
     [0x401a6800, 0x401b6000, 0x00000000, 0x035bd024, 0x335b0400, 0x13600005, 0x00000000,
      0x3c1a8ee8, 0x375a3860, 0x03400008, 0x00000000,
      0x3c1b8eec, 0x977a2d9c, 0x00000000, 0x275a0001, 0xa77a2d9c, 0x401a6800, 0x00000000,
      0x3c1bffff, 0x377b03ff, 0x035bd024, 0x409a6800, 0x00000000, 0x401a7000, 0x00000000,
      0x03400008, 0x42000010]"

fun store_words :: "mem \<Rightarrow> nat \<Rightarrow> u32 list \<Rightarrow> mem" where
  "store_words m i [] = m"
| "store_words m i (w # ws) = store_words (st_be m i w 4) (i + 4) ws"

definition flash_preload :: "bus \<Rightarrow> bus option" where
  "flash_preload b =
     (case ecoff_bytes b of
        None \<Rightarrow> Some b
      | Some f \<Rightarrow>
          if ecoff_preloaded b \<or> ecoff_size b < 0x140 then Some b
          else
            do { sh \<leftarrow> ecoff_sections f (ecoff_size b) 0 (ecoff_nscns f) (shadow b);
                 Some (b\<lparr>shadow := sh, dram := store_words (dram b) 0x80 xncd_handler,
                         b_icache := icache_flush_all (b_icache b), ecoff_preloaded := True\<rparr>) })"

section \<open>Reading and writing\<close>

definition dram_off :: "u32 \<Rightarrow> nat" where
  "dram_off pa = unat (pa AND 0x3FFFFF)"

definition in_rom :: "u32 \<Rightarrow> bool" where
  "in_rom pa \<longleftrightarrow> NCD15_ROM_KUSEG \<le> pa \<and> pa < NCD15_ROM_KUSEG + of_nat NCD15_ROM_SIZE"

definition in_shadow :: "u32 \<Rightarrow> bool" where
  "in_shadow pa \<longleftrightarrow> SHADOW_BASE \<le> pa \<and> pa < SHADOW_END"

definition in_flash :: "bus \<Rightarrow> u32 \<Rightarrow> bool" where
  "in_flash b pa \<longleftrightarrow> flash b \<noteq> None \<and> 0x1F800000 \<le> pa \<and> unat pa < 0x1F800000 + flash_size b"

definition in_vram :: "u32 \<Rightarrow> bool" where
  "in_vram pa \<longleftrightarrow> NCD15_VRAM_PHYS \<le> pa \<and> pa < NCD15_VRAM_PHYS + of_nat NCD15_VRAM_SIZE"

definition bus_read :: "bus \<Rightarrow> u32 \<Rightarrow> nat \<Rightarrow> (u32 \<times> bus) option" where
  "bus_read b va sz =
     (let pa = mips_va_to_pa va in
      if in_rom pa then
        map_option (\<lambda>v. (v, b)) (ld_buf (b_rom b) (rom_size b) (unat (pa - NCD15_ROM_KUSEG)) sz)
      else if in_shadow pa then shadow_read b pa sz
      else if in_flash b pa then
        do { b1 \<leftarrow> flash_preload b;
             v \<leftarrow> ld_buf (the (flash b)) (flash_size b) (unat (pa - 0x1F800000)) sz;
             Some (v, b1) }
      else if pa < SHADOW_BASE then
        map_option (\<lambda>v. (v, b)) (ld_buf (dram b) NCD15_DRAM_SIZE (dram_off pa) sz)
      else
        (case find_mmio b pa of
           Some r \<Rightarrow> dev_read (r_dev r) (pa - r_start r) sz b
         | None \<Rightarrow>
             if in_vram pa then
               map_option (\<lambda>v. (v, b)) (ld_buf (vram b) NCD15_VRAM_SIZE (unat (pa - NCD15_VRAM_PHYS)) sz)
             else Some (0xFFFFFFFF, b)))"

text \<open>
  The devices without the Ethernet registers. A write to those may make the chip read and write memory
  through the bus again; \<open>Lance_Glue\<close> adds it on top. \<open>bus_write_gen\<close> has the device writes as an
  argument.
\<close>

type_synonym dev_writes = "mmio_dev \<Rightarrow> u32 \<Rightarrow> u32 \<Rightarrow> nat \<Rightarrow> bus \<Rightarrow> bus option"

definition dev_write0 :: dev_writes where
  "dev_write0 d off v sz b =
     (case d of
        DUART \<Rightarrow> map_option (\<lambda>x. b\<lparr>d_duart := x\<rparr>) (duart_write (d_duart b) off v)
      | VRAM_ARB \<Rightarrow> Some b
      | VIDCTL \<Rightarrow> Some (b\<lparr>d_vidctl := vidctl_write (d_vidctl b) off v\<rparr>)
      | MEMCTL \<Rightarrow> Some (b\<lparr>d_memctl := memctl_write (d_memctl b) off v\<rparr>)
      | LANCE \<Rightarrow> None
      | LANCE_SHMEM \<Rightarrow> Some (lance_shmem_mmio_write b off v sz)
      | CRTC \<Rightarrow> Some (b\<lparr>d_crtc := crtc_write (d_crtc b) off v sz\<rparr>)
      | STUB \<Rightarrow> Some b)"

definition bus_write_gen :: "dev_writes \<Rightarrow> bus \<Rightarrow> u32 \<Rightarrow> u32 \<Rightarrow> nat \<Rightarrow> bus option" where
  "bus_write_gen dw b va v sz =
     (let pa = mips_va_to_pa va in
      if in_rom pa then Some b
      else if cache_isolated b then Some b
      else if in_shadow pa then
        map_option (\<lambda>m. b\<lparr>shadow := m\<rparr>) (st_buf (shadow b) NCD15_DRAM_SIZE (unat (pa - SHADOW_BASE)) v sz)
      else if pa < SHADOW_BASE then
        map_option (\<lambda>m. b\<lparr>dram := m\<rparr>) (st_buf (dram b) NCD15_DRAM_SIZE (dram_off pa) v sz)
      else
        (case find_mmio b pa of
           Some r \<Rightarrow> dw (r_dev r) (pa - r_start r) v sz b
         | None \<Rightarrow>
             if in_vram pa then
               map_option (\<lambda>m. b\<lparr>vram := m\<rparr>) (st_buf (vram b) NCD15_VRAM_SIZE (unat (pa - NCD15_VRAM_PHYS)) v sz)
             else Some b))"

section \<open>The RAM banks\<close>

lemma ld_st_be:
  assumes "sz \<in> {1, 2, 4}"
  shows "ld_be (st_be m i v sz) i sz = trunc_size sz v"
  using assms be1.get_put be2.get_put be4.get_put by blast

lemma ld_st_be_other:
  assumes "sz \<in> {1, 2, 4}" "sz' \<in> {1, 2, 4}" "j + sz' \<le> i \<or> i + sz \<le> j"
  shows "ld_be (st_be m i v sz) j sz' = ld_be m j sz'"
proof -
  have "st_be m i v sz k = m k" if "j \<le> k" "k < j + sz'" for k
    using that assms(1,3) be1.put_frame [of k i m v] be2.put_frame [of k i m v] be4.put_frame [of k i m v] by auto
  then show ?thesis
    using assms(2) be1.get_cong [of j "st_be m i v sz" m] be2.get_cong [of j "st_be m i v sz" m]
      be4.get_cong [of j "st_be m i v sz" m] by auto
qed

text \<open>The bank and offset a physical address of RAM stands for.\<close>

datatype bank = Dram | Shadow

definition ram_cell :: "u32 \<Rightarrow> (bank \<times> nat) option" where
  "ram_cell pa = (if pa < SHADOW_BASE then Some (Dram, dram_off pa)
     else if in_shadow pa then Some (Shadow, unat (pa - SHADOW_BASE)) else None)"

definition bank_mem :: "bank \<Rightarrow> bus \<Rightarrow> mem" where
  "bank_mem k b = (case k of Dram \<Rightarrow> dram b | Shadow \<Rightarrow> shadow b)"

lemma ram_not_rom: "ram_cell pa = Some c \<Longrightarrow> \<not> in_rom pa"
  by (auto simp: ram_cell_def in_rom_def in_shadow_def NCD15_ROM_SIZE_def word_less_nat_alt word_le_nat_alt split: if_splits)

lemma ram_read:
  assumes "ram_cell (mips_va_to_pa va) = Some (k, i)" "shadow_intercept b (mips_va_to_pa va) sz = None"
  shows "bus_read b va sz = map_option (\<lambda>v. (v, b)) (ld_buf (bank_mem k b) NCD15_DRAM_SIZE i sz)"
  using assms ram_not_rom [OF assms(1)]
  by (auto simp: bus_read_def Let_def ram_cell_def bank_mem_def shadow_read_def in_flash_def in_shadow_def
      word_less_nat_alt word_le_nat_alt split: if_splits option.splits)

lemma ram_write:
  assumes "ram_cell (mips_va_to_pa va) = Some (k, i)" "\<not> cache_isolated b"
  shows "bus_write_gen dw b va v sz = map_option (\<lambda>m. case k of Dram \<Rightarrow> b\<lparr>dram := m\<rparr> | Shadow \<Rightarrow> b\<lparr>shadow := m\<rparr>)
     (st_buf (bank_mem k b) NCD15_DRAM_SIZE i v sz)"
  using assms ram_not_rom [OF assms(1)]
  by (auto simp: bus_write_gen_def Let_def ram_cell_def bank_mem_def in_shadow_def
      word_less_nat_alt word_le_nat_alt split: if_splits option.splits)

lemma intercept_mem_independent:
  "(shadow_intercept (b\<lparr>dram := m\<rparr>) pa sz = None) = (shadow_intercept b pa sz = None)"
  "(shadow_intercept (b\<lparr>shadow := m\<rparr>) pa sz = None) = (shadow_intercept b pa sz = None)"
  by (cases "flash b"; simp add: shadow_intercept_def shadow_resident_def Let_def)+

text \<open>
  C6: RAM behaves as memory. After a store that is not suppressed by cache isolation, a load of the
  same size from any address that stands for the same cell (another segment, another 4 MiB alias of the
  DRAM) returns the stored value cut to the size, and a load from a disjoint place or the other bank
  returns what it did before. Loads the emulator intercepts are excluded.
\<close>

theorem ram_coherent:
  assumes w: "bus_write_gen dw b va v sz = Some b'" "\<not> cache_isolated b" "sz \<in> {1, 2, 4}"
    and c: "ram_cell (mips_va_to_pa va) = Some (k, i)"
    and r: "ram_cell (mips_va_to_pa va') = Some (k', j)" "sz' \<in> {1, 2, 4}"
      "shadow_intercept b (mips_va_to_pa va') sz' = None"
  shows "(k' = k \<and> j = i \<and> sz' = sz \<longrightarrow> bus_read b' va' sz' = Some (trunc_size sz v, b'))
     \<and> (k' \<noteq> k \<or> j + sz' \<le> i \<or> i + sz \<le> j \<longrightarrow>
          map_option fst (bus_read b' va' sz') = map_option fst (bus_read b va' sz'))"
proof -
  from w(1) ram_write [OF c w(2), of dw v sz] obtain m where
    m: "st_buf (bank_mem k b) NCD15_DRAM_SIZE i v sz = Some m"
    and b': "b' = (case k of Dram \<Rightarrow> b\<lparr>dram := m\<rparr> | Shadow \<Rightarrow> b\<lparr>shadow := m\<rparr>)" by auto
  have "shadow_intercept b' (mips_va_to_pa va') sz' = None"
    using r(3) by (auto simp: b' intercept_mem_independent split: bank.split)
  note read = ram_read [OF r(1) this] ram_read [OF r(1,3)]
  have st: "m = st_be (bank_mem k b) i v sz" "i + sz \<le> NCD15_DRAM_SIZE"
    using m by (auto simp: st_buf_def split: if_splits)
  have banks: "bank_mem k' b' = (if k' = k then m else bank_mem k' b)"
    by (auto simp: bank_mem_def b' split: bank.split)
  have "bus_read b' va' sz' = Some (trunc_size sz v, b')" if "k' = k" "j = i" "sz' = sz"
  proof -
    have "bank_mem k b' = m" using banks that(1) by simp
    moreover have "ld_be m i sz = trunc_size sz v" unfolding st(1) by (rule ld_st_be [OF w(3)])
    ultimately show ?thesis unfolding read(1) using that st(2) by (simp add: ld_buf_def)
  qed
  moreover have "map_option fst (bus_read b' va' sz') = map_option fst (bus_read b va' sz')"
    if "k' \<noteq> k \<or> j + sz' \<le> i \<or> i + sz \<le> j"
  proof (cases "k' = k")
    case True
    have "bank_mem k' b' = m" using banks True by simp
    moreover have "ld_be m j sz' = ld_be (bank_mem k' b) j sz'"
      using that True unfolding st(1) by (simp add: ld_st_be_other [OF w(3) r(2)])
    ultimately show ?thesis unfolding read by (simp add: ld_buf_def)
  next
    case False
    then have "bank_mem k' b' = bank_mem k' b" by (cases k; cases k') (auto simp: bank_mem_def b')
    then show ?thesis by (simp add: read option.map_comp comp_def)
  qed
  ultimately show ?thesis by blast
qed


lemma ram_coherent_witness:
  "\<exists>b'. bus_write_gen dev_write0 (bus_init (\<lambda>_. 0) 0x40000) 0x80000100 0xDEADBEEF 4 = Some b'
     \<and> bus_read b' 0x00400100 4 = Some (0xDEADBEEF, b')"
proof -
  let ?b = "bus_init (\<lambda>_. 0) 0x40000"
  have c: "ram_cell (mips_va_to_pa 0x80000100) = Some (Dram, 0x100)" "ram_cell (mips_va_to_pa 0x00400100) = Some (Dram, 0x100)"
    by (simp_all add: ram_cell_def mips_va_to_pa_def dram_off_def)
  obtain b' where b': "bus_write_gen dev_write0 ?b 0x80000100 0xDEADBEEF 4 = Some b'"
    by (simp add: ram_write [OF c(1)] bus_init_def st_buf_def bank_mem_def NCD15_DRAM_SIZE_def)
  have "\<not> cache_isolated ?b" "shadow_intercept ?b (mips_va_to_pa 0x00400100) 4 = None"
    by (simp_all add: bus_init_def shadow_intercept_def shadow_resident_def)
  with ram_coherent [OF b' _ _ c(1) c(2), of 4] b' show ?thesis
    by (auto simp: trunc_size_def)
qed

section \<open>Which accesses are defined\<close>

lemma aligned_fits:
  assumes "sz dvd i" "sz dvd n" "i < n"
  shows "i + sz \<le> (n :: nat)"
proof -
  from assms(1,2) obtain a c where "i = sz * a" "n = sz * c" by (auto elim!: dvdE)
  with assms(3) have "sz * Suc a \<le> sz * c" by (intro mult_le_mono2) (simp add: Suc_le_eq)
  then show ?thesis using \<open>i = sz * a\<close> \<open>n = sz * c\<close> by simp
qed

lemma va_pa_unat:
  "unat (mips_va_to_pa va) = unat va - (if va \<ge> 0xC0000000 then 0 else if va \<ge> 0xA0000000 then 0xA0000000
     else if va \<ge> 0x80000000 then 0x80000000 else 0)"
  by (auto simp: mips_va_to_pa_def unat_sub word_le_nat_alt)

lemma aligned_pa:
  assumes "sz \<in> {1, 2, 4}" "sz dvd unat va"
  shows "sz dvd unat (mips_va_to_pa va)"
  using assms unfolding va_pa_unat by (auto intro!: dvd_diff_nat)

lemma aligned_sub:
  assumes "sz dvd unat a" "sz dvd unat c" "c \<le> a"
  shows "sz dvd unat (a - c :: u32)"
  using assms by (simp add: unat_sub word_le_nat_alt dvd_diff_nat)

lemma dram_off_mod: "dram_off pa = unat pa mod 0x400000"
proof -
  have m: "(0x3FFFFF :: u32) = mask 22" by (simp add: mask_eq_exp_minus_1)
  show ?thesis unfolding dram_off_def m unat_and_mask by simp
qed

lemma duart_low: "unat off < 64 \<Longrightarrow> duart_reg off < DUART_NREGS"
  by (simp add: duart_reg_def DUART_NREGS_def) 

lemma duart_read_low: "unat off < 64 \<Longrightarrow> duart_read d off \<noteq> None"
  using duart_low [of off] by (auto simp: duart_read_def Let_def split: prod.splits)

lemma duart_write_low: "unat off < 64 \<Longrightarrow> duart_write d off v \<noteq> None"
  using duart_low [of off] by (auto simp: duart_write_def Let_def)

text \<open>The ROM file has its full size, and the flash window will not be unpacked any more.\<close>

definition bus_whole :: "bus \<Rightarrow> bool" where
  "bus_whole b \<longleftrightarrow> rom_size b = NCD15_ROM_SIZE
     \<and> (flash b \<noteq> None \<longrightarrow> 4 dvd flash_size b \<and> (ecoff_preloaded b \<or> ecoff_bytes b = None))"

definition hits :: "mmio_dev \<Rightarrow> bus \<Rightarrow> u32 \<Rightarrow> u32 \<Rightarrow> bool" where
  "hits d b pa lim \<longleftrightarrow> (\<exists>r. find_mmio b pa = Some r \<and> r_dev r = d \<and> lim \<le> pa - r_start r)"

lemma ld_buf_Some: "i + sz \<le> n \<Longrightarrow> ld_buf m n i sz = Some (ld_be m i sz)"
  by (simp add: ld_buf_def)

lemma offset_fits:
  assumes "sz \<in> {1, 2, 4}" "sz dvd unat pa" "4 dvd unat base" "4 dvd n" "base \<le> pa" "unat pa < unat base + n"
  shows "unat (pa - base :: u32) + sz \<le> n"
proof (rule aligned_fits)
  have "sz dvd 4" using assms(1) by auto
  then show "sz dvd n" "sz dvd unat (pa - base)"
    using assms by (auto intro: aligned_sub dvd_trans)
  show "unat (pa - base) < n" using assms(5,6) by (simp add: unat_sub word_le_nat_alt)
qed

text \<open>
  C7: On a machine with a full ROM image and a settled flash card, an aligned load of any address, of
  any of the three sizes, is defined: it stays inside the buffers. The only exception is the upper half
  of the DUART's register window.
\<close>

theorem bus_read_defined:
  assumes "bus_whole b" "sz \<in> {1, 2, 4}" "sz dvd unat va" "\<not> hits DUART b (mips_va_to_pa va) 64"
  shows "bus_read b va sz \<noteq> None"
proof -
  let ?pa = "mips_va_to_pa va"
  note al = assms(2) aligned_pa [OF assms(2,3)]
  consider (rom) "in_rom ?pa" | (shadow) "\<not> in_rom ?pa" "in_shadow ?pa" | (flash) "\<not> in_rom ?pa" "\<not> in_shadow ?pa" "in_flash b ?pa"
    | (dram) "\<not> in_rom ?pa" "\<not> in_shadow ?pa" "\<not> in_flash b ?pa" "?pa < SHADOW_BASE"
    | (dev) "\<not> in_rom ?pa" "\<not> in_shadow ?pa" "\<not> in_flash b ?pa" "\<not> ?pa < SHADOW_BASE" by blast
  then show ?thesis
  proof cases
    case rom
    then have "unat (?pa - NCD15_ROM_KUSEG) + sz \<le> NCD15_ROM_SIZE"
      by (intro offset_fits al) (auto simp: in_rom_def NCD15_ROM_SIZE_def word_less_nat_alt)
    with rom assms(1) show ?thesis by (simp add: bus_read_def Let_def bus_whole_def ld_buf_Some)
  next
    case shadow
    then have "unat (?pa - SHADOW_BASE) + sz \<le> NCD15_DRAM_SIZE"
      by (intro offset_fits al) (auto simp: in_shadow_def NCD15_DRAM_SIZE_def word_less_nat_alt)
    with shadow show ?thesis
      by (auto simp: bus_read_def Let_def shadow_read_def ld_buf_Some split: option.splits)
  next
    case flash
    then have "unat (?pa - 0x1F800000) + sz \<le> flash_size b"
      using assms(1) by (intro offset_fits al) (auto simp: in_flash_def bus_whole_def)
    with flash assms(1) show ?thesis
      by (auto simp: bus_read_def Let_def bus_whole_def ld_buf_Some in_flash_def flash_preload_def split: option.splits)
  next
    case dram
    have "dram_off ?pa + sz \<le> NCD15_DRAM_SIZE"
      unfolding dram_off_mod NCD15_DRAM_SIZE_def
      using al by (intro aligned_fits dvd_mod) auto
    with dram show ?thesis by (simp add: bus_read_def Let_def ld_buf_Some)
  next
    case dev
    have vram: "\<not> in_vram ?pa" 
      using dev by (auto simp: in_vram_def in_shadow_def NCD15_VRAM_SIZE_def word_less_nat_alt word_le_nat_alt)
    show ?thesis
    proof (cases "find_mmio b ?pa")
      case None
      then show ?thesis using dev vram by (simp add: bus_read_def Let_def)
    next
      case (Some r)
      have "dev_read (r_dev r) (?pa - r_start r) sz b \<noteq> None"
        using assms(4) Some duart_read_low [of "?pa - r_start r" "d_duart b"]
        by (auto simp: dev_read_def hits_def word_le_nat_alt not_le Let_def split: mmio_dev.splits prod.splits)
      then show ?thesis using dev Some by (simp add: bus_read_def Let_def)
    qed
  qed
qed


lemma bus_read_defined_witness: "bus_read (bus_init (\<lambda>_. 0) 0x40000) 0xBFC00004 4 \<noteq> None"
  by (rule bus_read_defined)
    (simp_all add: bus_whole_def bus_init_def NCD15_ROM_SIZE_def hits_def find_mmio_def)

text \<open>The CPU model does not trap unaligned loads: one at the end of a bank leaves the buffer.\<close>

lemma unaligned_overrun: "bus_read b 0xAEFFFFFE 4 = None"
  by (simp add: bus_read_def mips_va_to_pa_def in_rom_def in_shadow_def shadow_read_def shadow_intercept_def
      ld_buf_def NCD15_ROM_SIZE_def NCD15_DRAM_SIZE_def)

section \<open>The byte lanes of the shared-memory window\<close>

lemma shmem_off: "lance_shmem_off off = 2 * (unat off div 4) + unat off mod 2"
proof -
  have "push_bit 1 (drop_bit 2 off) OR (off AND 1) = push_bit 1 (drop_bit 2 off) + (off AND 1)"
    by (rule disjunctive_add [symmetric], unfold bit_push_bit_iff bit_and_iff bit_1_iff) simp
  moreover have "unat (push_bit 1 (drop_bit 2 off)) = 2 * (unat off div 4)"
  proof -
    have "unat off < 2 ^ 32" using unsigned_less [of off] by simp
    then have "2 * (unat off div 4) < 2 ^ 32" by simp
    then show ?thesis
      by (simp add: push_bit_eq_mult unat_word_ariths unat_drop_bit_eq drop_bit_eq_div)
  qed
  moreover have "unat (off AND 1) = unat off mod 2"
    using unat_and_mask [of off 1] by (simp add: mask_eq_exp_minus_1)
  moreover have "2 * (unat off div 4) + unat off mod 2 < 2 ^ 32"
  proof -
    have "unat off < 2 ^ 32" using unsigned_less [of off] by simp
    then have "2 * (unat off div 4) < 2 ^ 31" by simp
    then show ?thesis by simp
  qed
  ultimately show ?thesis by (simp add: lance_shmem_off_def unat_word_ariths)
qed


lemma word_aligned: "unat (off AND NOT 3 :: u32) = 4 * (unat off div 4)"
proof -
  have m: "(3 :: u32) = mask 2" by (simp add: mask_eq_exp_minus_1)
  have "off AND NOT 3 = push_bit 2 (drop_bit 2 off)"
    unfolding m by (rule bit_word_eqI) (auto simp: bit_simps not_less dest!: le_Suc_ex)
  moreover have "unat (push_bit 2 (drop_bit 2 off)) = 4 * (unat off div 4)"
  proof -
    have u: "unat off < 2 ^ 32" using unsigned_less [of off] by simp
    then have "unat off div 4 < 2 ^ 30" by (simp add: less_mult_imp_div_less)
    then show ?thesis by (simp add: push_bit_eq_mult unat_word_ariths unat_drop_bit_eq drop_bit_eq_div)
  qed
  ultimately show ?thesis by simp
qed

lemma shmem_off_word: "lance_shmem_off (off AND NOT 3) = 2 * (unat off div 4)"
  unfolding shmem_off word_aligned by simp

text \<open>
  The window on the controller's memory. A halfword or word written at any offset of a four-byte
  slot is read back as a halfword through both lanes of the slot, its bytes through the even and odd
  offsets of either lane, and no other slot changes.
\<close>

theorem shmem_lanes:
  fixes b :: bus and v :: u32
  assumes "unat off < 0x40000" "unat off' < 0x40000" "sz \<noteq> 1"
  defines "b' \<equiv> lance_shmem_mmio_write b off v sz"
  shows "lance_shmem_mmio_read b' off' 2 =
           (if unat off' div 4 = unat off div 4 then v AND 0xFFFF else lance_shmem_mmio_read b off' 2)
     \<and> lance_shmem_mmio_read b' off' 1 =
           (if unat off' div 4 \<noteq> unat off div 4 then lance_shmem_mmio_read b off' 1
            else if even (unat off') then drop_bit 8 v AND 0xFF else v AND 0xFF)"
proof -
  have lim: "2 * (unat off div 4) + 1 < NCD15_LANCE_SHMEM_SIZE" "2 * (unat off' div 4) + 1 < NCD15_LANCE_SHMEM_SIZE"
    using less_mult_imp_div_less [of "unat off" "0x10000" 4] less_mult_imp_div_less [of "unat off'" "0x10000" 4] assms(1,2)
    by (auto simp: NCD15_LANCE_SHMEM_SIZE_def)
  have b': "b' = b\<lparr>lance_shmem := (lance_shmem b)(2 * (unat off div 4) := ucast (drop_bit 8 v), 2 * (unat off div 4) + 1 := ucast v)\<rparr>"
    using lim assms(3) unfolding b'_def lance_shmem_mmio_write_def Let_def shmem_off_word by simp
  have neq: "2 * a \<noteq> Suc (2 * c)" "Suc (2 * c) \<noteq> 2 * a" for a c :: nat by presburger+
  have h: "lance_shmem_mmio_read b' off' 2 =
           (if unat off' div 4 = unat off div 4 then v AND 0xFFFF else lance_shmem_mmio_read b off' 2)"
    using lim be16_join32 [of v] unfolding lance_shmem_mmio_read_def Let_def shmem_off_word by (simp add: b' neq)
  have l: "lance_shmem_off off' = 2 * (unat off' div 4) + unat off' mod 2" by (rule shmem_off)
  have "lance_shmem_mmio_read b' off' 1 =
           (if unat off' div 4 \<noteq> unat off div 4 then lance_shmem_mmio_read b off' 1
            else if even (unat off') then drop_bit 8 v AND 0xFF else v AND 0xFF)"
    using lim be8_join32 [of v] be8_join32 [of "drop_bit 8 v"]
    by (cases "even (unat off')") (auto simp: lance_shmem_mmio_read_def Let_def l b' neq odd_iff_mod_2_eq_one even_iff_mod_2_eq_zero)
  with h show ?thesis by blast
qed

lemma shmem_lanes_witness:
  "lance_shmem_mmio_read (lance_shmem_mmio_write (bus_init (\<lambda>_. 0) 0x40000) 8 0xBEEF 2) 10 2 = 0xBEEF"
  using shmem_lanes [of 8 10 2 "bus_init (\<lambda>_. 0) 0x40000" "0xBEEF"] by simp

end
