(* ===== verification/Lance_Glue.thy ===== *)
theory Lance_Glue
  imports Memory Lance_Host
begin

text \<open>
  \<open>emulator/src/lance_glue.c\<close>: the Ethernet controller on the NCD15's bus. Its DMA goes to the shadow
  bank through the bus, its registers appear in a window of sixteen bytes, and received frames get a
  check sequence before the chip sees them. With it the write side of the bus is complete.
\<close>

section \<open>The callbacks\<close>

text \<open>
  DMA addresses have 24 bits, so the accesses of the chip are in the shadow bank or just above it, never
  in its own registers; \<open>dev_write0\<close> suffices for them.
\<close>

definition dma_va :: "u32 \<Rightarrow> u32" where
  "dma_va addr = 0x0EC00000 + (addr AND 0xFFFFFE)"

definition glue_dma_in :: "u32 \<Rightarrow> bus \<Rightarrow> (u16 \<times> bus) option" where
  "glue_dma_in addr b = map_option (\<lambda>(v, b1). (ucast v, b1)) (bus_read b (dma_va addr) 2)"

definition glue_dma_out :: "u32 \<Rightarrow> u16 \<Rightarrow> bus \<Rightarrow> bus option" where
  "glue_dma_out addr d b = bus_write_gen dev_write0 b (dma_va addr) (ucast d) 2"

definition lance_intr :: "bool \<Rightarrow> bus \<Rightarrow> bus" where
  "lance_intr state b = b\<lparr>lance_irq := \<not> state\<rparr>"

definition lance_send_frame :: "u8 list \<Rightarrow> bus \<Rightarrow> bus" where
  "lance_send_frame buf b = (if net_wired b then b\<lparr>net_sent := net_sent b @ [buf]\<rparr> else b)"

definition glue_cb :: "bus lance_cb" where
  "glue_cb = \<lparr>dma_in_cb = Some glue_dma_in, dma_out_cb = Some glue_dma_out, intr_out_cb = Some lance_intr,
     send_cb = Some lance_send_frame\<rparr>"

text \<open>An operation of the chip on the machine: the chip is a field of the bus it masters.\<close>

definition on_chip :: "(lance \<Rightarrow> bus \<Rightarrow> (lance \<times> bus) option) \<Rightarrow> bus \<Rightarrow> bus option" where
  "on_chip f b = map_option (\<lambda>(l, b1). b1\<lparr>d_chip := l\<rparr>) (f (d_chip b) b)"

section \<open>Registers\<close>

definition lance_write_offset_to_reg :: "u32 \<Rightarrow> nat option" where
  "lance_write_offset_to_reg off =
     (let k = off AND 0xE in if k = 4 then Some 1 else if k = 6 then Some 0 else None)"

definition lance_mmio_write :: "u32 \<Rightarrow> u32 \<Rightarrow> bus \<Rightarrow> bus option" where
  "lance_mmio_write off v b =
     (case lance_write_offset_to_reg off of
        None \<Rightarrow> Some b
      | Some reg \<Rightarrow> on_chip (\<lambda>l. lance_regs_w glue_cb l reg (ucast v)) b)"

definition dev_write :: dev_writes where
  "dev_write d off v sz b = (if d = LANCE then lance_mmio_write off v b else dev_write0 d off v sz b)"

definition bus_write :: "bus \<Rightarrow> u32 \<Rightarrow> u32 \<Rightarrow> nat \<Rightarrow> bus option" where
  "bus_write = bus_write_gen dev_write"

definition lance_glue_new :: "bus \<Rightarrow> bus" where
  "lance_glue_new b =
     (let (l, b1) = lance_reset glue_cb (lance_init LANCE_AM79C90) b in b1\<lparr>d_chip := l\<rparr>)"

section \<open>Received frames\<close>

definition eth_crc_byte :: "u32 \<Rightarrow> u8 \<Rightarrow> u32" where
  "eth_crc_byte crc d = ((\<lambda>c. drop_bit 1 c XOR (0xEDB88320 AND - (c AND 1))) ^^ 8) (crc XOR ucast d)"

definition eth_crc32 :: "u8 list \<Rightarrow> u32" where
  "eth_crc32 data = NOT (foldl eth_crc_byte 0xFFFFFFFF data)"

definition be_bytes :: "u8 list \<Rightarrow> nat \<Rightarrow> u32" where
  "be_bytes buf i = push_bit 24 (ucast (buf ! i)) OR push_bit 16 (ucast (buf ! (i + 1)))
     OR push_bit 8 (ucast (buf ! (i + 2))) OR ucast (buf ! (i + 3))"

fun store_bytes :: "mem \<Rightarrow> nat \<Rightarrow> u8 list \<Rightarrow> mem" where
  "store_bytes m i [] = m"
| "store_bytes m i (x # xs) = store_bytes (m(i := x)) (i + 1) xs"

definition arp_snoop :: "u8 list \<Rightarrow> bus \<Rightarrow> bus" where
  "arp_snoop buf b =
     (if 42 \<le> length buf \<and> buf ! 12 = 0x08 \<and> buf ! 13 = 0x06 \<and> buf ! 20 = 0x00 \<and> buf ! 21 = 0x02
         \<and> inject_server b \<noteq> 0 \<and> be_bytes buf 28 = inject_server b
      then (let m = store_bytes (shadow b) 0xFE (take 6 (drop 22 buf)) in
            b\<lparr>shadow := m(0x9A3 := m 0x9A3 OR 0x02)\<rparr>)
      else b)"

definition eth_fcs :: "u8 list \<Rightarrow> u8 list" where
  "eth_fcs buf = (let crc = eth_crc32 buf in
     [ucast (crc AND 0xFF), ucast (drop_bit 8 crc AND 0xFF), ucast (drop_bit 16 crc AND 0xFF), ucast (drop_bit 24 crc AND 0xFF)])"

definition lance_glue_recv :: "bus \<Rightarrow> u8 list \<Rightarrow> bus option" where
  "lance_glue_recv b buf =
     (let b1 = arp_snoop buf b;
          frame = (if length buf + 4 > 1600 then buf else buf @ eth_fcs buf) in
      on_chip (\<lambda>l h. map_option snd (lance_recv glue_cb l frame h)) b1)"

section \<open>Periodic work\<close>

definition csr0_mirror_idon :: "mem \<Rightarrow> mem" where
  "csr0_mirror_idon m =
     (let v = (push_bit 8 (ucast (m 0x72A)) OR ucast (m 0x72B) :: u16) OR 0x4 in
      m(0x72A := ucast (drop_bit 8 v AND 0xFF), 0x72B := ucast (v AND 0xFF)))"

definition lance_glue_mirror_csr0 :: "bus \<Rightarrow> bus" where
  "lance_glue_mirror_csr0 b =
     (let csr0 = csr (d_chip b) 0;
          b1 = (if has csr0 CSR0_STOP then b\<lparr>mirror_cnt := 0\<rparr> else b) in
      if csr0 = CSR0_STOP \<or> csr0 = 0 then b1\<lparr>mirror_prev := csr0\<rparr>
      else if \<not> has csr0 (CSR0_IDON OR CSR0_INIT OR CSR0_STRT OR CSR0_TXON OR CSR0_RXON) then b1
      else
        (let hi = ucast (drop_bit 8 csr0 AND 0xFF); lo = ucast (csr0 AND 0xFF);
             m1 = (shadow b1)(0x8F8 := hi, 0x8F9 := lo, 0x870 := hi, 0x871 := lo);
             m2 = (if has csr0 CSR0_IDON then csr0_mirror_idon m1 else m1);
             newly = csr0 AND NOT (mirror_prev b1);
             c1 = (if has newly CSR0_IDON then mirror_cnt b1 + 1 else mirror_cnt b1);
             c2 = (if has newly CSR0_TINT then c1 + 1 else c1) in
         b1\<lparr>mirror_cnt := c2, mirror_prev := csr0, shadow := m2(0x148E := 0, 0x148F := c2)\<rparr>))"

definition lance_glue_tick :: "bus \<Rightarrow> int \<Rightarrow> bus option" where
  "lance_glue_tick b cycles = on_chip (\<lambda>l. lance_tick glue_cb l cycles) b"

section \<open>The two checksum routines\<close>

lemma crc_bit_mask: "crc_bit c = drop_bit 1 c XOR (0xEDB88320 AND - (c AND 1))"
proof (cases "bit c 0")
  case True
  then have "c AND 1 = 1" by (simp add: and_one_eq odd_iff_mod_2_eq_one bit_0)
  then show ?thesis using True by (simp add: crc_bit_def xor.commute)
next
  case False
  then have "c AND 1 = 0" by (intro bit_word_eqI) (auto simp: bit_and_iff bit_1_iff intro!: gr0I)
  then show ?thesis using False by (simp add: crc_bit_def)
qed

lemma crc_bit_xor: "crc_bit (a XOR b) = crc_bit a XOR crc_bit b"
  by (auto simp: crc_bit_def bit_xor_iff xor.assoc xor.left_commute xor.commute)

lemma crc_bits_xor: "(crc_bit ^^ n) (a XOR b) = (crc_bit ^^ n) a XOR (crc_bit ^^ n) b"
  by (induction n) (simp_all add: crc_bit_xor)

lemma crc_bit_push:
  assumes "m < 8"
  shows "crc_bit (push_bit (Suc m) (drop_bit 8 c)) = push_bit m (drop_bit 8 c)"
proof -
  have "\<not> bit (push_bit (Suc m) (drop_bit 8 c)) 0" by (simp only: bit_push_bit_iff) simp
  moreover have "drop_bit 1 (push_bit (Suc m) (drop_bit 8 c)) = push_bit m (drop_bit 8 c)"
    using assms by (intro bit_word_eqI) (auto simp: bit_drop_bit_eq bit_push_bit_iff simp del: push_bit_Suc dest: bit_imp_le_length)
  ultimately show ?thesis by (simp add: crc_bit_def)
qed

lemma crc_bits_shift: "n \<le> 8 \<Longrightarrow> (crc_bit ^^ n) (push_bit 8 (drop_bit 8 c)) = push_bit (8 - n) (drop_bit 8 c)"
proof (induction n)
  case (Suc n)
  then have e: "8 - n = Suc (8 - Suc n)" by simp
  have "(crc_bit ^^ Suc n) (push_bit 8 (drop_bit 8 c)) = crc_bit (push_bit (8 - n) (drop_bit 8 c))"
    using Suc by simp
  also have "\<dots> = push_bit (8 - Suc n) (drop_bit 8 c)"
    unfolding e by (rule crc_bit_push) simp
  finally show ?case .
qed simp

text \<open>One byte through the bitwise routine of the glue is one step of the table-driven one of the chip.\<close>

lemma eth_crc_byte_step: "eth_crc_byte c d = crc_step c d"
proof -
  let ?x = "c XOR ucast d"
  have m: "(0xFF :: u32) = mask 8" by (simp add: mask_eq_exp_minus_1)
  have x: "?x = push_bit 8 (drop_bit 8 c) XOR (?x AND 0xFF)"
    unfolding m by (rule bit_word_eqI) (auto simp: bit_simps not_less dest: bit_imp_le_length dest!: le_Suc_ex)
  have "eth_crc_byte c d = (crc_bit ^^ 8) ?x"
    by (simp only: eth_crc_byte_def crc_bit_mask [abs_def])
  also have "\<dots> = (crc_bit ^^ 8) (push_bit 8 (drop_bit 8 c)) XOR (crc_bit ^^ 8) (?x AND 0xFF)"
    by (subst x) (rule crc_bits_xor)
  also have "(crc_bit ^^ 8) (push_bit 8 (drop_bit 8 c)) = drop_bit 8 c"
    using crc_bits_shift [of 8 c] by simp
  finally show ?thesis by (simp add: crc_step_def crc_table_def xor.commute)
qed

lemma eth_crc32_eq: "eth_crc32 buf = lance_crc32 buf"
proof -
  have "foldl eth_crc_byte = foldl crc_step"
    by (simp add: fun_eq_iff eth_crc_byte_step [abs_def])
  then show ?thesis by (simp add: eth_crc32_def lance_crc32_steps)
qed

text \<open>
  The two checksum routines of the emulator, the bitwise one of the network glue and the
  table-driven one of the chip, compute the same function of every frame.
\<close>

theorem eth_crc32_table: "eth_crc32 buf = lance_crc32 buf"
  by (rule eth_crc32_eq)

section \<open>The shadow bank as the chip's memory\<close>

definition dma_window :: "u32 \<Rightarrow> bool" where
  "dma_window a \<longleftrightarrow> a AND 1 = 0 \<and> a < 0x400000 \<and> a \<noteq> 0x1440"

definition dma_cell :: "bus \<Rightarrow> u32 \<Rightarrow> u16" where
  "dma_cell b a = ucast (ld_be (shadow b) (unat a) 2)"

definition dma_ready :: "bus \<Rightarrow> bool" where
  "dma_ready b \<longleftrightarrow> \<not> cache_isolated b \<and> net_wired b"

lemma even_unat: "a AND 1 = (0 :: u32) \<longleftrightarrow> even (unat a)"
  using unat_and_mask [of a 1] by (simp add: mask_eq_exp_minus_1 word_unat_eq_iff even_iff_mod_2_eq_zero)

lemma dma_va_shadow:
  assumes "dma_window a"
  shows "mips_va_to_pa (dma_va a) = SHADOW_BASE + a" "ram_cell (SHADOW_BASE + a) = Some (Shadow, unat a)"
proof -
  have c: "(0xFFFFFE :: u32) = mask 24 AND NOT 1" by (simp add: mask_eq_exp_minus_1)
  have "a AND 0xFFFFFE = a"
    unfolding c
  proof (rule bit_word_eqI)
    fix n assume "n < LENGTH(32)"
    have "a = take_bit 22 a"
      using assms by (simp add: dma_window_def take_bit_word_eq_self word_less_nat_alt less_mask_eq take_bit_eq_mask)
    then have "bit a n \<Longrightarrow> n < 22" by (metis bit_take_bit_iff)
    moreover have "\<not> bit (a AND 1) 0" using assms by (simp add: dma_window_def)
    then have "\<not> bit a 0" by (simp add: bit_and_iff)
    ultimately show "bit (a AND (mask 24 AND NOT 1)) n = bit a n"
      by (cases "n = 0") (auto simp: bit_simps)
  qed
  then have "dma_va a = SHADOW_BASE + a" by (simp add: dma_va_def)
  moreover have u: "unat (SHADOW_BASE + a) = 0x0EC00000 + unat a"
    using assms by (simp add: dma_window_def unat_word_ariths word_less_nat_alt)
  ultimately show "mips_va_to_pa (dma_va a) = SHADOW_BASE + a"
    using assms by (simp add: mips_va_to_pa_def dma_window_def word_le_nat_alt word_less_nat_alt)
  show "ram_cell (SHADOW_BASE + a) = Some (Shadow, unat a)"
    using u assms by (simp add: ram_cell_def in_shadow_def dma_window_def word_le_nat_alt word_less_nat_alt)
qed

lemma dma_not_intercepted: "dma_window a \<Longrightarrow> shadow_intercept b (SHADOW_BASE + a) 2 = None"
  by (auto simp: shadow_intercept_def dma_window_def)

lemma dma_fits: "dma_window a \<Longrightarrow> unat a + 2 \<le> NCD15_DRAM_SIZE"
  by (rule aligned_fits) (auto simp: dma_window_def even_unat NCD15_DRAM_SIZE_def word_less_nat_alt)

lemma dma_read_cell: "dma_window a \<Longrightarrow> glue_dma_in a b = Some (dma_cell b a, b)"
  by (simp add: glue_dma_in_def ram_read dma_va_shadow dma_not_intercepted bank_mem_def ld_buf_def dma_fits [simplified] dma_cell_def)

lemma dma_write_cell:
  assumes "dma_window a" "\<not> cache_isolated b"
  shows "glue_dma_out a v b = Some (b\<lparr>shadow := st_be (shadow b) (unat a) (ucast v) 2\<rparr>)"
  using assms dma_va_shadow [OF assms(1)]
  by (simp add: glue_dma_out_def ram_write bank_mem_def st_buf_def dma_fits [simplified])

lemma ucast_u16_u32: "ucast (ucast (v :: u16) AND 0xFFFF :: u32) = v"
proof -
  have m: "(0xFFFF :: u32) = mask 16" by (simp add: mask_eq_exp_minus_1)
  show ?thesis unfolding m by (rule bit_word_eqI) (simp add: bit_simps)
qed

interpretation lh: lance_host glue_cb dma_cell dma_window net_sent dma_ready
proof unfold_locales
  fix a and v :: u16 and h
  show "dma_window a \<Longrightarrow> dma_rd glue_cb a h = Some (dma_cell h a, h)"
    by (simp add: dma_rd_def glue_cb_def dma_read_cell)
  assume r: "dma_ready h" and w: "dma_window a"
  let ?h' = "h\<lparr>shadow := st_be (shadow h) (unat a) (ucast v) 2\<rparr>"
  have "dma_cell ?h' b = (if b = a then v else dma_cell h b)" if "dma_window b" for b
  proof (cases "b = a")
    case True
    then show ?thesis by (simp add: dma_cell_def be2.get_put trunc_size_def ucast_u16_u32)
  next
    case False
    then have "unat b \<noteq> unat a" by (simp add: word_unat_eq_iff)
    moreover have "even (unat a)" "even (unat b)" using w that by (simp_all add: dma_window_def even_unat)
    ultimately have "unat b + 2 \<le> unat a \<or> unat a + 2 \<le> unat b" by presburger
    then show ?thesis using False by (simp add: dma_cell_def be2.get_put_other)
  qed
  then show "\<exists>h'. dma_wr glue_cb a v h = Some h' \<and> net_sent h' = net_sent h \<and> dma_ready h'
      \<and> (\<forall>b. dma_window b \<longrightarrow> dma_cell h' b = (if b = a then v else dma_cell h b))"
    using r w by (intro exI [of _ ?h']) (simp add: dma_wr_def glue_cb_def dma_write_cell dma_ready_def)
next
  fix f s h assume "intr_out_cb glue_cb = Some f"
  then show "dma_cell (f s h) = dma_cell h \<and> net_sent (f s h) = net_sent h \<and> dma_ready (f s h) = dma_ready h"
    by (auto simp: glue_cb_def lance_intr_def dma_cell_def dma_ready_def)
qed (auto simp: glue_cb_def lance_send_frame_def dma_cell_def dma_ready_def)

section \<open>Frames through the machine's memory\<close>

text \<open>
  A transmitter that is on and whose current descriptor holds a whole frame, at an even address of the
  DMA window, not addressed to the machine itself.
\<close>

definition tx_buffer :: "lance \<Rightarrow> bus \<Rightarrow> u32" where
  "tx_buffer l b = (let ra = tx_desc l (tx_ring_pos l) in md_addr (dma_cell b (ra OR 2)) (dma_cell b ra))"

definition tx_length :: "lance \<Rightarrow> bus \<Rightarrow> nat" where
  "tx_length l b = nat (lance_get_buf_length l (dma_cell b (tx_desc l (tx_ring_pos l) OR 4)))"

definition tx_bytes :: "lance \<Rightarrow> bus \<Rightarrow> u8 list" where
  "tx_bytes l b = frame_at (dma_cell b) (has (csr l 3) 0x04) (tx_buffer l b) (tx_length l b)"

definition tx_waiting :: "lance \<Rightarrow> bus \<Rightarrow> bool" where
  "tx_waiting l b \<longleftrightarrow>
     (let ra = tx_desc l (tx_ring_pos l); d1 = dma_cell b (ra OR 2) in
      has (csr l 0) CSR0_TXON \<and> lb_buf l = [] \<and> variant l = LANCE_AM79C90
      \<and> \<not> has (l_mode l) MODE_LOOP \<and> \<not> has (l_mode l) MODE_DTCR
      \<and> dma_window ra \<and> dma_window (ra OR 2) \<and> dma_window (ra OR 4)
      \<and> has d1 0x8000 \<and> has d1 0x0200 \<and> has d1 0x0100
      \<and> 6 \<le> tx_length l b \<and> tx_length l b \<le> 4092 \<and> tx_buffer l b AND 1 = 0
      \<and> (\<forall>i < tx_length l b. dma_window (slot (tx_buffer l b) i))
      \<and> take 6 (tx_bytes l b) \<noteq> physical_addr l)"

text \<open>
  C1: A frame that the guest laid out in memory behind a transmit descriptor leaves for the network
  exactly as it lies there, followed by its check sequence; the descriptor is given back, the rest of the
  DMA window is untouched, the ring advances and the transmit interrupt is flagged. The frame is one of 6 to 4092 bytes
  in a single buffer at an even address of the DMA window, not addressed to the terminal itself, and the chip is neither in
  loopback mode nor told to leave out the check sequence (DTCR).
\<close>

theorem glue_transmit:
  assumes "dma_ready b" "tx_waiting l b"
  shows "\<exists>l' b'. lance_transmit_poll glue_cb l b = Some (l', b')
     \<and> net_sent b' = net_sent b @ [tx_bytes l b @ fcs_bytes (tx_bytes l b)]
     \<and> (\<forall>a. dma_window a \<longrightarrow> dma_cell b' a =
          (if a = tx_desc l (tx_ring_pos l) OR 2 then dma_cell b a AND NOT 0x8000 else dma_cell b a))
     \<and> tx_ring_pos l' = tx_next l \<and> has (csr l' 0) CSR0_TINT \<and> has (csr l' 0) CSR0_INTR"
proof -
  have "0 < tx_length l b" using assms(2) by (simp add: tx_waiting_def Let_def)
  then show ?thesis
    using lh.transmit_single [of b l] assms
    by (simp add: tx_waiting_def tx_bytes_def tx_buffer_def tx_length_def Let_def)
qed

lemma eth_fcs_bytes: "eth_fcs buf = fcs_bytes buf"
proof -
  have m: "(0xFF :: u32) = mask 8" by (simp add: mask_eq_exp_minus_1)
  have "ucast (x AND 0xFF) = (ucast x :: u8)" for x :: u32
    unfolding m by (rule bit_word_eqI) (simp add: bit_simps)
  then show ?thesis by (simp add: eth_fcs_def fcs_bytes_def eth_crc32_eq Let_def)
qed

text \<open>The checksum register after four more bytes is an injective function of them: every step of the register is.\<close>

lemma crc_bit_inj: "crc_bit a = crc_bit b \<Longrightarrow> a = b"
proof -
  assume "crc_bit a = crc_bit b"
  then have z: "crc_bit (a XOR b) = 0" by (simp add: crc_bit_xor)
  have "bit (0xEDB88320 :: u32) 31" by simp
  then have "bit (crc_bit (a XOR b)) 31 \<longleftrightarrow> bit (a XOR b) 0"
    by (auto simp: crc_bit_def bit_simps dest: bit_imp_le_length)
  then have z0: "\<not> bit (a XOR b) 0" unfolding z by simp
  then have "drop_bit 1 (a XOR b) = 0" using z by (simp add: crc_bit_def)
  then have "bit (drop_bit 1 (a XOR b)) n = bit (0 :: u32) n" for n by simp
  then have "\<not> bit (a XOR b) (Suc n)" for n by (simp add: bit_simps)
  then have "\<not> bit (a XOR b) n" for n using z0 by (cases n) auto
  then show "a = b" by (intro bit_word_eqI) (auto simp: bit_simps)
qed

lemma crc_bits_inj: "(crc_bit ^^ n) a = (crc_bit ^^ n) b \<Longrightarrow> a = b"
  by (induction n) (auto dest: crc_bit_inj)

lemma crc_bits_low: "n \<le> 24 \<Longrightarrow> (crc_bit ^^ n) (push_bit n (ucast (d :: u8))) = ucast d"
proof (induction n)
  case (Suc n)
  let ?x = "push_bit (Suc n) (ucast d) :: u32"
  have "\<not> bit ?x 0" by (simp only: bit_push_bit_iff) simp
  moreover have "drop_bit 1 ?x = push_bit n (ucast d)"
    using Suc.prems by (intro bit_word_eqI) (auto simp: bit_simps simp del: push_bit_Suc dest: bit_imp_le_length)
  ultimately have "crc_bit ?x = push_bit n (ucast d)" by (simp add: crc_bit_def)
  then have "(crc_bit ^^ Suc n) ?x = (crc_bit ^^ n) (push_bit n (ucast d))" by (simp only: funpow_Suc_right comp_apply)
  then show ?case using Suc by simp
qed simp

lemma crc_step_bits: "crc_step ((crc_bit ^^ n) a) d = (crc_bit ^^ (8 + n)) (a XOR push_bit n (ucast d))" if "n \<le> 24"
proof -
  have "crc_step ((crc_bit ^^ n) a) d = (crc_bit ^^ 8) ((crc_bit ^^ n) a XOR ucast d)"
    by (simp only: eth_crc_byte_step [symmetric] eth_crc_byte_def crc_bit_mask [abs_def])
  also have "\<dots> = (crc_bit ^^ 8) ((crc_bit ^^ n) (a XOR push_bit n (ucast d)))"
    by (simp only: crc_bits_xor crc_bits_low [OF that])
  finally show ?thesis by (simp only: funpow_add comp_apply)
qed

definition le_word :: "u8 \<Rightarrow> u8 \<Rightarrow> u8 \<Rightarrow> u8 \<Rightarrow> u32" where
  "le_word a0 a1 a2 a3 = ucast a0 XOR push_bit 8 (ucast a1) XOR push_bit 16 (ucast a2) XOR push_bit 24 (ucast a3)"

lemma crc_step_four:
  "foldl crc_step c [a0, a1, a2, a3] = (crc_bit ^^ 32) (c XOR le_word a0 a1 a2 a3)"
proof -
  have "crc_step c a0 = (crc_bit ^^ 8) (c XOR ucast a0)" using crc_step_bits [of 0 c a0] by simp
  then show ?thesis
    by (simp only: foldl.simps crc_step_bits) (simp add: xor.assoc le_word_def)
qed
lemma le_word_bits:
  assumes "n < 8"
  shows "bit (le_word a0 a1 a2 a3) n = bit a0 n" "bit (le_word a0 a1 a2 a3) (8 + n) = bit a1 n"
    "bit (le_word a0 a1 a2 a3) (16 + n) = bit a2 n" "bit (le_word a0 a1 a2 a3) (24 + n) = bit a3 n"
proof -
  have no: "\<not> bit x m" if "8 \<le> m" for x :: u8 and m using that by (auto dest: bit_imp_le_length)
  show "bit (le_word a0 a1 a2 a3) n = bit a0 n" using assms by (simp add: le_word_def bit_simps)
  show "bit (le_word a0 a1 a2 a3) (8 + n) = bit a1 n" using assms by (simp add: le_word_def bit_simps no)
  show "bit (le_word a0 a1 a2 a3) (16 + n) = bit a2 n" using assms by (simp add: le_word_def bit_simps no)
  show "bit (le_word a0 a1 a2 a3) (24 + n) = bit a3 n" using assms by (simp add: le_word_def bit_simps no)
qed

lemma le_word_inj:
  assumes "le_word a0 a1 a2 a3 = le_word b0 b1 b2 b3"
  shows "[a0, a1, a2, a3] = [b0, b1, b2, b3]"
proof -
  have "a0 = b0" by (rule bit_word_eqI) (use le_word_bits(1) [of _ a0 a1 a2 a3] le_word_bits(1) [of _ b0 b1 b2 b3] assms in auto)
  moreover have "a1 = b1" by (rule bit_word_eqI) (use le_word_bits(2) [of _ a0 a1 a2 a3] le_word_bits(2) [of _ b0 b1 b2 b3] assms in auto)
  moreover have "a2 = b2" by (rule bit_word_eqI) (use le_word_bits(3) [of _ a0 a1 a2 a3] le_word_bits(3) [of _ b0 b1 b2 b3] assms in auto)
  moreover have "a3 = b3" by (rule bit_word_eqI) (use le_word_bits(4) [of _ a0 a1 a2 a3] le_word_bits(4) [of _ b0 b1 b2 b3] assms in auto)
  ultimately show ?thesis by simp
qed

lemma xor_left_cancel: "(c :: u32) XOR a = c XOR b \<Longrightarrow> a = b"
  by (metis xor.assoc xor.left_neutral xor_self_eq)

lemma crc_unique: "lance_crc32 (buf @ [a0, a1, a2, a3]) = 0x2144DF1C \<longleftrightarrow> [a0, a1, a2, a3] = fcs_bytes buf"
proof
  assume l: "lance_crc32 (buf @ [a0, a1, a2, a3]) = 0x2144DF1C"
  obtain b0 b1 b2 b3 where f: "fcs_bytes buf = [b0, b1, b2, b3]" by (simp add: fcs_bytes_def Let_def)
  let ?c = "foldl crc_step 0xFFFFFFFF buf"
  have "NOT (foldl crc_step ?c [a0, a1, a2, a3]) = NOT (foldl crc_step ?c [b0, b1, b2, b3])"
    using l crc_with_fcs [of buf, unfolded f] unfolding lance_crc32_steps foldl_append by (rule trans [OF _ sym])
  then have "foldl crc_step ?c [a0, a1, a2, a3] = foldl crc_step ?c [b0, b1, b2, b3]"
    by (simp only: bit.compl_eq_compl_iff)
  then have "?c XOR le_word a0 a1 a2 a3 = ?c XOR le_word b0 b1 b2 b3"
    unfolding crc_step_four by (rule crc_bits_inj)
  then show "[a0, a1, a2, a3] = fcs_bytes buf"
    unfolding f by (rule le_word_inj [OF xor_left_cancel])
qed (simp add: crc_with_fcs)

text \<open>
  C24: The checksum of the receiver. Of all the four-byte check sequences that can end a frame, exactly one leaves the
  residue \<open>0x2144DF1C\<close> the receive path compares with: the checksum of what comes before, least significant byte first,
  which is what \<open>fcs_bytes\<close> (the chip) and \<open>eth_fcs\<close> (the network glue) compute. So when a frame has been placed in full, its last
  descriptor gets the error bits ERR and CRC just when it ends in any other four bytes, unless the chip is in loopback
  mode without DTCR, where the check sequence is not looked at.
\<close>

theorem crc_residue:
  "(lance_crc32 (buf @ [a0, a1, a2, a3]) = 0x2144DF1C \<longleftrightarrow> [a0, a1, a2, a3] = fcs_bytes buf)
   \<and> lance_crc32 (buf @ fcs_bytes buf) = 0x2144DF1C \<and> eth_fcs buf = fcs_bytes buf
   \<and> rx_status l (buf @ [a0, a1, a2, a3]) (length buf + 4)
      = (if [a0, a1, a2, a3] = fcs_bytes buf \<or> has (l_mode l) MODE_LOOP \<and> \<not> has (l_mode l) MODE_DTCR
         then rx_md l 1 else rx_md l 1 OR 0x4800) OR 0x0100"
  by (auto simp: crc_unique crc_with_fcs eth_fcs_bytes rx_status_def Let_def)
text \<open>A receiver that is on, accepts the frame, and has one buffer with room for it.\<close>

definition rx_buffer :: "lance \<Rightarrow> bus \<Rightarrow> u32" where
  "rx_buffer l b = (let ra = rx_desc l (rx_ring_pos l) in md_addr (dma_cell b (ra OR 2)) (dma_cell b ra))"

definition rx_waiting :: "lance \<Rightarrow> bus \<Rightarrow> u8 list \<Rightarrow> bool" where
  "rx_waiting l b frame \<longleftrightarrow>
     (let ra = rx_desc l (rx_ring_pos l) in
      has (csr l 0) CSR0_RXON \<and> \<not> has (l_mode l) MODE_LOOP \<and> lance_address_filter l frame
      \<and> dma_window ra \<and> dma_window (ra OR 2) \<and> dma_window (ra OR 4) \<and> dma_window (ra OR 6)
      \<and> has (dma_cell b (ra OR 2)) 0x8000
      \<and> length frame \<le> rx_room l (dma_cell b (ra OR 4)) \<and> rx_buffer l b AND 1 = 0
      \<and> (\<forall>i < length frame. dma_window (slot (rx_buffer l b) i) \<and> slot (rx_buffer l b) i \<notin> {ra OR 2, ra OR 6}))"

lemma fcs_length [simp]: "length (fcs_bytes buf) = 4"
  by (simp add: fcs_bytes_def Let_def)

text \<open>
  C2: A frame from the network that the chip accepts arrives in the guest's buffer byte for byte,
  followed by its check sequence. The descriptor goes back as one whole packet without an error bit, with
  the length of the frame, the ring advances and the receive interrupt is flagged. This is for frames of 56 to 1596 bytes that
  fit one receive buffer at an even address of the DMA window, away from the descriptor, and a chip that is not in loopback mode.
\<close>

theorem glue_receive:
  assumes "dma_ready b" "rx_waiting (d_chip b) (arp_snoop buf b) (buf @ eth_fcs buf)"
    "56 \<le> length buf" "length buf \<le> 1596"
  shows "\<exists>b'. lance_glue_recv b buf = Some b' \<and> net_sent b' = net_sent b
     \<and> frame_at (dma_cell b') (has (csr (d_chip b) 3) 0x04) (rx_buffer (d_chip b) (arp_snoop buf b)) (length buf + 4)
        = buf @ eth_fcs buf
     \<and> dma_cell b' (rx_desc (d_chip b) (rx_ring_pos (d_chip b)) OR 6) = of_nat (length buf + 4) AND 0x0FFF
     \<and> dma_cell b' (rx_desc (d_chip b) (rx_ring_pos (d_chip b)) OR 2)
        = ((dma_cell (arp_snoop buf b) (rx_desc (d_chip b) (rx_ring_pos (d_chip b)) OR 2) OR 0x0200) AND NOT 0x8000) OR 0x0100
     \<and> rx_ring_pos (d_chip b') = rx_next (d_chip b) \<and> has (csr (d_chip b') 0) CSR0_RINT"
proof -
  let ?l = "d_chip b" and ?b = "arp_snoop buf b" and ?f = "buf @ eth_fcs buf"
  have snoop: "dma_ready ?b" "net_sent ?b = net_sent b" "d_chip ?b = ?l"
    using assms(1) by (auto simp: arp_snoop_def dma_ready_def Let_def)
  have crc: "lance_crc32 ?f = 0x2144DF1C" by (simp add: eth_fcs_bytes crc_with_fcs)
  have len: "60 \<le> length ?f" "length ?f \<le> 4096" "length ?f = length buf + 4"
    using assms(3,4) by (simp_all add: eth_fcs_bytes)
  have "\<exists>l' b'. lance_recv glue_cb ?l ?f ?b = Some (0, l', b') \<and> net_sent b' = net_sent ?b
     \<and> frame_at (dma_cell b') (has (csr ?l 3) 0x04) (rx_buffer ?l ?b) (length ?f) = ?f
     \<and> dma_cell b' (rx_desc ?l (rx_ring_pos ?l) OR 2)
        = ((dma_cell ?b (rx_desc ?l (rx_ring_pos ?l) OR 2) OR 0x0200) AND NOT 0x8000) OR 0x0100
     \<and> dma_cell b' (rx_desc ?l (rx_ring_pos ?l) OR 6) = of_nat (length ?f) AND 0x0FFF
     \<and> rx_ring_pos l' = rx_next ?l \<and> has (csr l' 0) CSR0_RINT \<and> has (csr l' 0) CSR0_INTR"
    using lh.receive_single [of ?b ?l ?f] snoop assms(2) crc len
    by (simp add: rx_waiting_def rx_buffer_def Let_def)
  then obtain l' b' where r: "lance_recv glue_cb ?l ?f ?b = Some (0, l', b')" "net_sent b' = net_sent ?b"
     "frame_at (dma_cell b') (has (csr ?l 3) 0x04) (rx_buffer ?l ?b) (length ?f) = ?f"
     "dma_cell b' (rx_desc ?l (rx_ring_pos ?l) OR 2)
        = ((dma_cell ?b (rx_desc ?l (rx_ring_pos ?l) OR 2) OR 0x0200) AND NOT 0x8000) OR 0x0100"
     "dma_cell b' (rx_desc ?l (rx_ring_pos ?l) OR 6) = of_nat (length ?f) AND 0x0FFF"
     "rx_ring_pos l' = rx_next ?l" "has (csr l' 0) CSR0_RINT" by blast
  have g: "lance_glue_recv b buf = Some (b'\<lparr>d_chip := l'\<rparr>)"
    using r(1) snoop(3) assms(4) by (simp add: lance_glue_recv_def Let_def on_chip_def eth_fcs_bytes)
  have cells: "dma_cell (b'\<lparr>d_chip := l'\<rparr>) = dma_cell b'" by (simp add: dma_cell_def fun_eq_iff)
  show ?thesis
    unfolding g using r len(3) snoop(2) by (simp add: cells)
qed


text \<open>A machine with one receive and one transmit descriptor at \<open>0x1000\<close> and \<open>0x1100\<close>.\<close>

definition demo_chip :: lance where
  "demo_chip = lance_zero\<lparr>variant := LANCE_AM79C90, csr := (\<lambda>i. if i = 0 then 0x0072 else if i = 3 then 4 else 0),
     l_mode := MODE_PROM, rx_ring_base := 0x1000, rx_ring_mask := 0xFD, tx_ring_base := 0x1100, tx_ring_mask := 0xFD,
     intr_out_state := True\<rparr>"

definition demo_bus :: bus where
  "demo_bus = (bus_init (\<lambda>_. 0) 0x40000)\<lparr>d_chip := demo_chip, net_wired := True,
     shadow := (\<lambda>i. if i = 0x1000 then 0x20 else if i = 0x1002 then 0x80 else if i = 0x1004 then 0xF8
                    else if i = 0x1100 then 0x30 else if i = 0x1102 then 0x83 else if i = 0x1104 then 0xFF
                    else if i = 0x1105 then 0xC0 else if i = 0x3000 then 0xAA else if i = 0x300C then 0x55 else 0)\<rparr>"

lemma demo_cells:
  "dma_cell demo_bus 0x1000 = 0x2000" "dma_cell demo_bus 0x1002 = 0x8000" "dma_cell demo_bus 0x1004 = 0xF800"
  "dma_cell demo_bus 0x1100 = 0x3000" "dma_cell demo_bus 0x1102 = 0x8300" "dma_cell demo_bus 0x1104 = 0xFFC0"
  "dma_cell demo_bus 0x3000 = 0xAA00"
  by (simp_all add: demo_bus_def dma_cell_def ld_be_def)

lemma demo_desc:
  "tx_desc demo_chip (tx_ring_pos demo_chip) = 0x1100" "rx_desc demo_chip (rx_ring_pos demo_chip) = 0x1000"
  by (simp_all add: demo_chip_def tx_desc_def rx_desc_def lance_zero_def)

lemma demo_ready: "dma_ready demo_bus" "net_sent demo_bus = []" "d_chip demo_bus = demo_chip" "inject_server demo_bus = 0"
  by (simp_all add: demo_bus_def bus_init_def dma_ready_def)

lemma slot_unat:
  assumes "unat a + i < 2 ^ 32"
  shows "unat (slot a i) = unat a + 2 * (i div 2)"
proof -
  have "2 * (i div 2) \<le> i" by simp
  then have k: "unat a + 2 * (i div 2) < 2 ^ 32" using assms by linarith
  have "slot a i = a + of_nat (2 * (i div 2))" by (simp add: slot_def)
  moreover have "unat (of_nat (2 * (i div 2)) :: u32) = 2 * (i div 2)"
    using k by (intro unat_of_nat_small) simp
  ultimately show ?thesis using k by (simp add: unat_word_ariths)
qed

lemma demo_slots:
  assumes "i < 128" "a = 0x2000 \<or> a = 0x3000"
  shows "dma_window (slot a i) \<and> slot a i \<notin> {0x1002, 0x1006}"
proof -
  have u: "unat (slot a i) = unat a + 2 * (i div 2)" using assms by (intro slot_unat) auto
  moreover have "i div 2 < 64" using assms(1) by simp
  moreover have "even (unat a)" "0x2000 \<le> unat a" "unat a \<le> 0x3000" using assms(2) by auto
  ultimately show ?thesis
    unfolding dma_window_def even_unat by (simp add: word_less_nat_alt word_unat_eq_iff)
qed

lemma glue_transmit_witness:
  "\<exists>l' b'. lance_transmit_poll glue_cb demo_chip demo_bus = Some (l', b')
     \<and> net_sent b' = [tx_bytes demo_chip demo_bus @ fcs_bytes (tx_bytes demo_chip demo_bus)]
     \<and> tx_ring_pos l' = 1 \<and> hd (tx_bytes demo_chip demo_bus) = 0xAA"
proof -
  have len: "tx_length demo_chip demo_bus = 64"
    by (simp add: tx_length_def demo_desc demo_cells) (simp add: lance_get_buf_length_def demo_chip_def)
  have buf: "tx_buffer demo_chip demo_bus = 0x3000"
    by (simp add: tx_buffer_def Let_def demo_desc demo_cells md_addr_def)
  have c3: "has (csr demo_chip 3) 0x04" by (simp add: demo_chip_def has_def)
  have hd: "hd (tx_bytes demo_chip demo_bus) = 0xAA"
    by (simp add: tx_bytes_def len buf c3 frame_at_def hd_map demo_cells lane_def hi8_def)
  have pa: "physical_addr demo_chip = replicate 6 0" by (simp add: demo_chip_def lance_zero_def)
  have "tx_bytes demo_chip demo_bus \<noteq> []" using length_frame_at len by (metis tx_bytes_def list.size(3) zero_neq_numeral)
  with hd have "take 6 (tx_bytes demo_chip demo_bus) \<noteq> physical_addr demo_chip"
    unfolding pa by (cases "tx_bytes demo_chip demo_bus") (auto dest: arg_cong [of _ _ hd])
  moreover have "dma_window 0x1100" "dma_window 0x1102" "dma_window 0x1104"
    by (simp_all add: dma_window_def)
  moreover have "has (csr demo_chip 0) CSR0_TXON" "lb_buf demo_chip = []" "variant demo_chip = LANCE_AM79C90"
    "\<not> has (l_mode demo_chip) MODE_LOOP" "\<not> has (l_mode demo_chip) MODE_DTCR"
    by (simp_all add: demo_chip_def lance_zero_def has_def)
  ultimately have "tx_waiting demo_chip demo_bus"
    by (simp add: tx_waiting_def Let_def demo_desc demo_cells len buf demo_slots has_def)
  moreover have "tx_next demo_chip = 1" by (simp add: tx_next_def demo_chip_def lance_zero_def)
  ultimately show ?thesis using glue_transmit [of demo_bus demo_chip] hd demo_ready by auto
qed

lemma glue_receive_witness:
  "\<exists>b'. lance_glue_recv demo_bus (replicate 60 0x11) = Some b' \<and> rx_ring_pos (d_chip b') = 1
     \<and> take 60 (frame_at (dma_cell b') True 0x2000 64) = replicate 60 0x11"
proof -
  have buf: "rx_buffer demo_chip demo_bus = 0x2000"
    by (simp add: rx_buffer_def Let_def demo_desc demo_cells md_addr_def)
  have snoop: "arp_snoop x demo_bus = demo_bus" for x by (simp add: arp_snoop_def demo_ready)
  have len: "length (replicate 60 0x11 @ eth_fcs (replicate 60 0x11)) = 64" by (simp add: eth_fcs_bytes)
  have room: "rx_room demo_chip 0xF800 = 2048"
    by (simp add: rx_room_def lance_get_buf_length_def demo_chip_def)
  have "dma_window 0x1000" "dma_window 0x1002" "dma_window 0x1004" "dma_window 0x1006"
    by (simp_all add: dma_window_def)
  moreover have "has (csr demo_chip 0) CSR0_RXON" "\<not> has (l_mode demo_chip) MODE_LOOP" "has (l_mode demo_chip) MODE_PROM"
    "has (csr demo_chip 3) 0x04"
    by (simp_all add: demo_chip_def lance_zero_def has_def)
  ultimately have "rx_waiting demo_chip demo_bus (replicate 60 0x11 @ eth_fcs (replicate 60 0x11))"
    using demo_slots [of _ "0x2000"]
    by (simp add: rx_waiting_def Let_def demo_desc demo_cells len [simplified] eth_fcs_bytes buf room lance_address_filter_def has_def)
  moreover have "rx_next demo_chip = 1" by (simp add: rx_next_def demo_chip_def lance_zero_def)
  ultimately show ?thesis
    using glue_receive [of demo_bus "replicate 60 0x11"] demo_ready snoop buf \<open>has (csr demo_chip 3) 0x04\<close> by auto
qed

section \<open>What no store can change\<close>

text \<open>The ROM image and the address decoding.\<close>

definition fixed_part :: "bus \<Rightarrow> mem \<times> nat \<times> mmio_region list \<times> mem option \<times> nat" where
  "fixed_part b = (b_rom b, rom_size b, regions b, flash b, flash_size b)"

lemma dev_read_fixed: "dev_read d off sz b = Some (v, b') \<Longrightarrow> fixed_part b' = fixed_part b"
  by (auto simp: dev_read_def fixed_part_def Let_def split: mmio_dev.splits prod.splits)

lemma flash_preload_fixed: "flash_preload b = Some b' \<Longrightarrow> fixed_part b' = fixed_part b"
  by (auto simp: flash_preload_def fixed_part_def option_bind_Some_iff split: option.splits if_splits)

lemma shadow_read_fixed: "shadow_read b pa sz = Some (v, b') \<Longrightarrow> fixed_part b' = fixed_part b"
  by (auto simp: shadow_read_def shadow_intercept_def fixed_part_def Let_def split: option.splits if_splits)

lemma bus_read_fixed: "bus_read b va sz = Some (v, b') \<Longrightarrow> fixed_part b' = fixed_part b"
  by (auto simp: bus_read_def Let_def option_bind_Some_iff
      dest: dev_read_fixed flash_preload_fixed shadow_read_fixed split: if_splits option.splits)

lemma bus_write_gen_fixed:
  assumes "\<And>d off b1 b2. dw d off v sz b1 = Some b2 \<Longrightarrow> fixed_part b2 = fixed_part b1"
    and "bus_write_gen dw b va v sz = Some b'"
  shows "fixed_part b' = fixed_part b"
  using assms(2)
  by (auto simp: bus_write_gen_def Let_def fixed_part_def split: if_splits option.splits)
    (use assms(1) in \<open>auto simp: fixed_part_def\<close>)

lemma dev_write0_fixed: "dev_write0 d off v sz b = Some b' \<Longrightarrow> fixed_part b' = fixed_part b"
  by (auto simp: dev_write0_def fixed_part_def lance_shmem_mmio_write_def Let_def split: mmio_dev.splits)

lemma bus_write0_fixed: "bus_write_gen dev_write0 b va v sz = Some b' \<Longrightarrow> fixed_part b' = fixed_part b"
  by (rule bus_write_gen_fixed [of dev_write0 v sz]) (rule dev_write0_fixed)

interpretation fx: lance_host_inv glue_cb "\<lambda>b. fixed_part b = c" for c
proof unfold_locales
  fix a h w h' assume "dma_rd glue_cb a h = Some (w, h')" "fixed_part h = c"
  then show "fixed_part h' = c"
    by (auto simp: dma_rd_def glue_cb_def glue_dma_in_def dest: bus_read_fixed)
next
  fix a v h h' assume "dma_wr glue_cb a v h = Some h'" "fixed_part h = c"
  then show "fixed_part h' = c"
    by (auto simp: dma_wr_def glue_cb_def glue_dma_out_def dest: bus_write0_fixed)
qed (auto simp: glue_cb_def lance_intr_def lance_send_frame_def fixed_part_def)

lemma dev_write_fixed: "dev_write d off v sz b = Some b' \<Longrightarrow> fixed_part b' = fixed_part b"
proof -
  have "fixed_part (x\<lparr>d_chip := l\<rparr>) = fixed_part x" for x l by (simp add: fixed_part_def)
  then show "dev_write d off v sz b = Some b' \<Longrightarrow> fixed_part b' = fixed_part b"
    by (auto simp: dev_write_def lance_mmio_write_def on_chip_def dest!: fx.regs_w_I
        dest: dev_write0_fixed split: if_splits option.splits)
qed

text \<open>
  No store changes the ROM image, the flash card or the address map, whatever it sets off: not one
  to the ROM window, not one to a device register, not one that starts the Ethernet controller's DMA.
  While the cache is isolated, and in the ROM window, a store changes nothing at all.
\<close>

theorem bus_write_preserves:
  assumes "bus_write b va v sz = Some b'"
  shows "b_rom b' = b_rom b \<and> rom_size b' = rom_size b \<and> regions b' = regions b \<and> flash b' = flash b
     \<and> (in_rom (mips_va_to_pa va) \<or> cache_isolated b \<longrightarrow> b' = b)"
proof -
  have "fixed_part b' = fixed_part b"
    using assms unfolding bus_write_def
    by (rule bus_write_gen_fixed [of dev_write v sz, rotated]) (rule dev_write_fixed)
  moreover have "in_rom (mips_va_to_pa va) \<or> cache_isolated b \<longrightarrow> b' = b"
    using assms by (auto simp: bus_write_def bus_write_gen_def Let_def split: if_splits)
  ultimately show ?thesis by (simp add: fixed_part_def)
qed

lemma bus_write_preserves_witness:
  "\<exists>b'. bus_write (bus_init (\<lambda>_. 7) 0x40000) 0x80000100 1 4 = Some b' \<and> b_rom b' = (\<lambda>_. 7)"
proof -
  have c: "ram_cell (mips_va_to_pa 0x80000100) = Some (Dram, 0x100)"
    by (simp add: ram_cell_def mips_va_to_pa_def dram_off_def)
  obtain b' where "bus_write (bus_init (\<lambda>_. 7) 0x40000) 0x80000100 1 4 = Some b'"
    by (simp add: bus_write_def ram_write [OF c] bus_init_def st_buf_def bank_mem_def NCD15_DRAM_SIZE_def)
  then show ?thesis using bus_write_preserves [of "bus_init (\<lambda>_. 7) 0x40000"] by (auto simp: bus_init_def)
qed

end
