(* ===== verification/Mips.thy ===== *)
theory Mips
  imports Lance_Glue "HOL-Library.Signed_Division"
begin

text \<open>
  \<open>emulator/src/mips.c\<close>: the MIPS-I interpreter. A step takes the CPU and the bus and returns both;
  undefined accesses and the one undefined division of C are \<open>None\<close>. Traces, the call stack kept for
  them and the switches read from the environment (all off) are left out.
\<close>

section \<open>State\<close>

record cpu =
  c_pc :: u32
  c_next_pc :: u32
  gpr :: "nat \<Rightarrow> u32"
  c_hi :: u32
  c_lo :: u32
  cp0_status :: u32
  cp0_cause :: u32
  cp0_epc :: u32
  cp0_badvaddr :: u32
  cp0_prid :: u32
  in_delay_slot :: bool
  branch_taken :: bool
  branch_target :: u32
  cycles :: u64
  halted :: bool

definition cpu_zero :: cpu where
  "cpu_zero = \<lparr>c_pc = 0, c_next_pc = 0, gpr = (\<lambda>_. 0), c_hi = 0, c_lo = 0, cp0_status = 0, cp0_cause = 0,
     cp0_epc = 0, cp0_badvaddr = 0, cp0_prid = 0, in_delay_slot = False, branch_taken = False,
     branch_target = 0, cycles = 0, halted = False\<rparr>"

definition mips_reset :: "cpu \<Rightarrow> bus \<Rightarrow> cpu \<times> bus" where
  "mips_reset c b =
     (c\<lparr>gpr := (\<lambda>i. if i < 32 then 0 else gpr c i), c_hi := 0, c_lo := 0, c_pc := 0xBFC00000,
        c_next_pc := 0xBFC00000 + 4, cp0_status := 0x00400000, cp0_cause := 0, cp0_epc := 0,
        cp0_prid := 0x00000230, in_delay_slot := False, branch_taken := False, cycles := 0, halted := False\<rparr>,
      b\<lparr>b_icache := icache_flush_all (b_icache b)\<rparr>)"

definition sign_ext16 :: "u32 \<Rightarrow> u32" where
  "sign_ext16 v = scast (ucast v :: u16)"

definition sign_ext8 :: "u32 \<Rightarrow> u32" where
  "sign_ext8 v = scast (ucast v :: u8)"

definition wr_reg :: "cpu \<Rightarrow> nat \<Rightarrow> u32 \<Rightarrow> cpu" where
  "wr_reg c i v = (if i \<noteq> 0 then c\<lparr>gpr := (gpr c)(i := v)\<rparr> else c)"

definition do_branch :: "cpu \<Rightarrow> u32 \<Rightarrow> cpu" where
  "do_branch c target = c\<lparr>branch_taken := True, branch_target := target\<rparr>"

definition branch_if :: "bool \<Rightarrow> cpu \<Rightarrow> u32 \<Rightarrow> cpu" where
  "branch_if p c target = (if p then do_branch c target else c)"

definition OP :: "u32 \<Rightarrow> nat" where "OP x = unat (drop_bit 26 x AND 0x3F)"
definition RS :: "u32 \<Rightarrow> nat" where "RS x = unat (drop_bit 21 x AND 0x1F)"
definition RT :: "u32 \<Rightarrow> nat" where "RT x = unat (drop_bit 16 x AND 0x1F)"
definition RD :: "u32 \<Rightarrow> nat" where "RD x = unat (drop_bit 11 x AND 0x1F)"
definition SHAMT :: "u32 \<Rightarrow> nat" where "SHAMT x = unat (drop_bit 6 x AND 0x1F)"
definition FUNCT :: "u32 \<Rightarrow> nat" where "FUNCT x = unat (x AND 0x3F)"
definition IMM :: "u32 \<Rightarrow> u32" where "IMM x = x AND 0xFFFF"
definition TARGET :: "u32 \<Rightarrow> u32" where "TARGET x = x AND 0x03FFFFFF"

definition unhandled :: "cpu \<Rightarrow> cpu" where
  "unhandled c = c\<lparr>halted := True\<rparr>"

section \<open>Fetching\<close>

definition uncached :: "u32 \<Rightarrow> bool" where
  "uncached va \<longleftrightarrow> 0xA0000000 \<le> va \<and> va < 0xC0000000"

fun read_line :: "bus \<Rightarrow> u32 \<Rightarrow> nat \<Rightarrow> (u32 list \<times> bus) option" where
  "read_line b va 0 = Some ([], b)"
| "read_line b va (Suc n) =
     do { (w, b1) \<leftarrow> bus_read b va 4;
          (ws, b2) \<leftarrow> read_line b1 (va + 4) n;
          Some (w # ws, b2) }"

definition mips_fetch :: "bus \<Rightarrow> u32 \<Rightarrow> (u32 \<times> bus) option" where
  "mips_fetch b va =
     (if uncached va then bus_read b va 4
      else
        (let pa = mips_va_to_pa va in
         if pa = 0 then Some (0x03E00008, b)
         else if pa = 4 then Some (0, b)
         else
           (let i = icache_index pa; tag = icache_tag pa; word = unat (drop_bit 2 pa AND 3) in
            if ic_tag (b_icache b i) \<noteq> tag then
              do { (ws, b1) \<leftarrow> read_line b (va AND NOT 15) 4;
                   Some (ws ! word,
                     b1\<lparr>b_icache := (b_icache b1)(i := \<lparr>ic_tag = tag, ic_words = (\<lambda>k. ws ! k)\<rparr>)\<rparr>) }
            else Some (ic_words (b_icache b i) word, b))))"

section \<open>Exceptions\<close>

definition take_exception :: "cpu \<Rightarrow> u32 \<Rightarrow> u32 \<Rightarrow> cpu" where
  "take_exception c pc exccode =
     (let in_ds = in_delay_slot c;
          ki = cp0_status c AND 0x3F;
          status = (cp0_status c AND NOT 0x3F) OR (push_bit 2 ki AND 0x3C);
          cause = (cp0_cause c AND NOT 0x8000007F) OR push_bit 2 (exccode AND 0x1F);
          cause = (if in_ds then cause OR 0x80000000 else cause);
          vec = (if status AND 0x00400000 \<noteq> 0 then 0xBFC00180 else 0x80000080) in
      c\<lparr>cp0_epc := (if in_ds then pc - 4 else pc), cp0_status := status, cp0_cause := cause,
        c_pc := vec, c_next_pc := vec + 4, branch_taken := False, in_delay_slot := False\<rparr>)"

definition irq_sources :: "cpu \<Rightarrow> bus \<Rightarrow> u32 \<Rightarrow> cpu \<times> bus" where
  "irq_sources c b pc =
     (let timer = ecoff_preloaded b \<and> next_irq_cycle b \<le> cycles c;
          c1 = (if timer then c\<lparr>cp0_cause := cp0_cause c OR 0x2000\<rparr> else c);
          b1 = (if timer then b\<lparr>next_irq_cycle := cycles c + 50000\<rparr> else b);
          b2 = (if pc AND 0xFFF00000 = 0x8ED00000 then b1\<lparr>xncd_running := True\<rparr> else b1);
          c2 = (if \<not> xncd_running b2 then c1
                else if lance_irq b2 \<and> \<not> lance_irq_prev b2 then c1\<lparr>cp0_cause := cp0_cause c1 OR 0x400\<rparr>
                else if \<not> lance_irq b2 \<and> lance_irq_prev b2 then c1\<lparr>cp0_cause := cp0_cause c1 AND NOT 0x400\<rparr>
                else c1) in
      (c2, b2\<lparr>lance_irq_prev := lance_irq b2\<rparr>))"

definition irq_pending :: "cpu \<Rightarrow> bool" where
  "irq_pending c \<longleftrightarrow> cp0_status c AND 1 \<noteq> 0
     \<and> (drop_bit 8 (cp0_cause c) AND 0xFF) AND (drop_bit 8 (cp0_status c) AND 0xFF) \<noteq> 0"

definition check_interrupts :: "cpu \<Rightarrow> bus \<Rightarrow> u32 \<Rightarrow> cpu \<times> bus" where
  "check_interrupts c b pc =
     (let (c1, b1) = irq_sources c b pc in
      if irq_pending c1 then (take_exception c1 pc 0, b1) else (c1, b1))"

section \<open>Instructions\<close>

definition mult64 :: "u64 \<Rightarrow> cpu \<Rightarrow> cpu" where
  "mult64 p c = c\<lparr>c_lo := ucast p, c_hi := ucast (drop_bit 32 p)\<rparr>"

text \<open>The system call: through the exception vector once a handler is there, else the putchar primitive.\<close>

definition exec_syscall :: "cpu \<Rightarrow> bus \<Rightarrow> u32 \<Rightarrow> (cpu \<times> bus) option" where
  "exec_syscall c b pc =
     do { (vec, b1) \<leftarrow> bus_read b 0x80000080 4;
          if vec \<noteq> 0 then Some (take_exception c pc 8, b1)
          else
            do { b2 \<leftarrow> (if gpr c 4 = 1 then bus_write b1 0xBE88002C (gpr c 5 AND 0xFF) 1 else Some b1);
                 Some (c\<lparr>gpr := (gpr c)(2 := 0), c_next_pc := pc + 4, branch_taken := False\<rparr>, b2) } }"

definition exec_div :: "cpu \<Rightarrow> u32 \<Rightarrow> u32 \<Rightarrow> cpu option" where
  "exec_div c s t =
     (if t = 0 then Some (c\<lparr>c_hi := s, c_lo := (if sint s < 0 then 1 else 0xFFFFFFFF)\<rparr>)
      else if s = 0x80000000 \<and> t = 0xFFFFFFFF then None
      else Some (c\<lparr>c_lo := word_of_int (sint s sdiv sint t), c_hi := word_of_int (sint s smod sint t)\<rparr>))"

definition exec_divu :: "cpu \<Rightarrow> u32 \<Rightarrow> u32 \<Rightarrow> cpu" where
  "exec_divu c s t =
     (if t = 0 then c\<lparr>c_hi := s, c_lo := 0xFFFFFFFF\<rparr> else c\<lparr>c_lo := s div t, c_hi := s mod t\<rparr>)"

text \<open>The register instructions that neither branch nor touch memory.\<close>

definition alu_special :: "nat \<Rightarrow> u32 \<Rightarrow> u32 \<Rightarrow> nat \<Rightarrow> cpu \<Rightarrow> u32 option" where
  "alu_special f s t sh c =
     (if f = 0x00 then Some (push_bit sh t)
      else if f = 0x02 then Some (drop_bit sh t)
      else if f = 0x03 then Some (signed_drop_bit sh t)
      else if f = 0x04 then Some (push_bit (unat (s AND 31)) t)
      else if f = 0x06 then Some (drop_bit (unat (s AND 31)) t)
      else if f = 0x07 then Some (signed_drop_bit (unat (s AND 31)) t)
      else if f = 0x10 then Some (c_hi c)
      else if f = 0x12 then Some (c_lo c)
      else if f = 0x20 \<or> f = 0x21 then Some (s + t)
      else if f = 0x22 \<or> f = 0x23 then Some (s - t)
      else if f = 0x24 then Some (s AND t)
      else if f = 0x25 then Some (s OR t)
      else if f = 0x26 then Some (s XOR t)
      else if f = 0x27 then Some (NOT (s OR t))
      else if f = 0x2A then Some (if sint s < sint t then 1 else 0)
      else if f = 0x2B then Some (if s < t then 1 else 0)
      else None)"

definition exec_special :: "cpu \<Rightarrow> bus \<Rightarrow> u32 \<Rightarrow> u32 \<Rightarrow> (cpu \<times> bus) option" where
  "exec_special c b pc insn =
     (let s = gpr c (RS insn); t = gpr c (RT insn); rd = RD insn; f = FUNCT insn in
      case alu_special f s t (SHAMT insn) c of
        Some v \<Rightarrow> Some (wr_reg c rd v, b)
      | None \<Rightarrow>
          if f = 0x08 then Some (do_branch c s, b)
          else if f = 0x09 then Some (do_branch (wr_reg c rd (pc + 8)) s, b)
          else if f = 0x0C then exec_syscall c b pc
          else if f = 0x0D then Some (c\<lparr>halted := True\<rparr>, b)
          else if f = 0x11 then Some (c\<lparr>c_hi := s\<rparr>, b)
          else if f = 0x13 then Some (c\<lparr>c_lo := s\<rparr>, b)
          else if f = 0x18 then Some (mult64 (word_of_int (sint s * sint t)) c, b)
          else if f = 0x19 then Some (mult64 (ucast s * ucast t) c, b)
          else if f = 0x1A then map_option (\<lambda>c1. (c1, b)) (exec_div c s t)
          else if f = 0x1B then Some (exec_divu c s t, b)
          else Some (unhandled c, b))"

definition branch_dest :: "u32 \<Rightarrow> u32 \<Rightarrow> u32" where
  "branch_dest pc insn = (pc + 4) + push_bit 2 (sign_ext16 (IMM insn))"

definition exec_regimm :: "cpu \<Rightarrow> u32 \<Rightarrow> u32 \<Rightarrow> cpu" where
  "exec_regimm c pc insn =
     (let s = sint (gpr c (RS insn)); rt = RT insn; target = branch_dest pc insn in
      if rt = 0x00 then branch_if (s < 0) c target
      else if rt = 0x01 then branch_if (s \<ge> 0) c target
      else if rt = 0x10 then branch_if (s < 0) (wr_reg c 31 (pc + 8)) target
      else if rt = 0x11 then branch_if (s \<ge> 0) (wr_reg c 31 (pc + 8)) target
      else unhandled c)"

definition rfe_status :: "u32 \<Rightarrow> u32" where
  "rfe_status st = (st AND NOT 0xF) OR (drop_bit 2 st AND 0xF)"

definition exec_cop0 :: "cpu \<Rightarrow> bus \<Rightarrow> u32 \<Rightarrow> cpu \<times> bus" where
  "exec_cop0 c b insn =
     (let rs = RS insn; rt = RT insn; rd = RD insn in
      if rs = 0x00 then
        (wr_reg c rt (if rd = 8 then cp0_badvaddr c else if rd = 12 then cp0_status c
           else if rd = 13 then cp0_cause c else if rd = 14 then cp0_epc c
           else if rd = 15 then cp0_prid c else 0), b)
      else if rs = 0x04 then
        (let v = gpr c rt in
         if rd = 8 then (c\<lparr>cp0_badvaddr := v\<rparr>, b)
         else if rd = 12 then
           (c\<lparr>cp0_status := v\<rparr>,
            if v AND 0x10000 \<noteq> 0 \<and> cp0_status c AND 0x10000 = 0
            then b\<lparr>b_icache := icache_flush_all (b_icache b)\<rparr> else b)
         else if rd = 13 then (c\<lparr>cp0_cause := v\<rparr>, b)
         else if rd = 14 then (c\<lparr>cp0_epc := v\<rparr>, b)
         else if rd = 7 then (c, b\<lparr>cache_isolated := (v AND 0x2000 \<noteq> 0)\<rparr>)
         else (c, b))
      else if rs = 0x10 then
        (if FUNCT insn = 0x10 then (c\<lparr>cp0_status := rfe_status (cp0_status c)\<rparr>, b) else (c, b))
      else (unhandled c, b))"

definition alu_imm :: "nat \<Rightarrow> u32 \<Rightarrow> u32 \<Rightarrow> u32 option" where
  "alu_imm op s imm =
     (if op = 0x08 \<or> op = 0x09 then Some (s + sign_ext16 imm)
      else if op = 0x0A then Some (if sint s < sint (sign_ext16 imm) then 1 else 0)
      else if op = 0x0B then Some (if s < sign_ext16 imm then 1 else 0)
      else if op = 0x0C then Some (s AND imm)
      else if op = 0x0D then Some (s OR imm)
      else if op = 0x0E then Some (s XOR imm)
      else if op = 0x0F then Some (push_bit 16 imm)
      else None)"

definition eff_addr :: "cpu \<Rightarrow> u32 \<Rightarrow> u32" where
  "eff_addr c insn = gpr c (RS insn) + sign_ext16 (IMM insn)"

definition low_mask :: "nat \<Rightarrow> u32" where
  "low_mask shift = (if shift = 0 then 0 else push_bit shift 1 - 1)"

definition high_mask :: "nat \<Rightarrow> u32" where
  "high_mask shift = (if shift = 0 then 0 else push_bit (32 - shift) 0xFFFFFFFF)"

text \<open>What a load of opcode \<open>op\<close> at address \<open>a\<close> puts into a register that held \<open>rt\<close>.\<close>

definition exec_load :: "nat \<Rightarrow> bus \<Rightarrow> u32 \<Rightarrow> u32 \<Rightarrow> (u32 \<times> bus) option" where
  "exec_load op b a rt =
     (if op = 0x20 then do { (v, b1) \<leftarrow> bus_read b a 1; Some (sign_ext8 v, b1) }
      else if op = 0x21 then do { (v, b1) \<leftarrow> bus_read b a 2; Some (sign_ext16 v, b1) }
      else if op = 0x23 then bus_read b a 4
      else if op = 0x24 then bus_read b a 1
      else if op = 0x25 then bus_read b a 2
      else if op = 0x22 then
        do { (word, b1) \<leftarrow> bus_read b (a AND NOT 3) 4;
             let shift = unat (a AND 3) * 8;
             Some ((rt AND low_mask shift) OR push_bit (24 - shift) word, b1) }
      else
        do { (word, b1) \<leftarrow> bus_read b (a AND NOT 3) 4;
             let shift = (3 - unat (a AND 3)) * 8;
             Some ((rt AND high_mask shift) OR drop_bit shift word, b1) })"

definition store_invalidate :: "bus \<Rightarrow> u32 \<Rightarrow> bus" where
  "store_invalidate b a =
     (if uncached a then b else b\<lparr>b_icache := icache_invalidate (b_icache b) (mips_va_to_pa a)\<rparr>)"

definition exec_store :: "nat \<Rightarrow> bus \<Rightarrow> u32 \<Rightarrow> u32 \<Rightarrow> bus option" where
  "exec_store op b a rt =
     (if op = 0x28 then map_option (\<lambda>b1. store_invalidate b1 a) (bus_write b a (rt AND 0xFF) 1)
      else if op = 0x29 then map_option (\<lambda>b1. store_invalidate b1 a) (bus_write b a (rt AND 0xFFFF) 2)
      else if op = 0x2B then map_option (\<lambda>b1. store_invalidate b1 a) (bus_write b a rt 4)
      else if op = 0x2A then
        do { (m, b1) \<leftarrow> bus_read b (a AND NOT 3) 4;
             let shift = unat (a AND 3) * 8;
             bus_write b1 (a AND NOT 3) ((m AND NOT (low_mask shift)) OR drop_bit (24 - shift) rt) 4 }
      else
        do { (m, b1) \<leftarrow> bus_read b (a AND NOT 3) 4;
             let shift = (3 - unat (a AND 3)) * 8;
             bus_write b1 (a AND NOT 3) ((m AND high_mask shift) OR push_bit shift rt) 4 })"

definition jump_dest :: "u32 \<Rightarrow> u32 \<Rightarrow> u32" where
  "jump_dest pc insn = ((pc + 4) AND 0xF0000000) OR push_bit 2 (TARGET insn)"

definition is_load :: "nat \<Rightarrow> bool" where
  "is_load op \<longleftrightarrow> op \<in> {0x20, 0x21, 0x22, 0x23, 0x24, 0x25, 0x26}"

definition is_store :: "nat \<Rightarrow> bool" where
  "is_store op \<longleftrightarrow> op \<in> {0x28, 0x29, 0x2A, 0x2B, 0x2E}"

text \<open>The switch over the opcode.\<close>

definition exec_insn :: "cpu \<Rightarrow> bus \<Rightarrow> u32 \<Rightarrow> u32 \<Rightarrow> (cpu \<times> bus) option" where
  "exec_insn c b pc insn =
     (let op = OP insn; s = gpr c (RS insn); t = gpr c (RT insn); dest = branch_dest pc insn in
      if op = 0x00 then exec_special c b pc insn
      else if op = 0x01 then Some (exec_regimm c pc insn, b)
      else if op = 0x02 then Some (do_branch c (jump_dest pc insn), b)
      else if op = 0x03 then Some (do_branch (wr_reg c 31 (pc + 8)) (jump_dest pc insn), b)
      else if op = 0x04 then Some (branch_if (s = t) c dest, b)
      else if op = 0x05 then Some (branch_if (s \<noteq> t) c dest, b)
      else if op = 0x06 then Some (branch_if (sint s \<le> 0) c dest, b)
      else if op = 0x07 then Some (branch_if (sint s > 0) c dest, b)
      else if op = 0x10 then Some (exec_cop0 c b insn)
      else if is_load op then
        do { (v, b1) \<leftarrow> exec_load op b (eff_addr c insn) t; Some (wr_reg c (RT insn) v, b1) }
      else if is_store op then
        do { b1 \<leftarrow> exec_store op b (eff_addr c insn) t; Some (c, b1) }
      else
        (case alu_imm op s (IMM insn) of
           Some v \<Rightarrow> Some (wr_reg c (RT insn) v, b)
         | None \<Rightarrow> Some (unhandled c, b)))"

section \<open>One step\<close>

definition boot_redirect :: "cpu \<Rightarrow> bus \<Rightarrow> bool" where
  "boot_redirect c b \<longleftrightarrow> boot_flash b \<and> \<not> boot_flash_done b \<and> flash_entry b \<noteq> 0 \<and> c_pc c = 0x0EC0EB6C"

definition advance :: "cpu \<Rightarrow> cpu" where
  "advance c =
     c\<lparr>c_pc := c_next_pc c,
       c_next_pc := (if branch_taken c then branch_target c else c_next_pc c + 4),
       cycles := cycles c + 1\<rparr>"

definition mips_step :: "cpu \<Rightarrow> bus \<Rightarrow> (cpu \<times> bus) option" where
  "mips_step c b =
     (if halted c then Some (c, b)
      else
        do { let (c1, b1) = check_interrupts c b (c_pc c);
             let pc = c_pc c1;
             let b2 = b1\<lparr>last_pc := pc\<rparr>;
             if boot_redirect c1 b2 then
               do { (v, b3) \<leftarrow> bus_read (b2\<lparr>boot_flash_done := True, ecoff_preloaded := False\<rparr>) 0xBF800000 4;
                    Some (c1\<lparr>c_pc := flash_entry b3, c_next_pc := flash_entry b3 + 4\<rparr>, b3) }
             else
               do { let b3 = b2\<lparr>cur_cycles := cycles c1\<rparr>;
                    let c2 = (if pc = 0x0EC0B854 then c1\<lparr>gpr := (gpr c1)(2 := 1)\<rparr> else c1);
                    (insn, b4) \<leftarrow> mips_fetch b3 pc;
                    (c3, b5) \<leftarrow> exec_insn (c2\<lparr>branch_taken := False\<rparr>) b4 pc insn;
                    Some (advance c3, b5) } })"

partial_function (option) mips_run :: "cpu \<Rightarrow> bus \<Rightarrow> u64 \<Rightarrow> (cpu \<times> bus) option" where
  "mips_run c b max_cycles =
     (if \<not> halted c \<and> (max_cycles = 0 \<or> cycles c < max_cycles)
      then do { (c1, b1) \<leftarrow> mips_step c b; mips_run c1 b1 max_cycles }
      else Some (c, b))"

section \<open>Register zero\<close>

lemma wr_reg_0 [simp]: "gpr (wr_reg c i v) 0 = gpr c 0"
  by (simp add: wr_reg_def)

lemma branch_gpr [simp]: "gpr (do_branch c t) = gpr c" "gpr (branch_if p c t) = gpr c"
  by (simp_all add: do_branch_def branch_if_def)

lemma misc_gpr [simp]: "gpr (unhandled c) = gpr c" "gpr (mult64 p c) = gpr c" "gpr (exec_divu c s t) = gpr c"
    "gpr (take_exception c pc e) = gpr c" "gpr (advance c) = gpr c"
  by (simp_all add: unhandled_def mult64_def exec_divu_def take_exception_def Let_def advance_def)

lemma check_interrupts_gpr [simp]: "gpr (fst (check_interrupts c b pc)) = gpr c"
  by (simp add: check_interrupts_def irq_sources_def Let_def)

lemma exec_special_0: "exec_special c b pc insn = Some (c', b') \<Longrightarrow> gpr c' 0 = gpr c 0"
  by (auto simp: exec_special_def Let_def exec_syscall_def exec_div_def option_bind_Some_iff split: option.splits if_splits)

lemma exec_regimm_0: "gpr (exec_regimm c pc insn) 0 = gpr c 0"
  by (simp add: exec_regimm_def Let_def)

lemma exec_cop0_0: "exec_cop0 c b insn = (c', b') \<Longrightarrow> gpr c' 0 = gpr c 0"
  by (auto simp: exec_cop0_def Let_def split: if_splits)

lemma exec_insn_0: "exec_insn c b pc insn = Some (c', b') \<Longrightarrow> gpr c' 0 = gpr c 0"
  by (auto simp: exec_insn_def Let_def option_bind_Some_iff exec_regimm_0
      dest: exec_special_0 exec_cop0_0 split: if_splits option.splits)

lemma mips_step_0: "mips_step c b = Some (c', b') \<Longrightarrow> gpr c' 0 = gpr c 0"
proof -
  assume a: "mips_step c b = Some (c', b')"
  obtain c1 b1 where ci: "check_interrupts c b (c_pc c) = (c1, b1)" by fastforce
  have g: "gpr c1 = gpr c" using check_interrupts_gpr [of c b "c_pc c"] ci by simp
  show ?thesis
    using a by (auto simp: mips_step_def ci g option_bind_Some_iff Let_def dest!: exec_insn_0 split: if_splits)
qed

section \<open>Multiplication and division\<close>

definition hilo :: "cpu \<Rightarrow> u64" where
  "hilo c = push_bit 32 (ucast (c_hi c)) OR ucast (c_lo c)"

lemma hilo_mult64: "hilo (mult64 p c) = p"
  unfolding hilo_def mult64_def
  by (rule bit_word_eqI) (auto simp: bit_simps not_less dest!: le_Suc_ex)

lemma sint_range: "- (2 ^ 31) \<le> sint (x :: u32)" "sint (x :: u32) < 2 ^ 31"
  using sint_greater_eq [of x] sint_less [of x] by simp_all

lemma sint_of_range: "- (2 ^ 31) \<le> k \<Longrightarrow> k < 2 ^ 31 \<Longrightarrow> sint (word_of_int k :: u32) = k"
  by (simp add: signed_of_int signed_take_bit_int_eq_self)

lemma sint_prod_fits: "sint (word_of_int (sint (s :: u32) * sint (t :: u32)) :: u64) = sint s * sint t"
proof -
  have "\<bar>sint s\<bar> \<le> 2 ^ 31" "\<bar>sint t\<bar> \<le> 2 ^ 31" using sint_range [of s] sint_range [of t] by auto
  then have "\<bar>sint s * sint t\<bar> \<le> 2 ^ 31 * 2 ^ 31" unfolding abs_mult by (intro mult_mono) auto
  then have "- (2 ^ 63) \<le> sint s * sint t" "sint s * sint t < 2 ^ 63" by (auto simp: abs_le_iff)
  then show ?thesis unfolding signed_of_int by (simp add: signed_take_bit_int_eq_self)
qed

lemma uint_prod_fits: "uint (ucast (s :: u32) * ucast (t :: u32) :: u64) = uint s * uint t"
proof -
  have u: "uint (ucast x :: u64) = uint x" for x :: u32
    using unsigned_less [of x, where ?'a = int] by (simp add: unsigned_ucast_eq take_bit_int_eq_self)
  have "uint s < 2 ^ 32" "uint t < 2 ^ 32" using unsigned_less [of s] unsigned_less [of t] by simp_all
  then have "uint s * uint t < 2 ^ 32 * 2 ^ 32"
    by (intro mult_strict_mono) auto
  then have "uint (ucast s :: u64) * uint (ucast t :: u64) < 2 ^ LENGTH(64)" by (simp add: u)
  then show ?thesis using uint_mult_lem [of "ucast s :: u64" "ucast t"] by (simp add: u)
qed

lemma exec_special_code:
  "FUNCT insn = 0x18 \<Longrightarrow> exec_special c b pc insn
     = Some (mult64 (word_of_int (sint (gpr c (RS insn)) * sint (gpr c (RT insn)))) c, b)"
  "FUNCT insn = 0x19 \<Longrightarrow> exec_special c b pc insn
     = Some (mult64 (ucast (gpr c (RS insn)) * ucast (gpr c (RT insn))) c, b)"
  "FUNCT insn = 0x1A \<Longrightarrow> exec_special c b pc insn
     = map_option (\<lambda>c1. (c1, b)) (exec_div c (gpr c (RS insn)) (gpr c (RT insn)))"
  "FUNCT insn = 0x1B \<Longrightarrow> exec_special c b pc insn
     = Some (exec_divu c (gpr c (RS insn)) (gpr c (RT insn)), b)"
  "FUNCT insn = 0x0C \<Longrightarrow> exec_special c b pc insn = exec_syscall c b pc"
  by (simp_all add: exec_special_def alu_special_def Let_def)

text \<open>
  The multiplications leave the exact 64-bit product of their operands in the HI and LO registers,
  signed for MULT and unsigned for MULTU.
\<close>

theorem mult_exact:
  assumes "OP insn = 0"
  shows "(FUNCT insn = 0x18 \<longrightarrow> (\<exists>c'. exec_insn c b pc insn = Some (c', b)
            \<and> sint (hilo c') = sint (gpr c (RS insn)) * sint (gpr c (RT insn))))
     \<and> (FUNCT insn = 0x19 \<longrightarrow> (\<exists>c'. exec_insn c b pc insn = Some (c', b)
            \<and> uint (hilo c') = uint (gpr c (RS insn)) * uint (gpr c (RT insn))))"
  using assms by (simp add: exec_insn_def exec_special_code hilo_mult64 sint_prod_fits uint_prod_fits del: of_int_mult)

lemma mult_exact_witness:
  "\<exists>c'. exec_insn (cpu_zero\<lparr>gpr := (\<lambda>i. if i = 8 then 0xFFFFFFFF else 5)\<rparr>) (bus_init (\<lambda>_. 0) 0x40000) 0x1000 0x01090018 = Some (c', bus_init (\<lambda>_. 0) 0x40000)
     \<and> sint (hilo c') = -5"
proof -
  have "OP 0x01090018 = 0" "FUNCT 0x01090018 = 0x18" "RS 0x01090018 = 8" "RT 0x01090018 = 9"
    by (simp_all add: OP_def FUNCT_def RS_def RT_def)
  then show ?thesis
    using mult_exact [of "0x01090018" "cpu_zero\<lparr>gpr := (\<lambda>i. if i = 8 then 0xFFFFFFFF else 5)\<rparr>" "bus_init (\<lambda>_. 0) 0x40000" "0x1000"] by simp
qed

lemma sint_is: "sint (x :: u32) = - 2147483648 \<Longrightarrow> x = 0x80000000" "sint (x :: u32) = -1 \<Longrightarrow> x = 0xFFFFFFFF"
  by (rule signed_word_eqI, simp)+

text \<open>
  The divisions: quotient in LO and remainder in HI satisfy the division identity, the remainder is
  smaller than the divisor and, for DIV, has the sign of the dividend. DIV is defined for every pair but
  the one whose quotient overflows, which is undefined in C.
\<close>

theorem div_exact:
  assumes "OP insn = 0" "gpr c (RT insn) \<noteq> 0"
  shows "(FUNCT insn = 0x1A \<longrightarrow>
       (if gpr c (RS insn) = 0x80000000 \<and> gpr c (RT insn) = 0xFFFFFFFF then exec_insn c b pc insn = None
        else \<exists>c'. exec_insn c b pc insn = Some (c', b)
            \<and> sint (c_lo c') * sint (gpr c (RT insn)) + sint (c_hi c') = sint (gpr c (RS insn))
            \<and> \<bar>sint (c_hi c')\<bar> < \<bar>sint (gpr c (RT insn))\<bar>
            \<and> (if sint (gpr c (RS insn)) \<ge> 0 then sint (c_hi c') \<ge> 0 else sint (c_hi c') \<le> 0)))
     \<and> (FUNCT insn = 0x1B \<longrightarrow> (\<exists>c'. exec_insn c b pc insn = Some (c', b)
            \<and> uint (c_lo c') * uint (gpr c (RT insn)) + uint (c_hi c') = uint (gpr c (RS insn))
            \<and> uint (c_hi c') < uint (gpr c (RT insn))))"
proof -
  let ?s = "gpr c (RS insn)" and ?t = "gpr c (RT insn)"
  have t0: "sint ?t \<noteq> 0" using assms(2) by (metis signed_0 signed_word_eqI)
  have "\<exists>c'. exec_div c ?s ?t = Some c' \<and> sint (c_lo c') * sint ?t + sint (c_hi c') = sint ?s
      \<and> \<bar>sint (c_hi c')\<bar> < \<bar>sint ?t\<bar> \<and> (if sint ?s \<ge> 0 then sint (c_hi c') \<ge> 0 else sint (c_hi c') \<le> 0)"
    if ov: "\<not> (?s = 0x80000000 \<and> ?t = 0xFFFFFFFF)"
  proof -
    have q: "\<bar>sint ?s sdiv sint ?t\<bar> \<le> \<bar>sint ?s\<bar>" using sdiv_int_range [of "sint ?s" "sint ?t"] by auto
    have "sint ?s sdiv sint ?t \<noteq> 2 ^ 31"
    proof
      assume e: "sint ?s sdiv sint ?t = 2 ^ 31"
      with q sint_range [of ?s] have m: "sint ?s = - (2 ^ 31)" by auto
      with e have "sint ?s sdiv sint ?t = - sint ?s" by simp
      moreover have "sint ?s \<noteq> 0" using m by simp
      ultimately have "sint ?t = -1" using int_sdiv_negated_is_minus1 by blast
      with m ov show False by (auto dest!: sint_is)
    qed
    then have ql: "sint (word_of_int (sint ?s sdiv sint ?t) :: u32) = sint ?s sdiv sint ?t"
      using q sint_range [of ?s] by (intro sint_of_range) auto
    have r: "\<bar>sint ?s smod sint ?t\<bar> < \<bar>sint ?t\<bar>" using smod_int_range [OF t0, of "sint ?s"] by auto
    then have rl: "sint (word_of_int (sint ?s smod sint ?t) :: u32) = sint ?s smod sint ?t"
      using sint_range [of ?t] by (intro sint_of_range) auto
    have sg: "if sint ?s \<ge> 0 then sint ?s smod sint ?t \<ge> 0 else sint ?s smod sint ?t \<le> 0"
      using t0 pos_mod_sign [of "\<bar>sint ?t\<bar>"] by (auto simp: smod_int_alt_def sgn_if)
    show ?thesis using ov assms(2) r sg by (simp add: exec_div_def ql rl sdiv_mult_smod_eq)
  qed
  moreover have "exec_div c ?s ?t = None" if "?s = 0x80000000" "?t = 0xFFFFFFFF"
    using that by (simp add: exec_div_def)
  moreover have "uint (c_lo (exec_divu c ?s ?t)) * uint ?t + uint (c_hi (exec_divu c ?s ?t)) = uint ?s
      \<and> uint (c_hi (exec_divu c ?s ?t)) < uint ?t"
    using assms(2) by (simp add: exec_divu_def uint_div uint_mod word_greater_zero_iff [symmetric] word_less_def)
  ultimately show ?thesis
    using assms(1) by (auto simp: exec_insn_def exec_special_code)
qed


lemma div_exact_witness:
  "\<exists>c'. exec_insn (cpu_zero\<lparr>gpr := (\<lambda>i. if i = 8 then 0xFFFFFFF9 else 2)\<rparr>) (bus_init (\<lambda>_. 0) 0x40000) 0x1000 0x0109001A = Some (c', bus_init (\<lambda>_. 0) 0x40000)
     \<and> sint (c_lo c') * 2 + sint (c_hi c') = -7 \<and> sint (c_hi c') \<le> 0"
proof -
  have "OP 0x0109001A = 0" "FUNCT 0x0109001A = 0x1A" "RS 0x0109001A = 8" "RT 0x0109001A = 9"
    by (simp_all add: OP_def FUNCT_def RS_def RT_def)
  then show ?thesis
    using div_exact [of "0x0109001A" "cpu_zero\<lparr>gpr := (\<lambda>i. if i = 8 then 0xFFFFFFF9 else 2)\<rparr>" "bus_init (\<lambda>_. 0) 0x40000" "0x1000"] by auto
qed

section \<open>Exceptions\<close>

text \<open>No instruction sets the delay-slot flag, so an exception always records the current instruction.\<close>

lemma check_interrupts_ds: "\<not> in_delay_slot c \<Longrightarrow> \<not> in_delay_slot (fst (check_interrupts c b pc))"
  by (auto simp: check_interrupts_def irq_sources_def Let_def take_exception_def)

lemma wr_reg_ds [simp]: "in_delay_slot (wr_reg c i v) = in_delay_slot c"
  by (simp add: wr_reg_def)

lemma exec_insn_ds: "exec_insn c b pc insn = Some (c', b') \<Longrightarrow> \<not> in_delay_slot c \<Longrightarrow> \<not> in_delay_slot c'"
  by (auto simp: exec_insn_def exec_special_def exec_syscall_def exec_div_def exec_divu_def exec_regimm_def exec_cop0_def Let_def
      do_branch_def branch_if_def unhandled_def mult64_def take_exception_def option_bind_Some_iff split: if_splits option.splits)

lemma mips_step_ds: "mips_step c b = Some (c', b') \<Longrightarrow> \<not> in_delay_slot c \<Longrightarrow> \<not> in_delay_slot c'"
proof -
  assume a: "mips_step c b = Some (c', b')" "\<not> in_delay_slot c"
  obtain c1 b1 where ci: "check_interrupts c b (c_pc c) = (c1, b1)" by fastforce
  have "\<not> in_delay_slot c1" using check_interrupts_ds [OF a(2), of b "c_pc c"] ci by simp
  then show ?thesis
    using a by (auto simp: mips_step_def ci option_bind_Some_iff Let_def advance_def dest!: exec_insn_ds split: if_splits)
qed

lemma exception_status_bits:
  "bit (cp0_status (take_exception c pc e)) n \<longleftrightarrow>
     (if n < 2 then False else if n < 6 then bit (cp0_status c) (n - 2) else bit (cp0_status c) n)"
proof -
  have m: "(0x3F :: u32) = mask 6" "(0x3C :: u32) = mask 6 AND NOT (mask 2)" by (simp_all add: mask_eq_exp_minus_1)
  have "cp0_status (take_exception c pc e)
      = (cp0_status c AND NOT (mask 6)) OR (push_bit 2 (cp0_status c AND mask 6) AND (mask 6 AND NOT (mask 2)))"
    unfolding take_exception_def Let_def m by simp
  then show ?thesis by (auto simp: bit_simps dest: bit_imp_le_length)
qed

lemma exception_vector:
  "c_pc (take_exception c pc e) = (if bit (cp0_status c) 22 then 0xBFC00180 else 0x80000080)"
  "c_next_pc (take_exception c pc e) = c_pc (take_exception c pc e) + 4"
proof -
  have m: "(0x00400000 :: u32) = 2 ^ 22" by simp
  have "cp0_status (take_exception c pc e) AND 0x00400000 \<noteq> 0 \<longleftrightarrow> bit (cp0_status c) 22"
    using exception_status_bits [of c pc e 22] unfolding m and_exp_eq_0_iff_not_bit by simp
  then show "c_pc (take_exception c pc e) = (if bit (cp0_status c) 22 then 0xBFC00180 else 0x80000080)"
    by (simp add: take_exception_def Let_def)
  show "c_next_pc (take_exception c pc e) = c_pc (take_exception c pc e) + 4"
    by (simp add: take_exception_def Let_def)
qed

text \<open>
  An exception followed by RFE. The exception saves the interrupted instruction in EPC, disables
  interrupts and enters kernel mode, records its code, and vectors by BEV; RFE brings the current and
  previous mode and interrupt bits back as they were.
\<close>

theorem exception_rfe:
  fixes c :: cpu and pc e :: u32
  assumes "\<not> in_delay_slot c"
  defines "c' \<equiv> take_exception c pc e"
  shows "cp0_epc c' = pc \<and> cp0_status c' AND 3 = 0
     \<and> c_pc c' = (if bit (cp0_status c) 22 then 0xBFC00180 else 0x80000080) \<and> c_next_pc c' = c_pc c' + 4
     \<and> drop_bit 2 (cp0_cause c') AND 0x1F = e AND 0x1F
     \<and> (\<forall>n < 4. bit (rfe_status (cp0_status c')) n = bit (cp0_status c) n)
     \<and> (\<forall>n. 6 \<le> n \<longrightarrow> bit (rfe_status (cp0_status c')) n = bit (cp0_status c) n)"
proof -
  have m: "(0xF :: u32) = mask 4" "(0x1F :: u32) = mask 5"
      "(3 :: u32) = mask 2" "(0x8000007F :: u32) = mask 7 OR 2 ^ 31"
    by (simp_all add: mask_eq_exp_minus_1)
  have bits: "bit (cp0_status c') n \<longleftrightarrow> (if n < 2 then False else if n < 6 then bit (cp0_status c) (n - 2) else bit (cp0_status c) n)" for n
    unfolding c'_def by (rule exception_status_bits)
  have rfe: "bit (rfe_status x) n \<longleftrightarrow> (if n < 4 then bit x (n + 2) else bit x n)" for x n
    unfolding rfe_status_def m by (auto simp: bit_simps dest: bit_imp_le_length)
  have "cp0_status c' AND 3 = 0"
    unfolding m by (rule bit_word_eqI) (simp add: bits bit_simps)
  moreover have "drop_bit 2 (cp0_cause c') AND 0x1F = e AND 0x1F"
    using assms(1) unfolding c'_def take_exception_def Let_def m
    by (intro bit_word_eqI) (auto simp: bit_simps)
  moreover have "cp0_epc c' = pc" using assms(1) by (simp add: c'_def take_exception_def Let_def)
  moreover have "c_pc c' = (if bit (cp0_status c) 22 then 0xBFC00180 else 0x80000080)" "c_next_pc c' = c_pc c' + 4"
    unfolding c'_def by (rule exception_vector)+
  ultimately show ?thesis by (simp add: rfe bits)
qed

lemma exception_rfe_witness:
  "bit (rfe_status (cp0_status (take_exception (cpu_zero\<lparr>cp0_status := 0x401\<rparr>) 0x80001000 0))) 0"
  using exception_rfe [of "cpu_zero\<lparr>cp0_status := 0x401\<rparr>" "0x80001000" 0] by (simp add: cpu_zero_def)

text \<open>
  The system call as the emulator delivers it: the exception sets the program counter inside the step,
  and the end of the step advances it, so the handler is entered at its second instruction.
\<close>

lemma syscall_skips:
  assumes "exec_insn c b pc insn = Some (c', b')" "OP insn = 0" "FUNCT insn = 0x0C"
    and "bus_read b 0x80000080 4 = Some (vec, b1)" "vec \<noteq> 0" "\<not> bit (cp0_status c) 22"
  shows "c_pc (advance c') = 0x80000084"
proof -
  have "c' = take_exception c pc 8"
    using assms(1-5) by (simp add: exec_insn_def exec_special_code exec_syscall_def)
  then show ?thesis using assms(6) by (simp add: advance_def exception_vector)
qed


section \<open>Stores and the instruction cache\<close>

lemma ram_cell_fits:
  assumes "ram_cell (mips_va_to_pa va) = Some (k, i)" "sz \<in> {1, 2, 4}" "sz dvd unat va"
  shows "i + sz \<le> NCD15_DRAM_SIZE"
proof -
  let ?pa = "mips_va_to_pa va"
  note al = assms(2) aligned_pa [OF assms(2,3)]
  show ?thesis
  proof (cases "?pa < SHADOW_BASE")
    case True
    then have "i = dram_off ?pa" using assms(1) by (simp add: ram_cell_def)
    then show ?thesis unfolding dram_off_mod NCD15_DRAM_SIZE_def
      using al by (simp only:) (intro aligned_fits dvd_mod, auto)
  next
    case False
    then have "in_shadow ?pa" "i = unat (?pa - SHADOW_BASE)"
      using assms(1) by (auto simp: ram_cell_def split: if_splits)
    then show ?thesis
      using offset_fits [OF al, of SHADOW_BASE NCD15_DRAM_SIZE]
      by (auto simp: in_shadow_def NCD15_DRAM_SIZE_def word_less_nat_alt)
  qed
qed

lemma line_unat: "unat (va AND NOT 15 :: u32) = 16 * (unat va div 16)"
proof -
  have m: "(15 :: u32) = mask 4" by (simp add: mask_eq_exp_minus_1)
  have "va AND NOT 15 = push_bit 4 (drop_bit 4 va)"
    unfolding m by (rule bit_word_eqI) (auto simp: bit_simps not_less dest!: le_Suc_ex)
  moreover have "unat (push_bit 4 (drop_bit 4 va)) = 16 * (unat va div 16)"
  proof -
    have u: "unat va < 2 ^ 32" using unsigned_less [of va] by simp
    then have "unat va div 16 < 2 ^ 28" by (simp add: less_mult_imp_div_less)
    then show ?thesis by (simp add: push_bit_eq_mult unat_word_ariths unat_drop_bit_eq drop_bit_eq_div)
  qed
  ultimately show ?thesis by simp
qed

lemma line_word_unat: "j < 4 \<Longrightarrow> unat ((va AND NOT 15) + 4 * of_nat j :: u32) = 16 * (unat va div 16) + 4 * j"
proof -
  assume j: "j < 4"
  have u: "unat va < 2 ^ 32" using unsigned_less [of va] by simp
  then have d: "unat va div 16 < 2 ^ 28" by (simp add: less_mult_imp_div_less)
  have f: "unat (of_nat (4 * j) :: u32) = 4 * j" using j by (intro unat_of_nat_small) simp
  have e: "(va AND NOT 15) + 4 * of_nat j = (va AND NOT 15) + of_nat (4 * j)" by simp
  have "unat ((va AND NOT 15) + 4 * of_nat j) = (unat (va AND NOT 15) + unat (of_nat (4 * j) :: u32)) mod 2 ^ LENGTH(32)"
    unfolding e by (rule unat_word_ariths(1))
  also have "\<dots> = 16 * (unat va div 16) + 4 * j"
    unfolding line_unat f using d j by (intro mod_less) simp
  finally show ?thesis .
qed

lemma div16_le: "j < 4 \<Longrightarrow> 16 * k \<le> 16 * (n div 16) + 4 * j \<longleftrightarrow> 16 * k \<le> (n :: nat)"
proof -
  assume "j < 4"
  then have "16 * k \<le> 16 * (n div 16) + 4 * j \<longleftrightarrow> k \<le> n div 16" by linarith
  also have "\<dots> \<longleftrightarrow> 16 * k \<le> n" by (simp add: less_eq_div_iff_mult_less_eq mult.commute)
  finally show ?thesis .
qed

lemma div16_diff: "16 * k \<le> n \<Longrightarrow> (n - 16 * k) div 16 = n div 16 - (k :: nat)"
  by (auto simp: le_iff_add)

lemma line_word_pa:
  assumes "j < 4"
  shows "unat (mips_va_to_pa ((va AND NOT 15) + 4 * of_nat j)) = 16 * (unat (mips_va_to_pa va) div 16) + 4 * j"
proof -
  let ?w = "(va AND NOT 15) + 4 * of_nat j" and ?n = "unat va"
  have w: "unat ?w = 16 * (?n div 16) + 4 * j" by (rule line_word_unat [OF assms])
  have seg: "?w \<ge> 0xC0000000 \<longleftrightarrow> va \<ge> 0xC0000000" "?w \<ge> 0xA0000000 \<longleftrightarrow> va \<ge> 0xA0000000" "?w \<ge> 0x80000000 \<longleftrightarrow> va \<ge> 0x80000000"
    using div16_le [OF assms, of "0xC000000" ?n] div16_le [OF assms, of "0xA000000" ?n] div16_le [OF assms, of "0x8000000" ?n]
    unfolding word_le_nat_alt w by simp_all
  have sub: "16 * (?n div 16) + 4 * j - 16 * k = 16 * ((?n - 16 * k) div 16) + 4 * j" if "16 * k \<le> ?n" for k
  proof -
    have "k \<le> ?n div 16" using that by (simp add: less_eq_div_iff_mult_less_eq mult.commute)
    then show ?thesis using div16_diff [OF that] by (simp add: diff_mult_distrib2)
  qed
  show ?thesis
    using sub [of "0xA000000"] sub [of "0x8000000"]
    unfolding va_pa_unat w seg by (simp add: word_le_nat_alt)
qed


lemma ram_cell_step:
  assumes "ram_cell pa = Some (k, i)" "unat pa' = 16 * (unat pa div 16) + 4 * j" "j < 4"
  shows "\<exists>i'. ram_cell pa' = Some (k, i')"
proof -
  have "pa' \<ge> SHADOW_BASE \<longleftrightarrow> pa \<ge> SHADOW_BASE" "pa' \<ge> SHADOW_END \<longleftrightarrow> pa \<ge> SHADOW_END"
    using div16_le [OF assms(3), of "0xEC0000" "unat pa"] div16_le [OF assms(3), of "0xF00000" "unat pa"]
    unfolding word_le_nat_alt assms(2) by simp_all
  then have "pa' < SHADOW_BASE \<longleftrightarrow> pa < SHADOW_BASE" "pa' < SHADOW_END \<longleftrightarrow> pa < SHADOW_END"
    by (simp_all add: not_le [symmetric])
  then show ?thesis using assms(1) by (auto simp: ram_cell_def in_shadow_def not_le [symmetric] split: if_splits)
qed

text \<open>No load of the cache line is intercepted.\<close>

definition line_plain :: "bus \<Rightarrow> u32 \<Rightarrow> bool" where
  "line_plain b va \<longleftrightarrow> (\<forall>j < 4. shadow_intercept b (mips_va_to_pa ((va AND NOT 15) + 4 * of_nat j)) 4 = None)"

lemma line_word_read:
  assumes "ram_cell (mips_va_to_pa va) = Some (k, i)" "line_plain b va" "j < 4"
  shows "\<exists>w. bus_read b ((va AND NOT 15) + 4 * of_nat j) 4 = Some (w, b)"
proof -
  let ?va = "(va AND NOT 15) + 4 * of_nat j"
  obtain i' where c: "ram_cell (mips_va_to_pa ?va) = Some (k, i')"
    using ram_cell_step [OF assms(1) line_word_pa [OF assms(3)] assms(3)] by blast
  have "4 dvd unat ?va" unfolding line_word_unat [OF assms(3)] by simp
  then have "i' + 4 \<le> NCD15_DRAM_SIZE" using ram_cell_fits [OF c, of 4] by simp
  then show ?thesis
    using assms(2,3) ram_read [OF c, of b 4] by (auto simp: line_plain_def ld_buf_def)
qed

lemma read_line_word:
  assumes "ram_cell (mips_va_to_pa va) = Some (k, i)" "line_plain b va"
  obtains ws where "read_line b (va AND NOT 15) 4 = Some (ws, b)"
    "\<And>j. j < 4 \<Longrightarrow> bus_read b ((va AND NOT 15) + 4 * of_nat j) 4 = Some (ws ! j, b)"
proof -
  obtain w where w: "\<And>j. j < 4 \<Longrightarrow> bus_read b ((va AND NOT 15) + 4 * of_nat j) 4 = Some (w j, b)"
    using line_word_read [OF assms] by metis
  have four: "4 = Suc (Suc (Suc (Suc 0)))" by simp
  have "read_line b (va AND NOT 15) 4 = Some ([w 0, w 1, w 2, w 3], b)"
    using w [of 0] w [of 1] w [of 2] w [of 3] by (subst four) (simp add: add.assoc)
  moreover have "[w 0, w 1, w 2, w 3] ! j = w j" if "j < 4" for j
    using that by (auto simp: less_Suc_eq numeral_eq_Suc)
  ultimately show thesis using w that by metis
qed

lemma line_index: "p mod 16 = n mod 16 \<Longrightarrow> p div 4 mod 4 = n div 4 mod (4 :: nat)"
proof -
  have "(x mod 16) div 4 = x div 4 mod 4" for x :: nat
    using mod_mult2_eq [of x 4 4] by simp
  then show "p mod 16 = n mod 16 \<Longrightarrow> p div 4 mod 4 = n div 4 mod 4" by metis
qed

lemma line_offset: "4 dvd n \<Longrightarrow> 16 * (n div 16) + 4 * (n div 4 mod 4) = (n :: nat)"
  using mod_mult2_eq [of n 4 4] div_mult_mod_eq [of n 16] by (auto simp: dvd_eq_mod_eq_0)

lemma word_of_line:
  assumes "4 dvd unat va"
  shows "(va AND NOT 15) + 4 * of_nat (unat (drop_bit 2 (mips_va_to_pa va) AND 3)) = va"
proof -
  let ?n = "unat va" and ?pa = "mips_va_to_pa va"
  have m: "(3 :: u32) = mask 2" by (simp add: mask_eq_exp_minus_1)
  have sub: "(?n - 16 * k) mod 16 = ?n mod 16" if "16 * k \<le> ?n" for k
    using that by (auto simp: le_iff_add)
  have "unat ?pa mod 16 = ?n mod 16"
    using sub [of "0xA000000"] sub [of "0x8000000"] unfolding va_pa_unat by (simp add: word_le_nat_alt)
  moreover have "unat (drop_bit 2 ?pa AND 3) = unat ?pa div 4 mod 4"
    unfolding m unat_and_mask unat_drop_bit_eq by (simp add: drop_bit_eq_div)
  ultimately have j: "unat (drop_bit 2 ?pa AND 3) = ?n div 4 mod 4" using line_index by metis
  have "?n div 4 mod 4 < 4" by simp
  then have "unat ((va AND NOT 15) + 4 * of_nat (?n div 4 mod 4)) = ?n"
    using line_offset [OF assms] by (simp only: line_word_unat)
  then show ?thesis unfolding j by (simp only: word_unat_eq_iff)
qed

lemma invalid_tag: "icache_tag pa \<noteq> 0xFFFFFFFF"
proof -
  have "unat pa < 2 ^ 32" using unsigned_less [of pa] by simp
  then have "unat pa div 4096 < 2 ^ 20" by (simp add: less_mult_imp_div_less)
  then have "unat (icache_tag pa) < 2 ^ 20" unfolding icache_tag_def unat_drop_bit_eq by (simp add: drop_bit_eq_div)
  then show ?thesis by auto
qed

lemma invalidate_miss: "ic_tag (icache_invalidate c pa (icache_index pa)) \<noteq> icache_tag pa"
  using invalid_tag [of pa] by (simp add: icache_invalidate_def Let_def)


text \<open>
  C5: Self-modifying code. Let the data cache not be isolated, and let a word be stored through a cached, word-aligned
  address of a cell of RAM other than the physical addresses 0 and 4 (a fetch from those returns hard-wired
  instructions). Then an instruction fetch of the word through any cached, aligned address of the same physical place returns
  what was stored, whatever the instruction cache held before, because the store drops the stale line. The four words of
  its cache line must be plain memory after the store, none of them one of the addresses whose loads the emulator intercepts.
\<close>

theorem store_then_fetch:
  assumes st: "exec_store 0x2B b a v = Some b'" "\<not> cache_isolated b" "\<not> uncached a" "4 dvd unat a"
    and ram: "ram_cell (mips_va_to_pa a) = Some (k, i)"
    and pc: "\<not> uncached va" "4 dvd unat va" "mips_va_to_pa va = mips_va_to_pa a" "mips_va_to_pa a \<notin> {0, 4}"
    and plain: "line_plain b' va"
  shows "\<exists>b''. mips_fetch b' va = Some (v, b'')"
proof -
  let ?pa = "mips_va_to_pa a"
  from st(1) obtain b1 where w: "bus_write b a v 4 = Some b1" and b': "b' = store_invalidate b1 a"
    by (auto simp: exec_store_def)
  from w ram_write [OF ram st(2), of dev_write v 4] obtain m where
    m: "st_buf (bank_mem k b) NCD15_DRAM_SIZE i v 4 = Some m"
      "b1 = (case k of Dram \<Rightarrow> b\<lparr>dram := m\<rparr> | Shadow \<Rightarrow> b\<lparr>shadow := m\<rparr>)" by (auto simp: bus_write_def)
  have "bank_mem k b' = m" using m(2) by (cases k) (simp_all add: b' store_invalidate_def bank_mem_def)
  moreover have "m = st_be (bank_mem k b) i v 4" "i + 4 \<le> NCD15_DRAM_SIZE"
    using m(1) by (auto simp: st_buf_def split: if_splits)
  ultimately have mem: "ld_buf (bank_mem k b') NCD15_DRAM_SIZE i 4 = Some v"
    by (simp add: ld_buf_def ld_st_be trunc_size_def)
  have cell: "ram_cell (mips_va_to_pa va) = Some (k, i)" using ram pc(3) by simp
  obtain ws where ws: "read_line b' (va AND NOT 15) 4 = Some (ws, b')"
    "\<And>j. j < 4 \<Longrightarrow> bus_read b' ((va AND NOT 15) + 4 * of_nat j) 4 = Some (ws ! j, b')"
    using read_line_word [OF cell plain] by blast
  let ?j = "unat (drop_bit 2 ?pa AND 3)"
  have j: "?j < 4"
    using unat_and_mask [of "drop_bit 2 ?pa" 2] by (simp add: mask_eq_exp_minus_1)
  have va: "(va AND NOT 15) + 4 * of_nat ?j = va" using word_of_line [OF pc(2)] pc(3) by simp
  have "shadow_intercept b' (mips_va_to_pa va) 4 = None"
    using plain j va unfolding line_plain_def by metis
  then have "bus_read b' va 4 = Some (v, b')" using ram_read [OF cell] mem by simp
  then have v: "ws ! ?j = v" using ws(2) [OF j] unfolding va by simp
  have miss: "ic_tag (b_icache b' (icache_index ?pa)) \<noteq> icache_tag ?pa"
    using st(3) invalidate_miss by (simp add: b' store_invalidate_def)
  show ?thesis
    using pc(1,3,4) ws(1) v miss by (simp add: mips_fetch_def Let_def)
qed

lemma store_then_fetch_witness:
  "\<exists>b' b''. exec_store 0x2B (bus_init (\<lambda>_. 0) 0x40000) 0x80000200 0x03E00008 = Some b'
     \<and> mips_fetch b' 0x00000200 = Some (0x03E00008, b'')"
proof -
  let ?b = "bus_init (\<lambda>_. 0) 0x40000"
  have c: "ram_cell (mips_va_to_pa 0x80000200) = Some (Dram, 0x200)"
    by (simp add: ram_cell_def mips_va_to_pa_def dram_off_def)
  obtain b' where b': "exec_store 0x2B ?b 0x80000200 0x03E00008 = Some b'"
    by (simp add: exec_store_def bus_write_def ram_write [OF c] bus_init_def st_buf_def bank_mem_def NCD15_DRAM_SIZE_def)
  moreover have "line_plain b' 0x200"
  proof -
    have "last_pc b' = 0" using b'
      by (auto simp: exec_store_def bus_write_def ram_write [OF c] bus_init_def store_invalidate_def)
    then show ?thesis by (simp add: line_plain_def shadow_intercept_def shadow_resident_def)
  qed
  ultimately show ?thesis
    using store_then_fetch [OF b' _ _ _ c, of "0x200"]
    by (auto simp: bus_init_def uncached_def mips_va_to_pa_def)
qed


section \<open>Control flow\<close>

text \<open>The instructions that transfer control, and where to.\<close>

definition transfer :: "cpu \<Rightarrow> u32 \<Rightarrow> u32 \<Rightarrow> u32 option" where
  "transfer c pc insn =
     (let s = gpr c (RS insn); t = gpr c (RT insn); f = FUNCT insn; dest = branch_dest pc insn in
      if OP insn = 0 then (if f = 0x08 \<or> f = 0x09 then Some s else None)
      else if OP insn = 1 then
        (if RT insn \<in> {0x00, 0x10} \<and> sint s < 0 \<or> RT insn \<in> {0x01, 0x11} \<and> 0 \<le> sint s then Some dest else None)
      else if OP insn \<in> {2, 3} then Some (jump_dest pc insn)
      else if OP insn = 4 \<and> s = t \<or> OP insn = 5 \<and> s \<noteq> t \<or> OP insn = 6 \<and> sint s \<le> 0 \<or> OP insn = 7 \<and> 0 < sint s
      then Some dest else None)"

definition is_syscall :: "u32 \<Rightarrow> bool" where
  "is_syscall insn \<longleftrightarrow> OP insn = 0 \<and> FUNCT insn = 0x0C"

lemma wr_reg_flow [simp]: "c_next_pc (wr_reg c i v) = c_next_pc c" "branch_taken (wr_reg c i v) = branch_taken c"
    "branch_target (wr_reg c i v) = branch_target c"
  by (simp_all add: wr_reg_def)

lemma special_flow:
  assumes "exec_special c b pc insn = Some (c', b')" "FUNCT insn \<noteq> 0x0C" "\<not> branch_taken c"
  shows "c_next_pc c' = c_next_pc c \<and> (if FUNCT insn = 0x08 \<or> FUNCT insn = 0x09
     then branch_taken c' \<and> branch_target c' = gpr c (RS insn) else \<not> branch_taken c')"
proof (cases "alu_special (FUNCT insn) (gpr c (RS insn)) (gpr c (RT insn)) (SHAMT insn) c")
  case None
  then show ?thesis
    using assms by (auto simp: exec_special_def Let_def do_branch_def exec_div_def exec_divu_def mult64_def unhandled_def
        split: if_splits)
next
  case (Some v)
  then have "FUNCT insn \<noteq> 0x08" "FUNCT insn \<noteq> 0x09" by (auto simp: alu_special_def)
  then show ?thesis using assms Some by (auto simp: exec_special_def Let_def)
qed

lemma cop0_flow: "exec_cop0 c b insn = (c', b') \<Longrightarrow> c_next_pc c' = c_next_pc c \<and> branch_taken c' = branch_taken c"
  by (auto simp: exec_cop0_def Let_def unhandled_def split: if_splits)

lemma insn_flow:
  assumes "exec_insn c b pc insn = Some (c', b')" "\<not> is_syscall insn" "\<not> branch_taken c"
  shows "c_next_pc c' = c_next_pc c \<and>
    (case transfer c pc insn of Some t \<Rightarrow> branch_taken c' \<and> branch_target c' = t | None \<Rightarrow> \<not> branch_taken c')"
proof -
  consider "OP insn = 0" | "OP insn = 1" | "OP insn = 0x10" | "OP insn \<notin> {0, 1, 0x10}" by auto
  then show ?thesis
  proof cases
    case 1
    then show ?thesis using assms special_flow [of c b pc insn c' b']
      by (auto simp: exec_insn_def transfer_def Let_def is_syscall_def)
  next
    case 2
    then show ?thesis using assms
      by (auto simp: exec_insn_def transfer_def Let_def exec_regimm_def branch_if_def do_branch_def unhandled_def split: if_splits)
  next
    case 3
    then show ?thesis using assms cop0_flow [of c b insn c' b']
      by (auto simp: exec_insn_def transfer_def Let_def)
  next
    case 4
    then show ?thesis using assms
      by (auto simp: exec_insn_def transfer_def Let_def branch_if_def do_branch_def unhandled_def option_bind_Some_iff
          is_load_def is_store_def split: if_splits option.splits)
  qed
qed

text \<open>
  The instruction the next step executes: none when the processor is halted, when the step takes an
  interrupt, or when it is the jump into a preloaded flash image. One instruction address is patched by the emulator,
  which sets register 2 there before the instruction runs.
\<close>

definition next_insn :: "cpu \<Rightarrow> bus \<Rightarrow> u32 option" where
  "next_insn c b =
     (let (c1, b1) = irq_sources c b (c_pc c) in
      if halted c \<or> irq_pending c1 \<or> boot_redirect c b then None
      else map_option fst (mips_fetch (b1\<lparr>last_pc := c_pc c, cur_cycles := cycles c\<rparr>) (c_pc c)))"

definition patched :: "cpu \<Rightarrow> cpu" where
  "patched c = (if c_pc c = 0x0EC0B854 then c\<lparr>gpr := (gpr c)(2 := 1)\<rparr> else c)"

lemma irq_sources_keeps:
  assumes "irq_sources c b pc = (c1, b1)"
  shows "c1 = c\<lparr>cp0_cause := cp0_cause c1\<rparr>" "boot_redirect c1 (b1\<lparr>last_pc := x\<rparr>) = boot_redirect c b"
  using assms by (auto simp: irq_sources_def Let_def boot_redirect_def split: if_splits)

lemma transfer_cong: "gpr c = gpr c' \<Longrightarrow> transfer c pc i = transfer c' pc i"
  by (simp add: transfer_def)

lemma mips_step_flow:
  assumes "mips_step c b = Some (c', b')" "next_insn c b = Some i" "\<not> is_syscall i"
  shows "c_pc c' = c_next_pc c
     \<and> c_next_pc c' = (case transfer (patched c) (c_pc c) i of Some t \<Rightarrow> t | None \<Rightarrow> c_next_pc c + 4)"
proof -
  obtain c1 b1 where q: "irq_sources c b (c_pc c) = (c1, b1)" by fastforce
  note k = irq_sources_keeps [OF q]
  have f: "c_pc c1 = c_pc c" "cycles c1 = cycles c" "gpr c1 = gpr c" "c_next_pc c1 = c_next_pc c"
    by (subst k(1), simp)+
  let ?b = "b1\<lparr>last_pc := c_pc c, cur_cycles := cycles c\<rparr>"
  let ?c = "(if c_pc c = 0x0EC0B854 then c1\<lparr>gpr := (gpr c1)(2 := 1)\<rparr> else c1)\<lparr>branch_taken := False\<rparr>"
  from assms(2) obtain b4 where n: "\<not> halted c" "\<not> irq_pending c1" "\<not> boot_redirect c b"
    and m: "mips_fetch ?b (c_pc c) = Some (i, b4)"
    by (auto simp: next_insn_def q split: if_splits)
  from assms(1) obtain c3 where x: "exec_insn ?c b4 (c_pc c) i = Some (c3, b')" and c': "c' = advance c3"
    by (auto simp: mips_step_def check_interrupts_def q n k(2) f m Let_def option_bind_Some_iff)
  have t: "transfer ?c (c_pc c) i = transfer (patched c) (c_pc c) i"
    by (rule transfer_cong) (simp add: patched_def f)
  from insn_flow [OF x assms(3)] show ?thesis
    by (auto simp: c' t advance_def f split: option.splits)
qed

text \<open>
  C4: The delay slot. Take two successive steps of the processor that each execute an instruction: it is not halted,
  no interrupt is taken before either of them, and neither is the jump into the flash image. When the first
  instruction transfers control, the second is still the one after it, and only then does execution
  continue at the destination; when it does not transfer, the second is followed by its successor. The
  system call, which enters the exception handler at once, is excluded; an interrupt between a branch and its delay slot
  is excluded too: the emulator then forgets the branch.
\<close>

theorem delay_slot:
  assumes s1: "mips_step c b = Some (c1, b1)" "next_insn c b = Some i1" "\<not> is_syscall i1"
    and s2: "mips_step c1 b1 = Some (c2, b2)" "next_insn c1 b1 = Some i2" "\<not> is_syscall i2"
  shows "c_pc c1 = c_next_pc c
     \<and> c_pc c2 = (case transfer (patched c) (c_pc c) i1 of Some t \<Rightarrow> t | None \<Rightarrow> c_next_pc c + 4)"
  using mips_step_flow [OF s1] mips_step_flow [OF s2] by simp

lemma delay_slot_witness:
  "\<exists>c1 b1 c2 b2. mips_step (cpu_zero\<lparr>c_pc := 0xBFC00000, c_next_pc := 0xBFC00004\<rparr>) (bus_init (\<lambda>i. [0x0B, 0xF0, 0x00, 0x40, 0x24, 0x08, 0x00, 0x07] ! (i mod 8)) 0x40000)
       = Some (c1, b1) \<and> mips_step c1 b1 = Some (c2, b2) \<and> gpr c2 8 = 7 \<and> c_pc c2 = 0xBFC00100"
proof -
  define b where "b = bus_init (\<lambda>i. [0x0B, 0xF0, 0x00, 0x40, 0x24, 0x08, 0x00, 0x07] ! (i mod 8)) 0x40000"
  define c where "c = cpu_zero\<lparr>c_pc := 0xBFC00000, c_next_pc := 0xBFC00004\<rparr>"
  have d: "OP 0x0BF00040 = 2" "OP 0x24080007 = 9" "RT 0x24080007 = 8" "IMM 0x24080007 = 7" "RS 0x24080007 = 0"
    "TARGET 0x0BF00040 = 0x3F00040"
    by (simp_all add: OP_def RT_def RS_def IMM_def TARGET_def)
  have t: "jump_dest 0xBFC00000 0x0BF00040 = 0xBFC00100" by (simp add: jump_dest_def d)
  have f: "mips_fetch (b\<lparr>lance_irq_prev := x, last_pc := y, cur_cycles := z\<rparr>) 0xBFC00000 = Some (0x0BF00040, b\<lparr>lance_irq_prev := x, last_pc := y, cur_cycles := z\<rparr>)"
     "mips_fetch (b\<lparr>lance_irq_prev := x, last_pc := y, cur_cycles := z\<rparr>) 0xBFC00004 = Some (0x24080007, b\<lparr>lance_irq_prev := x, last_pc := y, cur_cycles := z\<rparr>)"
    for x y z
    by (simp_all add: mips_fetch_def uncached_def bus_read_def mips_va_to_pa_def in_rom_def NCD15_ROM_SIZE_def
        ld_buf_def ld_be_def bus_init_def b_def)
  have q: "irq_sources x (b\<lparr>lance_irq_prev := v, last_pc := y, cur_cycles := z\<rparr>) pc = (x, b\<lparr>lance_irq_prev := lance_irq b, last_pc := y, cur_cycles := z\<rparr>)"
    and q': "irq_sources x b pc = (x, b\<lparr>lance_irq_prev := lance_irq b\<rparr>)"
    if "cp0_status x = 0" "pc AND 0xFFF00000 \<noteq> 0x8ED00000" for x pc v y z
    using that by (simp_all add: irq_sources_def b_def bus_init_def)
  have p: "\<not> irq_pending x" if "cp0_status x = 0" for x using that by (simp add: irq_pending_def)
  have bf: "\<not> boot_flash b" by (simp add: b_def bus_init_def)
  have r: "boot_redirect x b' = False" if "\<not> boot_flash b'" for x b' using that by (simp add: boot_redirect_def)
  define c1 where "c1 = advance (do_branch (c\<lparr>branch_taken := False\<rparr>) 0xBFC00100)"
  define c2 where "c2 = advance (wr_reg (c1\<lparr>branch_taken := False\<rparr>) 8 7)"
  let ?b = "\<lambda>y z. b\<lparr>lance_irq_prev := lance_irq b, last_pc := y, cur_cycles := z\<rparr>"
  have c: "c_pc c = 0xBFC00000" "c_next_pc c = 0xBFC00004" "cp0_status c = 0" "\<not> halted c" "cycles c = 0" "gpr c = (\<lambda>_. 0)"
    by (simp_all add: c_def cpu_zero_def)
  have c1: "c_pc c1 = 0xBFC00004" "cp0_status c1 = 0" "\<not> halted c1" "cycles c1 = 1" "gpr c1 = (\<lambda>_. 0)"
    by (simp_all add: c1_def advance_def do_branch_def c)
  have 1: "mips_step c b = Some (c1, ?b 0xBFC00000 0)"
    by (simp add: mips_step_def check_interrupts_def q' p r bf c f exec_insn_def Let_def d t c1_def [symmetric])
  have 2: "next_insn c b = Some 0x0BF00040"
    by (simp add: next_insn_def q' p r bf c f)
  have 3: "mips_step c1 (?b 0xBFC00000 0) = Some (c2, ?b 0xBFC00004 1)"
    by (simp add: mips_step_def check_interrupts_def q p r bf c1 f exec_insn_def Let_def d c2_def is_load_def is_store_def alu_imm_def sign_ext16_def)
  have 4: "next_insn c1 (?b 0xBFC00000 0) = Some 0x24080007"
    by (simp add: next_insn_def q p r bf c1 f)
  have "c_pc c2 = 0xBFC00100"
    using delay_slot [OF 1 2 _ 3 4] by (simp add: is_syscall_def d transfer_def patched_def Let_def t c)
  moreover have "gpr c2 8 = 7" by (simp add: c2_def wr_reg_def advance_def)
  ultimately show ?thesis using 1 3 unfolding b_def c_def by blast
qed

section \<open>Unaligned loads\<close>

text \<open>
  LWR. The load fills the low bytes of the register with the bytes of the aligned word from its
  first byte to the addressed one and leaves the high bytes alone, as big-endian MIPS does.
\<close>

theorem lwr_correct:
  assumes "bus_read b (a AND NOT 3) 4 = Some (w, b1)"
  shows "\<exists>v. exec_load 0x26 b a rt = Some (v, b1)
     \<and> (\<forall>n < 32. bit v n = (if n < 8 * (unat (a AND 3) + 1) then bit w (n + 8 * (3 - unat (a AND 3))) else bit rt n))"
proof -
  have m: "(3 :: u32) = mask 2" by (simp add: mask_eq_exp_minus_1)
  have k: "unat (a AND 3) < 4" unfolding m unat_and_mask by simp
  have f: "(0xFFFFFFFF :: u32) = mask 32" by (simp add: mask_eq_exp_minus_1)
  let ?k = "unat (a AND 3)"
  let ?v = "(rt AND high_mask ((3 - ?k) * 8)) OR drop_bit ((3 - ?k) * 8) w"
  have "bit ?v n = (if n < 8 * (?k + 1) then bit w (n + 8 * (3 - ?k)) else bit rt n)" if "n < 32" for n
  proof -
    consider "?k = 0" | "?k = 1" | "?k = 2" | "?k = 3" using k by linarith
    then show ?thesis
      using that unfolding high_mask_def f
      by cases (auto simp: bit_simps add.commute dest: bit_imp_le_length)
  qed
  then show ?thesis using assms by (simp add: exec_load_def Let_def)
qed

lemma lwr_correct_witness:
  "\<exists>v. exec_load 0x26 (bus_init (\<lambda>i. of_nat (i + 1)) 0x40000) 0xBFC00001 0xAABBCCDD = Some (v, bus_init (\<lambda>i. of_nat (i + 1)) 0x40000)
     \<and> (bit v 0 \<longleftrightarrow> bit (0x01020304 :: u32) 16)"
proof -
  have "bus_read (bus_init (\<lambda>i. of_nat (i + 1)) 0x40000) (0xBFC00001 AND NOT 3) 4
      = Some (0x01020304, bus_init (\<lambda>i. of_nat (i + 1)) 0x40000)"
    by (simp add: bus_read_def mips_va_to_pa_def in_rom_def NCD15_ROM_SIZE_def ld_buf_def ld_be_def bus_init_def)
  from lwr_correct [OF this, of "0xAABBCCDD"] show ?thesis by auto
qed

text \<open>LWL, in contrast, shifts the wrong way: from an aligned address it should load the whole word.\<close>

lemma lwl_aligned:
  assumes "bus_read b a 4 = Some (w, b1)" "a AND 3 = 0"
  shows "exec_load 0x22 b a rt = Some (push_bit 24 w, b1)"
proof -
  have m: "(3 :: u32) = mask 2" by (simp add: mask_eq_exp_minus_1)
  have low: "\<not> bit a n" if "n < 2" for n
  proof -
    have "bit (a AND 3) n = bit a n" using that unfolding m by (simp add: bit_simps)
    then show ?thesis using assms(2) by simp
  qed
  have "a AND NOT 3 = a"
    unfolding m by (rule bit_word_eqI) (use low in \<open>auto simp: bit_simps\<close>)
  then show ?thesis using assms by (simp add: exec_load_def Let_def low_mask_def)
qed


section \<open>Runs\<close>

lemma mips_run_inv:
  assumes "mips_run c b n = Some (c', b')"
  shows "gpr c 0 = z \<and> \<not> in_delay_slot c \<longrightarrow> gpr c' 0 = z \<and> \<not> in_delay_slot c'"
proof -
  have "(\<lambda>(c', b'). gpr c 0 = z \<and> \<not> in_delay_slot c \<longrightarrow> gpr c' 0 = z \<and> \<not> in_delay_slot c') y"
    if "mips_run c b n = Some y" for y
  proof (rule mips_run.raw_induct
      [where P = "\<lambda>c b n (c', b'). gpr c 0 = z \<and> \<not> in_delay_slot c \<longrightarrow> gpr c' 0 = z \<and> \<not> in_delay_slot c'", OF _ that])
    fix run c b n y
    assume IH: "\<And>c b n y. run c b n = Some y \<Longrightarrow>
        (case y of (c', b') \<Rightarrow> gpr c 0 = z \<and> \<not> in_delay_slot c \<longrightarrow> gpr c' 0 = z \<and> \<not> in_delay_slot c')"
      and "(if \<not> halted c \<and> (n = 0 \<or> cycles c < n)
            then do { (c1, b1) \<leftarrow> mips_step c b; run c1 b1 n } else Some (c, b)) = Some y"
    then show "case y of (c', b') \<Rightarrow> gpr c 0 = z \<and> \<not> in_delay_slot c \<longrightarrow> gpr c' 0 = z \<and> \<not> in_delay_slot c'"
      by (fastforce simp: option_bind_Some_iff dest: mips_step_0 mips_step_ds split: if_splits)
  qed
  from this [OF assms] show ?thesis by simp
qed

text \<open>
  C25: Register zero. However long the processor runs from reset, general register 0 reads zero: no
  instruction, exception or interrupt writes it. The emulator also never marks an instruction as
  being in a delay slot.
\<close>

theorem mips_run_r0:
  assumes "mips_reset c b = (c0, b0)" "mips_run c0 b0 n = Some (c', b')"
  shows "gpr c' 0 = 0 \<and> \<not> in_delay_slot c'"
proof -
  have "gpr c0 0 = 0 \<and> \<not> in_delay_slot c0" using assms(1) by (auto simp: mips_reset_def)
  then show ?thesis using mips_run_inv [OF assms(2), of 0] by blast
qed

lemma mips_run_r0_witness:
  "\<exists>c' b'. mips_run (fst (mips_reset cpu_zero (bus_init (\<lambda>_. 0xFF) 0x40000)))
       (snd (mips_reset cpu_zero (bus_init (\<lambda>_. 0xFF) 0x40000))) 1 = Some (c', b') \<and> gpr c' 0 = 0"
proof -
  let ?b = "bus_init (\<lambda>_. 0xFF) 0x40000"
  obtain c0 b0 where r: "mips_reset cpu_zero ?b = (c0, b0)" by fastforce
  have c0: "c_pc c0 = 0xBFC00000" "cycles c0 = 0" "\<not> halted c0" "cp0_status c0 = 0x00400000" "cp0_cause c0 = 0"
    and b0: "b0 = ?b\<lparr>b_icache := icache_flush_all (b_icache ?b)\<rparr>"
    using r by (auto simp: mips_reset_def cpu_zero_def)
  have ci: "check_interrupts c0 b0 0xBFC00000 = (c0, b0)"
    by (simp add: check_interrupts_def irq_sources_def irq_pending_def c0 b0 bus_init_def)
  have "\<exists>b2. mips_fetch (b0\<lparr>last_pc := 0xBFC00000, cur_cycles := 0\<rparr>) 0xBFC00000 = Some (0xFFFFFFFF, b2)"
    by (simp add: mips_fetch_def uncached_def bus_read_def mips_va_to_pa_def in_rom_def NCD15_ROM_SIZE_def
        ld_buf_def ld_be_def bus_init_def b0)
  moreover have "boot_redirect c0 (b0\<lparr>last_pc := 0xBFC00000\<rparr>) = False" by (simp add: boot_redirect_def b0 bus_init_def)
  ultimately have "\<exists>c' b'. mips_step c0 b0 = Some (c', b') \<and> cycles c' = 1"
    by (auto simp: mips_step_def ci c0 Let_def exec_insn_def OP_def RS_def RT_def IMM_def alu_imm_def is_load_def
        is_store_def unhandled_def advance_def)
  then obtain c' b' where s: "mips_step c0 b0 = Some (c', b')" "cycles c' = 1" by blast
  have "mips_run c' b' 1 = Some (c', b')" using s(2) by (subst mips_run.simps) auto
  then have "mips_run c0 b0 1 = Some (c', b')" using s by (subst mips_run.simps) (simp add: c0)
  from mips_run_r0 [OF r this] this show ?thesis by (auto simp: r)
qed


end
