(* ===== verification/Disk.thy ===== *)
theory Disk
  imports Ncd_Prelude
begin

text \<open>
  The block devices of XCP/M (\<open>xcpm-mips/src/disk_ramfat.c\<close>, \<open>ramdisk.c\<close>): the FAT image in the kernel's
  read-only data with its writable copy, and the 4 KB RAM disk. Both keep their bytes in a list; a sector
  is the list of its bytes. The interface a file system needs of a block device is the locale
  \<open>block_device\<close>, with the laws of reading and writing proved once and interpreted on both devices.
\<close>

section \<open>Sectors in a list of bytes\<close>

text \<open>\<open>splice i s xs\<close> is \<open>xs\<close> with the bytes from index \<open>i\<close> on replaced by \<open>s\<close>: the copy loop into an array.\<close>

definition splice :: "nat \<Rightarrow> u8 list \<Rightarrow> u8 list \<Rightarrow> u8 list" where
  "splice i s xs = take i xs @ s @ drop (i + length s) xs"

definition slice :: "nat \<Rightarrow> nat \<Rightarrow> u8 list \<Rightarrow> u8 list" where
  "slice i n xs = take n (drop i xs)"

lemma length_splice [simp]: "i + length s \<le> length xs \<Longrightarrow> length (splice i s xs) = length xs"
  by (simp add: splice_def)

lemma length_slice [simp]: "i + n \<le> length xs \<Longrightarrow> length (slice i n xs) = n"
  by (simp add: slice_def)

lemma nth_splice:
  assumes "i + length s \<le> length xs" "j < length xs"
  shows "splice i s xs ! j = (if i \<le> j \<and> j < i + length s then s ! (j - i) else xs ! j)"
  using assms by (auto simp: splice_def nth_append min_def)

lemma nth_slice: "i + n \<le> length xs \<Longrightarrow> j < n \<Longrightarrow> slice i n xs ! j = xs ! (i + j)"
  by (simp add: slice_def)

lemma slice_splice_same [simp]: "i + length s \<le> length xs \<Longrightarrow> slice i (length s) (splice i s xs) = s"
  by (simp add: slice_def splice_def)

lemma slice_splice_other:
  assumes "i + length s \<le> length xs" "j + n \<le> length xs" "j + n \<le> i \<or> i + length s \<le> j"
  shows "slice j n (splice i s xs) = slice j n xs"
  by (rule nth_equalityI) (use assms in \<open>auto simp: nth_slice nth_splice\<close>)

lemma slice_all [simp]: "length xs = n \<Longrightarrow> slice 0 n xs = xs"
  by (simp add: slice_def)

lemma sectors_apart: "(k :: nat) \<noteq> l \<Longrightarrow> k * n + n \<le> l * n \<or> l * n + n \<le> k * n"
  by (metis add.commute add_mult_distrib le_less_linear mult_Suc mult_le_mono1 not_less_eq_eq nat_neq_iff Suc_leI)

lemma sector_fits: "k < n \<Longrightarrow> n \<le> len div m \<Longrightarrow> k * m + m \<le> (len :: nat)"
  by (metis Suc_leI add.commute div_times_less_eq_dividend le_trans mult_Suc mult_le_mono1)

lemma sector_splice_other:
  assumes "k \<noteq> l" "length s = n" "unat l * n + n \<le> length xs" "unat k * n + n \<le> length xs"
  shows "slice (unat k * n) n (splice (unat l * n) s xs) = slice (unat (k :: u32) * n) n xs"
proof -
  have "unat k \<noteq> unat l" using assms(1) by (simp add: word_unat_eq_iff)
  then show ?thesis
    using sectors_apart [of "unat k" "unat l" n] assms by (intro slice_splice_other) auto
qed

section \<open>The interface of a block device\<close>

text \<open>
  \<open>rd d l\<close> reads sector \<open>l\<close>, \<open>wr d l s\<close> writes it (\<open>None\<close>: the call reports an error), \<open>cap d\<close> is the
  number of sectors and \<open>ss\<close> their size; \<open>ok\<close> is the device's own invariant.
\<close>

locale block_device =
  fixes rd :: "'d \<Rightarrow> u32 \<Rightarrow> u8 list option"
    and wr :: "'d \<Rightarrow> u32 \<Rightarrow> u8 list \<Rightarrow> 'd option"
    and ok :: "'d \<Rightarrow> bool"
    and cap :: "'d \<Rightarrow> nat"
    and ss :: nat
  assumes rd_some: "ok d \<Longrightarrow> unat l < cap d \<Longrightarrow> \<exists>s. rd d l = Some s \<and> length s = ss"
    and rd_none: "ok d \<Longrightarrow> cap d \<le> unat l \<Longrightarrow> rd d l = None"
    and wr_some: "ok d \<Longrightarrow> unat l < cap d \<Longrightarrow> length s = ss \<Longrightarrow> \<exists>d'. wr d l s = Some d'"
    and wr_none: "ok d \<Longrightarrow> cap d \<le> unat l \<Longrightarrow> wr d l s = None"
    and wr_ok: "ok d \<Longrightarrow> length s = ss \<Longrightarrow> wr d l s = Some d' \<Longrightarrow> ok d' \<and> cap d' = cap d"
    and rd_wr: "ok d \<Longrightarrow> length s = ss \<Longrightarrow> wr d l s = Some d' \<Longrightarrow> rd d' k = (if k = l then Some s else rd d k)"
begin

lemma rd_iff: "ok d \<Longrightarrow> (\<exists>s. rd d l = Some s) \<longleftrightarrow> unat l < cap d"
  using rd_some rd_none by (metis not_le option.distinct(1))

lemma rd_length: "ok d \<Longrightarrow> rd d l = Some s \<Longrightarrow> length s = ss"
  using rd_some rd_none by (metis not_le option.distinct(1) option.inject)

lemma wr_iff: "ok d \<Longrightarrow> length s = ss \<Longrightarrow> (\<exists>d'. wr d l s = Some d') \<longleftrightarrow> unat l < cap d"
  using wr_some wr_none by (metis not_le option.distinct(1))

lemma wr_in_range: "ok d \<Longrightarrow> wr d l s = Some d' \<Longrightarrow> unat l < cap d"
  using wr_none by (metis not_le option.distinct(1))

text \<open>A run of writes, and what a sector holds after it: the data last written there.\<close>

fun wrs :: "'d \<Rightarrow> (u32 \<times> u8 list) list \<Rightarrow> 'd option" where
  "wrs d [] = Some d"
| "wrs d ((l, s) # ws) = do { d1 \<leftarrow> wr d l s; wrs d1 ws }"

lemma wrs_rd:
  assumes "ok d" "\<forall>(l, s) \<in> set ws. length s = ss" "wrs d ws = Some d'"
  shows "ok d'" "cap d' = cap d" "rd d' k = (case map_of (rev ws) k of Some s \<Rightarrow> Some s | None \<Rightarrow> rd d k)"
proof -
  have "ok d' \<and> cap d' = cap d \<and> rd d' k = (case map_of (rev ws) k of Some s \<Rightarrow> Some s | None \<Rightarrow> rd d k)"
    using assms
  proof (induction ws arbitrary: d)
    case Nil
    then show ?case by simp
  next
    case (Cons w ws)
    obtain l s where w: "w = (l, s)" by fastforce
    obtain d1 where d1: "wr d l s = Some d1" and r: "wrs d1 ws = Some d'"
      using Cons.prems(3) by (auto simp: w option_bind_Some_iff)
    have s: "length s = ss" using Cons.prems(2) by (auto simp: w)
    show ?case
      using Cons.IH [OF _ _ r] Cons.prems(2) wr_ok [OF Cons.prems(1) s d1] rd_wr [OF Cons.prems(1) s d1, of k]
      by (auto simp: w map_add_def split: option.splits)
  qed
  then show "ok d'" "cap d' = cap d" "rd d' k = (case map_of (rev ws) k of Some s \<Rightarrow> Some s | None \<Rightarrow> rd d k)"
    by auto
qed

end

section \<open>The FAT image in RAM\<close>

text \<open>
  \<open>ramfat_img\<close> is the blob between \<open>_ramfat_start\<close> and \<open>_ramfat_end\<close>, \<open>ramfat_rw\<close> the writable copy. The
  copy is taken when the device is first used; before that \<open>ramfat_rw\<close> is whatever memory holds.
\<close>

record ramfat =
  ramfat_img :: "u8 list"
  ramfat_rw :: "u8 list"
  initialized :: bool

definition SECTOR_SIZE :: nat where "SECTOR_SIZE = 512"

definition ramfat_sectors :: "ramfat \<Rightarrow> u32" where
  "ramfat_sectors d = of_nat (length (ramfat_img d) div SECTOR_SIZE)"

definition blk_init :: "ramfat \<Rightarrow> ramfat" where
  "blk_init d =
     (if initialized d then d
      else d\<lparr>ramfat_rw := splice 0 (ramfat_img d) (ramfat_rw d), initialized := True\<rparr>)"

definition blk_read :: "ramfat \<Rightarrow> u32 \<Rightarrow> u32 \<Rightarrow> u8 list option \<times> ramfat" where
  "blk_read d0 lba count =
     (let d = blk_init d0; last = lba + count in
      if last < lba \<or> ramfat_sectors d < last then (None, d)
      else (Some (slice (unat lba * SECTOR_SIZE) (unat count * SECTOR_SIZE) (ramfat_rw d)), d))"

definition blk_write :: "ramfat \<Rightarrow> u32 \<Rightarrow> u32 \<Rightarrow> u8 list \<Rightarrow> bool \<times> ramfat" where
  "blk_write d0 lba count buf =
     (let d = blk_init d0; last = lba + count in
      if last < lba \<or> ramfat_sectors d < last then (False, d)
      else (True, d\<lparr>ramfat_rw := splice (unat lba * SECTOR_SIZE) (take (unat count * SECTOR_SIZE) buf) (ramfat_rw d)\<rparr>))"

definition blk_capacity :: "ramfat \<Rightarrow> u32" where
  "blk_capacity d = ramfat_sectors d"

text \<open>
  The invariant of the device once initialised. The image is smaller than 2 GB (it is a quarter megabyte in
  the kernel), so its sector count and the byte offsets are exact.
\<close>

definition ramfat_ok :: "ramfat \<Rightarrow> bool" where
  "ramfat_ok d \<longleftrightarrow> initialized d \<and> length (ramfat_img d) \<le> length (ramfat_rw d) \<and> length (ramfat_img d) < 2 ^ 31"

definition ramfat_cap :: "ramfat \<Rightarrow> nat" where
  "ramfat_cap d = length (ramfat_img d) div SECTOR_SIZE"

definition ramfat_rd :: "ramfat \<Rightarrow> u32 \<Rightarrow> u8 list option" where
  "ramfat_rd d l = fst (blk_read d l 1)"

definition ramfat_wr :: "ramfat \<Rightarrow> u32 \<Rightarrow> u8 list \<Rightarrow> ramfat option" where
  "ramfat_wr d l s = (case blk_write d l 1 s of (True, d') \<Rightarrow> Some d' | (False, d') \<Rightarrow> None)"

lemma ramfat_sectors_cap: "length (ramfat_img d) < 2 ^ 31 \<Longrightarrow> unat (ramfat_sectors d) = ramfat_cap d"
  unfolding ramfat_sectors_def ramfat_cap_def
  by (rule unat_of_nat_small) (auto intro: le_less_trans [OF div_le_dividend])

lemma one_sector_range: "(l + 1 < l \<or> n < l + 1) \<longleftrightarrow> unat (n :: u32) \<le> unat l"
proof (cases "l + 1 = 0")
  case True
  then have "l = - 1" by (simp add: eq_neg_iff_add_eq_0)
  moreover have "n \<le> - 1" by simp
  moreover have "(0 :: u32) < - 1" by (rule word_greater_zero_iff [THEN iffD2]) simp
  ultimately show ?thesis by (simp add: word_le_nat_alt)
next
  case False
  then have "unat (l + 1) = unat l + 1" using unatSuc [of l] by (simp add: add.commute)
  then show ?thesis by (auto simp: word_less_nat_alt)
qed

lemma ramfat_rd_ok:
  "ramfat_ok d \<Longrightarrow> ramfat_rd d l = (if unat l < ramfat_cap d then Some (slice (unat l * 512) 512 (ramfat_rw d)) else None)"
  by (simp add: ramfat_rd_def blk_read_def Let_def blk_init_def ramfat_ok_def one_sector_range ramfat_sectors_cap
      SECTOR_SIZE_def)

lemma ramfat_wr_ok:
  "ramfat_ok d \<Longrightarrow> length s = 512 \<Longrightarrow> ramfat_wr d l s
     = (if unat l < ramfat_cap d then Some (d\<lparr>ramfat_rw := splice (unat l * 512) s (ramfat_rw d)\<rparr>) else None)"
  by (simp add: ramfat_wr_def blk_write_def Let_def blk_init_def ramfat_ok_def one_sector_range ramfat_sectors_cap
      SECTOR_SIZE_def)

lemma ramfat_fits: "ramfat_ok d \<Longrightarrow> unat l < ramfat_cap d \<Longrightarrow> unat (l :: u32) * 512 + 512 \<le> length (ramfat_rw d)"
  unfolding ramfat_ok_def ramfat_cap_def SECTOR_SIZE_def
  by (rule le_trans [OF sector_fits [of _ "length (ramfat_img d) div 512"]]) auto

interpretation rf: block_device ramfat_rd ramfat_wr ramfat_ok ramfat_cap 512
proof (unfold_locales, goal_cases)
  case (1 d l)
  then show ?case using ramfat_fits [of d l] by (simp add: ramfat_rd_ok)
next
  case (2 d l)
  then show ?case by (simp add: ramfat_rd_ok)
next
  case (3 d l s)
  then show ?case by (simp add: ramfat_wr_ok)
next
  case (4 d l s)
  then show ?case
    by (simp add: ramfat_wr_def blk_write_def Let_def blk_init_def ramfat_ok_def one_sector_range ramfat_sectors_cap)
next
  case (5 d s l d')
  then show ?case using ramfat_fits [of d l]
    by (auto simp: ramfat_wr_ok ramfat_ok_def ramfat_cap_def split: if_splits)
next
  case (6 d s l d' k)
  have l: "unat l < ramfat_cap d" and d': "d' = d\<lparr>ramfat_rw := splice (unat l * 512) s (ramfat_rw d)\<rparr>"
    using 6 by (auto simp: ramfat_wr_ok split: if_splits)
  have fl: "unat l * 512 + 512 \<le> length (ramfat_rw d)" using ramfat_fits [OF 6(1) l] .
  have ok': "ramfat_ok d'" using 6(1,2) fl by (simp add: d' ramfat_ok_def)
  have "slice (unat k * 512) 512 (splice (unat l * 512) s (ramfat_rw d)) = slice (unat k * 512) 512 (ramfat_rw d)"
    if "k \<noteq> l" "unat k < ramfat_cap d"
    using sector_splice_other [OF that(1) 6(2) fl ramfat_fits [OF 6(1) that(2)]] .
  moreover have "slice (unat l * 512) 512 (splice (unat l * 512) s (ramfat_rw d)) = s"
    using slice_splice_same [of "unat l * 512" s "ramfat_rw d"] fl 6(2) by simp
  moreover have "ramfat_cap d' = ramfat_cap d" by (simp add: d' ramfat_cap_def)
  ultimately show ?case using ok' 6(1) l by (auto simp: ramfat_rd_ok d')
qed

lemma blk_init_idle: "initialized d \<Longrightarrow> blk_init d = d"
  by (simp add: blk_init_def)

lemma blk_init_ok:
  "length (ramfat_img d) \<le> length (ramfat_rw d) \<Longrightarrow> length (ramfat_img d) < 2 ^ 31 \<Longrightarrow> ramfat_ok (blk_init d)"
  by (simp add: blk_init_def ramfat_ok_def)

lemma fresh_read:
  assumes "\<not> initialized d" "length (ramfat_img d) \<le> length (ramfat_rw d)" "length (ramfat_img d) < 2 ^ 31"
  shows "fst (blk_read d k 1)
     = (if unat k < length (ramfat_img d) div 512 then Some (slice (unat k * 512) 512 (ramfat_img d)) else None)"
proof -
  let ?d = "blk_init d"
  have r: "fst (blk_read d k 1) = ramfat_rd ?d k"
    by (simp add: ramfat_rd_def blk_read_def Let_def blk_init_def)
  have i: "ramfat_rw ?d = splice 0 (ramfat_img d) (ramfat_rw d)" "ramfat_cap ?d = length (ramfat_img d) div 512"
    using assms(1) by (simp_all add: blk_init_def ramfat_cap_def SECTOR_SIZE_def)
  have "slice (unat k * 512) 512 (ramfat_rw ?d) = slice (unat k * 512) 512 (ramfat_img d)"
    if "unat k < length (ramfat_img d) div 512"
    using assms(2) sector_fits [OF that order.refl]
    by (intro nth_equalityI) (auto simp: i nth_slice nth_splice)
  then show ?thesis using blk_init_ok [OF assms(2,3)] by (simp add: r ramfat_rd_ok i)
qed

text \<open>
  C13: The RAM copy is a disk, for a device whose copy has room for the image. On the first use of the device, the sectors
  read are those of the image in the kernel, whatever the memory of the copy held; reading changes no
  sector. A write of a sector, the first use or a later one, is seen by every later read of it, changes no other sector,
  and survives another call of \<open>blk_init\<close>; accesses beyond the image fail and change nothing.
\<close>

theorem ramfat_coherent:
  assumes "length (ramfat_img d) \<le> length (ramfat_rw d)" "length (ramfat_img d) < 2 ^ 31" "length s = 512"
  shows "(initialized d \<or> (\<forall>k. fst (blk_read d k 1) = (if unat k < length (ramfat_img d) div 512
             then Some (slice (unat k * 512) 512 (ramfat_img d)) else None)))
     \<and> fst (blk_read (snd (blk_read d k n)) j 1) = fst (blk_read d j 1)
     \<and> (case blk_write d l 1 s of (ok, d') \<Rightarrow>
            (ok \<longleftrightarrow> unat l < length (ramfat_img d) div 512)
          \<and> (ok \<longrightarrow> (\<forall>k. fst (blk_read (blk_init d') k 1) = (if k = l then Some s else fst (blk_read d k 1))))
          \<and> (\<not> ok \<longrightarrow> d' = blk_init d \<and> fst (blk_read d l 1) = None)
          \<and> (initialized d \<longrightarrow> blk_init d = d) \<and> ramfat_ok d')"
proof -
  let ?d = "blk_init d"
  have o: "ramfat_ok ?d" by (rule blk_init_ok [OF assms(1,2)])
  have i: "blk_init ?d = ?d" "ramfat_cap ?d = length (ramfat_img d) div 512"
    by (simp_all add: blk_init_def ramfat_cap_def SECTOR_SIZE_def)
  have r: "fst (blk_read d k 1) = ramfat_rd ?d k" for k
    by (simp add: ramfat_rd_def blk_read_def Let_def i)
  have again: "fst (blk_read (snd (blk_read d k n)) j 1) = fst (blk_read d j 1)"
    by (auto simp: blk_read_def Let_def i)
  have "case blk_write d l 1 s of (ok, d') \<Rightarrow>
            (ok \<longleftrightarrow> unat l < length (ramfat_img d) div 512)
          \<and> (ok \<longrightarrow> (\<forall>k. fst (blk_read (blk_init d') k 1) = (if k = l then Some s else fst (blk_read d k 1))))
          \<and> (\<not> ok \<longrightarrow> d' = ?d \<and> fst (blk_read d l 1) = None)
          \<and> (initialized d \<longrightarrow> ?d = d) \<and> ramfat_ok d'"
  proof (cases "unat l < ramfat_cap ?d")
    case True
    obtain d' where w: "ramfat_wr ?d l s = Some d'" using rf.wr_some [OF o True assms(3)] by blast
    then have b: "blk_write d l 1 s = (True, d')"
      by (auto simp: ramfat_wr_def blk_write_def Let_def i split: prod.splits bool.splits if_splits)
    have "ramfat_ok d'" using rf.wr_ok [OF o assms(3) w] by simp
    moreover from this have "blk_init d' = d'" by (simp add: ramfat_ok_def blk_init_idle)
    ultimately show ?thesis
      using rf.rd_wr [OF o assms(3) w] True by (simp add: b r i) (simp add: ramfat_rd_def blk_init_idle)
  next
    case False
    then have "ramfat_rd ?d l = None" "blk_write d l 1 s = (False, ?d)"
      using rf.rd_none [OF o, of l] o
      by (auto simp: blk_write_def Let_def ramfat_ok_def one_sector_range ramfat_sectors_cap)
    then show ?thesis using False o by (simp add: r i blk_init_idle)
  qed
  then show ?thesis using again fresh_read [OF _ assms(1,2)] by blast
qed

lemma ramfat_coherent_witness:
  "\<exists>d'. blk_write \<lparr>ramfat_img = replicate 1024 7, ramfat_rw = replicate 1024 0, initialized = False\<rparr> 1 1 (replicate 512 9)
       = (True, d')
     \<and> fst (blk_read \<lparr>ramfat_img = replicate 1024 7, ramfat_rw = replicate 1024 0, initialized = False\<rparr> 1 1) = Some (replicate 512 7)
     \<and> fst (blk_read (blk_init d') 1 1) = Some (replicate 512 9) \<and> fst (blk_read (blk_init d') 0 1) = Some (replicate 512 7)"
proof -
  let ?d = "\<lparr>ramfat_img = replicate 1024 7, ramfat_rw = replicate 1024 0, initialized = False\<rparr>"
  have "length (ramfat_img ?d) \<le> length (ramfat_rw ?d)" "length (ramfat_img ?d) < 2 ^ 31" by simp_all
  from ramfat_coherent [OF this, of "replicate 512 9" 0 0 0 1] show ?thesis
    by (auto simp: slice_def split: prod.splits)
qed

section \<open>The RAM disk\<close>

definition RAMDISK_BYTES :: nat where "RAMDISK_BYTES = 4096"
definition RAMDISK_SECSZ :: nat where "RAMDISK_SECSZ = 128"
definition RAMDISK_NSEC :: nat where "RAMDISK_NSEC = RAMDISK_BYTES div RAMDISK_SECSZ"

definition ramdisk_read :: "u8 list \<Rightarrow> u32 \<Rightarrow> u8 list option" where
  "ramdisk_read st sec =
     (if RAMDISK_NSEC \<le> unat sec then None else Some (slice (unat sec * RAMDISK_SECSZ) RAMDISK_SECSZ st))"

definition ramdisk_write :: "u8 list \<Rightarrow> u32 \<Rightarrow> u8 list \<Rightarrow> u8 list option" where
  "ramdisk_write st sec buf =
     (if RAMDISK_NSEC \<le> unat sec then None
      else Some (splice (unat sec * RAMDISK_SECSZ) (take RAMDISK_SECSZ buf) st))"

definition ramdisk_capacity :: nat where
  "ramdisk_capacity = RAMDISK_NSEC"

lemmas ramdisk_defs = ramdisk_read_def ramdisk_write_def ramdisk_capacity_def RAMDISK_NSEC_def RAMDISK_SECSZ_def
  RAMDISK_BYTES_def

interpretation rd: block_device ramdisk_read ramdisk_write "\<lambda>st. length st = 4096" "\<lambda>_. ramdisk_capacity" 128
proof (unfold_locales, goal_cases)
  case (1 d l)
  then show ?case by (simp add: ramdisk_defs)
next
  case (2 d l)
  then show ?case by (simp add: ramdisk_defs)
next
  case (3 d l s)
  then show ?case by (simp add: ramdisk_defs)
next
  case (4 d l s)
  then show ?case by (simp add: ramdisk_defs)
next
  case (5 d s l d')
  then show ?case by (auto simp: ramdisk_defs split: if_splits)
next
  case (6 d s l d' k)
  have "slice (unat k * 128) 128 (splice (unat l * 128) s d) = slice (unat k * 128) 128 d"
    if "k \<noteq> l" "unat k < 32" "unat l < 32"
    using sector_splice_other [OF that(1) 6(2), of d] 6(1) that(2,3) by simp
  moreover have "slice (unat l * 128) 128 (splice (unat l * 128) s d) = s" if "unat l < 32"
    using slice_splice_same [of "unat l * 128" s d] 6(1,2) that by simp
  ultimately show ?case using 6 by (auto simp: ramdisk_defs split: if_splits)
qed

text \<open>
  A session on the RAM disk. After any successful run of sector writes, every sector reads back as the
  data last written to it, or as it was at the start; sectors 32 and above do not exist.
\<close>

theorem ramdisk_last_write:
  assumes "length st = 4096" "\<forall>(l, s) \<in> set ws. length s = 128"
    and "foldl (\<lambda>st (l, s). Option.bind st (\<lambda>d. ramdisk_write d l s)) (Some st) ws = Some st'"
  shows "ramdisk_read st' k = (if 32 \<le> unat k then None
           else case map_of (rev ws) k of Some s \<Rightarrow> Some s | None \<Rightarrow> ramdisk_read st k)"
proof -
  have n: "foldl (\<lambda>st (l, s). Option.bind st (\<lambda>d. ramdisk_write d l s)) None ws = None" for ws
    by (induction ws) auto
  have "foldl (\<lambda>st (l, s). Option.bind st (\<lambda>d. ramdisk_write d l s)) (Some st) ws = rd.wrs st ws" for st
  proof (induction ws arbitrary: st)
    case (Cons w ws)
    obtain l s where w: "w = (l, s)" by fastforce
    show ?case by (cases "ramdisk_write st l s") (simp_all add: w n Cons.IH)
  qed simp
  then have r: "rd.wrs st ws = Some st'" using assms(3) by simp
  have "ramdisk_read st' k = None" if "32 \<le> unat k" using that by (simp add: ramdisk_defs)
  then show ?thesis using rd.wrs_rd(3) [OF assms(1,2) r, of k] by simp
qed

lemma ramdisk_last_write_witness:
  "\<exists>st'. ramdisk_write (replicate 4096 0) 3 (replicate 128 5) = Some st'
     \<and> ramdisk_read st' 3 = Some (replicate 128 5) \<and> ramdisk_read st' 4 = Some (replicate 128 0)"
proof -
  obtain st' where w: "ramdisk_write (replicate 4096 0) 3 (replicate 128 5) = Some st'"
    by (simp add: ramdisk_defs)
  have r: "ramdisk_read st' k = (if 32 \<le> unat k then None
      else case map_of (rev [(3, replicate 128 5)]) k of Some s \<Rightarrow> Some s | None \<Rightarrow> ramdisk_read (replicate 4096 0) k)" for k
    by (rule ramdisk_last_write) (simp_all add: w)
  show ?thesis using w r [of 3] r [of 4] by (simp add: ramdisk_defs slice_def)
qed

end
