(* ===== verification/Lzss.thy ===== *)
theory Lzss
  imports Ncd_Prelude
begin

text \<open>
  The LZSS decompressor of XCP/M (\<open>xcpm-mips/src/lzss.c\<close>): the buffer variant and the streaming variant,
  with their sliding window of 4096 bytes. The abstract specification is a list of tokens (literals and
  matches) with its expansion over an unbounded history; the compressed form of a token list is \<open>lz_blob\<close>.

  A blob is a byte function with its size; the input pointer \<open>in\<close> is an index into it, and no byte at or
  beyond the size is read after the header. The output of a run that fails is what was written before the
  failure; the C return value is then 0.
\<close>

section \<open>The program\<close>

definition LZSS_WINDOW_MASK :: u32 where "LZSS_WINDOW_MASK = 4095"

definition lzss_uncompressed_size :: "mem \<Rightarrow> u32" where
  "lzss_uncompressed_size blob =
     (if blob 0 \<noteq> 0x4C \<or> blob 1 \<noteq> 0x5A \<or> blob 2 \<noteq> 0x53 \<or> blob 3 \<noteq> 0x53 then 0
      else push_bit 24 (ucast (blob 4)) OR push_bit 16 (ucast (blob 5)) OR push_bit 8 (ucast (blob 6)) OR ucast (blob 7))"

text \<open>The window with the next byte written at \<open>wpos++\<close>.\<close>

definition win_put :: "(u32 \<Rightarrow> u8) \<Rightarrow> u32 \<Rightarrow> u8 \<Rightarrow> (u32 \<Rightarrow> u8)" where
  "win_put w wpos c = w(wpos AND LZSS_WINDOW_MASK := c)"

text \<open>
  The loop over a match of \<open>n\<close> bytes left, at offset \<open>i\<close> of the match. \<open>lim\<close> is \<open>Some out_max\<close> in the
  buffer variant, which stops when the output is full, and \<open>None\<close> in the streaming variant. The result
  says whether the loop ran to its end.
\<close>

fun copy_match :: "u32 option \<Rightarrow> u32 \<Rightarrow> u32 \<Rightarrow> nat \<Rightarrow> (u32 \<Rightarrow> u8) \<Rightarrow> u32 \<Rightarrow> u32 \<Rightarrow> u8 list
    \<Rightarrow> bool \<times> (u32 \<Rightarrow> u8) \<times> u32 \<times> u32 \<times> u8 list" where
  "copy_match lim win_pos i 0 w wpos op out = (True, w, wpos, op, out)"
| "copy_match lim win_pos i (Suc n) w wpos op out =
     (if \<exists>m. lim = Some m \<and> m \<le> op then (False, w, wpos, op, out)
      else let c = w ((win_pos + i) AND LZSS_WINDOW_MASK) in
        copy_match lim win_pos (i + 1) n (win_put w wpos c) (wpos + 1) (op + 1) (out @ [c]))"

definition match_pos :: "u8 \<Rightarrow> u8 \<Rightarrow> u32" where
  "match_pos b1 b2 = ucast b1 OR push_bit 4 (ucast b2 AND 0xF0)"

definition match_len :: "u8 \<Rightarrow> u32" where
  "match_len b2 = (ucast b2 AND 0x0F) + 3"

text \<open>
  The main loop of both variants. The streaming variant differs in the two tests of \<open>op\<close> against
  \<open>out_max\<close>, which it does not have. A run that ends returns whether it succeeded, \<open>op\<close>, and the bytes
  it put out.
\<close>

function lzss_loop :: "u32 option \<Rightarrow> mem \<Rightarrow> nat \<Rightarrow> u32 \<Rightarrow> nat \<Rightarrow> u32 \<Rightarrow> (u32 \<Rightarrow> u8) \<Rightarrow> u32 \<Rightarrow> u32 \<Rightarrow> u8 list
    \<Rightarrow> bool \<times> u32 \<times> u8 list" where
  "lzss_loop lim blob in_end expected inp flags w wpos op out =
     (if \<not> op < expected then (True, op, out)
      else if flags AND 0x100 = 0 \<and> in_end \<le> inp then (False, op, out)
      else let fl = (if flags AND 0x100 = 0 then ucast (blob inp) OR 0xFF00 else flags);
               i = (if flags AND 0x100 = 0 then inp + 1 else inp) in
        if fl AND 1 \<noteq> 0 then
          (if in_end \<le> i \<or> (\<exists>m. lim = Some m \<and> m \<le> op) then (False, op, out)
           else lzss_loop lim blob in_end expected (i + 1) (drop_bit 1 fl) (win_put w wpos (blob i)) (wpos + 1) (op + 1)
                  (out @ [blob i]))
        else if in_end \<le> i + 1 then (False, op, out)
        else (case copy_match lim (match_pos (blob i) (blob (i + 1))) 0 (unat (match_len (blob (i + 1)))) w wpos op out of
                (fine, w1, wpos1, op1, out1) \<Rightarrow>
                  if fine then lzss_loop lim blob in_end expected (i + 2) (drop_bit 1 fl) w1 wpos1 op1 out1
                  else (False, op1, out1)))"
  by pat_completeness auto

termination
  by (relation "measure (\<lambda>(lim, blob, in_end, expected, inp, _). in_end - inp)") (auto split: if_splits)

declare lzss_loop.simps [simp del]

definition lzss_decompress :: "mem \<Rightarrow> u32 \<Rightarrow> u32 \<Rightarrow> u32 \<times> u8 list" where
  "lzss_decompress blob blob_size out_max =
     (let expected = lzss_uncompressed_size blob in
      if expected = 0 \<or> out_max < expected then (0, [])
      else case lzss_loop (Some out_max) blob (unat blob_size) expected 8 0 (\<lambda>_. 0) 0 0 [] of
             (fine, op, out) \<Rightarrow> (if fine then op else 0, out))"

definition lzss_decompress_stream :: "mem \<Rightarrow> u32 \<Rightarrow> u32 \<times> u8 list" where
  "lzss_decompress_stream blob blob_size =
     (let expected = lzss_uncompressed_size blob in
      if expected = 0 then (0, [])
      else case lzss_loop None blob (unat blob_size) expected 8 0 (\<lambda>_. 0) 0 0 [] of
             (fine, op, out) \<Rightarrow> (if fine then op else 0, out))"

section \<open>Bounds\<close>

lemma op_step: "op < (m :: u32) \<Longrightarrow> unat (op + 1) = Suc (unat op) \<and> op + 1 \<le> m"
proof -
  assume a: "op < m"
  have "unat m < 2 ^ 32" using unsigned_less [of m, where ?'a = nat] by simp
  then have "Suc (unat op) < 2 ^ 32" using a by (simp add: word_less_nat_alt)
  then have "unat (op + 1) = Suc (unat op)" by (simp add: unat_word_ariths)
  then show ?thesis using a by (simp add: word_less_nat_alt word_le_nat_alt)
qed

lemma copy_match_bound:
  "copy_match lim p i n w wpos op out = (fine, w1, wpos1, op1, out1) \<Longrightarrow> lim = Some m \<Longrightarrow> unat op = length out \<Longrightarrow> op \<le> m
    \<Longrightarrow> unat op1 = length out1 \<and> op1 \<le> m"
proof (induction lim p i n w wpos op out rule: copy_match.induct)
  case (2 lim p i n w wpos op out)
  show ?case
  proof (cases "m \<le> op")
    case False
    then show ?thesis using 2 op_step [of op m] by (auto simp: Let_def)
  qed (use 2 in auto)
qed auto

text \<open>The loop, branch by branch: end, a new flag byte, a literal, a match.\<close>

lemma reload_bit: "(ucast (b :: u8) OR 0xFF00 :: u32) AND 0x100 \<noteq> 0"
proof -
  have "bit ((ucast b OR 0xFF00 :: u32) AND 0x100) 8"
    by (simp add: bit_simps) 
  then show ?thesis by auto
qed

lemma loop_end: "\<not> op < expected \<Longrightarrow> lzss_loop lim blob n expected inp flags w wpos op out = (True, op, out)"
  by (simp add: lzss_loop.simps)

lemma loop_eof: "op < expected \<Longrightarrow> flags AND 0x100 = 0 \<Longrightarrow> n \<le> inp
    \<Longrightarrow> lzss_loop lim blob n expected inp flags w wpos op out = (False, op, out)"
  by (simp add: lzss_loop.simps)

lemma loop_reload: "op < expected \<Longrightarrow> flags AND 0x100 = 0 \<Longrightarrow> inp < n
    \<Longrightarrow> lzss_loop lim blob n expected inp flags w wpos op out
        = lzss_loop lim blob n expected (inp + 1) (ucast (blob inp) OR 0xFF00) w wpos op out"
  by (subst lzss_loop.simps, subst (2) lzss_loop.simps) (simp add: reload_bit not_le)

lemma loop_literal: "op < expected \<Longrightarrow> flags AND 0x100 \<noteq> 0 \<Longrightarrow> flags AND 1 \<noteq> 0
    \<Longrightarrow> lzss_loop lim blob n expected inp flags w wpos op out
        = (if n \<le> inp \<or> (\<exists>m. lim = Some m \<and> m \<le> op) then (False, op, out)
           else lzss_loop lim blob n expected (inp + 1) (drop_bit 1 flags) (win_put w wpos (blob inp)) (wpos + 1) (op + 1)
                  (out @ [blob inp]))"
  by (subst lzss_loop.simps) simp

lemma loop_match: "op < expected \<Longrightarrow> flags AND 0x100 \<noteq> 0 \<Longrightarrow> flags AND 1 = 0
    \<Longrightarrow> lzss_loop lim blob n expected inp flags w wpos op out
        = (if n \<le> inp + 1 then (False, op, out)
           else (case copy_match lim (match_pos (blob inp) (blob (inp + 1))) 0 (unat (match_len (blob (inp + 1)))) w wpos op out of
                   (fine, w1, wpos1, op1, out1) \<Rightarrow>
                     if fine then lzss_loop lim blob n expected (inp + 2) (drop_bit 1 flags) w1 wpos1 op1 out1
                     else (False, op1, out1)))"
  by (subst lzss_loop.simps) simp

lemma lzss_loop_bound:
  "lzss_loop (Some m) blob n expected inp flags w wpos op out = (fine, op1, out1) \<Longrightarrow> unat op = length out \<Longrightarrow> op \<le> m
    \<Longrightarrow> unat op1 = length out1 \<and> op1 \<le> m \<and> (fine \<longrightarrow> expected \<le> op1)"
proof (induction "n - inp" arbitrary: inp flags w wpos op out rule: less_induct)
  case less
  consider (stop) "\<not> op < expected" | (eof) "op < expected" "flags AND 0x100 = 0" "n \<le> inp"
    | (reload) "op < expected" "flags AND 0x100 = 0" "inp < n"
    | (lit) "op < expected" "flags AND 0x100 \<noteq> 0" "flags AND 1 \<noteq> 0"
    | (pair) "op < expected" "flags AND 0x100 \<noteq> 0" "flags AND 1 = 0" by linarith
  then show ?case
  proof cases
    case reload
    then show ?thesis
      using less.hyps [of "inp + 1" "ucast (blob inp) OR 0xFF00" w wpos op out] less.prems
      by (simp add: loop_reload)
  next
    case lit
    then show ?thesis
      using less.hyps [of "inp + 1"] less.prems op_step [of op m]
      by (auto simp: loop_literal not_le split: if_splits)
  next
    case pair
    obtain f2 w2 p2 op2 out2 where cm: "copy_match (Some m) (match_pos (blob inp) (blob (inp + 1))) 0
        (unat (match_len (blob (inp + 1)))) w wpos op out = (f2, w2, p2, op2, out2)"
      by (metis prod_cases5)
    note b = copy_match_bound [OF cm refl less.prems(2,3)]
    show ?thesis
      using less.hyps [of "inp + 2"] less.prems b
      by (auto simp: loop_match [OF pair] cm [simplified] not_le split: if_splits)
  qed (use less.prems in \<open>auto simp: loop_end loop_eof not_less\<close>)
qed

text \<open>
  The buffer variant stays inside its buffer and is all or nothing. Whatever the blob, it writes at most
  \<open>out_max\<close> bytes; it returns either 0 or the number of bytes written, which then is at least the size the
  header promises.
\<close>

theorem lzss_decompress_bounds:
  "case lzss_decompress blob blob_size out_max of (r, out) \<Rightarrow>
     length out \<le> unat out_max \<and> (r = 0 \<or> unat r = length out \<and> lzss_uncompressed_size blob \<le> r)"
proof -
  obtain fine op out where l: "lzss_loop (Some out_max) blob (unat blob_size) (lzss_uncompressed_size blob) 8 0 (\<lambda>_. 0) 0 0 []
      = (fine, op, out)" by (metis prod_cases3)
  from lzss_loop_bound [OF this] show ?thesis
    by (auto simp: lzss_decompress_def Let_def l word_le_nat_alt)
qed

section \<open>The compressed format\<close>

text \<open>
  A token puts out one byte, or copies \<open>n\<close> bytes (3 to 18) from window position \<open>p\<close> on. A window position
  names the most recent output byte whose index is \<open>p\<close> modulo 4096, or zero when there is none. A match may
  overlap the bytes it puts out.
\<close>

datatype lz_token = Lit u8 | Copy nat nat

fun lz_valid :: "lz_token \<Rightarrow> bool" where
  "lz_valid (Lit c) = True"
| "lz_valid (Copy p n) = (p < 4096 \<and> 3 \<le> n \<and> n \<le> 18)"

definition hist :: "u8 list \<Rightarrow> nat \<Rightarrow> u8" where
  "hist h p = (let d = (length h + 4095 - p) mod 4096 in if d < length h then h ! (length h - 1 - d) else 0)"

fun lz_copy :: "u8 list \<Rightarrow> nat \<Rightarrow> nat \<Rightarrow> u8 list" where
  "lz_copy h p 0 = h"
| "lz_copy h p (Suc n) = lz_copy (h @ [hist h (p mod 4096)]) (p + 1) n"

fun lz_expand1 :: "u8 list \<Rightarrow> lz_token \<Rightarrow> u8 list" where
  "lz_expand1 h (Lit c) = h @ [c]"
| "lz_expand1 h (Copy p n) = lz_copy h p n"

definition lz_expand :: "u8 list \<Rightarrow> lz_token list \<Rightarrow> u8 list" where
  "lz_expand h ts = foldl lz_expand1 h ts"

fun lz_bytes :: "lz_token \<Rightarrow> u8 list" where
  "lz_bytes (Lit c) = [c]"
| "lz_bytes (Copy p n) = [of_nat (p mod 256), of_nat (p div 256 * 16 + (n - 3))]"

definition is_lit :: "lz_token \<Rightarrow> bool" where
  "is_lit t \<longleftrightarrow> (case t of Lit c \<Rightarrow> True | Copy p n \<Rightarrow> False)"

fun lz_flags :: "lz_token list \<Rightarrow> u8" where
  "lz_flags [] = 0"
| "lz_flags (t # ts) = push_bit 1 (lz_flags ts) OR (if is_lit t then 1 else 0)"

fun lz_body :: "lz_token list \<Rightarrow> u8 list" where
  "lz_body [] = []"
| "lz_body (t # ts) =
     lz_flags (t # take 7 ts) # concat (map lz_bytes (t # take 7 ts)) @ lz_body (drop 7 ts)"

definition lz_blob :: "lz_token list \<Rightarrow> u8 list" where
  "lz_blob ts =
     (let n = of_nat (length (lz_expand [] ts)) :: u32 in
      [0x4C, 0x5A, 0x53, 0x53, ucast (drop_bit 24 n), ucast (drop_bit 16 n), ucast (drop_bit 8 n), ucast n] @ lz_body ts)"

section \<open>The window holds the history\<close>

definition win_ok :: "(u32 \<Rightarrow> u8) \<Rightarrow> u8 list \<Rightarrow> bool" where
  "win_ok w h \<longleftrightarrow> (\<forall>p < 4096. w (of_nat p) = hist h p)"

lemma back_4096:
  assumes "p < 4096" "l < (4096 :: nat)"
  shows "(l + 4095 - p) mod 4096 = 4095 \<longleftrightarrow> p = l"
proof (cases "p \<le> l")
  case True
  show ?thesis
  proof (cases "p = l")
    case False
    then have q: "l + 4095 - p = (l - p - 1) + 4096" and r: "l - p - 1 < 4095" using True assms by auto
    have "(l + 4095 - p) mod 4096 = l - p - 1" unfolding q using r by simp
    then show ?thesis using False r by linarith
  qed simp
next
  case False
  then have "l + 4095 - p < 4095" by simp
  then show ?thesis using False by simp
qed

lemma mod_back:
  assumes "p < (4096 :: nat)"
  shows "(Suc n + 4095 - p) mod 4096 = (if p = n mod 4096 then 0 else Suc ((n + 4095 - p) mod 4096))"
proof -
  define q where "q = n + 4095 - p"
  define l where "l = n mod 4096"
  have l: "l < 4096" by (simp add: l_def)
  have "n = 4096 * (n div 4096) + l" by (simp add: l_def)
  then have "q = 4096 * (n div 4096) + (l + 4095 - p)" using assms unfolding q_def by linarith
  then have "q mod 4096 = (l + 4095 - p) mod 4096" by (simp only: add.commute [of "4096 * (n div 4096)"] mod_mult_self2)
  then have *: "q mod 4096 = 4095 \<longleftrightarrow> p = l" using back_4096 [OF assms l] by simp
  have "Suc n + 4095 - p = Suc q" using assms unfolding q_def by linarith
  then have "(Suc n + 4095 - p) mod 4096 = (if Suc (q mod 4096) = 4096 then 0 else Suc (q mod 4096))"
    by (simp only: mod_Suc)
  moreover have "Suc (q mod 4096) = 4096 \<longleftrightarrow> p = l" using * by linarith
  ultimately show ?thesis unfolding q_def l_def by presburger
qed

lemma hist_snoc:
  assumes "p < 4096"
  shows "hist (h @ [c]) p = (if p = length h mod 4096 then c else hist h p)"
proof -
  define d where "d = (length h + 4095 - p) mod 4096"
  have *: "(length (h @ [c]) + 4095 - p) mod 4096 = (if p = length h mod 4096 then 0 else Suc d)"
    unfolding d_def length_append_singleton by (rule mod_back [OF assms])
  have "(h @ [c]) ! (length h - Suc d) = h ! (length h - 1 - d)" if "d < length h"
  proof -
    have "length h - Suc d < length h" using that by linarith
    then show ?thesis by (simp add: nth_append)
  qed
  then show ?thesis
    unfolding hist_def Let_def * d_def [symmetric] by (cases "p = length h mod 4096") simp_all
qed

lemma mask_4095: "(x :: u32) AND LZSS_WINDOW_MASK = of_nat (unat x mod 4096)"
proof -
  have m: "LZSS_WINDOW_MASK = mask 12" by (simp add: LZSS_WINDOW_MASK_def mask_eq_exp_minus_1)
  have "unat (x AND LZSS_WINDOW_MASK) = unat x mod 4096" unfolding m unat_and_mask by simp
  then show ?thesis by (simp add: word_unat_eq_iff unat_of_nat_small)
qed

lemma mask_4095_of_nat: "(of_nat k :: u32) AND LZSS_WINDOW_MASK = of_nat (k mod 4096)"
proof -
  have "k mod 2 ^ 32 mod 4096 = k mod (4096 :: nat)" by (simp add: mod_mod_cancel)
  then show ?thesis by (simp add: mask_4095 unat_of_nat)
qed

lemma of_nat_4096_inj: "p < 4096 \<Longrightarrow> q < 4096 \<Longrightarrow> (of_nat p :: u32) = of_nat q \<longleftrightarrow> p = q"
  by (auto simp: word_unat_eq_iff unat_of_nat_small)

lemma win_ok_put: "win_ok w h \<Longrightarrow> win_ok (win_put w (of_nat (length h)) c) (h @ [c])"
  by (auto simp: win_ok_def win_put_def hist_snoc mask_4095_of_nat of_nat_4096_inj)

lemma win_ok_0: "win_ok (\<lambda>_. 0) []"
  by (simp add: win_ok_def hist_def)

lemma win_get: "win_ok w h \<Longrightarrow> w ((of_nat p + of_nat i) AND LZSS_WINDOW_MASK) = hist h ((p + i) mod 4096)"
  unfolding of_nat_add [symmetric] mask_4095_of_nat by (simp add: win_ok_def)

section \<open>Decoding the compressed format\<close>

lemma lz_copy_length [simp]: "length (lz_copy h p n) = length h + n"
  by (induction n arbitrary: h p) simp_all

lemma expand1_length: "lz_valid t \<Longrightarrow> length h < length (lz_expand1 h t)"
  by (cases t) auto

lemma expand_length: "length h \<le> length (lz_expand h ts)" if "\<forall>t \<in> set ts. lz_valid t"
  using that
proof (induction ts arbitrary: h)
  case (Cons t ts)
  have "length (lz_expand1 h t) \<le> length (lz_expand (lz_expand1 h t) ts)" using Cons by simp
  moreover have "length h < length (lz_expand1 h t)" using Cons.prems by (simp add: expand1_length)
  ultimately show ?case by (simp add: lz_expand_def)
qed (simp add: lz_expand_def)

lemma copy_match_expands:
  assumes "win_ok w h" "length h + n < 2 ^ 32" "\<forall>m. lim = Some m \<longrightarrow> length h + n \<le> unat m"
  shows "\<exists>w'. copy_match lim (of_nat p) (of_nat i) n w (of_nat (length h)) (of_nat (length h)) h
      = (True, w', of_nat (length h + n), of_nat (length h + n), lz_copy h (p + i) n) \<and> win_ok w' (lz_copy h (p + i) n)"
  using assms
proof (induction n arbitrary: i w h)
  case (Suc n)
  have lim: "\<not> (\<exists>m. lim = Some m \<and> m \<le> (of_nat (length h) :: u32))"
    using Suc.prems(2,3) by (auto simp: word_le_nat_alt unat_of_nat_small)
  define c where "c = hist h ((p + i) mod 4096)"
  have IH: "\<exists>w'. copy_match lim (of_nat p) (of_nat (Suc i)) n (win_put w (of_nat (length h)) c)
        (of_nat (length (h @ [c]))) (of_nat (length (h @ [c]))) (h @ [c])
      = (True, w', of_nat (length (h @ [c]) + n), of_nat (length (h @ [c]) + n), lz_copy (h @ [c]) (p + Suc i) n)
      \<and> win_ok w' (lz_copy (h @ [c]) (p + Suc i) n)"
    using Suc.prems by (intro Suc.IH win_ok_put) auto
  show ?case
    using IH lim win_get [OF Suc.prems(1), of p i] by (simp add: Let_def c_def add.commute)
qed simp

lemma match_bytes:
  assumes "q < 16" "r < 16" "k < 256" "unat b2 = q * 16 + r" "unat b1 = k"
  shows "match_pos b1 b2 = of_nat (q * 256 + k)" "unat (match_len b2) = r + 3"
proof -
  have m4: "(0x0F :: u32) = mask 4" "(0xF0 :: u32) = push_bit 4 (mask 4)" by (simp_all add: mask_eq_exp_minus_1)
  have u: "unat (ucast b2 :: u32) = q * 16 + r"
    using assms(1,2,4) by (simp add: unsigned_ucast_eq take_bit_nat_eq_self)
  have "unat ((ucast b2 :: u32) AND 0x0F) = r"
    unfolding m4 unat_and_mask u using assms(2) by simp
  then show "unat (match_len b2) = r + 3"
    using assms(2) by (simp add: match_len_def unat_word_ariths)
  have hi: "push_bit 4 (ucast b2 AND 0xF0) = push_bit 8 (of_nat q :: u32)"
  proof (rule bit_word_eqI)
    fix i assume "i < LENGTH(32)"
    have "bit b2 (4 + j) = bit q j" for j
    proof -
      have "bit b2 (4 + j) = bit (drop_bit 4 (unat b2)) j" by (simp add: bit_drop_bit_eq bit_unsigned_iff add.commute)
      also have "drop_bit 4 (unat b2) = q" unfolding assms(4) drop_bit_eq_div using assms(2) by simp
      finally show ?thesis .
    qed
    moreover have "j < 4" if "bit q j" for j
    proof (rule ccontr)
      assume "\<not> j < 4"
      then have "q < 2 ^ j" using assms(1) power_increasing [of 4 j "2 :: nat"] by simp
      then show False using that by (simp add: bit_iff_odd)
    qed
    ultimately show "bit (push_bit 4 (ucast b2 AND 0xF0 :: u32)) i = bit (push_bit 8 (of_nat q :: u32)) i"
      unfolding m4 by (auto simp: bit_simps not_less dest!: le_Suc_ex)
  qed
  have "match_pos b1 b2 = ucast b1 OR push_bit 8 (of_nat q)" unfolding match_pos_def hi ..
  also have "\<dots> = ucast b1 + push_bit 8 (of_nat q)"
    by (rule disjunctive_add [symmetric]) (auto simp: bit_simps dest: bit_imp_le_length)
  also have "ucast b1 = (of_nat k :: u32)" using assms(5) by (metis of_nat_unat)
  finally show "match_pos b1 b2 = of_nat (q * 256 + k)" by (simp add: push_bit_of_nat push_bit_eq_mult)
qed

lemma match_decodes:
  assumes "p < 4096" "3 \<le> n" "n \<le> 18"
  shows "match_pos (of_nat (p mod 256)) (of_nat (p div 256 * 16 + (n - 3))) = of_nat p"
    "unat (match_len (of_nat (p div 256 * 16 + (n - 3)))) = n"
proof -
  have q: "p div 256 < 16" and r: "n - 3 < 16" using assms by (simp_all add: less_mult_imp_div_less)
  have b2: "unat (of_nat (p div 256 * 16 + (n - 3)) :: u8) = p div 256 * 16 + (n - 3)"
    using q r by (intro unat_of_nat_small) simp
  have b1: "unat (of_nat (p mod 256) :: u8) = p mod 256" by (intro unat_of_nat_small) simp
  have k: "p mod 256 < 256" by simp
  note m = match_bytes [OF q r k b2 b1]
  show "match_pos (of_nat (p mod 256)) (of_nat (p div 256 * 16 + (n - 3))) = of_nat p"
    using m(1) by (simp only: div_mult_mod_eq)
  show "unat (match_len (of_nat (p div 256 * 16 + (n - 3)))) = n"
    using m(2) assms(2) by (simp only: le_add_diff_inverse2)
qed

text \<open>The flag word with \<open>r\<close> unused flags, the first of which belong to the tokens \<open>ts\<close>.\<close>

definition flags_for :: "u32 \<Rightarrow> lz_token list \<Rightarrow> nat \<Rightarrow> bool" where
  "flags_for fl ts r \<longleftrightarrow> length ts \<le> r \<and> r \<le> 8 \<and> (\<forall>i < length ts. bit fl i = is_lit (ts ! i))
     \<and> (\<forall>i < r. bit fl (8 + i)) \<and> \<not> bit fl (8 + r)"

lemma flags_for_next:
  assumes "flags_for fl (t # ts) r"
  shows "flags_for (drop_bit 1 fl) ts (r - 1)"
proof -
  obtain r' where r: "r = Suc r'" using assms by (cases r) (auto simp: flags_for_def)
  have lit: "bit fl (Suc i) = is_lit (ts ! i)" if "i < length ts" for i
    using assms that by (auto simp: flags_for_def dest!: spec [where x = "Suc i"])
  have more: "bit fl (8 + Suc i)" if "i < r'" for i
    using assms that unfolding flags_for_def r by (metis Suc_less_eq)
  show ?thesis
    using assms lit more by (auto simp: flags_for_def r bit_drop_bit_eq)
qed

lemma flags_for_lit: "flags_for fl (t # ts) r \<Longrightarrow> fl AND 1 \<noteq> 0 \<longleftrightarrow> is_lit t"
  by (auto simp: flags_for_def and_one_eq odd_iff_mod_2_eq_one bit_0)

lemma and_bit8: "(fl :: u32) AND 0x100 = 0 \<longleftrightarrow> \<not> bit fl 8"
proof -
  have m: "(0x100 :: u32) = 2 ^ 8" by simp
  show ?thesis unfolding m by (rule and_exp_eq_0_iff_not_bit)
qed

lemma flags_for_more: "flags_for fl ts r \<Longrightarrow> fl AND 0x100 = 0 \<longleftrightarrow> r = 0"
  unfolding and_bit8 by (cases r) (auto simp: flags_for_def dest!: spec [where x = 0])

lemma bit_lz_flags: "bit (lz_flags ts) i \<longleftrightarrow> i < 8 \<and> i < length ts \<and> is_lit (ts ! i)"
proof (induction ts arbitrary: i)
  case (Cons t ts)
  have "bit (lz_flags (t # ts)) i \<longleftrightarrow> bit (push_bit 1 (lz_flags ts)) i \<or> i = 0 \<and> is_lit t"
    unfolding lz_flags.simps bit_or_iff by (simp add: bit_1_iff)
  then show ?case
    by (cases i) (auto simp only: bit_push_bit_iff Cons.IH, auto)
qed simp

lemma flags_for_reload: "length ts \<le> 8 \<Longrightarrow> flags_for (ucast (lz_flags ts) OR 0xFF00) ts 8"
proof -
  assume l: "length ts \<le> 8"
  have m: "(0xFF00 :: u32) = push_bit 8 (mask 8)" by (simp add: mask_eq_exp_minus_1)
  show ?thesis
    using l unfolding flags_for_def m by (auto simp: bit_simps bit_lz_flags)
qed

primrec input_at :: "mem \<Rightarrow> nat \<Rightarrow> u8 list \<Rightarrow> bool" where
  "input_at blob i [] = True"
| "input_at blob i (b # bs) = (blob i = b \<and> input_at blob (Suc i) bs)"

lemma input_at_append: "input_at blob i (xs @ ys) \<longleftrightarrow> input_at blob i xs \<and> input_at blob (i + length xs) ys"
  by (induction xs arbitrary: i) simp_all

lemma input_at_nth: "i + length bs \<le> length xs \<Longrightarrow> take (length bs) (drop i xs) = bs \<Longrightarrow> input_at (\<lambda>i. xs ! i) i bs"
proof (induction bs arbitrary: i)
  case (Cons b bs)
  have d: "drop i xs = xs ! i # drop (Suc i) xs"
    using Cons.prems(1) by (intro Cons_nth_drop_Suc [symmetric]) simp
  have "take (length bs) (drop (Suc i) xs) = bs" "xs ! i = b" using Cons.prems(2) unfolding d by simp_all
  then show ?case using Cons.IH [of "Suc i"] Cons.prems(1) by simp
qed simp

lemma token_decodes:
  assumes "lz_valid t" "flags_for fl (t # ts) r" "input_at blob inp (lz_bytes t)" "inp + length (lz_bytes t) \<le> n"
    and "win_ok w h" "length (lz_expand1 h t) \<le> unat expected"
    and "\<forall>m. lim = Some m \<longrightarrow> expected \<le> m"
  shows "\<exists>w'. win_ok w' (lz_expand1 h t) \<and>
     lzss_loop lim blob n expected inp fl w (of_nat (length h)) (of_nat (length h)) h
     = lzss_loop lim blob n expected (inp + length (lz_bytes t)) (drop_bit 1 fl) w'
         (of_nat (length (lz_expand1 h t))) (of_nat (length (lz_expand1 h t))) (lz_expand1 h t)"
proof -
  have lt: "length h < unat expected" using expand1_length [OF assms(1), of h] assms(6) by simp
  then have hl: "length h < 2 ^ 32" using unsigned_less [of expected, where ?'a = nat] by simp
  have op: "(of_nat (length h) :: u32) < expected" using lt hl by (simp add: word_less_nat_alt unat_of_nat_small)
  have r: "r \<noteq> 0" using assms(2) by (auto simp: flags_for_def)
  have fl: "fl AND 0x100 \<noteq> 0" using flags_for_more [OF assms(2)] r by simp
  show ?thesis
  proof (cases t)
    case (Lit c)
    then have "fl AND 1 \<noteq> 0" using flags_for_lit [OF assms(2)] by (simp add: is_lit_def)
    moreover have "\<not> (\<exists>m. lim = Some m \<and> m \<le> (of_nat (length h) :: u32))"
      using assms(7) op by (auto dest!: spec [where x = "the lim"])
    ultimately show ?thesis
      using assms(3,4) win_ok_put [OF assms(5), of c]
      by (auto simp: loop_literal [OF op fl] Lit add.commute)
  next
    case (Copy p k)
    have v: "p < 4096" "3 \<le> k" "k \<le> 18" using assms(1) by (simp_all add: Copy)
    have f0: "fl AND 1 = 0" using flags_for_lit [OF assms(2)] by (simp add: is_lit_def Copy)
    have b: "blob inp = of_nat (p mod 256)" "blob (inp + 1) = of_nat (p div 256 * 16 + (k - 3))"
      using assms(3) unfolding Copy lz_bytes.simps by simp_all
    have len: "length h + k \<le> unat expected" using assms(6) by (simp add: Copy)
    then have "length h + k < 2 ^ 32" using unsigned_less [of expected, where ?'a = nat] by simp
    moreover have "\<forall>m. lim = Some m \<longrightarrow> length h + k \<le> unat m"
      using assms(7) len by (auto simp: word_le_nat_alt)
    ultimately obtain w' where cm: "copy_match lim (of_nat p) 0 k w (of_nat (length h)) (of_nat (length h)) h
        = (True, w', of_nat (length h + k), of_nat (length h + k), lz_copy h p k)" and w': "win_ok w' (lz_copy h p k)"
      using copy_match_expands [OF assms(5), of k lim p 0] by auto
    have "\<not> n \<le> inp + 1" using assms(4) by (simp add: Copy)
    then have "lzss_loop lim blob n expected inp fl w (of_nat (length h)) (of_nat (length h)) h
        = lzss_loop lim blob n expected (inp + 2) (drop_bit 1 fl) w' (of_nat (length h + k)) (of_nat (length h + k)) (lz_copy h p k)"
      unfolding loop_match [OF op fl f0] b match_decodes [OF v] cm by simp
    then show ?thesis using w' by (auto simp: Copy)
  qed
qed

lemma loop_decodes:
  assumes "\<forall>t \<in> set (ts1 @ ts2). lz_valid t" "flags_for fl ts1 r" "ts2 \<noteq> [] \<Longrightarrow> length ts1 = r"
    and "input_at blob inp (concat (map lz_bytes ts1) @ lz_body ts2)"
    and "inp + length (concat (map lz_bytes ts1) @ lz_body ts2) \<le> n"
    and "win_ok w h" "length (lz_expand h (ts1 @ ts2)) = unat expected" "\<forall>m. lim = Some m \<longrightarrow> expected \<le> m"
  shows "lzss_loop lim blob n expected inp fl w (of_nat (length h)) (of_nat (length h)) h
    = (True, expected, lz_expand h (ts1 @ ts2))"
  using assms
proof (induction "length ts1 + 2 * length ts2" arbitrary: ts1 ts2 fl r inp w h rule: less_induct)
  case less
  show ?case
  proof (cases ts1)
    case (Cons t ts)
    have v: "lz_valid t" "\<forall>t \<in> set (ts @ ts2). lz_valid t" using less.prems(1) by (auto simp: Cons)
    have e: "lz_expand h (ts1 @ ts2) = lz_expand (lz_expand1 h t) (ts @ ts2)" by (simp add: Cons lz_expand_def)
    have le: "length (lz_expand1 h t) \<le> unat expected"
      using expand_length [OF v(2), of "lz_expand1 h t"] less.prems(7) by (simp add: e)
    have fl: "flags_for fl (t # ts) r" using less.prems(2) by (simp add: Cons)
    have inp: "input_at blob inp (lz_bytes t)" "inp + length (lz_bytes t) \<le> n"
        "input_at blob (inp + length (lz_bytes t)) (concat (map lz_bytes ts) @ lz_body ts2)"
        "inp + length (lz_bytes t) + length (concat (map lz_bytes ts) @ lz_body ts2) \<le> n"
      using less.prems(4,5) by (simp_all add: Cons input_at_append add.assoc)
    obtain w' where w': "win_ok w' (lz_expand1 h t)"
      and step: "lzss_loop lim blob n expected inp fl w (of_nat (length h)) (of_nat (length h)) h
       = lzss_loop lim blob n expected (inp + length (lz_bytes t)) (drop_bit 1 fl) w'
         (of_nat (length (lz_expand1 h t))) (of_nat (length (lz_expand1 h t))) (lz_expand1 h t)"
      using token_decodes [OF v(1) fl inp(1,2) less.prems(6) le less.prems(8)] by blast
    have l: "length (lz_expand (lz_expand1 h t) (ts @ ts2)) = unat expected" using less.prems(7) by (simp only: e)
    show ?thesis
      unfolding step e
      using less.prems(3) l v(2) inp(3,4) w' less.prems(8) flags_for_next [OF fl]
      by (intro less.hyps [of ts ts2 "drop_bit 1 fl" "r - 1"]) (auto simp: Cons e)
  next
    case Nil
    show ?thesis
    proof (cases ts2)
      case Nil': Nil
      then show ?thesis using less.prems(7) by (simp add: Nil lz_expand_def loop_end)
    next
      case Cons': (Cons t ts)
      define g where "g = t # take 7 ts"
      have g: "length g \<le> 8" "ts1 @ ts2 = g @ drop 7 ts" by (simp_all add: g_def Nil Cons')
      have body: "concat (map lz_bytes ts1) @ lz_body ts2 = lz_flags g # concat (map lz_bytes g) @ lz_body (drop 7 ts)"
        by (simp add: Nil Cons' g_def)
      have r: "flags_for fl [] 0" using less.prems(2,3) by (simp add: Nil Cons')
      have b: "blob inp = lz_flags g" "input_at blob (Suc inp) (concat (map lz_bytes g) @ lz_body (drop 7 ts))" "inp < n"
          "Suc inp + length (concat (map lz_bytes g) @ lz_body (drop 7 ts)) \<le> n"
        using less.prems(4,5) unfolding body by simp_all
      have "length h < unat expected"
        using less.prems(1,7) expand1_length [of t h] expand_length [of ts "lz_expand1 h t"]
        by (simp add: Nil Cons' lz_expand_def)
      then have op: "(of_nat (length h) :: u32) < expected"
        using unsigned_less [of expected, where ?'a = nat] by (simp add: word_less_nat_alt unat_of_nat_small)
      have "lzss_loop lim blob n expected inp fl w (of_nat (length h)) (of_nat (length h)) h
        = lzss_loop lim blob n expected (Suc inp) (ucast (lz_flags g) OR 0xFF00) w (of_nat (length h)) (of_nat (length h)) h"
        using loop_reload [OF op _ b(3)] flags_for_more [OF r] b(1) by simp
      also have "\<dots> = (True, expected, lz_expand h (g @ drop 7 ts))"
      proof (rule less.hyps [of g "drop 7 ts" "ucast (lz_flags g) OR 0xFF00" 8])
        show "length g + 2 * length (drop 7 ts) < length ts1 + 2 * length ts2"
          by (auto simp: g_def Nil Cons' min_def)
        show "drop 7 ts \<noteq> [] \<Longrightarrow> length g = 8" by (simp add: g_def)
      qed (use less.prems b g flags_for_reload [OF g(1)] in auto)
      finally show ?thesis by (simp add: g(2))
    qed
  qed
qed

lemma blob_header:
  assumes "length (lz_expand [] ts) < 2 ^ 32"
  shows "lzss_uncompressed_size (\<lambda>i. lz_blob ts ! i) = of_nat (length (lz_expand [] ts))"
proof -
  let ?n = "of_nat (length (lz_expand [] ts)) :: u32"
  have "push_bit 24 (ucast (ucast (drop_bit 24 ?n) :: u8)) OR push_bit 16 (ucast (ucast (drop_bit 16 ?n) :: u8))
      OR push_bit 8 (ucast (ucast (drop_bit 8 ?n) :: u8)) OR ucast (ucast ?n :: u8) = ?n"
    by (rule be32_join)
  then show ?thesis by (simp add: lzss_uncompressed_size_def lz_blob_def Let_def)
qed

lemma blob_loop:
  assumes "\<forall>t \<in> set ts. lz_valid t" "length (lz_expand [] ts) < 2 ^ 32" "length (lz_blob ts) < 2 ^ 32"
    and "\<forall>m. lim = Some m \<longrightarrow> length (lz_expand [] ts) \<le> unat m"
  shows "lzss_loop lim (\<lambda>i. lz_blob ts ! i) (unat (of_nat (length (lz_blob ts)) :: u32)) (of_nat (length (lz_expand [] ts)))
      8 0 (\<lambda>_. 0) 0 0 []
    = (True, of_nat (length (lz_expand [] ts)), lz_expand [] ts)"
proof -
  let ?n = "of_nat (length (lz_expand [] ts)) :: u32"
  have lb: "length (lz_blob ts) = 8 + length (lz_body ts)" by (simp add: lz_blob_def Let_def)
  have dr: "drop 8 (lz_blob ts) = lz_body ts" by (simp add: lz_blob_def Let_def)
  have u: "unat (of_nat (length (lz_blob ts)) :: u32) = 8 + length (lz_body ts)"
  proof -
    have "unat (of_nat (length (lz_blob ts)) :: u32) = length (lz_blob ts)" using assms(3) by (intro unat_of_nat_small) simp
    then show ?thesis by (simp only: lb)
  qed
  have "lzss_loop lim (\<lambda>i. lz_blob ts ! i) (8 + length (lz_body ts)) ?n 8 0 (\<lambda>_. 0)
      (of_nat (length ([] :: u8 list))) (of_nat (length ([] :: u8 list))) [] = (True, ?n, lz_expand [] ([] @ ts))"
  proof (rule loop_decodes)
    show "flags_for 0 [] 0" by (simp add: flags_for_def)
    show "win_ok (\<lambda>_. 0) []" by (rule win_ok_0)
    show "input_at (\<lambda>i. lz_blob ts ! i) 8 (concat (map lz_bytes []) @ lz_body ts)"
      using lb dr by (intro input_at_nth) simp_all
  next
    fix t assume "ts \<noteq> []"
    then show "length [] = (0 :: nat)" by simp
  qed (use assms in \<open>auto simp: unat_of_nat_small word_le_nat_alt\<close>)
  then show ?thesis unfolding u by simp
qed

text \<open>
  C8: Decompression inverts compression. For every list of literals and matches, both variants turn its
  compressed form, with the size in the header, back into the bytes the tokens stand for, overlapping
  matches and matches into the zero-initialised window included, and return their number.
\<close>

theorem lzss_roundtrip:
  assumes "\<forall>t \<in> set ts. lz_valid t" "length (lz_expand [] ts) < 2 ^ 32" "length (lz_blob ts) < 2 ^ 32"
    and "length (lz_expand [] ts) \<le> unat out_max"
  shows "lzss_decompress (\<lambda>i. lz_blob ts ! i) (of_nat (length (lz_blob ts))) out_max
      = (of_nat (length (lz_expand [] ts)), lz_expand [] ts)
    \<and> lzss_decompress_stream (\<lambda>i. lz_blob ts ! i) (of_nat (length (lz_blob ts)))
      = (of_nat (length (lz_expand [] ts)), lz_expand [] ts)"
proof -
  let ?n = "of_nat (length (lz_expand [] ts)) :: u32"
  have z: "?n = 0 \<longleftrightarrow> lz_expand [] ts = []"
    using assms(2) by (simp add: unat_eq_0 [symmetric] unat_of_nat_small)
  have le: "?n \<le> out_max" using assms(2,4) by (simp add: word_le_nat_alt unat_of_nat_small)
  have some: "\<forall>m. Some out_max = Some m \<longrightarrow> length (lz_expand [] ts) \<le> unat m" using assms(4) by simp
  have none: "\<forall>m. None = Some (m :: u32) \<longrightarrow> length (lz_expand [] ts) \<le> unat m" by simp
  show ?thesis
    unfolding lzss_decompress_def lzss_decompress_stream_def Let_def blob_header [OF assms(2)]
      blob_loop [OF assms(1-3) some] blob_loop [OF assms(1-3) none]
    using z le by (auto simp: not_less)
qed

lemma lzss_roundtrip_witness:
  "lzss_decompress_stream (\<lambda>i. lz_blob [Lit 0x61, Lit 0x62, Copy 0 5] ! i) (of_nat (length (lz_blob [Lit 0x61, Lit 0x62, Copy 0 5])))
     = (7, [0x61, 0x62, 0x61, 0x62, 0x61, 0x62, 0x61])"
proof -
  have e: "lz_expand [] [Lit 0x61, Lit 0x62, Copy 0 5] = [0x61, 0x62, 0x61, 0x62, 0x61, 0x62, 0x61]"
    by code_simp
  have "length (lz_blob [Lit 0x61, Lit 0x62, Copy 0 5]) = 13" by (simp add: lz_blob_def Let_def)
  then show ?thesis using lzss_roundtrip [of "[Lit 0x61, Lit 0x62, Copy 0 5]" 100] by (simp add: e)
qed

section \<open>The two variants\<close>

lemma copy_match_grows: "copy_match lim p i n w wpos op out = (f, w1, wpos1, op1, out1) \<Longrightarrow> length out \<le> length out1"
proof (induction lim p i n w wpos op out rule: copy_match.induct)
  case (2 lim p i n w wpos op out)
  then show ?case by (fastforce simp: Let_def split: if_splits)
qed simp

lemma loop_grows: "lzss_loop lim blob n expected inp flags w wpos op out = (fine, op1, out1) \<Longrightarrow> length out \<le> length out1"
proof (induction "n - inp" arbitrary: inp flags w wpos op out rule: less_induct)
  case less
  consider (stop) "\<not> op < expected" | (eof) "op < expected" "flags AND 0x100 = 0" "n \<le> inp"
    | (reload) "op < expected" "flags AND 0x100 = 0" "inp < n"
    | (lit) "op < expected" "flags AND 0x100 \<noteq> 0" "flags AND 1 \<noteq> 0"
    | (pair) "op < expected" "flags AND 0x100 \<noteq> 0" "flags AND 1 = 0" by linarith
  then show ?case
  proof cases
    case reload
    then show ?thesis using less.hyps [of "inp + 1" "ucast (blob inp) OR 0xFF00" w wpos op out] less.prems
      by (simp add: loop_reload)
  next
    case lit
    then show ?thesis
    proof (cases "n \<le> inp \<or> (\<exists>m. lim = Some m \<and> m \<le> op)")
      case True
      then show ?thesis using less.prems by (simp add: loop_literal [OF lit])
    next
      case False
      then have "lzss_loop lim blob n expected (inp + 1) (drop_bit 1 flags) (win_put w wpos (blob inp)) (wpos + 1) (op + 1)
          (out @ [blob inp]) = (fine, op1, out1)"
        using less.prems by (simp only: loop_literal [OF lit] if_False)
      from less.hyps [OF _ this] show ?thesis using False by (simp add: diff_less_mono2)
    qed
  next
    case pair
    obtain f2 w2 p2 op2 out2 where cm: "copy_match lim (match_pos (blob inp) (blob (inp + 1))) 0
        (unat (match_len (blob (inp + 1)))) w wpos op out = (f2, w2, p2, op2, out2)" by (metis prod_cases5)
    show ?thesis
      using less.hyps [of "inp + 2" "drop_bit 1 flags" w2 p2 op2 out2] less.prems copy_match_grows [OF cm]
      by (auto simp: loop_match [OF pair] cm [simplified] diff_less_mono2 split: if_splits)
  qed (use less.prems in \<open>auto simp: loop_end loop_eof\<close>)
qed

lemma copy_match_lim:
  "copy_match None p i n w wpos op out = (f, w1, wpos1, op1, out1) \<Longrightarrow> unat op = length out \<Longrightarrow> length out1 \<le> unat m
    \<Longrightarrow> f \<and> copy_match (Some m) p i n w wpos op out = (True, w1, wpos1, op1, out1) \<and> unat op1 = length out1"
proof (induction "None :: u32 option" p i n w wpos op out rule: copy_match.induct)
  case (2 p i n w wpos op out)
  define c where "c = w ((p + i) AND LZSS_WINDOW_MASK)"
  have r: "copy_match None p (i + 1) n (win_put w wpos c) (wpos + 1) (op + 1) (out @ [c]) = (f, w1, wpos1, op1, out1)"
    using 2(2) by (simp add: Let_def c_def)
  have lt: "op < m" using copy_match_grows [OF r] 2(3,4) by (simp add: word_less_nat_alt)
  then have "unat (op + 1) = length (out @ [c])" using op_step [OF lt] 2(3) by simp
  then show ?case
    using 2(1) [OF _ _ r [unfolded c_def]] lt 2(4) by (simp add: Let_def c_def not_le)
qed simp

lemma loop_lim:
  "lzss_loop None blob n expected inp flags w wpos op out = (fine, op1, out1) \<Longrightarrow> unat op = length out \<Longrightarrow> length out1 \<le> unat m
    \<Longrightarrow> lzss_loop (Some m) blob n expected inp flags w wpos op out = (fine, op1, out1) \<and> unat op1 = length out1"
proof (induction "n - inp" arbitrary: inp flags w wpos op out rule: less_induct)
  case less
  consider (stop) "\<not> op < expected" | (eof) "op < expected" "flags AND 0x100 = 0" "n \<le> inp"
    | (reload) "op < expected" "flags AND 0x100 = 0" "inp < n"
    | (lit) "op < expected" "flags AND 0x100 \<noteq> 0" "flags AND 1 \<noteq> 0"
    | (pair) "op < expected" "flags AND 0x100 \<noteq> 0" "flags AND 1 = 0" by linarith
  then show ?case
  proof cases
    case reload
    then show ?thesis using less.hyps [of "inp + 1" "ucast (blob inp) OR 0xFF00" w wpos op out] less.prems
      by (simp add: loop_reload)
  next
    case lit
    show ?thesis
    proof (cases "n \<le> inp")
      case True
      then show ?thesis using less.prems(1,2) lit by (auto simp: loop_literal)
    next
      case False
      then have r: "lzss_loop None blob n expected (inp + 1) (drop_bit 1 flags) (win_put w wpos (blob inp)) (wpos + 1) (op + 1)
          (out @ [blob inp]) = (fine, op1, out1)"
        using less.prems(1) by (simp add: loop_literal [OF lit])
      have lt: "op < m" using loop_grows [OF r] less.prems(2,3) by (simp add: word_less_nat_alt)
      then have "unat (op + 1) = length (out @ [blob inp])" using op_step [OF lt] less.prems(2) by simp
      then show ?thesis
        using less.hyps [OF _ r] less.prems(3) False lt [folded not_le] by (simp add: loop_literal [OF lit] diff_less_mono2)
    qed
  next
    case pair
    obtain f2 w2 p2 op2 out2 where cm: "copy_match None (match_pos (blob inp) (blob (inp + 1))) 0
        (unat (match_len (blob (inp + 1)))) w wpos op out = (f2, w2, p2, op2, out2)" by (metis prod_cases5)
    show ?thesis
    proof (cases "n \<le> inp + 1")
      case True
      then show ?thesis using less.prems(1,2) pair by (auto simp: loop_match)
    next
      case False
      show ?thesis
      proof (cases f2)
        case True
        then have r: "lzss_loop None blob n expected (inp + 2) (drop_bit 1 flags) w2 p2 op2 out2 = (fine, op1, out1)"
          using less.prems(1) False by (simp add: loop_match [OF pair] cm [simplified])
        have "length out2 \<le> unat m" using loop_grows [OF r] less.prems(3) by simp
        note c = copy_match_lim [OF cm less.prems(2) this]
        show ?thesis
          using less.hyps [OF _ r] less.prems(3) False c by (simp add: loop_match [OF pair] c [simplified] diff_less_mono2)
      next
        case f: False
        then have "out1 = out2" using less.prems(1) False by (simp add: loop_match [OF pair] cm [simplified])
        then show ?thesis using copy_match_lim [OF cm less.prems(2), of m] less.prems(3) f by simp
      qed
    qed
  qed (use less.prems in \<open>auto simp: loop_end loop_eof\<close>)
qed

text \<open>
  The two variants agree. On any blob, well formed or not, when what the streaming variant emits fits
  the buffer, the buffer variant returns the same value and on success the same bytes.
\<close>

theorem lzss_variants_agree:
  assumes "lzss_decompress_stream blob blob_size = (r, out)" "length out \<le> unat out_max"
  shows "fst (lzss_decompress blob blob_size out_max) = r \<and> (r \<noteq> 0 \<longrightarrow> lzss_decompress blob blob_size out_max = (r, out))"
proof -
  define e where "e = lzss_uncompressed_size blob"
  obtain fine op out' where l: "lzss_loop None blob (unat blob_size) e 8 0 (\<lambda>_. 0) 0 0 [] = (fine, op, out')"
    by (metis prod_cases3)
  show ?thesis
  proof (cases "e = 0")
    case True
    then show ?thesis using assms(1) by (auto simp: lzss_decompress_stream_def lzss_decompress_def e_def)
  next
    case False
    then have out: "out = out'" "r = (if fine then op else 0)"
      using assms(1) by (auto simp: lzss_decompress_stream_def Let_def e_def [symmetric] l)
    have s: "lzss_loop (Some out_max) blob (unat blob_size) e 8 0 (\<lambda>_. 0) 0 0 [] = (fine, op, out)" and u: "unat op = length out"
      using loop_lim [OF l, of out_max] assms(2) by (simp_all add: out)
    have "fine \<longrightarrow> e \<le> out_max"
      using lzss_loop_bound [OF s] by auto
    then show ?thesis
      using False by (auto simp: lzss_decompress_def Let_def e_def [symmetric] s out not_less)
  qed
qed

lemma lzss_variants_agree_witness:
  "fst (lzss_decompress (\<lambda>i. lz_blob [Lit 0x68, Lit 0x69] ! i) (of_nat (length (lz_blob [Lit 0x68, Lit 0x69]))) 16) = 2"
proof -
  let ?ts = "[Lit 0x68, Lit 0x69]"
  have e: "lz_expand [] ?ts = [0x68, 0x69]" "length (lz_blob ?ts) = 11" by (simp_all add: lz_expand_def lz_blob_def Let_def)
  have none: "\<forall>m. None = Some (m :: u32) \<longrightarrow> length (lz_expand [] ?ts) \<le> unat m" by simp
  have "lzss_decompress_stream (\<lambda>i. lz_blob ?ts ! i) (of_nat (length (lz_blob ?ts))) = (2, [0x68, 0x69])"
    using blob_loop [of ?ts, OF _ _ _ none] blob_header [of ?ts]
    by (simp add: lzss_decompress_stream_def Let_def e)
  from lzss_variants_agree [OF this, of 16] show ?thesis by simp
qed

end
