(* ===== verification/Fat.thy ===== *)
theory Fat
  imports Disk
begin

text \<open>
  The FAT driver of XCP/M (\<open>xcpm-mips/src/fat.c\<close>), part one: the mount, the two one-sector caches and the
  allocation table. \<open>fat\<close> is the static state of the file with the disk below it; a sector buffer is the
  list of its 512 bytes. An operation that can fail returns whether it succeeded with the new state. The
  shared buffer \<open>fat_wbuf\<close> is at the same time the cache of the table, as in the code.
\<close>

section \<open>State\<close>

datatype fat_type = FAT_NONE | FAT12 | FAT16 | FAT32

record fat_mount =
  m_valid :: bool
  m_type :: fat_type
  bytes_per_sec :: u32
  sec_per_clus :: u32
  rsvd_sec :: u32
  num_fats :: u32
  root_ent_count :: u32
  total_sec :: u32
  fat_sec :: u32
  root_clus :: u32
  first_data_sec :: u32
  first_root_sec :: u32
  cluster_count :: u32

record fat_file =
  in_use :: bool
  first_clus :: u32
  cur_clus :: u32
  cur_pos :: u32
  file_size :: u32
  dir_lba :: u32
  dir_off :: u32
  f_attr :: u8

record fat =
  fat_M :: fat_mount
  sec_buf :: "u8 list"
  sec_buf_lba :: u32
  sec_buf_valid :: bool
  fat_wbuf :: "u8 list"
  fat_buf_lba :: u32
  fat_buf_valid :: bool
  handles :: "fat_file list"
  disk :: ramfat

definition FAT_SECTOR_SIZE :: nat where "FAT_SECTOR_SIZE = 512"
definition FAT_END :: u32 where "FAT_END = 0xFFFFFFFF"

section \<open>Little-endian fields\<close>

definition rd16 :: "u8 list \<Rightarrow> nat \<Rightarrow> u16" where
  "rd16 p i = ucast (p ! i) OR push_bit 8 (ucast (p ! (i + 1)))"

definition rd32 :: "u8 list \<Rightarrow> nat \<Rightarrow> u32" where
  "rd32 p i = ucast (p ! i) OR push_bit 8 (ucast (p ! (i + 1))) OR push_bit 16 (ucast (p ! (i + 2)))
     OR push_bit 24 (ucast (p ! (i + 3)))"

definition wr16 :: "u16 \<Rightarrow> nat \<Rightarrow> u8 list \<Rightarrow> u8 list" where
  "wr16 v i p = p[i := ucast v, i + 1 := ucast (drop_bit 8 v)]"

definition wr32 :: "u32 \<Rightarrow> nat \<Rightarrow> u8 list \<Rightarrow> u8 list" where
  "wr32 v i p = p[i := ucast v, i + 1 := ucast (drop_bit 8 v), i + 2 := ucast (drop_bit 16 v), i + 3 := ucast (drop_bit 24 v)]"

lemma length_wr [simp]: "length (wr16 v i p) = length p" "length (wr32 w i p) = length p"
  by (simp_all add: wr16_def wr32_def)

lemma rd16_wr16 [simp]: "i + 1 < length p \<Longrightarrow> rd16 (wr16 v i p) i = v"
  by (simp add: rd16_def wr16_def nth_list_update le16_join)

lemma rd32_wr32 [simp]: "i + 3 < length p \<Longrightarrow> rd32 (wr32 v i p) i = v"
  by (simp add: rd32_def wr32_def nth_list_update le32_join)

section \<open>Sector input and output\<close>

text \<open>\<open>io_then r f e\<close>: go on with \<open>f\<close> when the operation succeeded, else return \<open>e\<close>.\<close>

definition io_then :: "bool \<times> fat \<Rightarrow> (fat \<Rightarrow> 'a \<times> fat) \<Rightarrow> 'a \<Rightarrow> 'a \<times> fat" where
  "io_then r f e = (if fst r then f (snd r) else (e, snd r))"

text \<open>The same for a list of operations that stops at the first failure.\<close>

primrec io_all :: "(fat \<Rightarrow> bool \<times> fat) list \<Rightarrow> fat \<Rightarrow> bool \<times> fat" where
  "io_all [] s = (True, s)"
| "io_all (f # fs) s = io_then (f s) (io_all fs) False"

definition blk_rd :: "fat \<Rightarrow> u32 \<Rightarrow> u8 list option \<times> fat" where
  "blk_rd s lba = (case blk_read (disk s) lba 1 of (r, d) \<Rightarrow> (r, s\<lparr>disk := d\<rparr>))"

definition read_sec :: "fat \<Rightarrow> u32 \<Rightarrow> u8 list option \<times> fat" where
  "read_sec s lba =
     (if sec_buf_valid s \<and> sec_buf_lba s = lba then (Some (sec_buf s), s)
      else case blk_rd s lba of
             (None, s1) \<Rightarrow> (None, s1)
           | (Some b, s1) \<Rightarrow> (Some b, s1\<lparr>sec_buf := b, sec_buf_lba := lba, sec_buf_valid := True\<rparr>))"

definition read_fat_sec :: "fat \<Rightarrow> u32 \<Rightarrow> bool \<times> fat" where
  "read_fat_sec s lba =
     (if fat_buf_valid s \<and> fat_buf_lba s = lba then (True, s)
      else case blk_rd s lba of
             (None, s1) \<Rightarrow> (False, s1)
           | (Some b, s1) \<Rightarrow> (True, s1\<lparr>fat_wbuf := b, fat_buf_lba := lba, fat_buf_valid := True\<rparr>))"

text \<open>\<open>blk_read(lba, 1, fat_wbuf)\<close>: the cache flag of the shared buffer is not touched.\<close>

definition wb_read :: "fat \<Rightarrow> u32 \<Rightarrow> bool \<times> fat" where
  "wb_read s lba = (case blk_rd s lba of (None, s1) \<Rightarrow> (False, s1) | (Some b, s1) \<Rightarrow> (True, s1\<lparr>fat_wbuf := b\<rparr>))"

definition wb_upd :: "(u8 list \<Rightarrow> u8 list) \<Rightarrow> fat \<Rightarrow> fat" where
  "wb_upd f s = s\<lparr>fat_wbuf := f (fat_wbuf s)\<rparr>"

definition write_sec :: "fat \<Rightarrow> u32 \<Rightarrow> u8 list \<Rightarrow> bool \<times> fat" where
  "write_sec s lba src =
     (case blk_write (disk s) lba 1 src of
        (False, d) \<Rightarrow> (False, s\<lparr>disk := d\<rparr>)
      | (True, d) \<Rightarrow>
          (True, s\<lparr>disk := d,
                   sec_buf_valid := sec_buf_valid s \<and> sec_buf_lba s \<noteq> lba,
                   fat_buf_valid := fat_buf_valid s \<and> fat_buf_lba s \<noteq> lba\<rparr>))"

definition wb_write :: "u32 \<Rightarrow> fat \<Rightarrow> bool \<times> fat" where
  "wb_write lba s = write_sec s lba (fat_wbuf s)"

section \<open>Mount\<close>

definition bpb_mount :: "u8 list \<Rightarrow> fat_mount \<Rightarrow> fat_mount" where
  "bpb_mount bpb m =
     m\<lparr>bytes_per_sec := ucast (rd16 bpb 11), sec_per_clus := ucast (bpb ! 13), rsvd_sec := ucast (rd16 bpb 14),
       num_fats := ucast (bpb ! 16), root_ent_count := ucast (rd16 bpb 17), fat_sec := ucast (rd16 bpb 22),
       total_sec := (if rd16 bpb 19 \<noteq> 0 then ucast (rd16 bpb 19) else rd32 bpb 32)\<rparr>"

definition mount_layout :: "u8 list \<Rightarrow> fat_mount \<Rightarrow> fat_mount" where
  "mount_layout bpb m0 =
     (let m = (if fat_sec m0 = 0 then m0\<lparr>fat_sec := rd32 bpb 36, root_clus := rd32 bpb 44\<rparr> else m0\<lparr>root_clus := 0\<rparr>);
          root_dir_sec = (root_ent_count m * 32 + bytes_per_sec m - 1) div bytes_per_sec m;
          fat_total = num_fats m * fat_sec m;
          first_data = rsvd_sec m + fat_total + root_dir_sec;
          count = (total_sec m - first_data) div sec_per_clus m in
      m\<lparr>first_data_sec := first_data, first_root_sec := rsvd_sec m + fat_total, cluster_count := count,
        m_type := (if count < 4085 then FAT12 else if count < 65525 then FAT16 else FAT32), m_valid := True\<rparr>)"

definition fat_mount_op :: "fat \<Rightarrow> int \<times> fat" where
  "fat_mount_op s0 =
     (let s = s0\<lparr>fat_M := (fat_M s0)\<lparr>m_valid := False\<rparr>, sec_buf_valid := False, fat_buf_valid := False,
                  handles := map (\<lambda>h. h\<lparr>in_use := False\<rparr>) (handles s0), disk := blk_init (disk s0)\<rparr> in
      case read_sec s 0 of
        (None, s1) \<Rightarrow> (-1, s1)
      | (Some bpb, s1) \<Rightarrow>
          if bpb ! 510 \<noteq> 0x55 \<or> bpb ! 511 \<noteq> 0xAA then (-2, s1)
          else let m = bpb_mount bpb (fat_M s1); s2 = s1\<lparr>fat_M := m\<rparr> in
            if bytes_per_sec m \<noteq> 512 then (-3, s2)
            else if sec_per_clus m = 0 then (-4, s2)
            else if num_fats m = 0 then (-5, s2)
            else (0, s2\<lparr>fat_M := mount_layout bpb m\<rparr>))"

definition fat_clus_to_lba :: "fat \<Rightarrow> u32 \<Rightarrow> u32" where
  "fat_clus_to_lba s clus =
     (if clus < 2 then 0 else first_data_sec (fat_M s) + (clus - 2) * sec_per_clus (fat_M s))"

section \<open>The allocation table\<close>

definition entry_off :: "fat_type \<Rightarrow> u32 \<Rightarrow> u32" where
  "entry_off t clus =
     (case t of FAT16 \<Rightarrow> clus * 2 | FAT32 \<Rightarrow> clus * 4 | _ \<Rightarrow> clus + clus div 2)"

text \<open>What \<open>fat_next_clus\<close> returns for a table entry: the end-of-chain marks are mapped to \<open>0xFFFFFFFF\<close>.\<close>

definition next16 :: "u16 \<Rightarrow> u32" where
  "next16 e = (if 0xFFF8 \<le> e then FAT_END else ucast e)"

definition next32 :: "u32 \<Rightarrow> u32" where
  "next32 e = (if 0x0FFFFFF8 \<le> e AND 0x0FFFFFFF then FAT_END else e AND 0x0FFFFFFF)"

definition next12 :: "u32 \<Rightarrow> u8 \<Rightarrow> u8 \<Rightarrow> u32" where
  "next12 clus b0 b1 =
     (let entry = (if clus AND 1 \<noteq> 0 then (drop_bit 4 (ucast b0) OR push_bit 4 (ucast b1)) AND 0x0FFF
                   else (ucast b0 OR push_bit 8 (ucast b1)) AND 0x0FFF) in
      if 0xFF8 \<le> entry then FAT_END else entry)"

definition fat_next_clus :: "fat \<Rightarrow> u32 \<Rightarrow> u32 \<times> fat" where
  "fat_next_clus s clus =
     (let t = m_type (fat_M s); off = entry_off t clus; lba = rsvd_sec (fat_M s) + off div 512; idx = unat (off AND 511) in
      io_then (read_fat_sec s lba)
        (\<lambda>s1. case t of
           FAT16 \<Rightarrow> (next16 (rd16 (fat_wbuf s1) idx), s1)
         | FAT32 \<Rightarrow> (next32 (rd32 (fat_wbuf s1) idx), s1)
         | _ \<Rightarrow>
             if idx = 511 then
               io_then (read_fat_sec s1 (lba + 1))
                 (\<lambda>s2. io_then (read_fat_sec s2 lba)
                   (\<lambda>s3. io_then (read_fat_sec s3 (lba + 1))
                     (\<lambda>s4. (next12 clus (fat_wbuf s3 ! idx) (fat_wbuf s4 ! 0), s4)) FAT_END) FAT_END) FAT_END
             else (next12 clus (fat_wbuf s1 ! idx) (fat_wbuf s1 ! (idx + 1)), s1)) FAT_END)"

text \<open>The two bytes of a 12-bit entry after a write.\<close>

definition lo12 :: "u32 \<Rightarrow> u32 \<Rightarrow> u8 \<Rightarrow> u8" where
  "lo12 clus v b0 = (if clus AND 1 \<noteq> 0 then (b0 AND 0x0F) OR ucast (push_bit 4 (v AND 0x0F)) else ucast (v AND 0xFF))"

definition hi12 :: "u32 \<Rightarrow> u32 \<Rightarrow> u8 \<Rightarrow> u8" where
  "hi12 clus v b1 = (if clus AND 1 \<noteq> 0 then ucast (drop_bit 4 v AND 0xFF) else (b1 AND 0xF0) OR ucast (drop_bit 8 v AND 0x0F))"

text \<open>
  An entry that spans two sectors: both are read, changed and written, in the first table and then
  in the one \<open>fat_sec\<close> sectors behind it. The code reuses the low byte computed in the first table.
\<close>

definition set12_split :: "u32 \<Rightarrow> u32 \<Rightarrow> u8 \<Rightarrow> u32 \<Rightarrow> fat \<Rightarrow> bool \<times> fat" where
  "set12_split clus v b0 lba s =
     (let l2 = lba + fat_sec (fat_M s); hi = (\<lambda>b. b[0 := hi12 clus v (b ! 0)]) in
      io_all [wb_write lba, \<lambda>s. wb_read s (lba + 1), \<lambda>s. wb_write (lba + 1) (wb_upd hi s),
              \<lambda>s. wb_read s l2, \<lambda>s. wb_write l2 (wb_upd (\<lambda>b. b[511 := lo12 clus v b0]) s),
              \<lambda>s. wb_read s (l2 + 1), \<lambda>s. wb_write (l2 + 1) (wb_upd hi s)] s)"

text \<open>The sector in the buffer goes to the first table and to its copies.\<close>

definition write_fats :: "u32 \<Rightarrow> fat \<Rightarrow> bool \<times> fat" where
  "write_fats lba s =
     io_all (map (\<lambda>i. wb_write (lba + of_nat i * fat_sec (fat_M s))) (0 # [1 ..< unat (num_fats (fat_M s))])) s"

definition fat_set_entry :: "fat \<Rightarrow> u32 \<Rightarrow> u32 \<Rightarrow> bool \<times> fat" where
  "fat_set_entry s0 clus v =
     (let s = s0\<lparr>fat_buf_valid := False\<rparr>; t = m_type (fat_M s); off = entry_off t clus;
          lba = rsvd_sec (fat_M s) + off div 512; idx = unat (off AND 511) in
      io_then (wb_read s lba)
        (\<lambda>s1. case t of
           FAT16 \<Rightarrow> write_fats lba (wb_upd (wr16 (ucast v) idx) s1)
         | FAT32 \<Rightarrow> write_fats lba
             (wb_upd (\<lambda>b. wr32 ((rd32 b idx AND 0xF0000000) OR (v AND 0x0FFFFFFF)) idx b) s1)
         | _ \<Rightarrow>
             let b0 = fat_wbuf s1 ! idx; s2 = wb_upd (\<lambda>b. b[idx := lo12 clus v b0]) s1 in
             if idx = 511 then set12_split clus v b0 lba s2
             else write_fats lba (wb_upd (\<lambda>b. b[idx + 1 := hi12 clus v (b ! (idx + 1))]) s2)) False)"

text \<open>The cluster numbers of the loops from 2 to \<open>cluster_count + 1\<close>.\<close>

definition data_clusters :: "fat \<Rightarrow> u32 list" where
  "data_clusters s = map of_nat [2 ..< unat (cluster_count (fat_M s) + 2)]"

primrec count_free :: "u32 list \<Rightarrow> fat \<Rightarrow> u32 \<Rightarrow> u32 \<times> fat" where
  "count_free [] s n = (n, s)"
| "count_free (c # cs) s n = (let (v, s1) = fat_next_clus s c in count_free cs s1 (if v = 0 then n + 1 else n))"

definition fat_count_free_clusters :: "fat \<Rightarrow> u32 \<times> fat" where
  "fat_count_free_clusters s = (if \<not> m_valid (fat_M s) then (0, s) else count_free (data_clusters s) s 0)"

definition fat_eoc :: "fat_type \<Rightarrow> u32" where
  "fat_eoc t = (if t = FAT12 then 0xFFF else if t = FAT16 then 0xFFFF else 0x0FFFFFFF)"

primrec alloc_loop :: "u32 list \<Rightarrow> fat \<Rightarrow> u32 \<times> fat" where
  "alloc_loop [] s = (0, s)"
| "alloc_loop (c # cs) s =
     (let (v, s1) = fat_next_clus s c in
      if v = 0 then io_then (fat_set_entry s1 c (fat_eoc (m_type (fat_M s1)))) (\<lambda>s2. (c, s2)) 0
      else alloc_loop cs s1)"

definition fat_alloc_cluster :: "fat \<Rightarrow> u32 \<times> fat" where
  "fat_alloc_cluster s = alloc_loop (data_clusters s) s"

partial_function (option) fat_free_chain :: "fat \<Rightarrow> u32 \<Rightarrow> (bool \<times> fat) option" where
  "fat_free_chain s c =
     (if 2 \<le> c \<and> c < cluster_count (fat_M s) + 2 then
        (let (nxt, s1) = fat_next_clus s c; (ok, s2) = fat_set_entry s1 c 0 in
         if \<not> ok then Some (False, s2)
         else if nxt = FAT_END then Some (True, s2)
         else fat_free_chain s2 nxt)
      else Some (True, s))"

section \<open>Coherence of the caches\<close>

text \<open>A valid cache holds the sector of the disk it names; the disk is initialised.\<close>

definition coherent :: "fat \<Rightarrow> bool" where
  "coherent s \<longleftrightarrow> ramfat_ok (disk s)
     \<and> (fat_buf_valid s \<longrightarrow> ramfat_rd (disk s) (fat_buf_lba s) = Some (fat_wbuf s))
     \<and> (sec_buf_valid s \<longrightarrow> ramfat_rd (disk s) (sec_buf_lba s) = Some (sec_buf s))"

text \<open>\<open>s'\<close> differs from \<open>s\<close> in the shared buffer and its flags only.\<close>

definition buf_frame :: "fat \<Rightarrow> fat \<Rightarrow> bool" where
  "buf_frame s s' \<longleftrightarrow> fat_M s' = fat_M s \<and> disk s' = disk s \<and> handles s' = handles s
     \<and> sec_buf s' = sec_buf s \<and> sec_buf_lba s' = sec_buf_lba s \<and> sec_buf_valid s' = sec_buf_valid s"

text \<open>\<open>s'\<close> differs from \<open>s\<close> in the disk and the cache flags only, and the shared buffer did not become a valid cache.\<close>

definition disk_frame :: "fat \<Rightarrow> fat \<Rightarrow> bool" where
  "disk_frame s s' \<longleftrightarrow> fat_M s' = fat_M s \<and> handles s' = handles s \<and> fat_wbuf s' = fat_wbuf s
     \<and> ramfat_cap (disk s') = ramfat_cap (disk s) \<and> (fat_buf_valid s' \<longrightarrow> fat_buf_valid s)"

lemma frame_refl [simp]: "buf_frame s s" "disk_frame s s"
  by (simp_all add: buf_frame_def disk_frame_def)

lemma buf_frame_trans: "buf_frame s s' \<Longrightarrow> buf_frame s' s'' \<Longrightarrow> buf_frame s s''"
  by (simp add: buf_frame_def)

lemma disk_frame_trans: "disk_frame s s' \<Longrightarrow> disk_frame s' s'' \<Longrightarrow> disk_frame s s''"
  by (auto simp: disk_frame_def)

lemma buf_frame_simps:
  "buf_frame s s' \<Longrightarrow> fat_M s' = fat_M s" "buf_frame s s' \<Longrightarrow> disk s' = disk s"
  "buf_frame s s' \<Longrightarrow> handles s' = handles s"
  by (simp_all add: buf_frame_def)

lemma blk_rd_eq: "ramfat_ok (disk s) \<Longrightarrow> blk_rd s lba = (ramfat_rd (disk s) lba, s)"
  by (simp add: blk_rd_def blk_read_def Let_def ramfat_rd_def blk_init_idle ramfat_ok_def)

lemma blk_write_eq:
  "ramfat_ok d \<Longrightarrow> blk_write d lba 1 src = (case ramfat_wr d lba src of None \<Rightarrow> (False, d) | Some d' \<Rightarrow> (True, d'))"
  by (simp add: blk_write_def ramfat_wr_def Let_def blk_init_idle ramfat_ok_def)

lemma read_fat_sec_ok:
  assumes "coherent s" "unat lba < ramfat_cap (disk s)"
  shows "\<exists>s' b. read_fat_sec s lba = (True, s') \<and> ramfat_rd (disk s) lba = Some b \<and> fat_wbuf s' = b \<and> length b = 512
    \<and> buf_frame s s' \<and> coherent s'"
proof -
  obtain b where b: "ramfat_rd (disk s) lba = Some b" "length b = 512"
    using rf.rd_some assms by (auto simp: coherent_def)
  show ?thesis
  proof (cases "fat_buf_valid s \<and> fat_buf_lba s = lba")
    case True
    then show ?thesis using assms b by (auto simp: read_fat_sec_def coherent_def)
  next
    case False
    then show ?thesis using assms b
      by (auto simp: read_fat_sec_def coherent_def blk_rd_eq buf_frame_def)
  qed
qed

lemma read_sec_ok:
  assumes "coherent s" "ramfat_rd (disk s) lba = Some b"
  shows "\<exists>s'. read_sec s lba = (Some b, s') \<and> coherent s' \<and> fat_M s' = fat_M s \<and> disk s' = disk s \<and> handles s' = handles s
    \<and> fat_buf_valid s' = fat_buf_valid s"
  using assms by (auto simp: read_sec_def coherent_def blk_rd_eq)

lemma wb_read_ok:
  assumes "coherent s" "\<not> fat_buf_valid s" "ramfat_rd (disk s) lba = Some b"
  shows "wb_read s lba = (True, s\<lparr>fat_wbuf := b\<rparr>)" "coherent (s\<lparr>fat_wbuf := b\<rparr>)"
  using assms by (simp_all add: wb_read_def blk_rd_eq coherent_def)

text \<open>A successful sector write: the disk, and what else changes.\<close>

lemma write_sec_ok:
  assumes "coherent s" "unat lba < ramfat_cap (disk s)" "length src = 512"
  shows "\<exists>s'. write_sec s lba src = (True, s') \<and> disk_frame s s' \<and> coherent s'
    \<and> (\<forall>k. ramfat_rd (disk s') k = (if k = lba then Some src else ramfat_rd (disk s) k))"
proof -
  have ok: "ramfat_ok (disk s)" using assms(1) by (simp add: coherent_def)
  obtain d' where w: "ramfat_wr (disk s) lba src = Some d'" using rf.wr_some [OF ok assms(2,3)] by blast
  have "ramfat_ok d'" "ramfat_cap d' = ramfat_cap (disk s)"
    "ramfat_rd d' k = (if k = lba then Some src else ramfat_rd (disk s) k)" for k
    using rf.wr_ok [OF ok assms(3) w] rf.rd_wr [OF ok assms(3) w] by auto
  then show ?thesis
    using assms(1) w by (simp add: write_sec_def blk_write_eq [OF ok] coherent_def disk_frame_def)
qed

text \<open>Writing the buffer to a list of sectors.\<close>

lemma wb_writes_ok:
  assumes "coherent s" "\<forall>l \<in> set ls. unat l < ramfat_cap (disk s)" "length (fat_wbuf s) = 512"
  shows "\<exists>s'. io_all (map wb_write ls) s = (True, s') \<and> disk_frame s s' \<and> coherent s'
    \<and> (\<forall>k. ramfat_rd (disk s') k = (if k \<in> set ls then Some (fat_wbuf s) else ramfat_rd (disk s) k))"
  using assms
proof (induction ls arbitrary: s)
  case Nil
  then show ?case by auto
next
  case (Cons l ls)
  obtain s1 where w: "wb_write l s = (True, s1)" and fr: "disk_frame s s1" and co: "coherent s1"
    and rd: "ramfat_rd (disk s1) k = (if k = l then Some (fat_wbuf s) else ramfat_rd (disk s) k)" for k
    using write_sec_ok [OF Cons.prems(1), of l "fat_wbuf s"] Cons.prems(2,3) by (auto simp: wb_write_def)
  have wb: "fat_wbuf s1 = fat_wbuf s" and cap: "ramfat_cap (disk s1) = ramfat_cap (disk s)"
    using fr by (simp_all add: disk_frame_def)
  obtain s' where IH: "io_all (map wb_write ls) s1 = (True, s')" "disk_frame s1 s'" "coherent s'"
    "\<forall>k. ramfat_rd (disk s') k = (if k \<in> set ls then Some (fat_wbuf s1) else ramfat_rd (disk s1) k)"
    using Cons.IH [OF co] Cons.prems(2,3) by (auto simp: wb cap)
  have "io_all (map wb_write (l # ls)) s = (True, s')" using IH(1) by (simp add: w io_then_def)
  then show ?case using IH(3,4) disk_frame_trans [OF fr IH(2)] rd by (auto simp: wb)
qed

section \<open>The table as a function of the disk\<close>

definition noff :: "fat_type \<Rightarrow> nat \<Rightarrow> nat" where
  "noff t n = (case t of FAT16 \<Rightarrow> 2 * n | FAT32 \<Rightarrow> 4 * n | _ \<Rightarrow> n + n div 2)"

definition ewidth :: "fat_type \<Rightarrow> nat" where
  "ewidth t = (if t = FAT32 then 4 else 2)"

text \<open>
  A sound geometry: one of the three types, the copies of the table inside the disk, an entry for every
  cluster inside the table, and a second table for FAT12, whose code always writes one.
\<close>

definition geo :: "fat_mount \<Rightarrow> nat \<Rightarrow> bool" where
  "geo m cap \<longleftrightarrow> m_type m \<in> {FAT12, FAT16, FAT32} \<and> 1 \<le> unat (num_fats m) \<and> (m_type m = FAT12 \<longrightarrow> 2 \<le> unat (num_fats m))
     \<and> unat (rsvd_sec m) + unat (num_fats m) * unat (fat_sec m) \<le> cap \<and> cap < 2 ^ 22
     \<and> noff (m_type m) (unat (cluster_count m) + 1) + ewidth (m_type m) \<le> 512 * unat (fat_sec m)"

definition in_table :: "fat_mount \<Rightarrow> u32 \<Rightarrow> bool" where
  "in_table m c \<longleftrightarrow> unat c < unat (cluster_count m) + 2"

definition table_sec :: "fat_mount \<Rightarrow> nat \<Rightarrow> u32" where
  "table_sec m k = rsvd_sec m + of_nat (k div 512)"

definition tbyte :: "fat_mount \<Rightarrow> ramfat \<Rightarrow> nat \<Rightarrow> u8" where
  "tbyte m d k = (case ramfat_rd d (table_sec m k) of Some b \<Rightarrow> b ! (k mod 512) | None \<Rightarrow> 0)"

definition entry_of :: "fat_type \<Rightarrow> (nat \<Rightarrow> u8) \<Rightarrow> u32 \<Rightarrow> u32" where
  "entry_of t f c =
     (let k = noff t (unat c) in
      case t of FAT16 \<Rightarrow> next16 (ucast (f k) OR push_bit 8 (ucast (f (k + 1))))
      | FAT32 \<Rightarrow> next32 (ucast (f k) OR push_bit 8 (ucast (f (k + 1))) OR push_bit 16 (ucast (f (k + 2)))
                        OR push_bit 24 (ucast (f (k + 3))))
      | _ \<Rightarrow> next12 c (f k) (f (k + 1)))"

lemma noff_mono: "a \<le> b \<Longrightarrow> noff t a \<le> noff t b"
  by (cases t) (auto simp: noff_def div_le_mono add_le_mono)

lemma noff_ge: "n \<le> noff t n"
  by (cases t) (auto simp: noff_def)

lemma geo_fat_sec: "geo m cap \<Longrightarrow> unat (fat_sec m) \<le> cap"
proof -
  assume g: "geo m cap"
  then have "1 * unat (fat_sec m) \<le> unat (num_fats m) * unat (fat_sec m)" by (intro mult_le_mono1) (simp add: geo_def)
  then show ?thesis using g unfolding geo_def by linarith
qed

lemma table_sec_in:
  assumes "geo m cap" "k < 512 * unat (fat_sec m)" "j < unat (num_fats m)"
  shows "unat (table_sec m k + of_nat j * fat_sec m) = unat (rsvd_sec m) + k div 512 + j * unat (fat_sec m)"
    "unat (rsvd_sec m) + k div 512 + j * unat (fat_sec m) < cap"
proof -
  have k: "k div 512 < unat (fat_sec m)" using assms(2) by (simp add: less_mult_imp_div_less mult.commute)
  have "j * unat (fat_sec m) + unat (fat_sec m) \<le> unat (num_fats m) * unat (fat_sec m)"
    using assms(3) by (metis Suc_leI add.commute mult_Suc mult_le_mono1)
  then show lt: "unat (rsvd_sec m) + k div 512 + j * unat (fat_sec m) < cap"
    using assms(1) k by (simp add: geo_def)
  have cap: "cap < 2 ^ 22" using assms(1) by (simp add: geo_def)
  have e: "table_sec m k + of_nat j * fat_sec m = of_nat (unat (rsvd_sec m) + k div 512 + j * unat (fat_sec m))"
    by (simp add: table_sec_def)
  show "unat (table_sec m k + of_nat j * fat_sec m) = unat (rsvd_sec m) + k div 512 + j * unat (fat_sec m)"
    unfolding e using lt cap by (intro unat_of_nat_small) simp
qed

lemma table_sec_lt: "geo m cap \<Longrightarrow> k < 512 * unat (fat_sec m) \<Longrightarrow> unat (table_sec m k) < cap"
  using table_sec_in [of m cap k 0] by (simp add: geo_def)

lemma entry_in_table:
  assumes "geo m cap" "in_table m c"
  shows "unat (entry_off (m_type m) c) = noff (m_type m) (unat c)"
    "noff (m_type m) (unat c) + ewidth (m_type m) \<le> 512 * unat (fat_sec m)"
proof -
  have "unat c \<le> unat (cluster_count m) + 1" using assms(2) by (simp add: in_table_def)
  from noff_mono [OF this] show in_t: "noff (m_type m) (unat c) + ewidth (m_type m) \<le> 512 * unat (fat_sec m)"
    using assms(1) by (simp add: geo_def) (meson add_le_mono1 le_trans)
  have "unat (fat_sec m) < 2 ^ 22" using geo_fat_sec [OF assms(1)] assms(1) by (simp add: geo_def)
  then have b: "noff (m_type m) (unat c) < 2 ^ 32" using in_t by simp
  then show "unat (entry_off (m_type m) c) = noff (m_type m) (unat c)"
    by (cases "m_type m") (simp_all add: entry_off_def noff_def unat_word_ariths unat_div)
qed

lemma word_div_512: "(x :: u32) div 512 = of_nat (unat x div 512)"
proof -
  have e: "unat (x div 512) = unat x div 512" by (simp add: unat_div)
  have "of_nat (unat (x div 512)) = x div 512" by simp
  then show ?thesis by (simp only: e)
qed

lemma entry_pos:
  assumes "geo m cap" "in_table m c"
  shows "rsvd_sec m + entry_off (m_type m) c div 512 = table_sec m (noff (m_type m) (unat c))"
    "unat (entry_off (m_type m) c AND 511) = noff (m_type m) (unat c) mod 512"
proof -
  have "entry_off (m_type m) c div 512 = of_nat (noff (m_type m) (unat c) div 512)"
    unfolding word_div_512 entry_in_table(1) [OF assms] ..
  then show "rsvd_sec m + entry_off (m_type m) c div 512 = table_sec m (noff (m_type m) (unat c))"
    by (simp add: table_sec_def)
  have m: "(511 :: u32) = mask 9" by (simp add: mask_eq_exp_minus_1)
  show "unat (entry_off (m_type m) c AND 511) = noff (m_type m) (unat c) mod 512"
    unfolding m unat_and_mask entry_in_table(1) [OF assms] by simp
qed

lemma tbyte_read: "ramfat_rd d (table_sec m k) = Some b \<Longrightarrow> b ! (k mod 512) = tbyte m d k"
  by (simp add: tbyte_def)

lemma same_sector: "k mod 512 + i < 512 \<Longrightarrow> table_sec m (k + i) = table_sec m k \<and> (k + i) mod 512 = k mod 512 + (i :: nat)"
proof -
  assume a: "k mod 512 + i < 512"
  have "k + i = k div 512 * 512 + (k mod 512 + i)" by simp
  then have "(k + i) div 512 = k div 512 \<and> (k + i) mod 512 = k mod 512 + i"
    using a by (metis add.commute div_mult_self3 div_less add_0 mod_mult_self3 mod_less zero_neq_numeral)
  then show ?thesis by (simp add: table_sec_def)
qed

lemma next_sector: "k mod 512 = 511 \<Longrightarrow> table_sec m (k + 1) = table_sec m k + 1 \<and> (k + 1) mod 512 = 0"
proof -
  assume a: "k mod 512 = 511"
  have "(k + 1) div 512 = k div 512 + 1 \<and> (k + 1) mod 512 = 0" using a by (simp add: mod_Suc div_Suc)
  then show ?thesis by (simp add: table_sec_def)
qed

lemma even_sector: "k mod 2 = 0 \<Longrightarrow> k mod 512 + 1 < (512 :: nat)"
proof -
  assume "k mod 2 = 0"
  then have "k mod 512 = 2 * (k div 2 mod 256)" by (simp add: mod_mult2_eq [of k 2 256, simplified])
  then show ?thesis using mod_less_divisor [of 256 "k div 2"] by linarith
qed

lemma quad_sector: "k mod 4 = 0 \<Longrightarrow> k mod 512 + 3 < (512 :: nat)"
proof -
  assume "k mod 4 = 0"
  then have "k mod 512 = 4 * (k div 4 mod 128)" by (simp add: mod_mult2_eq [of k 4 128, simplified])
  then show ?thesis using mod_less_divisor [of 128 "k div 4"] by linarith
qed

lemma next_clus_ok:
  assumes co: "coherent s" and g: "geo (fat_M s) (ramfat_cap (disk s))" and c: "in_table (fat_M s) c"
  shows "\<exists>s'. fat_next_clus s c = (entry_of (m_type (fat_M s)) (tbyte (fat_M s) (disk s)) c, s') \<and> buf_frame s s' \<and> coherent s'"
proof -
  let ?m = "fat_M s" and ?t = "m_type (fat_M s)"
  define k where "k = noff ?t (unat c)"
  let ?b = "tbyte ?m (disk s)"
  have kw: "k + ewidth ?t \<le> 512 * unat (fat_sec ?m)" using entry_in_table(2) [OF g c] by (simp add: k_def)
  have w: "2 \<le> ewidth ?t" by (simp add: ewidth_def)
  have lba: "rsvd_sec ?m + entry_off ?t c div 512 = table_sec ?m k" "unat (entry_off ?t c AND 511) = k mod 512"
    using entry_pos [OF g c] by (simp_all add: k_def)
  have l0: "unat (table_sec ?m k) < ramfat_cap (disk s)" using table_sec_lt [OF g] kw w by simp
  obtain s1 b where r1: "read_fat_sec s (table_sec ?m k) = (True, s1)" and b: "ramfat_rd (disk s) (table_sec ?m k) = Some b"
    "fat_wbuf s1 = b" and f1: "buf_frame s s1" and c1: "coherent s1"
    using read_fat_sec_ok [OF co l0] by blast
  have byte: "b ! (k mod 512 + i) = ?b (k + i)" if "k mod 512 + i < 512" for i
    using tbyte_read [of "disk s" ?m "k + i" b] same_sector [OF that, of ?m] b(1) by simp
  have type: "?t = FAT12 \<or> ?t = FAT16 \<or> ?t = FAT32" using g by (auto simp: geo_def)
  show ?thesis
  proof (cases "?t = FAT16 \<or> ?t = FAT32")
    case True
    then show ?thesis
    proof
      assume t: "?t = FAT16"
      then have "k mod 512 + 1 < 512" by (intro even_sector) (simp add: k_def noff_def)
      then show ?thesis
        unfolding fat_next_clus_def Let_def lba entry_of_def k_def [symmetric]
        using t r1 b(2) f1 c1 byte [of 0] byte [of 1] by (simp add: io_then_def rd16_def)
    next
      assume t: "?t = FAT32"
      then have "k mod 512 + 3 < 512" by (intro quad_sector) (simp add: k_def noff_def)
      then show ?thesis
        unfolding fat_next_clus_def Let_def lba entry_of_def k_def [symmetric]
        using t r1 b(2) f1 c1 byte [of 0] byte [of 1] byte [of 2] byte [of 3] by (simp add: io_then_def rd32_def)
    qed
  next
    case False
    then have t12: "?t = FAT12" using type by blast
    show ?thesis
    proof (cases "k mod 512 = 511")
      case False
      then have "k mod 512 + 1 < 512" using mod_less_divisor [of 512 k] by linarith
      then show ?thesis
        unfolding fat_next_clus_def Let_def lba entry_of_def k_def [symmetric]
        using False t12 r1 b(2) f1 c1 byte [of 0] byte [of 1]
        by (simp add: io_then_def)
    next
      case True
      have e1: "table_sec ?m k + 1 = table_sec ?m (k + 1)" using next_sector [OF True, of ?m] by simp
      have l1: "unat (table_sec ?m (k + 1)) < ramfat_cap (disk s)" using table_sec_lt [OF g, of "k + 1"] kw w by simp
      have fs1: "disk s1 = disk s" "fat_M s1 = ?m" using f1 by (simp_all add: buf_frame_simps)
      obtain s2 where r2: "read_fat_sec s1 (table_sec ?m (k + 1)) = (True, s2)" and f2: "buf_frame s1 s2" and c2: "coherent s2"
        using read_fat_sec_ok [OF c1, of "table_sec ?m (k + 1)"] l1 fs1 by auto
      have fs2: "disk s2 = disk s" using f2 fs1 by (simp add: buf_frame_simps)
      obtain s3 where r3: "read_fat_sec s2 (table_sec ?m k) = (True, s3)" and w3: "fat_wbuf s3 = b" and f3: "buf_frame s2 s3"
        and c3: "coherent s3"
        using read_fat_sec_ok [OF c2, of "table_sec ?m k"] l0 fs2 b(1) by auto
      have fs3: "disk s3 = disk s" using f3 fs2 by (simp add: buf_frame_simps)
      obtain s4 b4 where r4: "read_fat_sec s3 (table_sec ?m (k + 1)) = (True, s4)" and f4: "buf_frame s3 s4" and c4: "coherent s4"
        and w4: "fat_wbuf s4 = b4" "ramfat_rd (disk s) (table_sec ?m (k + 1)) = Some b4"
        using read_fat_sec_ok [OF c3, of "table_sec ?m (k + 1)"] l1 fs3 by auto
      have "b4 ! 0 = ?b (k + 1)" using tbyte_read [OF w4(2)] next_sector [OF True, of ?m] by simp
      moreover have "buf_frame s s4" using f1 f2 f3 f4 by (meson buf_frame_trans)
      moreover have "b ! 511 = ?b k" using byte [of 0] True by simp
      ultimately show ?thesis
        unfolding fat_next_clus_def Let_def lba e1 entry_of_def k_def [symmetric]
        using t12 True r1 r2 r3 r4 w3 w4 c4
        by (simp add: io_then_def)
    qed
  qed
qed


section \<open>Writing an entry\<close>

definition merge28 :: "u32 \<Rightarrow> u32 \<Rightarrow> u32" where
  "merge28 old v = (old AND 0xF0000000) OR (v AND 0x0FFFFFFF)"

definition set_bytes :: "fat_type \<Rightarrow> u32 \<Rightarrow> u32 \<Rightarrow> (nat \<Rightarrow> u8) \<Rightarrow> nat \<Rightarrow> u8" where
  "set_bytes t c v f =
     (let k = noff t (unat c) in
      case t of FAT16 \<Rightarrow> let w = ucast v :: u16 in f(k := ucast w, k + 1 := ucast (drop_bit 8 w))
      | FAT32 \<Rightarrow>
          let w = merge28 (ucast (f k) OR push_bit 8 (ucast (f (k + 1))) OR push_bit 16 (ucast (f (k + 2)))
                           OR push_bit 24 (ucast (f (k + 3)))) v in
          f(k := ucast w, k + 1 := ucast (drop_bit 8 w), k + 2 := ucast (drop_bit 16 w), k + 3 := ucast (drop_bit 24 w))
      | _ \<Rightarrow> f(k := lo12 c v (f k), k + 1 := hi12 c v (f (k + 1))))"

text \<open>The sectors outside the tables, which a write of an entry must not touch.\<close>

definition outside_tables :: "fat_mount \<Rightarrow> u32 \<Rightarrow> bool" where
  "outside_tables m l \<longleftrightarrow> unat l < unat (rsvd_sec m) \<or> unat (rsvd_sec m) + unat (num_fats m) * unat (fat_sec m) \<le> unat l"

lemma table_sec_eq_iff:
  assumes "geo m cap" "j < 512 * unat (fat_sec m)" "k < 512 * unat (fat_sec m)" "i < unat (num_fats m)"
  shows "table_sec m j = table_sec m k + of_nat i * fat_sec m \<longleftrightarrow> i = 0 \<and> j div 512 = k div 512"
proof -
  have q: "j div 512 < unat (fat_sec m)" "k div 512 < unat (fat_sec m)"
    using assms(2,3) by (simp_all add: less_mult_imp_div_less mult.commute)
  have n: "0 < unat (num_fats m)" using assms(4) by simp
  have "table_sec m j = table_sec m k + of_nat i * fat_sec m \<longleftrightarrow> j div 512 = k div 512 + i * unat (fat_sec m)"
    using table_sec_in(1) [OF assms(1,3,4)] table_sec_in(1) [OF assms(1,2) n] by (simp add: word_unat_eq_iff)
  moreover have "j div 512 \<noteq> k div 512 + i * unat (fat_sec m)" if "i \<noteq> 0"
  proof -
    have "1 * unat (fat_sec m) \<le> i * unat (fat_sec m)" using that by (intro mult_le_mono1) simp
    then show ?thesis using q by linarith
  qed
  ultimately show ?thesis by (cases "i = 0") auto
qed

lemma tables_outside:
  assumes "geo m cap" "k < 512 * unat (fat_sec m)" "i < unat (num_fats m)" "outside_tables m l"
  shows "l \<noteq> table_sec m k + of_nat i * fat_sec m"
proof
  assume l: "l = table_sec m k + of_nat i * fat_sec m"
  have q: "k div 512 < unat (fat_sec m)" using assms(2) by (simp add: less_mult_imp_div_less mult.commute)
  have "Suc i * unat (fat_sec m) \<le> unat (num_fats m) * unat (fat_sec m)" using assms(3) by (intro mult_le_mono1) simp
  then show False
    using assms(4) table_sec_in(1) [OF assms(1-3)] q unfolding l outside_tables_def by simp
qed

lemma write_fats_ok:
  assumes "coherent s" "geo (fat_M s) (ramfat_cap (disk s))" "k < 512 * unat (fat_sec (fat_M s))" "length (fat_wbuf s) = 512"
  shows "\<exists>s'. write_fats (table_sec (fat_M s) k) s = (True, s') \<and> disk_frame s s' \<and> coherent s'
    \<and> (\<forall>j < 512 * unat (fat_sec (fat_M s)). tbyte (fat_M s) (disk s') j
         = (if j div 512 = k div 512 then fat_wbuf s ! (j mod 512) else tbyte (fat_M s) (disk s) j))
    \<and> (\<forall>l. outside_tables (fat_M s) l \<longrightarrow> ramfat_rd (disk s') l = ramfat_rd (disk s) l)"
proof -
  let ?m = "fat_M s"
  define ls where "ls = map (\<lambda>i. table_sec ?m k + of_nat i * fat_sec ?m) (0 # [1 ..< unat (num_fats ?m)])"
  have n: "1 \<le> unat (num_fats ?m)" using assms(2) by (simp add: geo_def)
  then have idx: "set (0 # [1 ..< unat (num_fats ?m)]) = {..< unat (num_fats ?m)}" by auto
  have set_ls: "set ls = (\<lambda>i. table_sec ?m k + of_nat i * fat_sec ?m) ` {..< unat (num_fats ?m)}"
    unfolding ls_def set_map idx ..
  have "\<forall>l \<in> set ls. unat l < ramfat_cap (disk s)"
    unfolding set_ls using table_sec_in [OF assms(2,3)] by auto
  from wb_writes_ok [OF assms(1) this assms(4)] obtain s' where s': "io_all (map wb_write ls) s = (True, s')"
    "disk_frame s s'" "coherent s'"
    and rd: "\<And>l. ramfat_rd (disk s') l = (if l \<in> set ls then Some (fat_wbuf s) else ramfat_rd (disk s) l)" by blast
  have w: "write_fats (table_sec ?m k) s = (True, s')"
    using s'(1) by (simp add: write_fats_def ls_def comp_def)
  have "tbyte ?m (disk s') j = (if j div 512 = k div 512 then fat_wbuf s ! (j mod 512) else tbyte ?m (disk s) j)"
    if "j < 512 * unat (fat_sec ?m)" for j
  proof -
    have "table_sec ?m j \<in> set ls \<longleftrightarrow> j div 512 = k div 512"
    proof
      assume "table_sec ?m j \<in> set ls"
      then show "j div 512 = k div 512" unfolding set_ls using table_sec_eq_iff [OF assms(2) that assms(3)] by auto
    next
      assume "j div 512 = k div 512"
      then have "table_sec ?m j = table_sec ?m k + of_nat 0 * fat_sec ?m" by (simp add: table_sec_def)
      then show "table_sec ?m j \<in> set ls" unfolding set_ls by (rule image_eqI) (use n in simp)
    qed
    then show ?thesis by (simp add: tbyte_def rd)
  qed
  moreover have "ramfat_rd (disk s') l = ramfat_rd (disk s) l" if "outside_tables ?m l" for l
    using tables_outside [OF assms(2,3) _ that] by (auto simp: rd set_ls)
  ultimately show ?thesis using w s'(2,3) by blast
qed

text \<open>The byte of a changed sector at a position of the table.\<close>

lemma pos_iff: "k mod 512 + i < 512 \<Longrightarrow> j div 512 = k div 512 \<and> j mod 512 = k mod 512 + i \<longleftrightarrow> j = k + (i :: nat)"
proof -
  assume a: "k mod 512 + i < 512"
  have "k + i = k div 512 * 512 + (k mod 512 + i)" by simp
  then have "(k + i) div 512 = k div 512" "(k + i) mod 512 = k mod 512 + i"
    using a by (metis add.commute div_mult_self3 div_less add_0 zero_neq_numeral)
      (metis same_sector [OF a])
  moreover have "j = k + i" if "j div 512 = k div 512" "j mod 512 = k mod 512 + i"
    using that \<open>k + i = _\<close> by (metis div_mult_mod_eq)
  ultimately show ?thesis by blast
qed

text \<open>What a write of an entry must achieve: all of it at once.\<close>

definition entry_set :: "fat \<Rightarrow> u32 \<Rightarrow> u32 \<Rightarrow> fat \<Rightarrow> bool" where
  "entry_set s c v s' \<longleftrightarrow> coherent s' \<and> fat_M s' = fat_M s \<and> handles s' = handles s
     \<and> ramfat_cap (disk s') = ramfat_cap (disk s) \<and> \<not> fat_buf_valid s'
     \<and> (\<forall>j < 512 * unat (fat_sec (fat_M s)).
          tbyte (fat_M s) (disk s') j = set_bytes (m_type (fat_M s)) c v (tbyte (fat_M s) (disk s)) j)
     \<and> (\<forall>l. outside_tables (fat_M s) l \<longrightarrow> ramfat_rd (disk s') l = ramfat_rd (disk s) l)"

lemma write_fats_sets:
  assumes "coherent s" "\<not> fat_buf_valid s" "geo (fat_M s) (ramfat_cap (disk s))"
    and "noff (m_type (fat_M s)) (unat c) < 512 * unat (fat_sec (fat_M s))" "length b' = 512"
    and "\<And>j. j div 512 = noff (m_type (fat_M s)) (unat c) div 512 \<Longrightarrow>
           b' ! (j mod 512) = set_bytes (m_type (fat_M s)) c v (tbyte (fat_M s) (disk s)) j"
    and "\<And>j. j div 512 \<noteq> noff (m_type (fat_M s)) (unat c) div 512 \<Longrightarrow>
           set_bytes (m_type (fat_M s)) c v (tbyte (fat_M s) (disk s)) j = tbyte (fat_M s) (disk s) j"
  shows "\<exists>s'. write_fats (table_sec (fat_M s) (noff (m_type (fat_M s)) (unat c))) (s\<lparr>fat_wbuf := b'\<rparr>) = (True, s') \<and> entry_set s c v s'"
proof -
  define s1 where "s1 = s\<lparr>fat_wbuf := b'\<rparr>"
  have "coherent s1" using assms(1,2) by (simp add: s1_def coherent_def)
  from write_fats_ok [OF this, of "noff (m_type (fat_M s)) (unat c)"] assms
  show ?thesis unfolding s1_def [symmetric]
    by (fastforce simp: s1_def entry_set_def disk_frame_def)
qed

lemma sector_bytes:
  assumes "ramfat_rd d (table_sec m k) = Some b" "j div 512 = k div 512"
  shows "b ! (j mod 512) = tbyte m d j"
  using tbyte_read [of d m j b] assms by (simp add: table_sec_def)

lemma upd_at:
  assumes "j div 512 = k div 512" "k mod 512 + i < 512" "length b = 512"
  shows "b[k mod 512 + i := x] ! (j mod 512) = (if j = k + i then x else b ! (j mod 512))"
proof (cases "j = k + i")
  case True
  then have "j mod 512 = k mod 512 + i" using pos_iff [OF assms(2), of j] by blast
  then show ?thesis using True assms(2,3) by (metis nth_list_update_eq)
next
  case False
  then have "j mod 512 \<noteq> k mod 512 + i" using pos_iff [OF assms(2), of j] assms(1) by blast
  then show ?thesis using False by simp
qed

lemma upd_at_0:
  "j div 512 = k div 512 \<Longrightarrow> length b = 512 \<Longrightarrow> b[k mod 512 := x] ! (j mod 512) = (if j = k then x else b ! (j mod 512))"
  using upd_at [of j k 0 b x] by simp

lemma set_entry_16:
  assumes "coherent s" "\<not> fat_buf_valid s" "geo (fat_M s) (ramfat_cap (disk s))" "in_table (fat_M s) c" "m_type (fat_M s) = FAT16"
    and b: "ramfat_rd (disk s) (table_sec (fat_M s) (noff FAT16 (unat c))) = Some b" "length b = 512"
  shows "\<exists>s'. write_fats (table_sec (fat_M s) (noff FAT16 (unat c)))
      (s\<lparr>fat_wbuf := wr16 (ucast v) (noff FAT16 (unat c) mod 512) b\<rparr>) = (True, s') \<and> entry_set s c v s'"
proof -
  define k where "k = noff FAT16 (unat c)"
  have "k mod 512 + 1 < 512" by (rule even_sector) (simp add: k_def noff_def)
  note p = pos_iff [OF this] pos_iff [of k 0]
  have kt: "k < 512 * unat (fat_sec (fat_M s))"
    using entry_in_table(2) [OF assms(3,4)] by (simp add: k_def assms(5) ewidth_def)
  show ?thesis
    unfolding k_def [symmetric]
  proof (rule write_fats_sets [OF assms(1-3), where c = c and v = v, unfolded assms(5), folded k_def])
    fix j
    show "j div 512 = k div 512 \<Longrightarrow> wr16 (ucast v) (k mod 512) b ! (j mod 512)
        = set_bytes FAT16 c v (tbyte (fat_M s) (disk s)) j"
      using sector_bytes [OF b(1) [folded k_def], of j] \<open>k mod 512 + 1 < 512\<close> b(2)
      by (simp add: set_bytes_def Let_def k_def [symmetric] wr16_def upd_at [of j k 1, simplified] upd_at_0)
    show "j div 512 \<noteq> k div 512 \<Longrightarrow> set_bytes FAT16 c v (tbyte (fat_M s) (disk s)) j = tbyte (fat_M s) (disk s) j"
      using p [of j] by (simp add: set_bytes_def Let_def k_def [symmetric])
  qed (use kt b in simp_all)
qed

lemma set_entry_32:
  assumes "coherent s" "\<not> fat_buf_valid s" "geo (fat_M s) (ramfat_cap (disk s))" "in_table (fat_M s) c" "m_type (fat_M s) = FAT32"
    and b: "ramfat_rd (disk s) (table_sec (fat_M s) (noff FAT32 (unat c))) = Some b" "length b = 512"
  shows "\<exists>s'. write_fats (table_sec (fat_M s) (noff FAT32 (unat c)))
      (s\<lparr>fat_wbuf := wr32 (merge28 (rd32 b (noff FAT32 (unat c) mod 512)) v) (noff FAT32 (unat c) mod 512) b\<rparr>) = (True, s')
      \<and> entry_set s c v s'"
proof -
  define k where "k = noff FAT32 (unat c)"
  have k3: "k mod 512 + 3 < 512" by (rule quad_sector) (simp add: k_def noff_def)
  have p: "j div 512 = k div 512 \<and> j mod 512 = k mod 512 + i \<longleftrightarrow> j = k + i" if "i \<le> 3" for i j
    using k3 that by (intro pos_iff) simp
  have kt: "k < 512 * unat (fat_sec (fat_M s))"
    using entry_in_table(2) [OF assms(3,4)] by (simp add: k_def assms(5) ewidth_def)
  have sb: "b ! (k mod 512 + i) = tbyte (fat_M s) (disk s) (k + i)" if "i \<le> 3" for i
    using sector_bytes [OF b(1) [folded k_def], of "k + i"] p [OF that, of "k + i"] by simp
  have old: "rd32 b (k mod 512) = ucast (tbyte (fat_M s) (disk s) k) OR push_bit 8 (ucast (tbyte (fat_M s) (disk s) (k + 1)))
      OR push_bit 16 (ucast (tbyte (fat_M s) (disk s) (k + 2))) OR push_bit 24 (ucast (tbyte (fat_M s) (disk s) (k + 3)))"
    using sb [of 0] sb [of 1] sb [of 2] sb [of 3] by (simp add: rd32_def)
  define w where "w = merge28 (rd32 b (k mod 512)) v"
  have set: "set_bytes FAT32 c v (tbyte (fat_M s) (disk s)) = (tbyte (fat_M s) (disk s))(k := ucast w,
      k + 1 := ucast (drop_bit 8 w), k + 2 := ucast (drop_bit 16 w), k + 3 := ucast (drop_bit 24 w))"
    unfolding set_bytes_def Let_def k_def [symmetric] w_def old by simp
  show ?thesis
    unfolding k_def [symmetric] w_def [symmetric]
  proof (rule write_fats_sets [OF assms(1-3), where c = c and v = v, unfolded assms(5), folded k_def])
    fix j
    show "j div 512 = k div 512 \<Longrightarrow> wr32 w (k mod 512) b ! (j mod 512) = set_bytes FAT32 c v (tbyte (fat_M s) (disk s)) j"
      using sector_bytes [OF b(1) [folded k_def], of j] b(2) k3
      unfolding set by (simp add: wr32_def upd_at [of j k 1, simplified] upd_at [of j k 2, simplified] upd_at [of j k 3] upd_at_0)
    show "j div 512 \<noteq> k div 512 \<Longrightarrow> set_bytes FAT32 c v (tbyte (fat_M s) (disk s)) j = tbyte (fat_M s) (disk s) j"
      unfolding set using p [of 0 j] p [of 1 j] p [of 2 j] p [of 3 j] by simp
  qed (use kt b in simp_all)
qed

lemma set_entry_12:
  assumes "coherent s" "\<not> fat_buf_valid s" "geo (fat_M s) (ramfat_cap (disk s))" "in_table (fat_M s) c" "m_type (fat_M s) = FAT12"
    and b: "ramfat_rd (disk s) (table_sec (fat_M s) (noff FAT12 (unat c))) = Some b" "length b = 512"
    and k: "k = noff FAT12 (unat c)" "k mod 512 \<noteq> 511"
  shows "\<exists>s'. write_fats (table_sec (fat_M s) k)
      (s\<lparr>fat_wbuf := b[k mod 512 := lo12 c v (b ! (k mod 512)), k mod 512 + 1 := hi12 c v (b ! (k mod 512 + 1))]\<rparr>) = (True, s')
      \<and> entry_set s c v s'"
proof -
  have k1: "k mod 512 + 1 < 512" using k(2) mod_less_divisor [of 512 k] by linarith
  have p: "j div 512 = k div 512 \<and> j mod 512 = k mod 512 + i \<longleftrightarrow> j = k + i" if "i \<le> 1" for i j
    using k1 that by (intro pos_iff) simp
  have kt: "k < 512 * unat (fat_sec (fat_M s))"
    using entry_in_table(2) [OF assms(3,4)] by (simp add: k assms(5) ewidth_def)
  have sb: "b ! (k mod 512 + i) = tbyte (fat_M s) (disk s) (k + i)" if "i \<le> 1" for i
    using sector_bytes [OF b(1) [folded k(1)], of "k + i"] p [OF that, of "k + i"] by simp
  show ?thesis
  proof (rule write_fats_sets [OF assms(1-3), where c = c and v = v, unfolded assms(5), folded k(1)])
    fix j
    show "j div 512 = k div 512 \<Longrightarrow> b[k mod 512 := lo12 c v (b ! (k mod 512)), k mod 512 + 1 := hi12 c v (b ! (k mod 512 + 1))]
        ! (j mod 512) = set_bytes FAT12 c v (tbyte (fat_M s) (disk s)) j"
      using sector_bytes [OF b(1) [folded k(1)], of j] sb [of 0] sb [of 1] b(2) k1
      by (simp add: set_bytes_def Let_def k(1) [symmetric] upd_at [of j k 1, simplified] upd_at_0)
    show "j div 512 \<noteq> k div 512 \<Longrightarrow> set_bytes FAT12 c v (tbyte (fat_M s) (disk s)) j = tbyte (fat_M s) (disk s) j"
      using p [of 0 j] p [of 1 j] by (simp add: set_bytes_def Let_def k(1) [symmetric])
  qed (use kt b in simp_all)
qed

text \<open>One read-modify-write of a sector of the table.\<close>

lemma wb_rmw:
  assumes "coherent s" "\<not> fat_buf_valid s" "ramfat_rd (disk s) l = Some b" "length (f b) = 512"
  shows "\<exists>s'. io_all [\<lambda>s. wb_read s l, \<lambda>s. wb_write l (wb_upd f s)] s = (True, s') \<and> coherent s' \<and> \<not> fat_buf_valid s'
    \<and> fat_M s' = fat_M s \<and> handles s' = handles s \<and> ramfat_cap (disk s') = ramfat_cap (disk s)
    \<and> (\<forall>k. ramfat_rd (disk s') k = (if k = l then Some (f b) else ramfat_rd (disk s) k))"
proof -
  have ok: "ramfat_ok (disk s)" using assms(1) by (simp add: coherent_def)
  have l: "unat l < ramfat_cap (disk s)" using assms(3) rf.rd_iff [OF ok, of l] by auto
  note r = wb_read_ok [OF assms(1-3)]
  define s1 where "s1 = s\<lparr>fat_wbuf := f b\<rparr>"
  have "coherent s1" using assms(1,2) by (simp add: s1_def coherent_def)
  from write_sec_ok [OF this, of l "f b"] l assms(4) obtain s' where
    w: "write_sec s1 l (f b) = (True, s')" "disk_frame s1 s'" "coherent s'"
      "\<forall>k. ramfat_rd (disk s') k = (if k = l then Some (f b) else ramfat_rd (disk s1) k)"
    by (auto simp: s1_def)
  have "io_all [\<lambda>s. wb_read s l, \<lambda>s. wb_write l (wb_upd f s)] s = (True, s')"
    using w(1) by (simp add: io_then_def r(1) wb_write_def wb_upd_def s1_def)
  then show ?thesis using w(2-4) assms(2) by (auto simp: disk_frame_def s1_def)
qed

lemma io_then_True: "io_then (True, s) f e = f s"
  by (simp add: io_then_def)

lemma io_all_append: "io_all (fs @ gs) s = io_then (io_all fs s) (io_all gs) False"
  by (induction fs arbitrary: s) (auto simp: io_then_def)

lemma set_entry_split:
  assumes co: "coherent s" "\<not> fat_buf_valid s" and g: "geo (fat_M s) (ramfat_cap (disk s))" and c: "in_table (fat_M s) c"
    and t: "m_type (fat_M s) = FAT12" and b: "ramfat_rd (disk s) (table_sec (fat_M s) k) = Some b" "length b = 512"
    and k: "k = noff FAT12 (unat c)" "k mod 512 = 511" and b0: "b0 = b ! 511"
  shows "\<exists>s'. set12_split c v b0 (table_sec (fat_M s) k) (s\<lparr>fat_wbuf := b[511 := lo12 c v b0]\<rparr>) = (True, s') \<and> entry_set s c v s'"
proof -
  let ?m = "fat_M s" and ?l = "table_sec (fat_M s) k"
  have kt: "k + 2 \<le> 512 * unat (fat_sec ?m)"
    using entry_in_table(2) [OF g c] by (simp add: k(1) t ewidth_def)
  have l1: "?l + 1 = table_sec ?m (k + 1)" and m1: "(k + 1) mod 512 = 0" using next_sector [OF k(2), of ?m] by auto
  have lf: "?l + fat_sec ?m = table_sec ?m k + of_nat 1 * fat_sec ?m"
    "?l + fat_sec ?m + 1 = table_sec ?m (k + 1) + of_nat 1 * fat_sec ?m"
    using l1 by (simp_all add: algebra_simps)
  have n2: "2 \<le> unat (num_fats ?m)" using g t by (simp add: geo_def)
  have q: "(k + 1) div 512 = k div 512 + 1" using k(2) by (simp add: div_Suc mod_Suc)
  note sec = table_sec_eq_iff [OF g]
  have in_range: "unat (table_sec ?m j + of_nat i * fat_sec ?m) < ramfat_cap (disk s)" if "j \<le> k + 1" "i < 2" for i j
    using table_sec_in [OF g, of j i] that kt n2 by simp
  have ne: "?l + 1 \<noteq> ?l" "?l + fat_sec ?m \<noteq> ?l" "?l + fat_sec ?m + 1 \<noteq> ?l"
    "?l + fat_sec ?m \<noteq> ?l + 1" "?l + fat_sec ?m + 1 \<noteq> ?l + 1"
  proof -
    have k1: "k < 512 * unat (fat_sec ?m)" "k + 1 < 512 * unat (fat_sec ?m)" "1 < unat (num_fats ?m)" "0 < unat (num_fats ?m)"
      using kt n2 by auto
    have a: "table_sec ?m (k + 1) \<noteq> table_sec ?m k + of_nat 0 * fat_sec ?m"
      "table_sec ?m k \<noteq> table_sec ?m k + of_nat 1 * fat_sec ?m"
      "table_sec ?m k \<noteq> table_sec ?m (k + 1) + of_nat 1 * fat_sec ?m"
      "table_sec ?m (k + 1) \<noteq> table_sec ?m k + of_nat 1 * fat_sec ?m"
      "table_sec ?m (k + 1) \<noteq> table_sec ?m (k + 1) + of_nat 1 * fat_sec ?m"
      unfolding sec [OF k1(2,1,4)] sec [OF k1(1,1,3)] sec [OF k1(1,2,3)] sec [OF k1(2,1,3)] sec [OF k1(2,2,3)] using q by simp_all
    show "?l + 1 \<noteq> ?l" unfolding l1 using a(1) by simp
    show "?l + fat_sec ?m \<noteq> ?l" unfolding lf(1) by (rule not_sym [OF a(2)])
    show "?l + fat_sec ?m + 1 \<noteq> ?l" unfolding lf(2) by (rule not_sym [OF a(3)])
    show "?l + fat_sec ?m \<noteq> ?l + 1" unfolding lf(1) l1 by (rule not_sym [OF a(4)])
    show "?l + fat_sec ?m + 1 \<noteq> ?l + 1" unfolding lf(2) l1 by (rule not_sym [OF a(5)])
  qed
  have ok: "ramfat_ok (disk s)" using co(1) by (simp add: coherent_def)
  obtain b1 where b1: "ramfat_rd (disk s) (?l + 1) = Some b1" "length b1 = 512"
    using rf.rd_some [OF ok, of "?l + 1"] in_range [of "k + 1" 0] by (auto simp: l1)
  obtain c0 where c0: "ramfat_rd (disk s) (?l + fat_sec ?m) = Some c0" "length c0 = 512"
    using rf.rd_some [OF ok, of "?l + fat_sec ?m"] in_range [of k 1] unfolding lf(1) by auto
  obtain c1 where c1: "ramfat_rd (disk s) (?l + fat_sec ?m + 1) = Some c1" "length c1 = 512"
    using rf.rd_some [OF ok, of "?l + fat_sec ?m + 1"] in_range [of "k + 1" 1] unfolding lf(2) by auto
  define s0 where "s0 = s\<lparr>fat_wbuf := b[511 := lo12 c v b0]\<rparr>"
  have s0: "coherent s0" "\<not> fat_buf_valid s0" "disk s0 = disk s" "fat_M s0 = ?m" "handles s0 = handles s"
    "fat_wbuf s0 = b[511 := lo12 c v b0]"
    using co by (simp_all add: s0_def coherent_def)
  obtain s1 where s1: "wb_write ?l s0 = (True, s1)" "disk_frame s0 s1" "coherent s1"
    "\<forall>k. ramfat_rd (disk s1) k = (if k = ?l then Some (b[511 := lo12 c v b0]) else ramfat_rd (disk s) k)"
    using write_sec_ok [OF s0(1), of ?l "fat_wbuf s0"] in_range [of k 0] b(2) by (auto simp: wb_write_def s0)
  have f1: "\<not> fat_buf_valid s1" "fat_M s1 = ?m" "handles s1 = handles s" "ramfat_cap (disk s1) = ramfat_cap (disk s)"
    using s1(2) s0 by (auto simp: disk_frame_def)
  define h where "h = (\<lambda>b. b[0 := hi12 c v (b ! 0)])"
  define lo where "lo = (\<lambda>b. b[511 := lo12 c v b0])"
  obtain s2 where s2: "io_all [\<lambda>s. wb_read s (?l + 1), \<lambda>s. wb_write (?l + 1) (wb_upd h s)] s1 = (True, s2)" "coherent s2"
    "\<not> fat_buf_valid s2" "fat_M s2 = ?m" "handles s2 = handles s" "ramfat_cap (disk s2) = ramfat_cap (disk s)"
    "\<forall>k. ramfat_rd (disk s2) k = (if k = ?l + 1 then Some (h b1) else ramfat_rd (disk s1) k)"
    using wb_rmw [OF s1(3) f1(1), of "?l + 1" b1 h] s1(4) b1 ne f1 by (auto simp: h_def)
  obtain s3 where s3: "io_all [\<lambda>s. wb_read s (?l + fat_sec ?m), \<lambda>s. wb_write (?l + fat_sec ?m) (wb_upd lo s)] s2 = (True, s3)"
    "coherent s3" "\<not> fat_buf_valid s3" "fat_M s3 = ?m" "handles s3 = handles s" "ramfat_cap (disk s3) = ramfat_cap (disk s)"
    "\<forall>k. ramfat_rd (disk s3) k = (if k = ?l + fat_sec ?m then Some (lo c0) else ramfat_rd (disk s2) k)"
    using wb_rmw [OF s2(2,3), of "?l + fat_sec ?m" c0 lo] s2 s1(4) c0 ne by (auto simp: lo_def)
  obtain s4 where s4: "io_all [\<lambda>s. wb_read s (?l + fat_sec ?m + 1), \<lambda>s. wb_write (?l + fat_sec ?m + 1) (wb_upd h s)] s3 = (True, s4)"
    "coherent s4" "\<not> fat_buf_valid s4" "fat_M s4 = ?m" "handles s4 = handles s" "ramfat_cap (disk s4) = ramfat_cap (disk s)"
    "\<forall>k. ramfat_rd (disk s4) k = (if k = ?l + fat_sec ?m + 1 then Some (h c1) else ramfat_rd (disk s3) k)"
    using wb_rmw [OF s3(2,3), of "?l + fat_sec ?m + 1" c1 h] s3 s2 s1(4) c1 ne by (auto simp: h_def)
  have "set12_split c v b0 ?l s0 = io_all ([wb_write ?l] @ [\<lambda>s. wb_read s (?l + 1), \<lambda>s. wb_write (?l + 1) (wb_upd h s)]
      @ [\<lambda>s. wb_read s (?l + fat_sec ?m), \<lambda>s. wb_write (?l + fat_sec ?m) (wb_upd lo s)]
      @ [\<lambda>s. wb_read s (?l + fat_sec ?m + 1), \<lambda>s. wb_write (?l + fat_sec ?m + 1) (wb_upd h s)]) s0"
    by (simp only: set12_split_def Let_def s0(4) h_def lo_def append.simps)
  also have "\<dots> = (True, s4)"
  proof -
    have "io_all [wb_write ?l] s0 = (True, s1)" using s1(1) by (simp add: io_then_True)
    then show ?thesis by (simp only: io_all_append s2(1) s3(1) s4(1) io_then_True)
  qed
  finally have run: "set12_split c v b0 ?l s0 = (True, s4)" .
  have rd: "ramfat_rd (disk s4) x = (if x = ?l + fat_sec ?m + 1 then Some (h c1) else if x = ?l + fat_sec ?m then Some (lo c0)
      else if x = ?l + 1 then Some (h b1) else if x = ?l then Some (lo b) else ramfat_rd (disk s) x)" for x
    using s4(7) s3(7) s2(7) s1(4) by (simp add: lo_def)
  have tb: "tbyte ?m (disk s4) j = set_bytes FAT12 c v (tbyte ?m (disk s)) j" if j: "j < 512 * unat (fat_sec ?m)" for j
  proof -
    have far: "table_sec ?m j \<noteq> ?l + fat_sec ?m" "table_sec ?m j \<noteq> ?l + fat_sec ?m + 1"
      unfolding lf(2) unfolding lf(1) using sec [OF j, of k 1] sec [OF j, of "k + 1" 1] kt n2 by auto
    have near: "table_sec ?m j = ?l \<longleftrightarrow> j div 512 = k div 512" "table_sec ?m j = ?l + 1 \<longleftrightarrow> j div 512 = (k + 1) div 512"
      unfolding l1 using sec [OF j, of k 0] sec [OF j, of "k + 1" 0] kt n2 by auto
    have set: "set_bytes FAT12 c v (tbyte ?m (disk s)) = (tbyte ?m (disk s))(k := lo12 c v (tbyte ?m (disk s) k),
        k + 1 := hi12 c v (tbyte ?m (disk s) (k + 1)))"
      by (simp add: set_bytes_def k(1) [symmetric] Let_def)
    have bk: "b0 = tbyte ?m (disk s) k" using sector_bytes [OF b(1), of k] k(2) b0 by simp
    have bk1: "b1 ! 0 = tbyte ?m (disk s) (k + 1)" using tbyte_read [of "disk s" ?m "k + 1" b1] b1(1) l1 m1 by simp
    consider "j div 512 = k div 512" | "j div 512 = (k + 1) div 512" | "j div 512 \<noteq> k div 512" "j div 512 \<noteq> (k + 1) div 512" by blast
    then show ?thesis
    proof cases
      case 1
      then have "tbyte ?m (disk s4) j = lo b ! (j mod 512)" using rd [of "table_sec ?m j"] far near q by (simp add: tbyte_def)
      also have "\<dots> = (if j = k then lo12 c v b0 else tbyte ?m (disk s) j)"
        using upd_at_0 [OF 1 b(2), of "lo12 c v b0"] sector_bytes [OF b(1) 1] by (simp add: lo_def k(2))
      finally show ?thesis using 1 q by (auto simp: set bk)
    next
      case 2
      then have "tbyte ?m (disk s4) j = h b1 ! (j mod 512)" using rd [of "table_sec ?m j"] far near q by (simp add: tbyte_def)
      also have "\<dots> = (if j = k + 1 then hi12 c v (b1 ! 0) else tbyte ?m (disk s) j)"
        using upd_at_0 [OF 2 b1(2), of "hi12 c v (b1 ! 0)"] sector_bytes [of "disk s" ?m "k + 1" b1 j] 2 b1(1) l1 m1
        by (simp add: h_def)
      finally show ?thesis using 2 q by (auto simp: set bk1)
    next
      case 3
      then show ?thesis using rd [of "table_sec ?m j"] far near by (auto simp: tbyte_def set)
    qed
  qed
  have out: "ramfat_rd (disk s4) x = ramfat_rd (disk s) x" if x: "outside_tables ?m x" for x
  proof -
    have "x \<noteq> table_sec ?m k + of_nat 0 * fat_sec ?m" "x \<noteq> table_sec ?m (k + 1) + of_nat 0 * fat_sec ?m"
      "x \<noteq> table_sec ?m k + of_nat 1 * fat_sec ?m" "x \<noteq> table_sec ?m (k + 1) + of_nat 1 * fat_sec ?m"
      by (rule tables_outside [OF g _ _ x]; use kt n2 in linarith)+
    then show ?thesis unfolding rd unfolding lf(2) unfolding lf(1) l1 by simp
  qed
  show ?thesis
    using run s4(2-6) tb out unfolding s0_def [symmetric] entry_set_def by (auto simp: t)
qed

lemma set_entry_ok:
  assumes co: "coherent s" and g: "geo (fat_M s) (ramfat_cap (disk s))" and c: "in_table (fat_M s) c"
  shows "\<exists>s'. fat_set_entry s c v = (True, s') \<and> entry_set s c v s'"
proof -
  let ?m = "fat_M s" and ?t = "m_type (fat_M s)"
  define s0 where "s0 = s\<lparr>fat_buf_valid := False\<rparr>"
  have s0: "coherent s0" "\<not> fat_buf_valid s0" "fat_M s0 = ?m" "disk s0 = disk s" "handles s0 = handles s"
    using co by (simp_all add: s0_def coherent_def)
  have same: "entry_set s0 c v = entry_set s c v" by (rule ext) (simp add: entry_set_def s0)
  define k where "k = noff ?t (unat c)"
  have lba: "rsvd_sec ?m + entry_off ?t c div 512 = table_sec ?m k" "unat (entry_off ?t c AND 511) = k mod 512"
    using entry_pos [OF g c] by (simp_all add: k_def)
  have "k + ewidth ?t \<le> 512 * unat (fat_sec ?m)" "2 \<le> ewidth ?t"
    using entry_in_table(2) [OF g c] by (simp_all add: k_def ewidth_def)
  then have l0: "unat (table_sec ?m k) < ramfat_cap (disk s)" using table_sec_lt [OF g, of k] by simp
  obtain b where b: "ramfat_rd (disk s0) (table_sec ?m k) = Some b" "length b = 512"
    using rf.rd_some [of "disk s" "table_sec ?m k"] l0 co by (auto simp: coherent_def s0)
  note r = wb_read_ok(1) [OF s0(1,2) b(1)]
  have g0: "geo (fat_M s0) (ramfat_cap (disk s0))" "in_table (fat_M s0) c" using g c by (simp_all add: s0)
  have type: "?t = FAT12 \<or> ?t = FAT16 \<or> ?t = FAT32" using g by (auto simp: geo_def)
  have eqn: "fat_set_entry s c v = (case ?t of
       FAT16 \<Rightarrow> write_fats (table_sec ?m k) (s0\<lparr>fat_wbuf := wr16 (ucast v) (k mod 512) b\<rparr>)
     | FAT32 \<Rightarrow> write_fats (table_sec ?m k) (s0\<lparr>fat_wbuf := wr32 (merge28 (rd32 b (k mod 512)) v) (k mod 512) b\<rparr>)
     | _ \<Rightarrow> if k mod 512 = 511 then set12_split c v (b ! (k mod 512)) (table_sec ?m k)
                 (s0\<lparr>fat_wbuf := b[k mod 512 := lo12 c v (b ! (k mod 512))]\<rparr>)
           else write_fats (table_sec ?m k) (s0\<lparr>fat_wbuf := b[k mod 512 := lo12 c v (b ! (k mod 512)),
                  k mod 512 + 1 := hi12 c v (b ! (k mod 512 + 1))]\<rparr>))"
    unfolding fat_set_entry_def Let_def s0_def [symmetric] s0(3) lba
    by (cases ?t) (simp_all add: r io_then_True wb_upd_def merge28_def)
  consider (f16) "?t = FAT16" | (f32) "?t = FAT32" | (split) "?t = FAT12" "k mod 512 = 511" | (f12) "?t = FAT12" "k mod 512 \<noteq> 511"
    using type by blast
  then show ?thesis
  proof cases
    case f16
    then show ?thesis using set_entry_16 [OF s0(1,2) g0, of b v] b unfolding eqn by (simp add: s0 k_def same)
  next
    case f32
    then show ?thesis using set_entry_32 [OF s0(1,2) g0, of b v] b unfolding eqn by (simp add: s0 k_def same)
  next
    case split
    have k: "k = noff FAT12 (unat c)" using split by (simp add: k_def)
    from set_entry_split [OF s0(1,2) g0 _ _ b(2) k split(2) refl, of v] b(1) split
    show ?thesis unfolding eqn by (simp add: s0 same)
  next
    case f12
    have k: "k = noff FAT12 (unat c)" using f12 by (simp add: k_def)
    from set_entry_12 [OF s0(1,2) g0 _ _ b(2) k f12(2), of v] b(1) f12
    show ?thesis unfolding eqn by (simp add: s0 same k [symmetric])
  qed
qed


section \<open>Reading back an entry\<close>

text \<open>What \<open>fat_next_clus\<close> makes of a value written.\<close>

definition next_val :: "fat_type \<Rightarrow> u32 \<Rightarrow> u32" where
  "next_val t v =
     (case t of FAT16 \<Rightarrow> next16 (ucast v) | FAT32 \<Rightarrow> next32 v
      | _ \<Rightarrow> if 0xFF8 \<le> v AND 0xFFF then FAT_END else v AND 0xFFF)"

lemma and_1_odd: "(c :: u32) AND 1 \<noteq> 0 \<longleftrightarrow> odd (unat c)"
proof -
  have "unat (c AND 1) = unat c mod 2" using unat_and_mask [of c 1] by (simp add: mask_eq_exp_minus_1)
  then show ?thesis by (metis even_iff_mod_2_eq_zero unat_eq_0)
qed

lemma masks12: "(0x0F :: u8) = mask 4" "(0xF0 :: u8) = push_bit 4 (mask 4)" "(0x0F :: u32) = mask 4" "(0xFF :: u32) = mask 8"
  "(0xFFF :: u32) = mask 12"
  by (simp_all add: mask_eq_exp_minus_1)

lemma next12_same: "next12 c (lo12 c v b0) (hi12 c v b1) = next_val FAT12 v"
proof -
  have o: "(drop_bit 4 (ucast ((b0 AND 0x0F) OR ucast (push_bit 4 (v AND 0x0F)) :: u8)) OR push_bit 4 (ucast (ucast (drop_bit 4 v AND 0xFF) :: u8))) AND 0xFFF
      = v AND 0xFFF"
    unfolding masks12
    by (rule bit_word_eqI) (auto simp: bit_simps not_less dest!: le_Suc_ex, metis le_add_diff_inverse not_less)
  have e: "(ucast (ucast (v AND 0xFF) :: u8) OR push_bit 8 (ucast ((b1 AND 0xF0) OR ucast (drop_bit 8 v AND 0x0F) :: u8))) AND 0xFFF = v AND 0xFFF"
    unfolding masks12 by (rule bit_word_eqI) (auto simp: bit_simps not_less dest!: le_Suc_ex)
  have "next12 c (lo12 c v b0) (hi12 c v b1) = (if 0xFF8 \<le> v AND 0xFFF then FAT_END else v AND 0xFFF)"
    unfolding next12_def lo12_def hi12_def Let_def
    by (cases "c AND 1 = 0") (simp_all only: o e simp_thms if_True if_False)
  then show ?thesis by (simp add: next_val_def)
qed

text \<open>The neighbours share a byte with the entry, and keep their half of it.\<close>

lemma next12_after: "even (unat c) \<Longrightarrow> odd (unat c') \<Longrightarrow> next12 c' (hi12 c v b1) b2 = next12 c' b1 b2"
proof -
  assume c: "even (unat c)" "odd (unat c')"
  have "drop_bit 4 (ucast ((b1 AND 0xF0) OR ucast (drop_bit 8 v AND 0x0F) :: u8)) = drop_bit 4 (ucast b1 :: u32)"
    unfolding masks12 by (rule bit_word_eqI) (auto simp: bit_simps not_less dest: bit_imp_le_length)
  then show ?thesis using c and_1_odd [of c] and_1_odd [of c'] by (simp add: next12_def hi12_def Let_def)
qed

lemma next12_before: "odd (unat c) \<Longrightarrow> even (unat c') \<Longrightarrow> next12 c' b0 (lo12 c v b1) = next12 c' b0 b1"
proof -
  assume c: "odd (unat c)" "even (unat c')"
  have "(ucast b0 OR push_bit 8 (ucast ((b1 AND 0x0F) OR ucast (push_bit 4 (v AND 0x0F)) :: u8))) AND 0xFFF
      = (ucast b0 OR push_bit 8 (ucast b1)) AND (0xFFF :: u32)"
    unfolding masks12 by (rule bit_word_eqI) (auto simp: bit_simps not_less dest!: le_Suc_ex)
  then show ?thesis using c and_1_odd [of c] and_1_odd [of c'] by (simp add: next12_def lo12_def Let_def)
qed

lemma entry12_set:
  "entry_of FAT12 (set_bytes FAT12 c v f) c' = (if c' = c then next_val FAT12 v else entry_of FAT12 f c')"
proof -
  define k k' where "k = unat c + unat c div 2" and "k' = unat c' + unat c' div 2"
  have kk: "noff FAT12 (unat c) = k" "noff FAT12 (unat c') = k'" by (simp_all add: noff_def k_def k'_def)
  consider (same) "c' = c" | (after) "even (unat c)" "odd (unat c')" "k' = k + 1"
    | (before) "odd (unat c)" "even (unat c')" "k = k' + 1" | (apart) "c' \<noteq> c" "k' + 1 < k \<or> k + 1 < k'"
  proof -
    have ne: "c' \<noteq> c \<longleftrightarrow> unat c' \<noteq> unat c" by (simp add: word_unat_eq_iff)
    have "unat c' = unat c \<or> even (unat c) \<and> odd (unat c') \<and> k' = k + 1 \<or> odd (unat c) \<and> even (unat c') \<and> k = k' + 1
        \<or> unat c' \<noteq> unat c \<and> (k' + 1 < k \<or> k + 1 < k')"
    proof -
      obtain i r where c: "unat c = 2 * i + r" "r < 2" by (metis mult_div_mod_eq mod_less_divisor zero_less_numeral)
      obtain i' r' where c': "unat c' = 2 * i' + r'" "r' < 2" by (metis mult_div_mod_eq mod_less_divisor zero_less_numeral)
      have k: "k = 3 * i + r" "k' = 3 * i' + r'" unfolding k_def k'_def c(1) c'(1) using c(2) c'(2) by simp_all
      have "r = 0 \<or> r = 1" "r' = 0 \<or> r' = 1" using c(2) c'(2) by auto
      then show ?thesis
        unfolding k c(1) c'(1) using linorder_less_linear [of i i'] by (elim disjE) simp_all
    qed
    then show thesis using that ne by blast
  qed
  then show ?thesis
  proof cases
    case same
    then show ?thesis by (simp add: entry_of_def set_bytes_def Let_def next12_same)
  next
    case after
    then have "c' \<noteq> c" by auto
    then show ?thesis
      unfolding entry_of_def set_bytes_def Let_def kk using after by (simp add: next12_after)
  next
    case before
    then have "c' \<noteq> c" by auto
    then show ?thesis
      unfolding entry_of_def set_bytes_def Let_def kk using before by (simp add: next12_before)
  next
    case apart
    then show ?thesis
      unfolding entry_of_def set_bytes_def Let_def kk by (elim disjE) simp_all
  qed
qed

lemma next32_merge: "next32 (merge28 old v) = next32 v"
proof -
  have m: "(0x0FFFFFFF :: u32) = mask 28" "(0xF0000000 :: u32) = push_bit 28 (mask 4)" by (simp_all add: mask_eq_exp_minus_1)
  have "merge28 old v AND 0x0FFFFFFF = v AND 0x0FFFFFFF"
    unfolding merge28_def m by (rule bit_word_eqI) (auto simp: bit_simps)
  then show ?thesis by (simp add: next32_def)
qed

lemma entry_set_get:
  "t \<noteq> FAT_NONE \<Longrightarrow> entry_of t (set_bytes t c v f) c' = (if c' = c then next_val t v else entry_of t f c')"
proof -
  assume t: "t \<noteq> FAT_NONE"
  have ne: "c' \<noteq> c \<longleftrightarrow> unat c' \<noteq> unat c" by (simp add: word_unat_eq_iff)
  show ?thesis
  proof (cases t)
    case FAT16
    have "2 * unat c' + 1 < 2 * unat c \<or> 2 * unat c + 1 < 2 * unat c'" if "c' \<noteq> c" using that ne by linarith
    then show ?thesis
      unfolding FAT16 by (auto simp: entry_of_def set_bytes_def Let_def noff_def next_val_def le16_join)
  next
    case FAT32
    have "4 * unat c' + 3 < 4 * unat c \<or> 4 * unat c + 3 < 4 * unat c'" if "c' \<noteq> c" using that ne by linarith
    then show ?thesis
      unfolding FAT32 by (auto simp: entry_of_def set_bytes_def Let_def noff_def next_val_def le32_join next32_merge)
  qed (use t entry12_set in auto)
qed


section \<open>The table as an abstract map\<close>

definition fat_ok :: "fat \<Rightarrow> bool" where
  "fat_ok s \<longleftrightarrow> coherent s \<and> geo (fat_M s) (ramfat_cap (disk s))"

definition fat_table :: "fat \<Rightarrow> u32 \<Rightarrow> u32" where
  "fat_table s c = entry_of (m_type (fat_M s)) (tbyte (fat_M s) (disk s)) c"

text \<open>Same volume, and the same sectors outside the tables.\<close>

definition same_data :: "fat \<Rightarrow> fat \<Rightarrow> bool" where
  "same_data s s' \<longleftrightarrow> fat_M s' = fat_M s \<and> handles s' = handles s \<and> ramfat_cap (disk s') = ramfat_cap (disk s)
     \<and> (\<forall>l. outside_tables (fat_M s) l \<longrightarrow> ramfat_rd (disk s') l = ramfat_rd (disk s) l)"

lemma same_data_refl [simp]: "same_data s s"
  by (simp add: same_data_def)

lemma same_data_trans: "same_data s s' \<Longrightarrow> same_data s' s'' \<Longrightarrow> same_data s s''"
  by (simp add: same_data_def)

lemma buf_frame_same: "buf_frame s s' \<Longrightarrow> same_data s s' \<and> fat_table s' = fat_table s"
  by (auto simp: same_data_def fat_table_def buf_frame_simps fun_eq_iff)

lemma next_clus_table:
  assumes "fat_ok s" "in_table (fat_M s) c"
  obtains s' where "fat_next_clus s c = (fat_table s c, s')" "fat_ok s'" "fat_table s' = fat_table s" "same_data s s'"
    "disk s' = disk s" "fat_M s' = fat_M s"
proof -
  obtain s' where n: "fat_next_clus s c = (fat_table s c, s')" and f: "buf_frame s s'" and co: "coherent s'"
    using next_clus_ok [of s c] assms by (auto simp: fat_ok_def fat_table_def)
  have "fat_ok s'" using assms(1) f co by (simp add: fat_ok_def buf_frame_simps)
  then show thesis
    using that [OF n] buf_frame_same [OF f] f by (simp add: buf_frame_simps)
qed

lemma entry_of_cong:
  assumes "\<And>j. j < 512 * unat (fat_sec m) \<Longrightarrow> f j = g j" "geo m cap" "in_table m c"
  shows "entry_of (m_type m) f c = entry_of (m_type m) g c"
proof -
  define k where "k = noff (m_type m) (unat c)"
  have k: "k + ewidth (m_type m) \<le> 512 * unat (fat_sec m)" using entry_in_table(2) [OF assms(2,3)] by (simp add: k_def)
  have w: "2 \<le> ewidth (m_type m)" by (simp add: ewidth_def)
  have "f k = g k" by (rule assms(1)) (use k w in linarith)
  moreover have "f (k + 1) = g (k + 1)" by (rule assms(1)) (use k w in linarith)
  moreover have "f (k + 2) = g (k + 2)" "f (k + 3) = g (k + 3)" if "m_type m = FAT32"
  proof -
    have w: "ewidth (m_type m) = 4" using that by (simp add: ewidth_def)
    show "f (k + 2) = g (k + 2)" by (rule assms(1)) (use k w in linarith)
    show "f (k + 3) = g (k + 3)" by (rule assms(1)) (use k w in linarith)
  qed
  ultimately show ?thesis
    unfolding entry_of_def Let_def k_def [symmetric] by (cases "m_type m") simp_all
qed

lemma set_entry_table:
  assumes "fat_ok s" "in_table (fat_M s) c"
  obtains s' where "fat_set_entry s c v = (True, s')" "fat_ok s'" "same_data s s'" "\<not> fat_buf_valid s'"
    "\<And>x. in_table (fat_M s) x \<Longrightarrow> fat_table s' x = (if x = c then next_val (m_type (fat_M s)) v else fat_table s x)"
proof -
  have g: "coherent s" "geo (fat_M s) (ramfat_cap (disk s))" using assms(1) by (simp_all add: fat_ok_def)
  obtain s' where w: "fat_set_entry s c v = (True, s')" and e: "entry_set s c v s'"
    using set_entry_ok [OF g assms(2)] by blast
  have t: "m_type (fat_M s) \<noteq> FAT_NONE" using g(2) by (auto simp: geo_def)
  have tab: "fat_table s' x = (if x = c then next_val (m_type (fat_M s)) v else fat_table s x)" if "in_table (fat_M s) x" for x
  proof -
    have "fat_table s' x = entry_of (m_type (fat_M s)) (set_bytes (m_type (fat_M s)) c v (tbyte (fat_M s) (disk s))) x"
    proof -
      have m: "fat_M s' = fat_M s" using e by (simp add: entry_set_def)
      have b: "tbyte (fat_M s) (disk s') j = set_bytes (m_type (fat_M s)) c v (tbyte (fat_M s) (disk s)) j"
        if "j < 512 * unat (fat_sec (fat_M s))" for j
        using e that by (simp add: entry_set_def)
      show ?thesis unfolding fat_table_def m by (rule entry_of_cong [OF b g(2) that])
    qed
    then show ?thesis unfolding fat_table_def by (simp only: entry_set_get [OF t])
  qed
  have "same_data s s'" "\<not> fat_buf_valid s'" "fat_ok s'"
    using e g(2) unfolding entry_set_def same_data_def fat_ok_def by simp_all
  with that [OF w] tab show thesis by blast
qed

text \<open>
  C14: The allocation table stores what is written. On a sound volume of any of the three formats, writing
  an entry succeeds; afterwards reading any entry gives the value written, or the old value for every
  other cluster, although 12-bit entries share bytes with their neighbours and may cross a sector
  boundary. The caches stay coherent, and no sector outside the tables changes.
\<close>

theorem fat_set_next:
  assumes "fat_ok s" "in_table (fat_M s) c" "in_table (fat_M s) c'"
  shows "\<exists>s'. fat_set_entry s c v = (True, s') \<and> fat_ok s'
     \<and> fst (fat_next_clus s' c') = (if c' = c then next_val (m_type (fat_M s)) v else fst (fat_next_clus s c'))
     \<and> (\<forall>l. outside_tables (fat_M s) l \<longrightarrow> fst (blk_read (disk s') l 1) = fst (blk_read (disk s) l 1))"
proof -
  obtain s' where s': "fat_set_entry s c v = (True, s')" "fat_ok s'" "same_data s s'"
    "\<And>x. in_table (fat_M s) x \<Longrightarrow> fat_table s' x = (if x = c then next_val (m_type (fat_M s)) v else fat_table s x)"
    by (rule set_entry_table [OF assms(1,2), of v]) (rule that)
  have "in_table (fat_M s') c'" using s'(3) assms(3) by (simp add: same_data_def)
  then obtain s2 where "fat_next_clus s' c' = (fat_table s' c', s2)" by (rule next_clus_table [OF s'(2)])
  moreover obtain s3 where "fat_next_clus s c' = (fat_table s c', s3)" by (rule next_clus_table [OF assms(1,3)])
  ultimately show ?thesis
    using s' assms(3) by (auto simp: same_data_def ramfat_rd_def)
qed

text \<open>A small FAT12 volume: one reserved sector, two tables of one sector, four clusters, all free.\<close>

definition demo_fat :: fat where
  "demo_fat = \<lparr>fat_M = \<lparr>m_valid = True, m_type = FAT12, bytes_per_sec = 512, sec_per_clus = 1, rsvd_sec = 1, num_fats = 2,
       root_ent_count = 16, total_sec = 8, fat_sec = 1, root_clus = 0, first_data_sec = 4, first_root_sec = 3, cluster_count = 4\<rparr>,
     sec_buf = replicate 512 0, sec_buf_lba = 0, sec_buf_valid = False, fat_wbuf = replicate 512 0, fat_buf_lba = 0,
     fat_buf_valid = False, handles = [],
     disk = \<lparr>ramfat_img = replicate 4096 0, ramfat_rw = replicate 4096 0, initialized = True\<rparr>\<rparr>"

lemma demo_fat_ok: "fat_ok demo_fat"
  by (simp add: fat_ok_def demo_fat_def coherent_def ramfat_ok_def geo_def ramfat_cap_def SECTOR_SIZE_def noff_def ewidth_def)

lemma demo_in_table: "in_table (fat_M demo_fat) 2" "in_table (fat_M demo_fat) 3"
  by (simp_all add: in_table_def demo_fat_def)

lemma fat_set_next_witness:
  "\<exists>s'. fat_set_entry demo_fat 2 3 = (True, s') \<and> fst (fat_next_clus s' 2) = 3"
proof -
  have "next_val (m_type (fat_M demo_fat)) 3 = 3" by (simp add: demo_fat_def next_val_def)
  then show ?thesis using fat_set_next [OF demo_fat_ok demo_in_table(1,1), of 3] by auto
qed

section \<open>Allocation and release\<close>

definition data_range :: "fat_mount \<Rightarrow> u32 set" where
  "data_range m = {c. 2 \<le> c \<and> c < cluster_count m + 2}"

lemma geo_count: "geo m cap \<Longrightarrow> unat (cluster_count m + 2) = unat (cluster_count m) + 2"
proof -
  assume g: "geo m cap"
  have "unat (cluster_count m) + 1 \<le> noff (m_type m) (unat (cluster_count m) + 1)" by (rule noff_ge)
  also have "\<dots> \<le> 512 * unat (fat_sec m)" using g by (simp add: geo_def)
  also have "\<dots> \<le> 512 * cap" using geo_fat_sec [OF g] by simp
  also have "512 * cap < 2 ^ 31" using g by (simp add: geo_def)
  finally show ?thesis by (simp add: unat_word_ariths)
qed

lemma data_in_table: "geo m cap \<Longrightarrow> c \<in> data_range m \<Longrightarrow> in_table m c"
  using geo_count by (auto simp: data_range_def in_table_def word_less_nat_alt)

lemma fat_ok_data: "fat_ok s \<Longrightarrow> c \<in> data_range (fat_M s) \<Longrightarrow> in_table (fat_M s) c"
  using data_in_table by (auto simp: fat_ok_def)

lemma data_clusters_set: "set (data_clusters s) = data_range (fat_M s)"
proof -
  have "of_nat n \<in> data_range (fat_M s)" if "2 \<le> n" "n < unat (cluster_count (fat_M s) + 2)" for n
  proof -
    have "n < 2 ^ 32" using that(2) unsigned_less [of "cluster_count (fat_M s) + 2", where ?'a = nat] by simp
    then show ?thesis using that by (simp add: data_range_def word_le_nat_alt word_less_nat_alt unat_of_nat_small)
  qed
  moreover have "\<exists>n. c = of_nat n \<and> 2 \<le> n \<and> n < unat (cluster_count (fat_M s) + 2)" if "c \<in> data_range (fat_M s)" for c
    using that by (intro exI [of _ "unat c"]) (simp add: data_range_def word_le_nat_alt word_less_nat_alt)
  ultimately show ?thesis by (fastforce simp: data_clusters_def)
qed

lemma data_clusters_sorted: "sorted_wrt (<) (data_clusters s)"
proof -
  have "sorted_wrt (\<lambda>a b. (of_nat a :: u32) < of_nat b) [2 ..< unat (cluster_count (fat_M s) + 2)]"
  proof (rule sorted_wrt_mono_rel [of _ "(<)"])
    fix a b assume ab: "a \<in> set [2 ..< unat (cluster_count (fat_M s) + 2)]" "b \<in> set [2 ..< unat (cluster_count (fat_M s) + 2)]" "a < b"
    have "unat (cluster_count (fat_M s) + 2) < 2 ^ 32" using unsigned_less [of "cluster_count (fat_M s) + 2", where ?'a = nat] by simp
    then show "(of_nat a :: u32) < of_nat b" using ab by (simp add: word_less_nat_alt unat_of_nat_small)
  qed simp
  then show ?thesis by (simp add: data_clusters_def sorted_wrt_map)
qed

lemma next_fst: "fat_ok s \<Longrightarrow> in_table (fat_M s) c \<Longrightarrow> fst (fat_next_clus s c) = fat_table s c"
  by (erule (1) next_clus_table) simp

lemma zero_not_data [simp]: "0 \<notin> data_range m" "FAT_END \<notin> data_range m \<or> \<not> geo m cap"
proof -
  show "0 \<notin> data_range m" by (simp add: data_range_def)
  have "unat FAT_END = 2 ^ 32 - 1" by (simp add: FAT_END_def)
  then show "FAT_END \<notin> data_range m \<or> \<not> geo m cap"
    using geo_count [of m cap] unsigned_less [of "cluster_count m + 2", where ?'a = nat] data_in_table [of m cap FAT_END]
    by (auto simp: in_table_def)
qed

lemma next_val_eoc: "t \<noteq> FAT_NONE \<Longrightarrow> next_val t (fat_eoc t) = FAT_END"
  by (cases t) (simp_all add: next_val_def fat_eoc_def next16_def next32_def)

lemma next_val_0: "next_val t 0 = 0"
  by (cases t) (simp_all add: next_val_def next16_def next32_def)

lemma fat_ok_type: "fat_ok s \<Longrightarrow> m_type (fat_M s) \<noteq> FAT_NONE"
  by (auto simp: fat_ok_def geo_def)

lemma alloc_loop_ok:
  assumes "fat_ok s" "set cs \<subseteq> data_range (fat_M s)"
  shows "\<exists>s'. alloc_loop cs s = ((case find (\<lambda>x. fat_table s x = 0) cs of None \<Rightarrow> 0 | Some x \<Rightarrow> x), s') \<and> fat_ok s' \<and> same_data s s'
    \<and> (\<forall>y. in_table (fat_M s) y \<longrightarrow> fat_table s' y
         = (if find (\<lambda>x. fat_table s x = 0) cs = Some y then FAT_END else fat_table s y))"
  using assms
proof (induction cs arbitrary: s)
  case (Cons c cs)
  have c: "in_table (fat_M s) c" using Cons.prems by (intro fat_ok_data) auto
  obtain s1 where s1: "fat_next_clus s c = (fat_table s c, s1)" "fat_ok s1" "fat_table s1 = fat_table s" "same_data s s1"
    by (rule next_clus_table [OF Cons.prems(1) c]) (rule that)
  have M: "fat_M s1 = fat_M s" using s1(4) by (simp add: same_data_def)
  show ?case
  proof (cases "fat_table s c = 0")
    case True
    obtain s2 where s2: "fat_set_entry s1 c (fat_eoc (m_type (fat_M s1))) = (True, s2)" "fat_ok s2" "same_data s1 s2"
      "\<And>x. in_table (fat_M s1) x \<Longrightarrow> fat_table s2 x
          = (if x = c then next_val (m_type (fat_M s1)) (fat_eoc (m_type (fat_M s1))) else fat_table s1 x)"
      by (rule set_entry_table [OF s1(2), of c "fat_eoc (m_type (fat_M s1))"]) (use c M in \<open>auto intro: that\<close>)
    have "alloc_loop (c # cs) s = (c, s2)" using True s1(1) s2(1) by (simp add: io_then_def)
    then show ?thesis
      using True s2 same_data_trans [OF s1(4) s2(3)] M s1(3) next_val_eoc [OF fat_ok_type [OF s1(2)]] by auto
  next
    case False
    have "alloc_loop (c # cs) s = alloc_loop cs s1" using False s1(1) by simp
    then show ?thesis
      using Cons.IH [OF s1(2)] Cons.prems(2) False M s1(3) same_data_trans [OF s1(4)] by fastforce
  qed
qed auto

lemma find_sorted: "sorted_wrt (<) xs \<Longrightarrow> find P xs = Some (x :: 'a :: linorder) \<Longrightarrow> y \<in> set xs \<Longrightarrow> P y \<Longrightarrow> x \<le> y"
  by (induction xs) (auto split: if_splits)

text \<open>
  C15: Allocation. On a sound volume with a free cluster, \<open>fat_alloc_cluster\<close> returns the free cluster with
  the smallest number, which afterwards is the end of a chain, and changes no other entry; on a full volume
  it returns 0 and every entry keeps its value. No sector outside the tables changes.
\<close>

theorem fat_alloc:
  assumes "fat_ok s"
  shows "\<exists>c s'. fat_alloc_cluster s = (c, s') \<and> fat_ok s' \<and> same_data s s'
     \<and> (if \<exists>x \<in> data_range (fat_M s). fst (fat_next_clus s x) = 0
        then c \<in> data_range (fat_M s) \<and> fst (fat_next_clus s c) = 0
           \<and> (\<forall>x \<in> data_range (fat_M s). fst (fat_next_clus s x) = 0 \<longrightarrow> c \<le> x) \<and> fst (fat_next_clus s' c) = FAT_END
        else c = 0)
     \<and> (\<forall>x \<in> data_range (fat_M s) - {c}. fst (fat_next_clus s' x) = fst (fat_next_clus s x))"
proof -
  let ?D = "data_range (fat_M s)" and ?cs = "data_clusters s"
  have n: "fst (fat_next_clus s x) = fat_table s x" if "x \<in> ?D" for x
    using next_fst [OF assms fat_ok_data [OF assms that]] .
  define r where "r = find (\<lambda>x. fat_table s x = 0) ?cs"
  obtain s' where a: "fat_alloc_cluster s = ((case r of None \<Rightarrow> 0 | Some x \<Rightarrow> x), s')" "fat_ok s'" "same_data s s'"
    and t: "\<And>y. in_table (fat_M s) y \<Longrightarrow> fat_table s' y = (if r = Some y then FAT_END else fat_table s y)"
    using alloc_loop_ok [OF assms, of ?cs] by (auto simp: data_clusters_set fat_alloc_cluster_def r_def)
  have M: "fat_M s' = fat_M s" using a(3) by (simp add: same_data_def)
  have n': "fst (fat_next_clus s' x) = (if r = Some x then FAT_END else fat_table s x)" if "x \<in> ?D" for x
    using next_fst [OF a(2)] fat_ok_data [OF assms that] t M by simp
  show ?thesis
  proof (cases r)
    case None
    then have "\<forall>x \<in> ?D. fat_table s x \<noteq> 0" by (auto simp: r_def find_None_iff data_clusters_set)
    then show ?thesis using a None n n' by auto
  next
    case (Some c)
    then have "c \<in> ?D" "fat_table s c = 0"
      by (auto simp: r_def find_Some_iff data_clusters_set [symmetric])
    moreover have "\<forall>x \<in> ?D. fat_table s x = 0 \<longrightarrow> c \<le> x"
      using find_sorted [OF data_clusters_sorted, of "\<lambda>x. fat_table s x = 0" s c] Some by (auto simp: r_def data_clusters_set)
    ultimately show ?thesis using a Some n n' by auto
  qed
qed

lemma fat_alloc_witness:
  "\<exists>s'. fat_alloc_cluster demo_fat = (2, s') \<and> fst (fat_next_clus s' 2) = FAT_END"
proof -
  have D: "2 \<in> data_range (fat_M demo_fat)" by (simp add: data_range_def demo_fat_def)
  have z: "tbyte (fat_M demo_fat) (disk demo_fat) k = 0" if "k < 512" for k
  proof -
    have "ramfat_rd (disk demo_fat) (table_sec (fat_M demo_fat) k) = Some (replicate 512 0)"
      using that by (simp add: demo_fat_def table_sec_def ramfat_rd_ok ramfat_ok_def ramfat_cap_def SECTOR_SIZE_def slice_def)
    then show ?thesis by (simp add: tbyte_def)
  qed
  have "fat_table demo_fat 2 = 0"
    using z [of 3] z [of 4] by (simp add: fat_table_def entry_of_def demo_fat_def noff_def next12_def FAT_END_def)
  then have "fst (fat_next_clus demo_fat 2) = 0" using next_fst [OF demo_fat_ok demo_in_table(1)] by simp
  moreover have "c = 2" if "c \<in> data_range (fat_M demo_fat)" "c \<le> 2" for c
    using that by (simp add: data_range_def)
  ultimately show ?thesis using fat_alloc [OF demo_fat_ok] D by (auto split: if_splits)
qed

text \<open>The clusters a chain passes through.\<close>

inductive_set chain_of :: "(u32 \<Rightarrow> u32) \<Rightarrow> u32 set \<Rightarrow> u32 \<Rightarrow> u32 set" for f D c where
  chain_start: "c \<in> D \<Longrightarrow> c \<in> chain_of f D c"
| chain_step: "x \<in> chain_of f D c \<Longrightarrow> f x \<in> D \<Longrightarrow> f x \<in> chain_of f D c"

lemma chain_of_sub: "x \<in> chain_of f D c \<Longrightarrow> x \<in> D"
  by (induction rule: chain_of.induct) auto

lemma chain_of_outside: "c \<notin> D \<Longrightarrow> chain_of f D c = {}"
proof -
  assume c: "c \<notin> D"
  have False if "x \<in> chain_of f D c" for x using that by (induction rule: chain_of.induct) (use c in auto)
  then show ?thesis by blast
qed

lemma chain_of_cong:
  assumes "\<And>x. x \<in> D \<Longrightarrow> f x = g x"
  shows "chain_of f D c = chain_of g D c"
proof -
  have *: "x \<in> chain_of g D c" if "x \<in> chain_of f D c" "\<And>x. x \<in> D \<Longrightarrow> f x = g x" for x f g
    using that(1)
  proof (induction rule: chain_of.induct)
    case (chain_step x)
    then show ?case using that(2) [OF chain_of_sub [OF chain_step.hyps(1)]] chain_of.chain_step by metis
  qed (rule chain_of.chain_start)
  show ?thesis using *[of _ f g] * [of _ g f] assms by (metis subsetI subset_antisym)
qed

lemma chain_of_first:
  assumes "c \<in> D" "z \<notin> D"
  shows "chain_of f D c = insert c (chain_of (f(c := z)) D (f c))"
proof (intro set_eqI iffI)
  fix x assume "x \<in> chain_of f D c"
  then show "x \<in> insert c (chain_of (f(c := z)) D (f c))"
  proof (induction rule: chain_of.induct)
    case (chain_step x)
    show ?case
    proof (cases "x = c")
      case True
      then show ?thesis using chain_step.hyps(2) by (auto intro: chain_of.chain_start)
    next
      case False
      then have "(f(c := z)) x \<in> chain_of (f(c := z)) D (f c)"
        using chain_step by (intro chain_of.chain_step) auto
      then show ?thesis using False by (metis fun_upd_other insertI2)
    qed
  qed simp
next
  fix x assume x: "x \<in> insert c (chain_of (f(c := z)) D (f c))"
  have c: "c \<in> chain_of f D c" using assms(1) by (rule chain_of.chain_start)
  show "x \<in> chain_of f D c"
  proof (cases "x = c")
    case False
    then have "x \<in> chain_of (f(c := z)) D (f c)" using x by simp
    then show ?thesis
    proof (induction rule: chain_of.induct)
      case chain_start
      then show ?case by (rule chain_of.chain_step [OF c])
    next
      case (chain_step x)
      then have "x \<noteq> c" using assms(2) by auto
      then have "(f(c := z)) x = f x" by simp
      then show ?case using chain_step chain_of.chain_step [of x f D c] by metis
    qed
  qed (use c in simp)
qed

lemma free_stop: "c \<notin> data_range (fat_M s) \<Longrightarrow> fat_free_chain s c = Some (True, s)"
  by (subst fat_free_chain.simps) (auto simp: data_range_def)

lemma free_chain_ok:
  assumes "fat_ok s"
  shows "\<exists>s'. fat_free_chain s c = Some (True, s') \<and> fat_ok s' \<and> same_data s s' \<and> (\<forall>x. in_table (fat_M s) x \<longrightarrow>
      fat_table s' x = (if x \<in> chain_of (fat_table s) (data_range (fat_M s)) c then 0 else fat_table s x))"
  using assms
proof (induction "card {x \<in> data_range (fat_M s). fat_table s x \<noteq> 0}" arbitrary: s c rule: less_induct)
  case less
  let ?D = "data_range (fat_M s)" and ?f = "fat_table s"
  show ?case
  proof (cases "c \<in> ?D")
    case False
    then show ?thesis using less.prems free_stop [OF False] chain_of_outside [OF False] by simp
  next
    case c: True
    have ct: "in_table (fat_M s) c" using fat_ok_data [OF less.prems c] .
    obtain s1 where s1: "fat_next_clus s c = (?f c, s1)" "fat_ok s1" "fat_table s1 = ?f" "same_data s s1" "fat_M s1 = fat_M s"
      by (rule next_clus_table [OF less.prems ct]) (rule that)
    obtain s2 where s2: "fat_set_entry s1 c 0 = (True, s2)" "fat_ok s2" "same_data s1 s2"
      and t2: "\<And>x. in_table (fat_M s) x \<Longrightarrow> fat_table s2 x = (if x = c then 0 else ?f x)"
      by (rule set_entry_table [OF s1(2), of c 0]) (use ct s1 in \<open>auto intro: that simp: next_val_0\<close>)
    have M2: "fat_M s2 = fat_M s" using s1(5) s2(3) by (simp add: same_data_def)
    have sd: "same_data s s2" using same_data_trans [OF s1(4) s2(3)] .
    have step: "fat_free_chain s c = (if ?f c = FAT_END then Some (True, s2) else fat_free_chain s2 (?f c))"
      using c s1(1) s2(1) by (subst fat_free_chain.simps) (simp add: data_range_def)
    have z: "0 \<notin> ?D" "FAT_END \<notin> ?D" using zero_not_data less.prems by (auto simp: fat_ok_def)
    have ch: "chain_of ?f ?D c = insert c (chain_of (fat_table s2) ?D (?f c))"
      unfolding chain_of_first [OF c z(1)]
      by (rule arg_cong [where f = "insert c"], rule chain_of_cong) (use t2 fat_ok_data [OF less.prems] in auto)
    show ?thesis
    proof (cases "?f c \<in> ?D")
      case False
      have "fat_free_chain s c = Some (True, s2)" using step free_stop [of "?f c" s2] False M2 by auto
      then show ?thesis using s2(2) sd t2 ch chain_of_outside [OF False] by auto
    next
      case True
      have "{x \<in> ?D. fat_table s2 x \<noteq> 0} = {x \<in> ?D. ?f x \<noteq> 0} - {c}" "?f c \<noteq> 0"
        using t2 fat_ok_data [OF less.prems] True z(1) by (auto split: if_splits)
      then have "{x \<in> ?D. fat_table s2 x \<noteq> 0} \<subset> {x \<in> ?D. ?f x \<noteq> 0}" using c by auto
      then have "card {x \<in> data_range (fat_M s2). fat_table s2 x \<noteq> 0} < card {x \<in> ?D. ?f x \<noteq> 0}"
        unfolding M2 by (rule psubset_card_mono [rotated]) simp
      from less.hyps [OF this s2(2), of "?f c"] obtain s' where r: "fat_free_chain s2 (?f c) = Some (True, s')"
        "fat_ok s'" "same_data s2 s'"
        "\<And>x. in_table (fat_M s) x \<Longrightarrow> fat_table s' x = (if x \<in> chain_of (fat_table s2) ?D (?f c) then 0 else fat_table s2 x)"
        unfolding M2 by blast
      have "fat_free_chain s c = Some (True, s')" using step r(1) True z(2) by auto
      then show ?thesis using r same_data_trans [OF sd r(3)] t2 ch by auto
    qed
  qed
qed

text \<open>
  C16: Freeing. On a sound volume \<open>fat_free_chain\<close> returns (whatever the table holds: a cyclic or a broken chain
  does not make the loop run forever), the entries of the clusters the chain passes through read 0 afterwards,
  every other entry keeps its value, and no sector outside the tables changes.
\<close>

theorem fat_free:
  assumes "fat_ok s"
  shows "\<exists>s'. fat_free_chain s c = Some (True, s') \<and> fat_ok s' \<and> same_data s s' \<and> (\<forall>x \<in> data_range (fat_M s).
      fst (fat_next_clus s' x) = (if x \<in> chain_of (\<lambda>x. fst (fat_next_clus s x)) (data_range (fat_M s)) c
         then 0 else fst (fat_next_clus s x)))"
proof -
  let ?D = "data_range (fat_M s)"
  have n: "fst (fat_next_clus s x) = fat_table s x" if "x \<in> ?D" for x
    using next_fst [OF assms fat_ok_data [OF assms that]] .
  have ch: "chain_of (\<lambda>x. fst (fat_next_clus s x)) ?D c = chain_of (fat_table s) ?D c"
    by (rule chain_of_cong) (rule n)
  obtain s' where s': "fat_free_chain s c = Some (True, s')" "fat_ok s'" "same_data s s'"
    "\<And>x. in_table (fat_M s) x \<Longrightarrow> fat_table s' x = (if x \<in> chain_of (fat_table s) ?D c then 0 else fat_table s x)"
    using free_chain_ok [OF assms, of c] by blast
  have "fst (fat_next_clus s' x) = fat_table s' x" if "x \<in> ?D" for x
    using next_fst [OF s'(2)] fat_ok_data [OF assms that] s'(3) by (simp add: same_data_def)
  then show ?thesis using s' n fat_ok_data [OF assms] unfolding ch by auto
qed

lemma fat_free_witness:
  "\<exists>s'. fat_free_chain demo_fat 2 = Some (True, s') \<and> fst (fat_next_clus s' 2) = 0"
proof -
  have D: "2 \<in> data_range (fat_M demo_fat)" by (simp add: data_range_def demo_fat_def)
  then show ?thesis using fat_free [OF demo_fat_ok, of 2] chain_start [OF D] by fastforce
qed

text \<open>The count of \<open>fat_count_free_clusters\<close> is the number of free clusters.\<close>

lemma count_free_ok:
  assumes "fat_ok s" "set cs \<subseteq> data_range (fat_M s)"
  shows "fst (count_free cs s n) = n + of_nat (length (List.filter (\<lambda>x. fat_table s x = 0) cs))"
  using assms
proof (induction cs arbitrary: s n)
  case (Cons c cs)
  have "in_table (fat_M s) c" using Cons.prems by (intro fat_ok_data) auto
  then obtain s1 where s1: "fat_next_clus s c = (fat_table s c, s1)" "fat_ok s1" "fat_table s1 = fat_table s" "fat_M s1 = fat_M s"
    by (rule next_clus_table [OF Cons.prems(1)])
  then show ?case using Cons.IH [of s1] Cons.prems(2) by simp
qed simp

lemma data_clusters_distinct: "distinct (data_clusters s)"
  using data_clusters_sorted [of s] by (simp add: strict_sorted_iff)

text \<open>
  Free space. \<open>fat_count_free_clusters\<close> of a mounted sound volume is the number of clusters whose entry is 0.
\<close>

theorem fat_count_free:
  assumes "fat_ok s" "m_valid (fat_M s)"
  shows "unat (fst (fat_count_free_clusters s)) = card {x \<in> data_range (fat_M s). fst (fat_next_clus s x) = 0}"
proof -
  let ?D = "data_range (fat_M s)"
  have "fst (fat_next_clus s x) = fat_table s x" if "x \<in> ?D" for x
    using next_fst [OF assms(1) fat_ok_data [OF assms(1) that]] .
  then have e: "{x \<in> ?D. fst (fat_next_clus s x) = 0} = set (List.filter (\<lambda>x. fat_table s x = 0) (data_clusters s))"
    by (auto simp: data_clusters_set)
  let ?F = "List.filter (\<lambda>x. fat_table s x = 0) (data_clusters s)"
  have "length ?F \<le> length (data_clusters s)" by (rule length_filter_le)
  also have "\<dots> < 2 ^ 32"
    using unsigned_less [of "cluster_count (fat_M s) + 2", where ?'a = nat] by (simp add: data_clusters_def)
  finally have l: "length ?F < 2 ^ 32" .
  have "fst (fat_count_free_clusters s) = of_nat (length ?F)"
    using count_free_ok [OF assms(1), of "data_clusters s" 0] assms(2) by (simp add: fat_count_free_clusters_def data_clusters_set)
  then have "unat (fst (fat_count_free_clusters s)) = length ?F" using l by (simp add: unat_of_nat_small)
  also have "\<dots> = card (set ?F)" using distinct_card [of ?F] data_clusters_distinct by simp
  finally show ?thesis using e by simp
qed

lemma fat_count_free_witness:
  "unat (fst (fat_count_free_clusters demo_fat)) = card {x \<in> data_range (fat_M demo_fat). fst (fat_next_clus demo_fat x) = 0}"
proof -
  have "m_valid (fat_M demo_fat)" by (simp add: demo_fat_def)
  then show ?thesis using fat_count_free [OF demo_fat_ok] by blast
qed

end
