(* ===== verification/Fat_Dir.thy ===== *)
theory Fat_Dir
  imports Fat
begin

text \<open>
  The FAT driver of XCP/M (\<open>xcpm-mips/src/fat.c\<close>), part two: names and directories. A C string is the list of
  its bytes before the terminating zero. An iterator is a record; the functions that take a pointer to one
  return it changed. Walks along a cluster chain need not end (the chain may be cyclic), so the iterator and
  what is built on it are \<open>partial_function\<close>s.
\<close>

section \<open>C strings\<close>

type_synonym cstring = "u8 list"

definition cstr :: "u8 list \<Rightarrow> cstring" where
  "cstr bs = takeWhile (\<lambda>c. c \<noteq> 0) bs"

definition upc :: "u8 \<Rightarrow> u8" where
  "upc c = (if 0x61 \<le> c \<and> c \<le> 0x7A then c - 32 else c)"

fun strieq :: "cstring \<Rightarrow> cstring \<Rightarrow> bool" where
  "strieq (a # as) (b # bs) = (upc a = upc b \<and> strieq as bs)"
| "strieq as bs = (as = [] \<and> bs = [])"

text \<open>\<open>if (path[0] == '/') path++\<close>.\<close>

definition strip_slash :: "cstring \<Rightarrow> cstring" where
  "strip_slash p = (case p of [] \<Rightarrow> [] | c # r \<Rightarrow> if c = 0x2F then r else p)"

text \<open>The next component of a path (at most 15 characters), and the path behind it with its slash.\<close>

definition path_comp :: "cstring \<Rightarrow> cstring" where
  "path_comp p = take 15 (takeWhile (\<lambda>c. c \<noteq> 0x2F) p)"

definition path_rest :: "cstring \<Rightarrow> cstring" where
  "path_rest p = drop (length (path_comp p)) p"

section \<open>Directory entries\<close>

record fat_dirent =
  de_name :: "u8 list"
  de_attr :: u8
  de_ntres :: u8
  de_ctime_tenth :: u8
  de_ctime :: u16
  de_cdate :: u16
  de_adate :: u16
  de_first_clus_hi :: u16
  de_wtime :: u16
  de_wdate :: u16
  de_first_clus_lo :: u16
  de_file_size :: u32

definition parse_dirent :: "u8 list \<Rightarrow> fat_dirent" where
  "parse_dirent e =
     \<lparr>de_name = take 11 e, de_attr = e ! 11, de_ntres = e ! 12, de_ctime_tenth = e ! 13,
      de_ctime = rd16 e 14, de_cdate = rd16 e 16, de_adate = rd16 e 18, de_first_clus_hi = rd16 e 20,
      de_wtime = rd16 e 22, de_wdate = rd16 e 24, de_first_clus_lo = rd16 e 26, de_file_size = rd32 e 28\<rparr>"

definition join_clus :: "u16 \<Rightarrow> u16 \<Rightarrow> u32" where
  "join_clus hi lo = push_bit 16 (ucast hi) OR ucast lo"

definition de_clus :: "fat_dirent \<Rightarrow> u32" where
  "de_clus de = join_clus (de_first_clus_hi de) (de_first_clus_lo de)"

abbreviation "ATTR_VOLID \<equiv> 0x08 :: u8"
abbreviation "ATTR_DIR \<equiv> 0x10 :: u8"
abbreviation "ATTR_LFN \<equiv> 0x0F :: u8"

section \<open>8.3 names\<close>

definition name_cand :: "u8 list \<Rightarrow> cstring" where
  "name_cand raw =
     (let base = takeWhile (\<lambda>c. c \<noteq> 0x20) (take 8 raw); ext = takeWhile (\<lambda>c. c \<noteq> 0x20) (take 3 (drop 8 raw)) in
      base @ (if ext \<noteq> [] then 0x2E # ext else []))"

definition name_match_83 :: "u8 list \<Rightarrow> cstring \<Rightarrow> bool" where
  "name_match_83 raw want = strieq (name_cand raw) want"

text \<open>The pattern is an array of signed \<open>char\<close>, compared with unsigned bytes after promotion.\<close>

definition fat_match_83 :: "u8 list \<Rightarrow> u8 list \<Rightarrow> bool" where
  "fat_match_83 raw pattern = list_all (\<lambda>i. pattern ! i = 0x3F \<or> sint (pattern ! i) = uint (raw ! i)) [0..<11]"

definition pad :: "nat \<Rightarrow> u8 list \<Rightarrow> u8 list" where
  "pad n xs = take n (xs @ replicate n 0x20)"

definition build_raw_name :: "cstring \<Rightarrow> u8 list" where
  "build_raw_name name =
     (let base = take 8 (takeWhile (\<lambda>c. c \<noteq> 0x2E) name); r = drop (length base) name;
          ext = (case r of [] \<Rightarrow> [] | c # r' \<Rightarrow> if c = 0x2E then r' else r) in
      pad 8 (map upc base) @ pad 3 (map upc ext))"

section \<open>Long names\<close>

definition lfn_off :: "nat list" where
  "lfn_off = [1, 3, 5, 7, 9, 14, 16, 18, 20, 22, 24, 28, 30]"

definition lfn_chars :: "u8 list \<Rightarrow> u8 list" where
  "lfn_chars raw =
     map (\<lambda>ch. if ch < 0x80 then ucast ch else 0x3F) (takeWhile (\<lambda>ch. ch \<noteq> 0 \<and> ch \<noteq> 0xFFFF) (map (rd16 raw) lfn_off))"

definition lfn_collect_entry :: "u8 list \<Rightarrow> u8 list \<Rightarrow> u32 \<Rightarrow> nat \<Rightarrow> int \<times> u8 list \<times> u32" where
  "lfn_collect_entry raw lfn len mx =
     (let seq = raw ! 0; is_last = (seq AND 0x40 \<noteq> 0); idx = uint (seq AND 0x1F) - 1 in
      if idx < 0 then (-1, lfn, len)
      else let base = nat (idx * 13); tmp = lfn_chars raw; n = length tmp;
               lfn1 = fold (\<lambda>i l. l[base + i := tmp ! i]) (List.filter (\<lambda>i. base + i < mx - 1) [0..<n]) lfn;
               len1 = (if is_last \<and> sint len < int (base + n) then of_nat (base + n) else len);
               len2 = (if sint len1 < int (base + 13) \<and> \<not> is_last then of_nat (base + 13) else len1) in
           (0, lfn1, len2))"

section \<open>The iterator\<close>

record fat_dir_iter =
  it_clus :: u32
  it_lba :: u32
  it_idx :: u32
  it_buf :: "u8 list"
  it_valid :: bool
  it_buf_lba :: u32
  it_lfn :: "u8 list"
  it_lfn_len :: u32

text \<open>An iterator on the stack; the functions below set every field before they read it.\<close>

definition iter0 :: fat_dir_iter where
  "iter0 = \<lparr>it_clus = 0, it_lba = 0, it_idx = 0, it_buf = replicate 512 0, it_valid = False, it_buf_lba = 0,
            it_lfn = replicate 256 0, it_lfn_len = 0\<rparr>"

definition dir_load_sector :: "fat_dir_iter \<Rightarrow> fat \<Rightarrow> u32 \<Rightarrow> bool \<times> fat_dir_iter \<times> fat" where
  "dir_load_sector it s lba =
     (if it_valid it \<and> it_buf_lba it = lba then (True, it, s)
      else case blk_rd s lba of
             (None, s1) \<Rightarrow> (False, it, s1)
           | (Some b, s1) \<Rightarrow> (True, it\<lparr>it_buf := b, it_buf_lba := lba, it_valid := True\<rparr>, s1))"

definition iter_at :: "fat_dir_iter \<Rightarrow> u32 \<Rightarrow> u32 \<Rightarrow> fat_dir_iter" where
  "iter_at it clus lba =
     it\<lparr>it_clus := clus, it_lba := lba, it_idx := 0, it_valid := False, it_lfn := (it_lfn it)[0 := 0], it_lfn_len := 0\<rparr>"

definition fat_diropen_clus :: "fat_dir_iter \<Rightarrow> fat \<Rightarrow> u32 \<Rightarrow> int \<times> fat_dir_iter" where
  "fat_diropen_clus it s clus =
     (if \<not> m_valid (fat_M s) then (-1, it) else (0, iter_at it clus (fat_clus_to_lba s clus)))"

definition fat_diropen_root :: "fat_dir_iter \<Rightarrow> fat \<Rightarrow> int \<times> fat_dir_iter" where
  "fat_diropen_root it s =
     (if \<not> m_valid (fat_M s) then (-1, it)
      else if m_type (fat_M s) = FAT32 then fat_diropen_clus it s (root_clus (fat_M s))
      else (0, iter_at it 0 (first_root_sec (fat_M s))))"

definition clear_lfn :: "fat_dir_iter \<Rightarrow> fat_dir_iter" where
  "clear_lfn it = it\<lparr>it_lfn_len := 0, it_lfn := replicate 256 0\<rparr>"

definition next_entry :: "fat_dir_iter \<Rightarrow> fat_dir_iter" where
  "next_entry it = it\<lparr>it_idx := it_idx it + 1\<rparr>"

text \<open>The step to the next sector of the directory: \<open>None\<close> when there is none.\<close>

definition dir_advance :: "fat_dir_iter \<Rightarrow> fat \<Rightarrow> fat_dir_iter option \<times> fat" where
  "dir_advance it s =
     (let m = fat_M s; go = (\<lambda>it. it\<lparr>it_idx := 0, it_valid := False\<rparr>) in
      if it_clus it = 0 then
        (if (root_ent_count m * 32) div 512 \<le> it_lba it - first_root_sec m + 1 then (None, s)
         else (Some (go (it\<lparr>it_lba := it_lba it + 1\<rparr>)), s))
      else if it_lba it - fat_clus_to_lba s (it_clus it) + 1 < sec_per_clus m
      then (Some (go (it\<lparr>it_lba := it_lba it + 1\<rparr>)), s)
      else case fat_next_clus s (it_clus it) of
             (nxt, s1) \<Rightarrow>
               if nxt = FAT_END then (None, s1)
               else (Some (go (it\<lparr>it_clus := nxt, it_lba := fat_clus_to_lba s1 nxt\<rparr>)), s1))"

text \<open>What one pass of the loop of \<open>fat_dirnext\<close> does.\<close>

datatype dir_pass =
    Stop int fat_dir_iter fat
  | Found fat_dirent cstring fat_dir_iter fat
  | Again fat_dir_iter fat

definition lfn_result :: "fat_dir_iter \<Rightarrow> nat \<Rightarrow> cstring" where
  "lfn_result it mx =
     (if 0 < it_lfn_len it \<and> unat (it_lfn_len it) < mx then cstr (take (unat (it_lfn_len it)) (it_lfn it)) else [])"

definition dir_entry_pass :: "u8 list \<Rightarrow> fat_dir_iter \<Rightarrow> fat \<Rightarrow> nat \<Rightarrow> dir_pass" where
  "dir_entry_pass e it s mx =
     (if e ! 0 = 0 then Stop 1 it s
      else if e ! 0 = 0xE5 then Again (clear_lfn (next_entry it)) s
      else if e ! 11 = ATTR_LFN then
        (case lfn_collect_entry e (it_lfn it) (it_lfn_len it) 256 of
           (_, lfn, len) \<Rightarrow> Again (next_entry (it\<lparr>it_lfn := lfn, it_lfn_len := len\<rparr>)) s)
      else if e ! 11 AND ATTR_VOLID \<noteq> 0 then Again ((next_entry it)\<lparr>it_lfn_len := 0\<rparr>) s
      else Found (parse_dirent e) (lfn_result it mx) (clear_lfn (next_entry it)) s)"

definition dir_pass_of :: "fat_dir_iter \<Rightarrow> fat \<Rightarrow> nat \<Rightarrow> dir_pass" where
  "dir_pass_of it s mx =
     (if it_lba it = 0 then Stop (-1) it s
      else case dir_load_sector it s (it_lba it) of
             (ok, it1, s1) \<Rightarrow>
               if \<not> ok then Stop (-1) it1 s1
               else if 16 \<le> it_idx it1 then
                 (case dir_advance it1 s1 of (None, s2) \<Rightarrow> Stop 1 it1 s2 | (Some it2, s2) \<Rightarrow> Again it2 s2)
               else dir_entry_pass (slice (unat (it_idx it1) * 32) 32 (it_buf it1)) it1 s1 mx)"

partial_function (option) dirnext_loop ::
  "fat_dir_iter \<Rightarrow> fat \<Rightarrow> nat \<Rightarrow> ((int + fat_dirent \<times> cstring) \<times> fat_dir_iter \<times> fat) option" where
  "dirnext_loop it s mx =
     (case dir_pass_of it s mx of
        Stop rc it' s' \<Rightarrow> Some (Inl rc, it', s')
      | Found de lfn it' s' \<Rightarrow> Some (Inr (de, lfn), it', s')
      | Again it' s' \<Rightarrow> dirnext_loop it' s' mx)"

text \<open>\<open>Inl rc\<close>: the function returns \<open>rc\<close>, not zero; \<open>Inr\<close>: it returns 0 with the entry and its long name.\<close>

definition fat_dirnext :: "fat_dir_iter \<Rightarrow> fat \<Rightarrow> nat \<Rightarrow> ((int + fat_dirent \<times> cstring) \<times> fat_dir_iter \<times> fat) option" where
  "fat_dirnext it s mx =
     (if \<not> m_valid (fat_M s) then Some (Inl (-1), it, s) else dirnext_loop (clear_lfn it) s mx)"

section \<open>Searching a directory\<close>

text \<open>
  The loop \<open>while (fat_dirnext(...) == 0) if (P) ...\<close> that all searches share: the first entry that
  satisfies \<open>P\<close>, or the code with which the iteration ended.
\<close>

partial_function (option) dir_search ::
  "(fat_dirent \<Rightarrow> cstring \<Rightarrow> bool) \<Rightarrow> fat_dir_iter \<Rightarrow> fat \<Rightarrow> ((int + fat_dirent) \<times> fat_dir_iter \<times> fat) option" where
  "dir_search P it s =
     (case fat_dirnext it s 256 of
        None \<Rightarrow> None
      | Some (Inl rc, it1, s1) \<Rightarrow> Some (Inl rc, it1, s1)
      | Some (Inr (de, lfn), it1, s1) \<Rightarrow> if P de lfn then Some (Inr de, it1, s1) else dir_search P it1 s1)"

definition name_is :: "cstring \<Rightarrow> fat_dirent \<Rightarrow> cstring \<Rightarrow> bool" where
  "name_is name de lfn \<longleftrightarrow> name_match_83 (de_name de) name \<or> (lfn \<noteq> [] \<and> strieq lfn name)"

definition find_entry_in_dir :: "fat_dir_iter \<Rightarrow> fat \<Rightarrow> cstring \<Rightarrow> (fat_dirent option \<times> fat_dir_iter \<times> fat) option" where
  "find_entry_in_dir it s name =
     do { (r, it1, s1) \<leftarrow> dir_search (name_is name) it s; Some (case r of Inl _ \<Rightarrow> None | Inr de \<Rightarrow> Some de, it1, s1) }"

text \<open>The walk of \<open>fat_diropen_path\<close> along the components of a path.\<close>

partial_function (option) diropen_walk :: "cstring \<Rightarrow> fat_dir_iter \<Rightarrow> fat \<Rightarrow> (int \<times> fat_dir_iter \<times> fat) option" where
  "diropen_walk path it s =
     (if path = [] then Some (0, it, s)
      else case dir_search (name_is (path_comp path)) it s of
             None \<Rightarrow> None
           | Some (Inl _, it1, s1) \<Rightarrow> Some (-2, it1, s1)
           | Some (Inr de, it1, s1) \<Rightarrow>
               if de_attr de AND ATTR_DIR = 0 then Some (-3, it1, s1)
               else case fat_diropen_clus it1 s1 (de_clus de) of
                      (rc, it2) \<Rightarrow>
                        if rc \<noteq> 0 then Some (-1, it2, s1) else diropen_walk (strip_slash (path_rest path)) it2 s1)"

definition fat_diropen_path :: "fat_dir_iter \<Rightarrow> fat \<Rightarrow> cstring \<Rightarrow> (int \<times> fat_dir_iter \<times> fat) option" where
  "fat_diropen_path it s path =
     (if \<not> m_valid (fat_M s) then Some (-1, it, s)
      else case fat_diropen_root it s of
             (rc, it1) \<Rightarrow>
               if path = [] \<or> path = [0x2F] then Some (rc, it1, s)
               else if rc \<noteq> 0 then Some (-1, it1, s)
               else diropen_walk (strip_slash path) it1 s)"

definition fat_search_next :: "fat_dir_iter \<Rightarrow> fat \<Rightarrow> u8 list \<Rightarrow> ((int + fat_dirent) \<times> fat_dir_iter \<times> fat) option" where
  "fat_search_next it s pattern =
     dir_search (\<lambda>de _. de_attr de AND ATTR_VOLID = 0 \<and> fat_match_83 (de_name de) pattern) it s"

definition fat_search_first :: "fat_dir_iter \<Rightarrow> fat \<Rightarrow> u8 list \<Rightarrow> ((int + fat_dirent) \<times> fat_dir_iter \<times> fat) option" where
  "fat_search_first it s pattern =
     (case fat_diropen_root it s of
        (rc, it1) \<Rightarrow> if rc \<noteq> 0 then Some (Inl (-1), it1, s) else fat_search_next it1 s pattern)"

text \<open>The searches by raw name return where the entry lies: sector and offset.\<close>

definition locate :: "u8 list \<Rightarrow> fat_dir_iter \<Rightarrow> fat \<Rightarrow> ((int + u32 \<times> u32) \<times> fat) option" where
  "locate raw it s =
     do { (r, it1, s1) \<leftarrow> dir_search (\<lambda>de _. de_attr de AND ATTR_VOLID = 0 \<and> de_name de = raw) it s;
          Some (case r of Inl _ \<Rightarrow> Inl 1 | Inr _ \<Rightarrow> Inr (it_lba it1, (it_idx it1 - 1) * 32), s1) }"

definition fat_find_dirent :: "fat \<Rightarrow> u8 list \<Rightarrow> ((int + u32 \<times> u32) \<times> fat) option" where
  "fat_find_dirent s raw =
     (case fat_diropen_root iter0 s of (rc, it) \<Rightarrow> if rc \<noteq> 0 then Some (Inl (-1), s) else locate raw it s)"

definition find_dirent_at :: "fat \<Rightarrow> u32 \<Rightarrow> u8 list \<Rightarrow> ((int + u32 \<times> u32) \<times> fat) option" where
  "find_dirent_at s parent raw =
     (case (if parent = 0 then fat_diropen_root iter0 s else fat_diropen_clus iter0 s parent) of
        (rc, it) \<Rightarrow> if rc \<noteq> 0 then Some (Inl (-1), s) else locate raw it s)"

section \<open>Free slots\<close>

text \<open>The first slot of the sector in the buffer that is unused or deleted.\<close>

definition free_slot :: "u8 list \<Rightarrow> nat option" where
  "free_slot b = find (\<lambda>e. b ! (e * 32) = 0 \<or> b ! (e * 32) = 0xE5) [0..<16]"

text \<open>A run of sectors: \<open>Inl 1\<close> when none of them has a free slot.\<close>

primrec scan_secs :: "u32 list \<Rightarrow> fat \<Rightarrow> (int + u32 \<times> u32) \<times> fat" where
  "scan_secs [] s = (Inl 1, s)"
| "scan_secs (l # ls) s =
     io_then (wb_read s l)
       (\<lambda>s1. case free_slot (fat_wbuf s1) of Some e \<Rightarrow> (Inr (l, of_nat e * 32), s1) | None \<Rightarrow> scan_secs ls s1)
       (Inl (-1))"

definition empty_in_root :: "fat \<Rightarrow> (int + u32 \<times> u32) \<times> fat" where
  "empty_in_root s =
     scan_secs (map (\<lambda>i. first_root_sec (fat_M s) + of_nat i) [0 ..< unat ((root_ent_count (fat_M s) * 32) div 512)]) s"

definition clus_secs :: "fat \<Rightarrow> u32 \<Rightarrow> u32 list" where
  "clus_secs s c = map (\<lambda>i. fat_clus_to_lba s c + of_nat i) [0 ..< unat (sec_per_clus (fat_M s))]"

text \<open>The writes that zero a new cluster; their results are not looked at.\<close>

definition zero_clus :: "u32 list \<Rightarrow> fat \<Rightarrow> fat" where
  "zero_clus ls s = fold (\<lambda>l s. snd (wb_write l s)) ls (wb_upd (\<lambda>_. replicate 512 0) s)"

definition extend_dir :: "u32 \<Rightarrow> fat \<Rightarrow> u32 \<times> fat" where
  "extend_dir c s =
     (case fat_alloc_cluster s of
        (nc, s1) \<Rightarrow>
          if nc = 0 then (0, s1)
          else io_then (fat_set_entry s1 c nc) (\<lambda>s2. (nc, zero_clus (clus_secs s2 nc) s2)) 0)"

partial_function (option) empty_in_chain :: "u32 \<Rightarrow> fat \<Rightarrow> ((int + u32 \<times> u32) \<times> fat) option" where
  "empty_in_chain c s =
     (if c < 2 then Some (Inl 1, s)
      else case scan_secs (clus_secs s c) s of
             (Inr loc, s1) \<Rightarrow> Some (Inr loc, s1)
           | (Inl rc, s1) \<Rightarrow>
               if rc < 0 then Some (Inl (-1), s1)
               else case fat_next_clus s1 c of
                      (nxt, s2) \<Rightarrow>
                        if nxt \<noteq> FAT_END then empty_in_chain nxt s2
                        else case extend_dir c s2 of
                               (nc, s3) \<Rightarrow> if nc = 0 then Some (Inl (-1), s3) else empty_in_chain nc s3)"

definition fat_find_empty_dirent :: "fat \<Rightarrow> ((int + u32 \<times> u32) \<times> fat) option" where
  "fat_find_empty_dirent s0 =
     (if fst (fat_diropen_root iter0 s0) \<noteq> 0 then Some (Inl (-1), s0)
      else let s = s0\<lparr>fat_buf_valid := False\<rparr> in
        if m_type (fat_M s) \<noteq> FAT32 then Some (empty_in_root s) else empty_in_chain (root_clus (fat_M s)) s)"

definition find_empty_dirent_at :: "fat \<Rightarrow> u32 \<Rightarrow> ((int + u32 \<times> u32) \<times> fat) option" where
  "find_empty_dirent_at s0 parent =
     (let s = s0\<lparr>fat_buf_valid := False\<rparr> in
      if parent = 0 \<and> m_type (fat_M s) \<noteq> FAT32 then Some (empty_in_root s)
      else empty_in_chain (if parent \<noteq> 0 then parent else root_clus (fat_M s)) s)"

text \<open>The parent directory of a path, as its cluster, and the last component.\<close>

definition leaf_of :: "cstring \<Rightarrow> cstring" where
  "leaf_of p = rev (takeWhile (\<lambda>c. c \<noteq> 0x2F) (rev p))"

definition resolve_parent :: "fat \<Rightarrow> cstring \<Rightarrow> ((int + u32 \<times> cstring) \<times> fat) option" where
  "resolve_parent s path0 =
     (let path = strip_slash path0; leaf = leaf_of path in
      if length leaf = length path then Some (Inr (if m_type (fat_M s) = FAT32 then root_clus (fat_M s) else 0, path), s)
      else let n = length path - length leaf - 1 in
        if 40 \<le> n then Some (Inl (-1), s)
        else case fat_diropen_path iter0 s (take n path) of
               None \<Rightarrow> None
             | Some (rc, it, s1) \<Rightarrow> Some (if rc \<noteq> 0 then Inl (-2) else Inr (it_clus it, leaf), s1))"

section \<open>8.3 names\<close>

lemma upc_upc [simp]: "upc (upc c) = upc c"
proof -
  have "c - 32 \<le> 0x5A" if "0x61 \<le> c" "c \<le> (0x7A :: u8)"
    using that unat_sub [of 32 c] by (simp add: word_le_nat_alt)
  then show ?thesis by (auto simp: upc_def word_le_nat_alt)
qed

lemma upc_eq_punct: "upc c = 0x20 \<longleftrightarrow> c = 0x20" "upc c = 0x2E \<longleftrightarrow> c = 0x2E"
proof -
  have "0x41 \<le> c - 32" if "0x61 \<le> c" "c \<le> (0x7A :: u8)"
    using that unat_sub [of 32 c] by (simp add: word_le_nat_alt)
  then show "upc c = 0x20 \<longleftrightarrow> c = 0x20" "upc c = 0x2E \<longleftrightarrow> c = 0x2E" by (auto simp: upc_def word_le_nat_alt)
qed

lemma strieq_iff: "strieq a b \<longleftrightarrow> map upc a = map upc b"
  by (induction a b rule: strieq.induct) auto

lemma length_pad [simp]: "length (pad n xs) = n"
  by (simp add: pad_def)

lemma takeWhile_stop: "c \<notin> set xs \<Longrightarrow> takeWhile (\<lambda>x. x \<noteq> c) (xs @ ys) = xs @ takeWhile (\<lambda>x. x \<noteq> c) ys"
  by (induction xs) auto

lemma takeWhile_pad: "length xs \<le> n \<Longrightarrow> 0x20 \<notin> set xs \<Longrightarrow> takeWhile (\<lambda>c. c \<noteq> 0x20) (pad n xs) = xs"
  unfolding pad_def by (subst take_append, subst takeWhile_stop) auto

text \<open>A file name of the 8.3 form: base and extension, without blanks, no dot in the base.\<close>

definition name83 :: "cstring \<Rightarrow> cstring \<Rightarrow> cstring" where
  "name83 b e = b @ (if e = [] then [] else 0x2E # e)"

definition ok83 :: "cstring \<Rightarrow> cstring \<Rightarrow> bool" where
  "ok83 b e \<longleftrightarrow> length b \<le> 8 \<and> length e \<le> 3 \<and> 0x20 \<notin> set b \<and> 0x2E \<notin> set b \<and> 0x20 \<notin> set e"

lemma build_raw_name_83: "ok83 b e \<Longrightarrow> build_raw_name (name83 b e) = pad 8 (map upc b) @ pad 3 (map upc e)"
proof -
  assume ok: "ok83 b e"
  then have "takeWhile (\<lambda>c. c \<noteq> 0x2E) (name83 b e) = b"
    by (cases e) (auto simp: ok83_def name83_def takeWhile_stop takeWhile_eq_all_conv)
  then show ?thesis using ok by (simp add: build_raw_name_def Let_def ok83_def name83_def split: list.split)
qed

lemma name_cand_83: "ok83 b e \<Longrightarrow> name_cand (pad 8 (map upc b) @ pad 3 (map upc e)) = map upc (name83 b e)"
proof -
  assume ok: "ok83 b e"
  then have "0x20 \<notin> set (map upc b)" "0x20 \<notin> set (map upc e)" 
    unfolding ok83_def set_map image_iff by (metis upc_eq_punct(1))+
  then have "takeWhile (\<lambda>c. c \<noteq> 0x20) (pad 8 (map upc b)) = map upc b" "takeWhile (\<lambda>c. c \<noteq> 0x20) (pad 3 (map upc e)) = map upc e"
    using ok by (auto simp: ok83_def intro!: takeWhile_pad)
  then show ?thesis by (simp add: name_cand_def name83_def upc_eq_punct upc_def)
qed

text \<open>
  C18: Names. For a name of the 8.3 form, the raw directory name that \<open>build_raw_name\<close> makes of it is 11 bytes
  long and \<open>name_match_83\<close> finds it under exactly the spellings of the name that differ in case only.
\<close>

theorem fat_name_roundtrip:
  assumes "ok83 b e"
  shows "length (build_raw_name (name83 b e)) = 11
    \<and> (name_match_83 (build_raw_name (name83 b e)) want \<longleftrightarrow> map upc want = map upc (name83 b e))"
  using assms by (auto simp: build_raw_name_83 name_match_83_def name_cand_83 strieq_iff comp_def)

lemma fat_name_roundtrip_witness:
  "name_match_83 (build_raw_name (name83 [0x68, 0x69] [0x63])) [0x48, 0x49, 0x2E, 0x43]"
proof -
  have "ok83 [0x68, 0x69] [0x63]" by (simp add: ok83_def)
  from fat_name_roundtrip [OF this] show ?thesis by (simp add: name83_def upc_def)
qed

section \<open>A directory as a list of records\<close>

text \<open>A record is its sector, its number in the sector and its 32 bytes.\<close>

type_synonym dir_rec = "u32 \<times> nat \<times> u8 list"

definition sec_recs :: "ramfat \<Rightarrow> u32 \<Rightarrow> dir_rec list" where
  "sec_recs d l = map (\<lambda>j. (l, j, slice (j * 32) 32 (the (ramfat_rd d l)))) [0..<16]"

definition dir_recs :: "ramfat \<Rightarrow> u32 list \<Rightarrow> dir_rec list" where
  "dir_recs d ls = concat (map (sec_recs d) ls)"

text \<open>The entries a reader sees: up to the first record whose first byte is 0, without deleted records, parts of
  long names and volume labels.\<close>

definition live :: "dir_rec \<Rightarrow> bool" where
  "live r \<longleftrightarrow> (let e = snd (snd r) in e ! 0 \<noteq> 0xE5 \<and> e ! 11 \<noteq> ATTR_LFN \<and> e ! 11 AND ATTR_VOLID = 0)"

definition live_recs :: "dir_rec list \<Rightarrow> dir_rec list" where
  "live_recs R = List.filter live (takeWhile (\<lambda>r. snd (snd r) ! 0 \<noteq> 0) R)"

text \<open>The sectors of a directory from a position on, and the walk over them.\<close>

definition dir_succ :: "fat_mount \<Rightarrow> ramfat \<Rightarrow> u32 \<Rightarrow> u32 \<Rightarrow> (u32 \<times> u32) option" where
  "dir_succ m d c l =
     (let base = (\<lambda>c. if c < 2 then 0 else first_data_sec m + (c - 2) * sec_per_clus m) in
      if c = 0 then (if (root_ent_count m * 32) div 512 \<le> l - first_root_sec m + 1 then None else Some (0, l + 1))
      else if l - base c + 1 < sec_per_clus m then Some (c, l + 1)
      else let n = entry_of (m_type m) (tbyte m d) c in if n = FAT_END then None else Some (n, base n))"

inductive dir_walk :: "fat_mount \<Rightarrow> ramfat \<Rightarrow> u32 \<Rightarrow> u32 \<Rightarrow> u32 list \<Rightarrow> bool" for m d where
  walk_last: "l \<noteq> 0 \<Longrightarrow> unat l < ramfat_cap d \<Longrightarrow> in_table m c \<Longrightarrow> dir_succ m d c l = None \<Longrightarrow> dir_walk m d c l [l]"
| walk_step: "l \<noteq> 0 \<Longrightarrow> unat l < ramfat_cap d \<Longrightarrow> in_table m c \<Longrightarrow> dir_succ m d c l = Some (c', l') \<Longrightarrow>
    dir_walk m d c' l' ls \<Longrightarrow> dir_walk m d c l (l # ls)"

inductive_cases dir_walkE: "dir_walk m d c l ls"

lemma walk_hd: "dir_walk m d c l ls \<Longrightarrow> \<exists>ls'. ls = l # ls'"
  by (erule dir_walk.cases) auto

definition it_ok :: "fat \<Rightarrow> fat_dir_iter \<Rightarrow> bool" where
  "it_ok s it \<longleftrightarrow> (it_valid it \<longrightarrow> ramfat_rd (disk s) (it_buf_lba it) = Some (it_buf it))"

text \<open>\<open>dir_pos s it R\<close>: the iterator stands before the records \<open>R\<close>.\<close>

definition dir_pos :: "fat \<Rightarrow> fat_dir_iter \<Rightarrow> dir_rec list \<Rightarrow> bool" where
  "dir_pos s it R \<longleftrightarrow> it_ok s it \<and> (\<exists>ls. dir_walk (fat_M s) (disk s) (it_clus it) (it_lba it) (it_lba it # ls)
     \<and> unat (it_idx it) \<le> 16 \<and> R = drop (unat (it_idx it)) (sec_recs (disk s) (it_lba it)) @ dir_recs (disk s) ls)"

text \<open>The operations on the way change the shared buffer only.\<close>

definition same_disk :: "fat \<Rightarrow> fat \<Rightarrow> bool" where
  "same_disk s s' \<longleftrightarrow> fat_ok s' \<and> fat_M s' = fat_M s \<and> disk s' = disk s \<and> handles s' = handles s"

lemma same_disk_refl: "fat_ok s \<Longrightarrow> same_disk s s"
  by (simp add: same_disk_def)

lemma same_disk_trans: "same_disk s s' \<Longrightarrow> same_disk s' s'' \<Longrightarrow> same_disk s s''"
  by (simp add: same_disk_def)

lemma dir_pos_same: "same_disk s s' \<Longrightarrow> dir_pos s' it R = dir_pos s it R"
  by (simp add: dir_pos_def same_disk_def it_ok_def)

lemma same_disk_table: "same_disk s s' \<Longrightarrow> fat_table s' = fat_table s"
  by (simp add: same_disk_def fat_table_def fun_eq_iff)

lemma sec_recs_drop:
  "j < 16 \<Longrightarrow> drop j (sec_recs d l) = (l, j, slice (j * 32) 32 (the (ramfat_rd d l))) # drop (Suc j) (sec_recs d l)"
  by (simp add: sec_recs_def Cons_nth_drop_Suc [symmetric])

lemma length_sec_recs [simp]: "length (sec_recs d l) = 16"
  by (simp add: sec_recs_def)

lemma dir_load_ok:
  assumes "fat_ok s" "it_ok s it" "unat lba < ramfat_cap (disk s)"
  shows "\<exists>it'. dir_load_sector it s lba = (True, it', s) \<and> it_ok s it' \<and> it_buf it' = the (ramfat_rd (disk s) lba)
    \<and> it_clus it' = it_clus it \<and> it_lba it' = it_lba it \<and> it_idx it' = it_idx it"
proof -
  have ok: "ramfat_ok (disk s)" using assms(1) by (simp add: fat_ok_def coherent_def)
  obtain b where b: "ramfat_rd (disk s) lba = Some b" using rf.rd_some [OF ok assms(3)] by blast
  then show ?thesis using assms(2) by (auto simp: dir_load_sector_def blk_rd_eq [OF ok] it_ok_def)
qed

lemma dir_advance_ok:
  assumes "fat_ok s" "dir_walk (fat_M s) (disk s) (it_clus it) (it_lba it) (it_lba it # ls)"
  obtains (stop) s' where "dir_advance it s = (None, s')" "same_disk s s'" "ls = []"
  | (go) it' s' where "dir_advance it s = (Some it', s')" "same_disk s s'" "it_idx it' = 0" "\<not> it_valid it'"
      "ls = it_lba it' # tl ls" "dir_walk (fat_M s) (disk s) (it_clus it') (it_lba it') ls"
proof -
  let ?m = "fat_M s" and ?c = "it_clus it" and ?l = "it_lba it"
  have ct: "in_table ?m ?c" using assms(2) by (auto elim: dir_walkE)
  have w: "ls = [] \<and> dir_succ ?m (disk s) ?c ?l = None \<or> (\<exists>c' l'. dir_succ ?m (disk s) ?c ?l = Some (c', l') \<and> dir_walk ?m (disk s) c' l' ls)"
    using assms(2) by (auto elim: dir_walkE)
  obtain s' where n: "fat_next_clus s ?c = (fat_table s ?c, s')" "fat_ok s'" "disk s' = disk s" "fat_M s' = fat_M s" "same_data s s'"
    by (rule next_clus_table [OF assms(1) ct]) (rule that)
  have sd: "same_disk s s'" using n by (simp add: same_disk_def same_data_def)
  have lba: "fat_clus_to_lba t c = (if c < 2 then 0 else first_data_sec ?m + (c - 2) * sec_per_clus ?m)" if "fat_M t = ?m" for t c
    by (simp add: fat_clus_to_lba_def that)
  define r where "r = dir_advance it s"
  have r: "r = (case dir_succ ?m (disk s) ?c ?l of None \<Rightarrow> None
       | Some (c', l') \<Rightarrow> Some (it\<lparr>it_clus := c', it_lba := l', it_idx := 0, it_valid := False\<rparr>), snd r) \<and> same_disk s (snd r)"
    unfolding r_def dir_advance_def dir_succ_def Let_def lba [OF refl] n(1)
    by (auto simp: sd same_disk_refl [OF assms(1)] lba [OF n(4)] fat_table_def)
  show thesis
  proof (cases "dir_succ ?m (disk s) ?c ?l")
    case None
    then show thesis using r w by (intro stop [of "snd r"]) (auto simp: r_def)
  next
    case (Some cl)
    obtain c' l' where cl: "cl = (c', l')" by fastforce
    have "dir_walk ?m (disk s) c' l' ls" using w Some cl by auto
    moreover have "ls = l' # tl ls" using walk_hd [OF calculation] by auto
    moreover have "dir_advance it s = (Some (it\<lparr>it_clus := c', it_lba := l', it_idx := 0, it_valid := False\<rparr>), snd r)"
      using r Some cl by (metis (no_types, lifting) option.simps(5) prod.simps(2) r_def)
    ultimately show thesis using r by (intro go [of _ "snd r"]) auto
  qed
qed

section \<open>The iterator visits the live records\<close>

text \<open>The measure of the loop: the records ahead, and one for the change of the sector.\<close>

definition ahead :: "fat_dir_iter \<Rightarrow> dir_rec list \<Rightarrow> nat" where
  "ahead it R = 2 * length R + (if unat (it_idx it) = 16 then 1 else 0)"

lemma it_ok_simps [simp]:
  "it_ok s (clear_lfn it) = it_ok s it" "it_ok s (next_entry it) = it_ok s it"
  "it_ok s (it\<lparr>it_lfn := x, it_lfn_len := y\<rparr>) = it_ok s it" "it_ok s (it\<lparr>it_lfn_len := y\<rparr>) = it_ok s it"
  by (simp_all add: it_ok_def clear_lfn_def next_entry_def)

lemma dir_pos_cong:
  "it_clus it' = it_clus it \<Longrightarrow> it_lba it' = it_lba it \<Longrightarrow> it_idx it' = it_idx it \<Longrightarrow> it_ok s it' \<Longrightarrow> dir_pos s it R \<Longrightarrow> dir_pos s it' R"
  by (simp add: dir_pos_def)

lemma dir_entry_pass_ok:
  assumes "it_ok s it" "unat (it_idx it) < 16" "slice (unat (it_idx it) * 32) 32 (the (ramfat_rd (disk s) (it_lba it))) = e"
    and "dir_walk (fat_M s) (disk s) (it_clus it) (it_lba it) (it_lba it # ls)"
    and "R = drop (unat (it_idx it)) (sec_recs (disk s) (it_lba it)) @ dir_recs (disk s) ls"
  obtains (stop) it' where "dir_entry_pass e it s mx = Stop 1 it' s" "live_recs R = []"
  | (found) lfn it' R' where "dir_entry_pass e it s mx = Found (parse_dirent e) lfn it' s"
      "live_recs R = (it_lba it, unat (it_idx it), e) # live_recs R'" "dir_pos s it' R'" "length R' < length R"
      "it_lba it' = it_lba it" "it_idx it' = it_idx it + 1"
  | (again) it' R' where "dir_entry_pass e it s mx = Again it' s" "live_recs R = live_recs R'" "dir_pos s it' R'" "length R' < length R"
proof -
  let ?j = "unat (it_idx it)" and ?l = "it_lba it"
  define R' where "R' = drop (Suc ?j) (sec_recs (disk s) ?l) @ dir_recs (disk s) ls"
  have R: "R = (?l, ?j, e) # R'" using assms(2,3,5) sec_recs_drop [of ?j] by (simp add: R'_def)
  have j: "unat (it_idx it + 1) = Suc ?j" using assms(2) by (simp add: unat_word_ariths)
  have pos: "dir_pos s it' R'" if "it_clus it' = it_clus it" "it_lba it' = ?l" "it_idx it' = it_idx it + 1" "it_ok s it'" for it'
    using that assms(2,4) j by (auto simp: dir_pos_def R'_def)
  have len: "length R' < length R" by (simp add: R)
  show thesis
  proof (cases "e ! 0 = 0")
    case True
    then show thesis by (intro stop [of it]) (simp_all add: dir_entry_pass_def R live_recs_def)
  next
    case nz: False
    show thesis
    proof (cases "live (?l, ?j, e)")
      case True
      have "dir_pos s (clear_lfn (next_entry it)) R'"
        by (rule pos) (use assms(1) in \<open>simp_all add: clear_lfn_def next_entry_def it_ok_def\<close>)
      moreover have "it_lba (clear_lfn (next_entry it)) = ?l" "it_idx (clear_lfn (next_entry it)) = it_idx it + 1"
        by (simp_all add: clear_lfn_def next_entry_def)
      ultimately show thesis using True nz len
        by (intro found [of "lfn_result it mx" "clear_lfn (next_entry it)" R'])
           (auto simp: dir_entry_pass_def R live_recs_def live_def)
    next
      case False
      have "\<exists>it'. dir_entry_pass e it s mx = Again it' s \<and> it_clus it' = it_clus it \<and> it_lba it' = ?l \<and> it_idx it' = it_idx it + 1 \<and> it_ok s it'"
        using False nz assms(1)
        by (auto simp: dir_entry_pass_def live_def clear_lfn_def next_entry_def it_ok_def split: prod.splits)
      then show thesis using False nz pos len by (elim exE conjE, intro again) (auto simp: R live_recs_def)
    qed
  qed
qed

lemma dir_pass_ok:
  assumes "fat_ok s" "dir_pos s it R"
  obtains (stop) it' s' where "dir_pass_of it s mx = Stop 1 it' s'" "same_disk s s'" "live_recs R = []"
  | (found) l j e lfn it' s' R' where "dir_pass_of it s mx = Found (parse_dirent e) lfn it' s'" "same_disk s s'"
      "live_recs R = (l, j, e) # live_recs R'" "dir_pos s' it' R'" "length R' < length R" "it_lba it' = l" "it_idx it' = of_nat j + 1"
  | (again) it' s' R' where "dir_pass_of it s mx = Again it' s'" "same_disk s s'" "live_recs R = live_recs R'"
      "dir_pos s' it' R'" "ahead it' R' < ahead it R"
proof -
  obtain ls where it: "it_ok s it" and w: "dir_walk (fat_M s) (disk s) (it_clus it) (it_lba it) (it_lba it # ls)"
    and j: "unat (it_idx it) \<le> 16" and R: "R = drop (unat (it_idx it)) (sec_recs (disk s) (it_lba it)) @ dir_recs (disk s) ls"
    using assms(2) by (auto simp: dir_pos_def)
  have l: "it_lba it \<noteq> 0" "unat (it_lba it) < ramfat_cap (disk s)" using w by (auto elim: dir_walkE)
  obtain it1 where it1: "dir_load_sector it s (it_lba it) = (True, it1, s)" "it_ok s it1"
    "it_buf it1 = the (ramfat_rd (disk s) (it_lba it))" "it_clus it1 = it_clus it" "it_lba it1 = it_lba it" "it_idx it1 = it_idx it"
    using dir_load_ok [OF assms(1) it l(2)] by blast
  show thesis
  proof (cases "unat (it_idx it) < 16")
    case True
    have p: "dir_pass_of it s mx = dir_entry_pass (slice (unat (it_idx it) * 32) 32 (it_buf it1)) it1 s mx"
      using True l it1 by (simp add: dir_pass_of_def word_le_nat_alt)
    from True it1 w R show thesis
    proof (rule_tac dir_entry_pass_ok [of s it1 "slice (unat (it_idx it) * 32) 32 (it_buf it1)" ls R mx], goal_cases)
      case (6 it') then show ?case using p assms(1) by (intro stop [of it' s]) (simp_all add: same_disk_refl)
    next
      case (7 lfn it' R') then show ?case using p assms(1) by (intro found) (auto simp: same_disk_refl)
    next
      case (8 it' R') then show ?case using p assms(1) by (intro again) (auto simp: same_disk_refl ahead_def)
    qed simp_all
  next
    case False
    then have j16: "unat (it_idx it) = 16" and R: "R = dir_recs (disk s) ls" using j R by simp_all
    have p: "dir_pass_of it s mx = (case dir_advance it1 s of (None, s2) \<Rightarrow> Stop 1 it1 s2 | (Some it2, s2) \<Rightarrow> Again it2 s2)"
      using j16 l it1 by (simp add: dir_pass_of_def word_le_nat_alt)
    from assms(1) have "dir_walk (fat_M s) (disk s) (it_clus it1) (it_lba it1) (it_lba it1 # ls)" using w it1 by simp
    with assms(1) show thesis
    proof (rule dir_advance_ok)
      fix s' assume a: "dir_advance it1 s = (None, s')" "same_disk s s'" "ls = []"
      then show thesis using p R by (intro stop [of it1 s']) (simp_all add: live_recs_def dir_recs_def)
    next
      fix it' s' assume a: "dir_advance it1 s = (Some it', s')" "same_disk s s'" "it_idx it' = 0" "\<not> it_valid it'"
        "ls = it_lba it' # tl ls" "dir_walk (fat_M s) (disk s) (it_clus it') (it_lba it') ls"
      have "R = sec_recs (disk s) (it_lba it') @ dir_recs (disk s) (tl ls)"
        unfolding R by (subst a(5)) (simp add: dir_recs_def)
      then have "dir_pos s it' R" using a by (auto simp: dir_pos_def it_ok_def intro: exI [of _ "tl ls"])
      then show thesis using p a j16 by (intro again [of it' s' R]) (simp_all add: dir_pos_same ahead_def)
    qed
  qed
qed

lemma dirnext_loop_ok:
  assumes "fat_ok s" "dir_pos s it R"
  shows "\<exists>r it' s'. dirnext_loop it s mx = Some (r, it', s') \<and> same_disk s s' \<and>
    (case live_recs R of [] \<Rightarrow> r = Inl 1
     | (l, j, e) # _ \<Rightarrow> \<exists>lfn R'. r = Inr (parse_dirent e, lfn) \<and> live_recs R = (l, j, e) # live_recs R' \<and> dir_pos s' it' R'
         \<and> length R' < length R \<and> it_lba it' = l \<and> it_idx it' = of_nat j + 1)"
  using assms
proof (induction "ahead it R" arbitrary: it s R rule: less_induct)
  case less
  show ?case
  proof (rule dir_pass_ok [OF less.prems, of mx])
    fix it' s' assume "dir_pass_of it s mx = Stop 1 it' s'" "same_disk s s'" "live_recs R = []"
    then show ?thesis by (subst dirnext_loop.simps) simp
  next
    fix l j e lfn it' s' R' assume "dir_pass_of it s mx = Found (parse_dirent e) lfn it' s'" "same_disk s s'"
      "live_recs R = (l, j, e) # live_recs R'" "dir_pos s' it' R'" "length R' < length R" "it_lba it' = l" "it_idx it' = of_nat j + 1"
    then show ?thesis by (subst dirnext_loop.simps) auto
  next
    fix it1 s1 R1 assume a: "dir_pass_of it s mx = Again it1 s1" "same_disk s s1" "live_recs R = live_recs R1"
      "dir_pos s1 it1 R1" "ahead it1 R1 < ahead it R"
    have "fat_ok s1" using a(2) by (simp add: same_disk_def)
    from less.hyps [OF a(5) this a(4)] obtain r it' s' where IH: "dirnext_loop it1 s1 mx = Some (r, it', s')" "same_disk s1 s'"
      "case live_recs R1 of [] \<Rightarrow> r = Inl 1
       | (l, j, e) # _ \<Rightarrow> \<exists>lfn R'. r = Inr (parse_dirent e, lfn) \<and> live_recs R1 = (l, j, e) # live_recs R' \<and> dir_pos s' it' R'
         \<and> length R' < length R1 \<and> it_lba it' = l \<and> it_idx it' = of_nat j + 1" by blast
    have "length R1 \<le> length R" using a(5) by (auto simp: ahead_def split: if_splits)
    moreover have "dirnext_loop it s mx = Some (r, it', s')" using IH(1) a(1) by (subst dirnext_loop.simps) simp
    ultimately show ?thesis using IH(2,3) same_disk_trans [OF a(2) IH(2)] unfolding a(3)
      by (auto split: list.splits intro: less_le_trans)
  qed
qed

text \<open>A search that does not look at long names finds the first live record with the property.\<close>

lemma dir_search_ok:
  assumes "fat_ok s" "m_valid (fat_M s)" "dir_pos s it R"
  shows "\<exists>r it' s'. dir_search (\<lambda>de _. P de) it s = Some (r, it', s') \<and> same_disk s s' \<and>
    (case find (\<lambda>(l, j, e). P (parse_dirent e)) (live_recs R) of None \<Rightarrow> \<exists>rc. r = Inl rc
     | Some (l, j, e) \<Rightarrow> r = Inr (parse_dirent e) \<and> it_lba it' = l \<and> it_idx it' = of_nat j + 1)"
  using assms
proof (induction "length R" arbitrary: it s R rule: less_induct)
  case less
  have "dir_pos s (clear_lfn it) R" using less.prems(3) by (auto simp: dir_pos_def clear_lfn_def it_ok_def)
  from dirnext_loop_ok [OF less.prems(1) this, of 256] obtain r it1 s1 where
    n: "fat_dirnext it s 256 = Some (r, it1, s1)" and sd: "same_disk s s1" and
    c: "case live_recs R of [] \<Rightarrow> r = Inl 1
     | (l, j, e) # _ \<Rightarrow> \<exists>lfn R'. r = Inr (parse_dirent e, lfn) \<and> live_recs R = (l, j, e) # live_recs R' \<and> dir_pos s1 it1 R'
         \<and> length R' < length R \<and> it_lba it1 = l \<and> it_idx it1 = of_nat j + 1"
    using less.prems(2) by (auto simp: fat_dirnext_def)
  show ?case
  proof (cases "live_recs R")
    case Nil
    then have "r = Inl 1" using c by simp
    then show ?thesis using n sd Nil by (subst dir_search.simps) simp
  next
    case (Cons x xs)
    obtain l j e where x: "x = (l, j, e)" by (cases x)
    obtain lfn R' where r: "r = Inr (parse_dirent e, lfn)" "live_recs R = (l, j, e) # live_recs R'" "dir_pos s1 it1 R'"
      "length R' < length R" "it_lba it1 = l" "it_idx it1 = of_nat j + 1" using c Cons x by auto
    show ?thesis
    proof (cases "P (parse_dirent e)")
      case True
      then show ?thesis using n r sd by (subst dir_search.simps) simp
    next
      case False
      have "fat_ok s1" "m_valid (fat_M s1)" using sd less.prems(2) by (simp_all add: same_disk_def)
      from less.hyps [OF r(4) this r(3)] obtain r' it' s' where IH: "dir_search (\<lambda>de _. P de) it1 s1 = Some (r', it', s')" "same_disk s1 s'"
        "case find (\<lambda>(l, j, e). P (parse_dirent e)) (live_recs R') of None \<Rightarrow> \<exists>rc. r' = Inl rc
         | Some (l, j, e) \<Rightarrow> r' = Inr (parse_dirent e) \<and> it_lba it' = l \<and> it_idx it' = of_nat j + 1" by blast
      have "dir_search (\<lambda>de _. P de) it s = Some (r', it', s')" using n r(1) False IH(1) by (subst dir_search.simps) simp
      then show ?thesis using IH(2,3) same_disk_trans [OF sd IH(2)] r(2) False by simp
    qed
  qed
qed

text \<open>Where the walk over a directory starts: its first cluster (0 for the root) and first sector.\<close>

definition dir_start :: "fat \<Rightarrow> u32 \<Rightarrow> u32 \<times> u32" where
  "dir_start s parent =
     (if parent \<noteq> 0 then (parent, fat_clus_to_lba s parent)
      else if m_type (fat_M s) = FAT32 then (root_clus (fat_M s), fat_clus_to_lba s (root_clus (fat_M s)))
      else (0, first_root_sec (fat_M s)))"

lemma dir_pos_start:
  assumes "m_valid (fat_M s)" "dir_start s parent = (c, l)" "dir_walk (fat_M s) (disk s) c l ls"
  shows "\<exists>it. (if parent = 0 then fat_diropen_root iter0 s else fat_diropen_clus iter0 s parent) = (0, it)
    \<and> dir_pos s it (dir_recs (disk s) ls)"
proof -
  obtain ls' where ls: "ls = l # ls'" using walk_hd [OF assms(3)] by blast
  have "dir_pos s (iter_at iter0 c l) (dir_recs (disk s) ls)"
    using assms(3) by (auto simp: dir_pos_def it_ok_def iter_at_def ls dir_recs_def)
  then show ?thesis
    using assms(1,2) by (auto simp: fat_diropen_root_def fat_diropen_clus_def dir_start_def split: if_splits)
qed

lemma find_cong: "(\<And>x. x \<in> set xs \<Longrightarrow> P x = Q x) \<Longrightarrow> find P xs = find Q xs"
  by (induction xs) auto

lemma live_recs_volid: "r \<in> set (live_recs R) \<Longrightarrow> snd (snd r) ! 11 AND ATTR_VOLID = 0"
  by (auto simp: live_recs_def live_def Let_def)

text \<open>
  C17: Directory lookup. Let the walk over a directory of a mounted sound volume visit the sectors \<open>ls\<close>. Then the
  search for a raw name returns, and what it returns is the place of the first entry with that name among
  the live records of these sectors, or 1 when there is none; nothing on the disk changes.
\<close>

theorem find_dirent_spec:
  assumes "fat_ok s" "m_valid (fat_M s)" "dir_start s parent = (c, l)" "dir_walk (fat_M s) (disk s) c l ls"
  shows "\<exists>s'. find_dirent_at s parent raw =
      Some (case find (\<lambda>(l, j, e). take 11 e = raw) (live_recs (dir_recs (disk s) ls)) of
              None \<Rightarrow> Inl 1 | Some (l, j, e) \<Rightarrow> Inr (l, of_nat j * 32), s') \<and> same_disk s s'"
proof -
  obtain it where it: "(if parent = 0 then fat_diropen_root iter0 s else fat_diropen_clus iter0 s parent) = (0, it)"
    "dir_pos s it (dir_recs (disk s) ls)" using dir_pos_start [OF assms(2,3,4)] by blast
  let ?R = "live_recs (dir_recs (disk s) ls)" and ?P = "\<lambda>de. de_attr de AND ATTR_VOLID = 0 \<and> de_name de = raw"
  have f: "find (\<lambda>(l, j, e). ?P (parse_dirent e)) ?R = find (\<lambda>(l, j, e). take 11 e = raw) ?R"
    by (rule find_cong) (use live_recs_volid in \<open>fastforce simp: parse_dirent_def\<close>)
  obtain r it' s' where r: "dir_search (\<lambda>de _. ?P de) it s = Some (r, it', s')" "same_disk s s'"
    "case find (\<lambda>(l, j, e). take 11 e = raw) ?R of None \<Rightarrow> \<exists>rc. r = Inl rc
     | Some (l, j, e) \<Rightarrow> r = Inr (parse_dirent e) \<and> it_lba it' = l \<and> it_idx it' = of_nat j + 1"
    using dir_search_ok [OF assms(1,2) it(2), of ?P] unfolding f by blast
  have "find_dirent_at s parent raw = locate raw it s" using it(1) by (simp add: find_dirent_at_def)
  then show ?thesis using r by (auto simp: locate_def split: option.splits)
qed

lemma fat_find_dirent_root: "fat_find_dirent s raw = find_dirent_at s 0 raw"
  by (simp add: fat_find_dirent_def find_dirent_at_def)

section \<open>A volume with one file\<close>

lemma slice_concat: "\<forall>x \<in> set xs. length x = n \<Longrightarrow> i < length xs \<Longrightarrow> slice (i * n) n (concat xs) = xs ! i"
proof (induction xs arbitrary: i)
  case (Cons x xs)
  then show ?case by (cases i) (auto simp: slice_def)
qed simp

text \<open>The volume of \<open>demo_fat\<close> with a file \<open>HI\<close> of three bytes in cluster 2.\<close>

definition demo_secs :: "u8 list list" where
  "demo_secs = [replicate 512 0,
     [0xF8, 0xFF, 0xFF, 0xFF, 0x0F] @ replicate 507 0, [0xF8, 0xFF, 0xFF, 0xFF, 0x0F] @ replicate 507 0,
     build_raw_name [0x48, 0x49] @ [0x20] @ replicate 14 0 @ [2, 0, 3, 0, 0, 0] @ replicate 480 0,
     [0x61, 0x62, 0x63] @ replicate 509 0, replicate 512 0, replicate 512 0, replicate 512 0]"

definition demo_vol :: fat where
  "demo_vol = demo_fat\<lparr>disk := (disk demo_fat)\<lparr>ramfat_rw := concat demo_secs\<rparr>\<rparr>"

lemma length_raw [simp]: "length (build_raw_name n) = 11"
  by (simp add: build_raw_name_def Let_def)

lemma demo_secs_length: "length demo_secs = 8" "\<forall>x \<in> set demo_secs. length x = 512" "length (concat demo_secs) = 4096"
  by (simp_all add: demo_secs_def)

lemma demo_vol_disk: "ramfat_ok (disk demo_vol)" "ramfat_cap (disk demo_vol) = 8"
  by (simp_all add: demo_vol_def demo_fat_def ramfat_ok_def ramfat_cap_def SECTOR_SIZE_def demo_secs_length)

lemma demo_vol_ok: "fat_ok demo_vol" "m_valid (fat_M demo_vol)"
proof -
  have "fat_M demo_vol = fat_M demo_fat" "fat_buf_valid demo_vol = False" "sec_buf_valid demo_vol = False"
    by (simp_all add: demo_vol_def demo_fat_def)
  moreover have "ramfat_cap (disk demo_fat) = 8" by (simp add: demo_fat_def ramfat_cap_def SECTOR_SIZE_def)
  ultimately show "fat_ok demo_vol" "m_valid (fat_M demo_vol)"
    using demo_fat_ok demo_vol_disk by (simp_all add: fat_ok_def coherent_def demo_fat_def)
qed

lemma demo_rd: "i < 8 \<Longrightarrow> ramfat_rd (disk demo_vol) (of_nat i) = Some (demo_secs ! i)"
proof -
  assume i: "i < 8"
  have "unat (of_nat i :: u32) = i" using i by (simp add: unat_of_nat_small)
  then show ?thesis
    using i slice_concat [OF demo_secs_length(2), of i] demo_vol_disk demo_secs_length(1)
    by (simp add: ramfat_rd_ok) (simp add: demo_vol_def)
qed

lemma demo_walk: "dir_walk (fat_M demo_vol) (disk demo_vol) 0 3 [3]"
  by (rule walk_last) (simp_all add: demo_vol_disk in_table_def, simp add: dir_succ_def demo_vol_def demo_fat_def)

lemma demo_find:
  "find (\<lambda>(l, j, e). take 11 e = build_raw_name [0x68, 0x69]) (live_recs (dir_recs (disk demo_vol) [3]))
   = Some (3, 0, take 32 (demo_secs ! 3))"
proof -
  have "ramfat_rd (disk demo_vol) 3 = Some (demo_secs ! 3)" using demo_rd [of 3] by simp
  then have "sec_recs (disk demo_vol) 3 = map (\<lambda>j. (3, j, slice (j * 32) 32 (demo_secs ! 3))) [0..<16]"
    by (simp add: sec_recs_def)
  moreover have "[0..<16] = 0 # [1..<16 :: nat]" by (simp add: upt_rec)
  moreover have "build_raw_name [0x68, 0x69] = build_raw_name [0x48, 0x49 :: u8]"
    by (simp add: build_raw_name_def upc_def)
  ultimately show ?thesis
    by (simp add: dir_recs_def live_recs_def live_def Let_def slice_def demo_secs_def build_raw_name_def upc_def pad_def nth_append)
qed

lemma find_dirent_spec_witness: "\<exists>s'. find_dirent_at demo_vol 0 (build_raw_name [0x68, 0x69]) = Some (Inr (3, 0), s')"
proof -
  have "dir_start demo_vol 0 = (0, 3)" by (simp add: dir_start_def demo_vol_def demo_fat_def)
  from find_dirent_spec [OF demo_vol_ok this demo_walk, of "build_raw_name [0x68, 0x69]"]
  show ?thesis unfolding demo_find by auto
qed

end
