(* ===== verification/Fat_File.thy ===== *)
theory Fat_File
  imports Fat_Dir
begin

text \<open>
  The FAT driver of XCP/M (\<open>xcpm-mips/src/fat.c\<close>), part three: files. A file handle is a record of the
  caller; every operation returns it changed. Results keep the numbers of the code. \<open>None\<close> stands for an
  access outside the sector buffer (an offset of a directory entry that is not below 481), a division by
  zero (an unmounted volume in \<open>fat_fseek\<close>), or a walk along a directory that does not end.
\<close>

section \<open>Opening and reading\<close>

definition open_handle :: "fat_dirent \<Rightarrow> fat_file \<Rightarrow> fat_file" where
  "open_handle de fp =
     fp\<lparr>in_use := True, first_clus := de_clus de, cur_clus := de_clus de, cur_pos := 0,
        file_size := de_file_size de, f_attr := de_attr de\<rparr>"

partial_function (option) fopen_walk :: "cstring \<Rightarrow> fat_dir_iter \<Rightarrow> fat \<Rightarrow> fat_file \<Rightarrow> (int \<times> fat_file \<times> fat) option" where
  "fopen_walk path it s fp =
     (if path = [] then Some (-2, fp, s)
      else case find_entry_in_dir it s (path_comp path) of
             None \<Rightarrow> None
           | Some (None, it1, s1) \<Rightarrow> Some (-2, fp, s1)
           | Some (Some de, it1, s1) \<Rightarrow>
               (case path_rest path of
                  c # rest \<Rightarrow>
                    if c = 0x2F then
                      (if de_attr de AND ATTR_DIR = 0 then Some (-3, fp, s1)
                       else case fat_diropen_clus it1 s1 (de_clus de) of
                              (rc, it2) \<Rightarrow> if rc \<noteq> 0 then Some (-1, fp, s1) else fopen_walk rest it2 s1 fp)
                    else if de_attr de AND ATTR_DIR \<noteq> 0 then Some (-4, fp, s1) else Some (0, open_handle de fp, s1)
                | [] \<Rightarrow> if de_attr de AND ATTR_DIR \<noteq> 0 then Some (-4, fp, s1) else Some (0, open_handle de fp, s1)))"

definition fat_fopen :: "fat \<Rightarrow> cstring \<Rightarrow> fat_file \<Rightarrow> (int \<times> fat_file \<times> fat) option" where
  "fat_fopen s path fp =
     (if \<not> m_valid (fat_M s) then Some (-1, fp, s)
      else case fat_diropen_root iter0 s of
             (rc, it) \<Rightarrow> if rc \<noteq> 0 then Some (-1, fp, s) else fopen_walk (strip_slash path) it s fp)"

definition clus_size :: "fat \<Rightarrow> u32" where
  "clus_size s = sec_per_clus (fat_M s) * 512"

text \<open>The sector under the file position, and the offset in it.\<close>

definition pos_lba :: "fat \<Rightarrow> fat_file \<Rightarrow> u32" where
  "pos_lba s fp = fat_clus_to_lba s (cur_clus fp) + (cur_pos fp AND (clus_size s - 1)) div 512"

definition pos_off :: "fat \<Rightarrow> fat_file \<Rightarrow> u32" where
  "pos_off s fp = (cur_pos fp AND (clus_size s - 1)) AND 511"

lemma pos_off_less: "unat (pos_off s fp) < 512"
proof -
  have m: "(511 :: u32) = mask 9" by (simp add: mask_eq_exp_minus_1)
  show ?thesis unfolding pos_off_def m unat_and_mask by simp
qed

definition chunk_len :: "fat \<Rightarrow> fat_file \<Rightarrow> u32 \<Rightarrow> u32" where
  "chunk_len s fp rest = (if rest < 512 - pos_off s fp then rest else 512 - pos_off s fp)"

lemma chunk_nat: "unat (chunk_len s fp r) = min (unat r) (512 - unat (pos_off s fp))"
proof -
  have "unat (512 - pos_off s fp) = 512 - unat (pos_off s fp)"
    using pos_off_less [of s fp] by (subst unat_sub) (auto simp: word_le_nat_alt)
  then show ?thesis by (auto simp: chunk_len_def word_less_nat_alt)
qed

lemma chunk_pos: "r \<noteq> 0 \<Longrightarrow> 0 < unat (chunk_len s fp r)"
  using pos_off_less [of s fp] by (simp add: chunk_nat unat_gt_0)

definition produced :: "u8 list \<Rightarrow> int" where
  "produced acc = sint (of_nat (length acc) :: u32)"

text \<open>The loop of \<open>fat_fread\<close>; \<open>rest\<close> is \<open>max - produced\<close> and \<open>acc\<close> what is in the caller's buffer already.\<close>

function fread_loop :: "u32 \<Rightarrow> u8 list \<Rightarrow> fat_file \<Rightarrow> fat \<Rightarrow> (int \<times> u8 list) \<times> fat_file \<times> fat" where
  "fread_loop rest acc fp s =
     (if rest = 0 then ((produced acc, acc), fp, s)
      else case read_sec (s\<lparr>fat_buf_valid := False\<rparr>) (pos_lba s fp) of
             (None, s1) \<Rightarrow> ((-1, acc), fp, s1)
           | (Some b, s1) \<Rightarrow>
               (let s2 = s1\<lparr>fat_wbuf := b\<rparr>; n = chunk_len s fp rest;
                    acc1 = acc @ slice (unat (pos_off s fp)) (unat n) b; fp1 = fp\<lparr>cur_pos := cur_pos fp + n\<rparr> in
                if cur_pos fp1 AND (clus_size s - 1) = 0 \<and> rest - n \<noteq> 0 then
                  (case fat_next_clus s2 (cur_clus fp1) of
                     (nxt, s3) \<Rightarrow>
                       if nxt = FAT_END then ((produced acc1, acc1), fp1, s3)
                       else fread_loop (rest - n) acc1 (fp1\<lparr>cur_clus := nxt\<rparr>) s3)
                else fread_loop (rest - n) acc1 fp1 s2))"
  by pat_completeness auto

lemma rest_less: "r \<noteq> 0 \<Longrightarrow> unat (r - chunk_len s fp r) < unat r"
proof -
  assume r: "r \<noteq> 0"
  have "chunk_len s fp r \<le> r" by (simp add: word_le_nat_alt chunk_nat)
  then have "unat (r - chunk_len s fp r) = unat r - unat (chunk_len s fp r)" by (rule unat_sub)
  then show ?thesis using chunk_pos [OF r, of s fp] r by (simp add: unat_gt_0)
qed

termination fread_loop
  by (relation "measure (\<lambda>(rest, acc, fp, s). unat rest)") (use rest_less in auto)

declare fread_loop.simps [simp del]

definition fat_fread :: "fat \<Rightarrow> fat_file \<Rightarrow> u32 \<Rightarrow> (int \<times> u8 list) \<times> fat_file \<times> fat" where
  "fat_fread s fp mx =
     (if \<not> in_use fp then ((-1, []), fp, s)
      else if file_size fp \<le> cur_pos fp then ((0, []), fp, s)
      else fread_loop (min mx (file_size fp - cur_pos fp)) [] fp s)"

definition fat_fclose :: "fat_file \<Rightarrow> fat_file" where
  "fat_fclose fp = fp\<lparr>in_use := False\<rparr>"

definition fat_fsize :: "fat_file \<Rightarrow> u32" where
  "fat_fsize fp = (if in_use fp then file_size fp else 0)"

primrec skip_clus :: "nat \<Rightarrow> fat_file \<Rightarrow> fat \<Rightarrow> int \<times> fat_file \<times> fat" where
  "skip_clus 0 fp s = (0, fp, s)"
| "skip_clus (Suc n) fp s =
     (case fat_next_clus s (cur_clus fp) of
        (nxt, s1) \<Rightarrow> if nxt = FAT_END then (-1, fp, s1) else skip_clus n (fp\<lparr>cur_clus := nxt\<rparr>) s1)"

definition fat_fseek :: "fat \<Rightarrow> fat_file \<Rightarrow> u32 \<Rightarrow> (int \<times> fat_file \<times> fat) option" where
  "fat_fseek s fp byte_pos =
     (if \<not> in_use fp then Some (-1, fp, s)
      else let pos = min byte_pos (file_size fp); fp1 = fp\<lparr>cur_pos := pos, cur_clus := first_clus fp\<rparr> in
        if clus_size s = 0 then None else Some (skip_clus (unat (pos div clus_size s)) fp1 s))"

section \<open>Changing directory entries\<close>

text \<open>Go on in the option monad when a sector operation succeeded, else return \<open>e\<close>.\<close>

definition io_do :: "bool \<times> fat \<Rightarrow> (fat \<Rightarrow> ('a \<times> fat) option) \<Rightarrow> 'a \<Rightarrow> ('a \<times> fat) option" where
  "io_do r f e = (if fst r then f (snd r) else Some (e, snd r))"

definition ret_io :: "bool \<times> fat \<Rightarrow> int \<times> fat" where
  "ret_io r = (if fst r then 0 else -1, snd r)"

text \<open>A change of the 32 bytes of an entry in the buffer.\<close>

definition slot_upd :: "u32 \<Rightarrow> (nat \<Rightarrow> u8 list \<Rightarrow> u8 list) \<Rightarrow> fat \<Rightarrow> fat option" where
  "slot_upd off f s = (if unat off + 32 \<le> 512 then Some (wb_upd (f (unat off)) s) else None)"

definition slot_clus :: "u32 \<Rightarrow> fat \<Rightarrow> u32" where
  "slot_clus off s = join_clus (rd16 (fat_wbuf s) (unat off + 20)) (rd16 (fat_wbuf s) (unat off + 26))"

definition put_clus :: "u32 \<Rightarrow> nat \<Rightarrow> u8 list \<Rightarrow> u8 list" where
  "put_clus c i b = wr16 (ucast (drop_bit 16 c)) (i + 20) (wr16 (ucast c) (i + 26) b)"

text \<open>An entry with this name and attribute byte, all other bytes 0.\<close>

definition blank_entry :: "u8 list \<Rightarrow> u8 \<Rightarrow> u8 list" where
  "blank_entry raw attr = raw @ [attr] @ replicate 20 0"

definition new_handle :: "u32 \<Rightarrow> u32 \<Rightarrow> fat_file" where
  "new_handle lba off =
     \<lparr>in_use = True, first_clus = 0, cur_clus = 0, cur_pos = 0, file_size = 0, dir_lba = lba, dir_off = off, f_attr = 0x20\<rparr>"

text \<open>\<open>if (first_clus >= 2) fat_free_chain(first_clus)\<close>, whose result is not looked at.\<close>

definition free_from :: "u32 \<Rightarrow> fat \<Rightarrow> fat option" where
  "free_from c s = (if c < 2 then Some s else map_option snd (fat_free_chain s c))"

definition truncate_entry :: "u32 \<Rightarrow> u32 \<Rightarrow> fat \<Rightarrow> (int \<times> fat) option" where
  "truncate_entry lba off s =
     io_do (wb_read s lba)
       (\<lambda>s1. if 512 < unat off + 32 then None
         else do { s2 \<leftarrow> free_from (slot_clus off s1) s1;
                   io_do (wb_read s2 lba)
                     (\<lambda>s3. do { s4 \<leftarrow> slot_upd off (\<lambda>i b. (wr16 0 (i + 26) (wr16 0 (i + 20) (wr32 0 (i + 28) b)))[i + 11 := 0x20]) s3;
                               Some (ret_io (wb_write lba s4)) }) (-1) }) (-1)"

definition plant_entry :: "u8 list \<Rightarrow> u32 \<Rightarrow> u32 \<Rightarrow> fat \<Rightarrow> (int \<times> fat) option" where
  "plant_entry e lba off s =
     io_do (wb_read s lba)
       (\<lambda>s1. do { s2 \<leftarrow> slot_upd off (\<lambda>i b. splice i e b) s1; Some (ret_io (wb_write lba s2)) }) (-1)"

definition fat_fcreate :: "fat \<Rightarrow> cstring \<Rightarrow> fat_file \<Rightarrow> (int \<times> fat_file \<times> fat) option" where
  "fat_fcreate s0 path fp =
     (if \<not> m_valid (fat_M s0) then Some (-1, fp, s0)
      else let s = s0\<lparr>fat_buf_valid := False\<rparr>; raw = build_raw_name (strip_slash path);
               done_at = (\<lambda>lba off r. case r of (rc, s') \<Rightarrow> if rc \<noteq> 0 then (-1, fp, s') else (0, new_handle lba off, s')) in
        do { (found, s1) \<leftarrow> fat_find_dirent s raw;
             (case found of
                Inr (lba, off) \<Rightarrow> map_option (done_at lba off) (truncate_entry lba off s1)
              | Inl rc \<Rightarrow>
                  if rc < 0 then Some (-1, fp, s1)
                  else do { (slot, s2) \<leftarrow> fat_find_empty_dirent s1;
                            (case slot of
                               Inl _ \<Rightarrow> Some (-1, fp, s2)
                             | Inr (lba, off) \<Rightarrow> map_option (done_at lba off) (plant_entry (blank_entry raw 0x20) lba off s2)) }) })"

section \<open>Writing\<close>

text \<open>The first cluster of a file that has none: \<open>Inl\<close> is the return value when that fails.\<close>

definition first_alloc :: "u32 \<Rightarrow> fat_file \<Rightarrow> fat \<Rightarrow> ((int option \<times> fat_file) \<times> fat) option" where
  "first_alloc written fp s =
     (if first_clus fp \<noteq> 0 then Some ((None, fp), s)
      else case fat_alloc_cluster s of
             (nc, s1) \<Rightarrow>
               if nc = 0 then Some ((Some (sint written), fp), s1)
               else let fp1 = fp\<lparr>first_clus := nc, cur_clus := nc\<rparr> in
                 io_do (wb_read s1 (dir_lba fp1))
                   (\<lambda>s2. do { s3 \<leftarrow> slot_upd (dir_off fp1) (put_clus nc) s2;
                             io_do (wb_write (dir_lba fp1) s3) (\<lambda>s4. Some ((None, fp1), s4)) (Some (-1), fp1) }) (Some (-1), fp1))"

text \<open>The step to the next cluster, which is allocated and linked when the chain ends here.\<close>

definition next_or_extend :: "u32 \<Rightarrow> fat_file \<Rightarrow> fat \<Rightarrow> (int option \<times> fat_file) \<times> fat" where
  "next_or_extend written fp s =
     (case fat_next_clus s (cur_clus fp) of
        (nxt, s1) \<Rightarrow>
          if nxt \<noteq> FAT_END then ((None, fp\<lparr>cur_clus := nxt\<rparr>), s1)
          else case fat_alloc_cluster s1 of
                 (nc, s2) \<Rightarrow>
                   if nc = 0 then ((Some (sint written), fp), s2)
                   else io_then (fat_set_entry s2 (cur_clus fp) nc)
                          (\<lambda>s3. ((None, fp\<lparr>cur_clus := nc\<rparr>), s3)) (Some (-1), fp))"

definition advance_pos :: "fat_file \<Rightarrow> u32 \<Rightarrow> fat_file" where
  "advance_pos fp n =
     (let pos = cur_pos fp + n in fp\<lparr>cur_pos := pos, file_size := (if file_size fp < pos then pos else file_size fp)\<rparr>)"

text \<open>One sector of the loop of \<open>fat_fwrite\<close>: \<open>Some rc\<close> when the function returns \<open>rc\<close>, and the number of bytes written.\<close>

definition fwrite_step :: "u8 list \<Rightarrow> u32 \<Rightarrow> u32 \<Rightarrow> fat_file \<Rightarrow> fat \<Rightarrow> ((int option \<times> u32 \<times> fat_file) \<times> fat) option" where
  "fwrite_step src written n fp0 s0 =
     do { ((r, fp), s) \<leftarrow> first_alloc written fp0 s0;
          (case r of Some rc \<Rightarrow> Some ((Some rc, 0, fp), s)
           | None \<Rightarrow>
               let lba = pos_lba s fp; off = unat (pos_off s fp); k = chunk_len s fp (n - written) in
               io_do (wb_read s lba)
                 (\<lambda>s1. io_do (wb_write lba (wb_upd (splice off (slice (unat written) (unat k) src)) s1))
                   (\<lambda>s2. let fp1 = advance_pos fp k in
                     if cur_pos fp1 AND (clus_size s - 1) = 0 \<and> n - (written + k) \<noteq> 0 then
                       (case next_or_extend (written + k) fp1 s2 of ((r, fp2), s3) \<Rightarrow> Some ((r, k, fp2), s3))
                     else Some ((None, k, fp1), s2)) (Some (-1), 0, fp)) (Some (-1), 0, fp)) }"

partial_function (option) fwrite_loop :: "u8 list \<Rightarrow> u32 \<Rightarrow> u32 \<Rightarrow> fat_file \<Rightarrow> fat \<Rightarrow> (int \<times> fat_file \<times> fat) option" where
  "fwrite_loop src written n fp s =
     (if n \<le> written then Some (sint written, fp, s)
      else case fwrite_step src written n fp s of
             None \<Rightarrow> None
           | Some ((Some rc, k, fp1), s1) \<Rightarrow> Some (rc, fp1, s1)
           | Some ((None, k, fp1), s1) \<Rightarrow> fwrite_loop src (written + k) n fp1 s1)"

definition fat_fwrite :: "fat \<Rightarrow> fat_file \<Rightarrow> u8 list \<Rightarrow> (int \<times> fat_file \<times> fat) option" where
  "fat_fwrite s fp src =
     (if \<not> in_use fp \<or> \<not> m_valid (fat_M s) then Some (-1, fp, s)
      else fwrite_loop src 0 (of_nat (length src)) fp (s\<lparr>fat_buf_valid := False\<rparr>))"

definition fat_fflush :: "fat \<Rightarrow> fat_file \<Rightarrow> (int \<times> fat) option" where
  "fat_fflush s fp =
     (if \<not> in_use fp \<or> \<not> m_valid (fat_M s) then Some (-1, s)
      else io_do (wb_read (s\<lparr>fat_buf_valid := False\<rparr>) (dir_lba fp))
             (\<lambda>s1. do { s2 \<leftarrow> slot_upd (dir_off fp)
                           (\<lambda>i b. let b1 = wr32 (file_size fp) (i + 28) b in
                              if first_clus fp \<noteq> 0 then put_clus (first_clus fp) i b1 else b1) s1;
                       Some (ret_io (wb_write (dir_lba fp) s2)) }) (-1))"

section \<open>Names\<close>

text \<open>Mark the entry as deleted.\<close>

definition erase_entry :: "u32 \<Rightarrow> u32 \<Rightarrow> fat \<Rightarrow> (int \<times> fat) option" where
  "erase_entry lba off s =
     io_do (wb_read s lba)
       (\<lambda>s1. do { s2 \<leftarrow> slot_upd off (\<lambda>i b. b[i := 0xE5]) s1; Some (ret_io (wb_write lba s2)) }) (-1)"

definition fat_funlink :: "fat \<Rightarrow> cstring \<Rightarrow> (int \<times> fat) option" where
  "fat_funlink s0 path =
     (if \<not> m_valid (fat_M s0) then Some (-1, s0)
      else do { (found, s1) \<leftarrow> fat_find_dirent (s0\<lparr>fat_buf_valid := False\<rparr>) (build_raw_name (strip_slash path));
                (case found of
                   Inl _ \<Rightarrow> Some (-1, s1)
                 | Inr (lba, off) \<Rightarrow>
                     io_do (wb_read s1 lba)
                       (\<lambda>s2. if 512 < unat off + 32 then None
                         else do { s3 \<leftarrow> free_from (slot_clus off s2) s2; erase_entry lba off s3 }) (-1)) })"

definition fat_frename :: "fat \<Rightarrow> cstring \<Rightarrow> cstring \<Rightarrow> (int \<times> fat) option" where
  "fat_frename s0 old new =
     (if \<not> m_valid (fat_M s0) then Some (-1, s0)
      else let old_raw = build_raw_name (strip_slash old); new_raw = build_raw_name (strip_slash new) in
        do { (dup, s1) \<leftarrow> fat_find_dirent (s0\<lparr>fat_buf_valid := False\<rparr>) new_raw;
             (case dup of Inr _ \<Rightarrow> Some (-1, s1)
              | Inl _ \<Rightarrow>
                  do { (found, s2) \<leftarrow> fat_find_dirent s1 old_raw;
                       (case found of Inl _ \<Rightarrow> Some (-1, s2)
                        | Inr (lba, off) \<Rightarrow> plant_entry new_raw lba off s2) }) })"

section \<open>Directories\<close>

definition dot_entry :: "u8 list \<Rightarrow> u32 \<Rightarrow> u8 list" where
  "dot_entry name c = put_clus c 0 (blank_entry (pad 11 name) ATTR_DIR)"

text \<open>\<open>{ fat_set_entry(nc, 0); return -1; }\<close>\<close>

definition undo_alloc :: "u32 \<Rightarrow> fat \<Rightarrow> int \<times> fat" where
  "undo_alloc nc s = (-1, snd (fat_set_entry s nc 0))"

text \<open>The sectors of the new directory: the entries \<open>.\<close> and \<open>..\<close>, then zeros.\<close>

definition init_dir :: "u32 \<Rightarrow> u32 \<Rightarrow> fat \<Rightarrow> bool \<times> fat" where
  "init_dir nc parent s =
     (let ls = clus_secs s nc; z = replicate 512 (0 :: u8) in
      io_then (wb_write (fat_clus_to_lba s nc)
                 (wb_upd (\<lambda>_. splice 32 (dot_entry [0x2E, 0x2E] parent) (splice 0 (dot_entry [0x2E] nc) z)) s))
        (\<lambda>s1. io_all (map wb_write (tl ls)) (wb_upd (\<lambda>_. z) s1)) False)"

definition fat_mkdir :: "fat \<Rightarrow> cstring \<Rightarrow> (int \<times> fat) option" where
  "fat_mkdir s0 path =
     (if \<not> m_valid (fat_M s0) then Some (-1, s0)
      else do { (r, s1) \<leftarrow> resolve_parent (s0\<lparr>fat_buf_valid := False\<rparr>) path;
        (case r of Inl _ \<Rightarrow> Some (-2, s1)
         | Inr (parent, leaf) \<Rightarrow>
             let raw = build_raw_name leaf in
             do { (dup, s2) \<leftarrow> find_dirent_at s1 parent raw;
               (case dup of Inr _ \<Rightarrow> Some (-1, s2)
                | Inl _ \<Rightarrow>
                   (case fat_alloc_cluster s2 of (nc, s3) \<Rightarrow>
                      if nc = 0 then Some (-1, s3)
                      else case init_dir nc parent s3 of (ok, s4) \<Rightarrow>
                        if \<not> ok then Some (undo_alloc nc s4)
                        else do { (slot, s5) \<leftarrow> find_empty_dirent_at s4 parent;
                          (case slot of Inl _ \<Rightarrow> Some (undo_alloc nc s5)
                           | Inr (lba, off) \<Rightarrow>
                               case wb_read s5 lba of (ok, s6) \<Rightarrow>
                                 if \<not> ok then Some (undo_alloc nc s6)
                                 else do { s7 \<leftarrow> slot_upd off (\<lambda>i. splice i (put_clus nc 0 (blank_entry raw ATTR_DIR))) s6;
                                           Some (ret_io (wb_write lba s7)) }) })) }) })"

text \<open>The entries an empty directory may have: \<open>.\<close> and \<open>..\<close>.\<close>

definition is_dot :: "fat_dirent \<Rightarrow> bool" where
  "is_dot de \<longleftrightarrow> de_name de ! 0 = 0x2E \<and> (de_name de ! 1 = 0x20 \<or> (de_name de ! 1 = 0x2E \<and> de_name de ! 2 = 0x20))"

definition rmdir_at :: "u32 \<Rightarrow> u32 \<Rightarrow> fat \<Rightarrow> (int \<times> fat) option" where
  "rmdir_at lba off s =
     (if 512 < unat off + 32 then None
      else let first = slot_clus off s in
        if fat_wbuf s ! (unat off + 11) AND ATTR_DIR = 0 then Some (-3, s)
        else if first < 2 then Some (-1, s)
        else case fat_diropen_clus iter0 s first of (rc, it) \<Rightarrow>
          if rc \<noteq> 0 then Some (-1, s)
          else do { (r, it1, s1) \<leftarrow> dir_search (\<lambda>de _. \<not> is_dot de) it s;
            (case r of Inr _ \<Rightarrow> Some (-4, s1)
             | Inl _ \<Rightarrow> do { (ok, s2) \<leftarrow> fat_free_chain s1 first;
                             if \<not> ok then Some (-1, s2) else erase_entry lba off s2 }) })"

definition fat_rmdir :: "fat \<Rightarrow> cstring \<Rightarrow> (int \<times> fat) option" where
  "fat_rmdir s0 path =
     (if \<not> m_valid (fat_M s0) then Some (-1, s0)
      else do { (r, s1) \<leftarrow> resolve_parent (s0\<lparr>fat_buf_valid := False\<rparr>) path;
        (case r of Inl _ \<Rightarrow> Some (-2, s1)
         | Inr (parent, leaf) \<Rightarrow>
             do { (found, s2) \<leftarrow> find_dirent_at s1 parent (build_raw_name leaf);
               (case found of Inl _ \<Rightarrow> Some (-1, s2)
                | Inr (lba, off) \<Rightarrow> io_do (wb_read s2 lba) (rmdir_at lba off) (-1)) }) })"

section \<open>The bytes of a file\<close>

text \<open>Sectors per cluster a power of two, the data area inside the disk.\<close>

definition spc :: "fat \<Rightarrow> nat" where
  "spc s = unat (sec_per_clus (fat_M s))"

definition vol_ok :: "fat \<Rightarrow> bool" where
  "vol_ok s \<longleftrightarrow> fat_ok s \<and> (\<exists>k \<le> 7. spc s = 2 ^ k)
     \<and> unat (first_data_sec (fat_M s)) + unat (cluster_count (fat_M s)) * spc s \<le> ramfat_cap (disk s)"

abbreviation csize :: "fat \<Rightarrow> nat" where
  "csize s \<equiv> spc s * 512"

definition sector :: "fat \<Rightarrow> u32 \<Rightarrow> u8 list" where
  "sector s l = the (ramfat_rd (disk s) l)"

definition clus_data :: "fat \<Rightarrow> u32 \<Rightarrow> u8 list" where
  "clus_data s c = concat (map (sector s) (clus_secs s c))"

definition file_bytes :: "fat \<Rightarrow> u32 list \<Rightarrow> u8 list" where
  "file_bytes s cs = concat (map (clus_data s) cs)"

text \<open>A run of clusters linked by the table.\<close>

fun linked :: "fat \<Rightarrow> u32 list \<Rightarrow> bool" where
  "linked s [] = True"
| "linked s [c] = (c \<in> data_range (fat_M s))"
| "linked s (c # c' # cs) = (c \<in> data_range (fat_M s) \<and> fat_table s c = c' \<and> linked s (c' # cs))"

lemma same_disk_simps:
  assumes "same_disk s s'"
  shows "vol_ok s \<Longrightarrow> vol_ok s'" "linked s' cs = linked s cs" "file_bytes s' cs = file_bytes s cs" "clus_data s' = clus_data s"
    "spc s' = spc s" "clus_size s' = clus_size s" "fat_clus_to_lba s' c = fat_clus_to_lba s c"
proof -
  have M: "fat_M s' = fat_M s" "disk s' = disk s" "fat_ok s'" using assms by (simp_all add: same_disk_def)
  show sp: "spc s' = spc s" "clus_size s' = clus_size s" "fat_clus_to_lba s' c = fat_clus_to_lba s c" for c
    by (simp_all add: M spc_def clus_size_def fat_clus_to_lba_def)
  show "linked s' cs = linked s cs"
    by (induction cs rule: induct_list012) (simp_all add: M same_disk_table [OF assms])
  have sc: "sector s' = sector s" by (simp add: fun_eq_iff sector_def M)
  show cd: "clus_data s' = clus_data s" by (rule ext) (simp add: clus_data_def clus_secs_def sp M sc)
  then show "file_bytes s' cs = file_bytes s cs" by (simp add: file_bytes_def)
  show "vol_ok s \<Longrightarrow> vol_ok s'" by (simp add: vol_ok_def M sp)
qed

lemma linked_data: "linked s cs \<Longrightarrow> c \<in> set cs \<Longrightarrow> c \<in> data_range (fat_M s)"
  by (induction s cs rule: linked.induct) auto

lemma linked_drop: "linked s cs \<Longrightarrow> linked s (drop n cs)"
proof (induction cs arbitrary: n)
  case (Cons c cs)
  then show ?case by (cases n; cases cs) auto
qed simp

lemma clus_lba:
  assumes "vol_ok s" "c \<in> data_range (fat_M s)" "i < spc s"
  shows "unat (fat_clus_to_lba s c + of_nat i) < ramfat_cap (disk s)"
proof -
  let ?m = "fat_M s"
  have g: "geo ?m (ramfat_cap (disk s))" using assms(1) by (simp add: vol_ok_def fat_ok_def)
  have c: "2 \<le> unat c" "unat c < unat (cluster_count ?m) + 2"
    using assms(2) geo_count [OF g] by (auto simp: data_range_def word_le_nat_alt word_less_nat_alt)
  have le: "unat (first_data_sec ?m) + unat (cluster_count ?m) * spc s \<le> ramfat_cap (disk s)" using assms(1) by (simp add: vol_ok_def)
  have cap: "ramfat_cap (disk s) < 2 ^ 22" using g by (simp add: geo_def)
  have "(unat c - 2) * spc s + i < (unat c - 2 + 1) * spc s" using assms(3) by simp
  also have "\<dots> \<le> unat (cluster_count ?m) * spc s" using c by (intro mult_le_mono1) simp
  finally have b: "unat (first_data_sec ?m) + (unat c - 2) * spc s + i < ramfat_cap (disk s)" using le by simp
  have u: "unat (c - 2) = unat c - 2" using c(1) by (subst unat_sub) (simp_all add: word_le_nat_alt)
  define N where "N = unat (first_data_sec ?m) + (unat c - 2) * spc s + i"
  have "fat_clus_to_lba s c + of_nat i = of_nat N"
    using c(1) by (simp add: fat_clus_to_lba_def word_less_nat_alt spc_def u [symmetric] N_def)
  moreover have "unat (of_nat N :: u32) = N" using b cap by (intro unat_of_nat_small) (simp add: N_def)
  ultimately have "unat (fat_clus_to_lba s c + of_nat i) = N" by simp
  with b [folded N_def] show ?thesis by simp
qed

lemma clus_sector:
  assumes "vol_ok s" "c \<in> data_range (fat_M s)" "i < spc s"
  shows "ramfat_rd (disk s) (fat_clus_to_lba s c + of_nat i) = Some (sector s (fat_clus_to_lba s c + of_nat i))"
    "length (sector s (fat_clus_to_lba s c + of_nat i)) = 512"
proof -
  have "ramfat_ok (disk s)" using assms(1) by (simp add: vol_ok_def fat_ok_def coherent_def)
  then obtain b where "ramfat_rd (disk s) (fat_clus_to_lba s c + of_nat i) = Some b" "length b = 512"
    using rf.rd_some clus_lba [OF assms] by blast
  then show "ramfat_rd (disk s) (fat_clus_to_lba s c + of_nat i) = Some (sector s (fat_clus_to_lba s c + of_nat i))"
    "length (sector s (fat_clus_to_lba s c + of_nat i)) = 512" by (simp_all add: sector_def)
qed

lemma length_clus_data:
  assumes "vol_ok s" "c \<in> data_range (fat_M s)"
  shows "length (clus_data s c) = csize s"
proof -
  have "length (sector s l) = 512" if "l \<in> set (clus_secs s c)" for l
    using that clus_sector(2) [OF assms] by (auto simp: clus_secs_def spc_def)
  then have "map length (map (sector s) (clus_secs s c)) = map (\<lambda>_. 512) (clus_secs s c)" by simp
  then show ?thesis unfolding clus_data_def length_concat by (simp add: clus_secs_def spc_def map_replicate_const sum_list_replicate)
qed

lemma slice_concat_in:
  "\<forall>x \<in> set xs. length x = n \<Longrightarrow> i < length xs \<Longrightarrow> j + m \<le> n \<Longrightarrow> slice (i * n + j) m (concat xs) = slice j m (xs ! i)"
proof (induction xs arbitrary: i)
  case (Cons x xs)
  then show ?case by (cases i) (auto simp: slice_def)
qed simp

lemma slice_append: "i + n \<le> length xs \<Longrightarrow> slice i n (xs @ ys) = slice i n xs"
  by (simp add: slice_def)

lemma slice_append_right: "slice (length xs + i) n (xs @ ys) = slice i n ys"
  by (simp add: slice_def)

lemma slice_split: "n \<le> r \<Longrightarrow> slice i r xs = slice i n xs @ slice (i + n) (r - n) xs"
proof -
  assume "n \<le> r"
  then have "take r (drop i xs) = take n (drop i xs) @ take (r - n) (drop n (drop i xs))"
    using take_add [of n "r - n" "drop i xs"] by simp
  then show ?thesis by (simp add: slice_def add.commute)
qed

text \<open>A piece of one sector is a piece of the cluster.\<close>

lemma clus_slice:
  assumes "vol_ok s" "c \<in> data_range (fat_M s)" "off < csize s" "off mod 512 + n \<le> 512"
  shows "slice off n (clus_data s c) = slice (off mod 512) n (sector s (fat_clus_to_lba s c + of_nat (off div 512)))"
proof -
  have i: "off div 512 < spc s" using assms(3) by (simp add: div_less_iff_less_mult)
  have l: "\<forall>x \<in> set (map (sector s) (clus_secs s c)). length x = 512"
    using clus_sector(2) [OF assms(1,2)] by (auto simp: clus_secs_def spc_def)
  have "slice (off div 512 * 512 + off mod 512) n (clus_data s c) = slice (off mod 512) n (map (sector s) (clus_secs s c) ! (off div 512))"
    unfolding clus_data_def by (rule slice_concat_in [OF l]) (use i assms(4) in \<open>simp_all add: clus_secs_def spc_def\<close>)
  then show ?thesis using i by (simp add: clus_secs_def spc_def)
qed

lemma and_clus_size:
  assumes "vol_ok s"
  shows "unat (x AND (clus_size s - 1)) = unat x mod csize s" "0 < csize s" "csize s < 2 ^ 17"
proof -
  obtain k where k: "k \<le> 7" "spc s = 2 ^ k" using assms by (auto simp: vol_ok_def)
  have "sec_per_clus (fat_M s) = of_nat (2 ^ k)" using k(2) by (metis spc_def of_nat_unat ucast_id)
  then have "clus_size s = 2 ^ (9 + k)" by (simp add: clus_size_def power_add)
  then have "clus_size s - 1 = mask (9 + k)" by (simp add: mask_eq_exp_minus_1)
  then show "unat (x AND (clus_size s - 1)) = unat x mod csize s"
    by (simp only: unat_and_mask) (simp add: k(2) power_add mult.commute)
  have "(2 :: nat) ^ k \<le> 2 ^ 7" using k(1) by (intro power_increasing) simp_all
  then show "0 < csize s" "csize s < 2 ^ 17" by (simp_all add: k(2))
qed

lemma pos_off_nat: "vol_ok s \<Longrightarrow> unat (pos_off s fp) = unat (cur_pos fp) mod 512"
proof -
  assume v: "vol_ok s"
  have m: "(511 :: u32) = mask 9" by (simp add: mask_eq_exp_minus_1)
  show ?thesis unfolding pos_off_def m unat_and_mask and_clus_size(1) [OF v] by (simp add: mod_mod_cancel)
qed

lemma pos_lba_nat:
  assumes "vol_ok s"
  shows "pos_lba s fp = fat_clus_to_lba s (cur_clus fp) + of_nat (unat (cur_pos fp) mod csize s div 512)"
proof -
  have "(cur_pos fp AND (clus_size s - 1)) div 512 = of_nat (unat (cur_pos fp AND (clus_size s - 1)) div 512)"
    by (simp add: word_arith_nat_div)
  then show ?thesis by (simp add: pos_lba_def and_clus_size(1) [OF assms])
qed

section \<open>Reading\<close>

lemma read_sec_fat_ok:
  assumes "fat_ok s" "ramfat_rd (disk s) lba = Some b"
  obtains s1 where "read_sec (s\<lparr>fat_buf_valid := False\<rparr>) lba = (Some b, s1)" "same_disk s (s1\<lparr>fat_wbuf := b\<rparr>)"
proof -
  have "coherent (s\<lparr>fat_buf_valid := False\<rparr>)" using assms(1) by (simp add: fat_ok_def coherent_def)
  then obtain s1 where r: "read_sec (s\<lparr>fat_buf_valid := False\<rparr>) lba = (Some b, s1)" "coherent s1" "fat_M s1 = fat_M s" "disk s1 = disk s"
    "handles s1 = handles s" "\<not> fat_buf_valid s1" using read_sec_ok [of "s\<lparr>fat_buf_valid := False\<rparr>" lba b] assms(2) by auto
  then show thesis using assms(1) by (intro that) (auto simp: same_disk_def fat_ok_def coherent_def)
qed

lemma unat_0_iff': "((x :: u32) = 0) = (unat x = 0)"
  by (metis unsigned_0 word_unat_eq_iff)

lemma fread_step:
  assumes "rest \<noteq> 0" "read_sec (s\<lparr>fat_buf_valid := False\<rparr>) (pos_lba s fp) = (Some b, s1)"
    and "s2 = s1\<lparr>fat_wbuf := b\<rparr>" "n = chunk_len s fp rest" "fp1 = fp\<lparr>cur_pos := cur_pos fp + n\<rparr>"
    and "acc1 = acc @ slice (unat (pos_off s fp)) (unat n) b"
  shows "fread_loop rest acc fp s =
    (if cur_pos fp1 AND (clus_size s - 1) = 0 \<and> rest - n \<noteq> 0 then
       (case fat_next_clus s2 (cur_clus fp1) of (nxt, s3) \<Rightarrow>
          if nxt = FAT_END then ((produced acc1, acc1), fp1, s3) else fread_loop (rest - n) acc1 (fp1\<lparr>cur_clus := nxt\<rparr>) s3)
     else fread_loop (rest - n) acc1 fp1 s2)"
  unfolding assms(3-6) by (subst fread_loop.simps) (simp add: assms(1,2) Let_def)

lemma not_fat_end: "vol_ok s \<Longrightarrow> c \<in> data_range (fat_M s) \<Longrightarrow> c \<noteq> FAT_END"
  using zero_not_data(2) by (auto simp: vol_ok_def fat_ok_def)

text \<open>
  The loop, from any position: it reads the clusters of the run one after the other, starting in the
  first at the offset that the position has in its cluster.
\<close>

lemma fread_loop_ok:
  assumes "vol_ok s" "linked s (c # cs)" "cur_clus fp = c" "unat (cur_pos fp) + unat rest < 2 ^ 32"
    and "unat (cur_pos fp) mod csize s + unat rest \<le> Suc (length cs) * csize s"
  shows "\<exists>s'. fread_loop rest acc fp s
    = (let d = slice (unat (cur_pos fp) mod csize s) (unat rest) (file_bytes s (c # cs)) in (produced (acc @ d), acc @ d),
       fp\<lparr>cur_pos := cur_pos fp + rest, cur_clus := (c # cs) ! ((unat (cur_pos fp) mod csize s + unat rest - 1) div csize s)\<rparr>, s')
    \<and> same_disk s s'"
  using assms
proof (induction "unat rest" arbitrary: rest acc fp s c cs rule: less_induct)
  case less
  let ?CS = "csize s" and ?p = "unat (cur_pos fp)" and ?r = "unat rest"
  define off where "off = ?p mod ?CS"
  have CS: "0 < ?CS" and CS17: "?CS < 2 ^ 17" using and_clus_size [OF less.prems(1)] by simp_all
  have offCS: "off < ?CS" using CS by (simp add: off_def)
  have fok: "fat_ok s" using less.prems(1) by (simp add: vol_ok_def)
  have cD: "c \<in> data_range (fat_M s)" using less.prems(2) linked_data by fastforce
  show ?case
  proof (cases "rest = 0")
    case True
    have "(off - 1) div ?CS = 0" using offCS by simp
    then show ?thesis using True less.prems(3) same_disk_refl [OF fok]
      by (subst fread_loop.simps) (simp add: slice_def off_def)
  next
    case rnz: False
    define n where "n = chunk_len s fp rest"
    have m512: "off mod 512 = ?p mod 512" by (simp add: off_def mod_mod_cancel)
    have n: "unat n = min ?r (512 - off mod 512)"
      using chunk_nat [of s fp rest] pos_off_nat [OF less.prems(1), of fp] by (simp add: n_def m512)
    have npos: "0 < unat n" "unat n \<le> ?r" using chunk_pos [OF rnz, of s fp] n by (simp_all add: n_def)
    have rn: "unat (rest - n) = ?r - unat n" using npos(2) by (intro unat_sub) (simp add: word_le_nat_alt)
    let ?l = "pos_lba s fp" let ?b = "sector s ?l"
    have l: "?l = fat_clus_to_lba s c + of_nat (off div 512)"
      using pos_lba_nat [OF less.prems(1), of fp] less.prems(3) by (simp add: off_def)
    have odiv: "off div 512 < spc s" using offCS by (simp add: div_less_iff_less_mult)
    have b: "ramfat_rd (disk s) ?l = Some ?b" using clus_sector(1) [OF less.prems(1) cD odiv] by (simp add: l)
    have on: "off + unat n \<le> ?CS"
    proof -
      have "off = off div 512 * 512 + off mod 512" by simp
      moreover have "off div 512 * 512 + 512 \<le> spc s * 512" using odiv by (metis Suc_leI add.commute mult_Suc mult_le_mono1)
      ultimately show ?thesis using n by linarith
    qed
    have len: "length (clus_data s c) = ?CS" by (rule length_clus_data [OF less.prems(1) cD])
    have d: "slice (unat (pos_off s fp)) (unat n) ?b = slice off (unat n) (file_bytes s (c # cs))"
    proof -
      have "slice off (unat n) (clus_data s c) = slice (off mod 512) (unat n) ?b"
        unfolding l by (rule clus_slice [OF less.prems(1) cD offCS]) (use n in simp)
      then show ?thesis using pos_off_nat [OF less.prems(1), of fp] on len by (simp add: file_bytes_def slice_append m512)
    qed
    obtain s1 where s1: "read_sec (s\<lparr>fat_buf_valid := False\<rparr>) ?l = (Some ?b, s1)" "same_disk s (s1\<lparr>fat_wbuf := ?b\<rparr>)"
      by (rule read_sec_fat_ok [OF fok b])
    define s2 where "s2 = s1\<lparr>fat_wbuf := ?b\<rparr>"
    define fp1 where "fp1 = fp\<lparr>cur_pos := cur_pos fp + n\<rparr>"
    define acc1 where "acc1 = acc @ slice off (unat n) (file_bytes s (c # cs))"
    have sd: "same_disk s s2" using s1(2) by (simp add: s2_def)
    have p1: "unat (cur_pos fp1) = ?p + unat n"
      using less.prems(4) npos(2) by (simp add: fp1_def unat_word_ariths)
    have bd: "(cur_pos fp1 AND (clus_size s - 1) = 0) = ((off + unat n) mod ?CS = 0)"
      unfolding unat_0_iff' and_clus_size(1) [OF less.prems(1)] p1 off_def by (simp only: mod_add_left_eq)
    have fp1c: "cur_clus fp1 = c" using less.prems(3) by (simp add: fp1_def)
    have step: "fread_loop rest acc fp s =
        (if (off + unat n) mod ?CS = 0 \<and> rest - n \<noteq> 0 then
           (case fat_next_clus s2 c of (nxt, s3) \<Rightarrow>
              if nxt = FAT_END then ((produced acc1, acc1), fp1, s3) else fread_loop (rest - n) acc1 (fp1\<lparr>cur_clus := nxt\<rparr>) s3)
         else fread_loop (rest - n) acc1 fp1 s2)"
      using fread_step [OF rnz s1(1) s2_def n_def fp1_def, of acc1 acc] unfolding bd fp1c d acc1_def by blast
    have tot: "slice off ?r (file_bytes s (c # cs)) = slice off (unat n) (file_bytes s (c # cs)) @ slice (off + unat n) (?r - unat n) (file_bytes s (c # cs))"
      by (rule slice_split [OF npos(2)])
    have fpn: "cur_pos fp1 + (rest - n) = cur_pos fp + rest" "unat (cur_pos fp1) + unat (rest - n) = ?p + ?r"
      using p1 rn npos(2) by (simp_all add: fp1_def)
    have offr: "off + ?r \<le> Suc (length cs) * ?CS" using less.prems(5) by (simp add: off_def)
    consider (last) "rest - n = 0" | (cross) "rest - n \<noteq> 0" "off + unat n = ?CS" | (inside) "rest - n \<noteq> 0" "off + unat n < ?CS"
      using on by linarith
    then show ?thesis
    proof cases
      case last
      then have r: "?r = unat n" "rest = n" using rn npos(2) by simp_all
      have "(off + ?r - 1) div ?CS = 0" using on npos(1) r CS by (simp add: div_eq_0_iff)
      then show ?thesis using step last r sd less.prems(3)
        by (simp add: fread_loop.simps [of 0] Let_def off_def [symmetric] acc1_def fp1_def)
    next
      case cross
      have "0 < unat (rest - n)" using cross(1) by (simp add: unat_gt_0)
      then have "?CS < off + ?r" using rn cross(2) by simp
      then obtain c' cs' where cs: "cs = c' # cs'" using offr by (cases cs) auto
      have nx: "fat_table s c = c'" "linked s (c' # cs')" "c' \<in> data_range (fat_M s)"
        using less.prems(2) linked_data [of s "c # cs" c'] by (simp_all add: cs)
      have "fat_ok s2" "in_table (fat_M s2) c" using sd fat_ok_data [OF fok cD] by (simp_all add: same_disk_def)
      then obtain s3 where n3: "fat_next_clus s2 c = (fat_table s2 c, s3)" "fat_ok s3" "disk s3 = disk s2" "fat_M s3 = fat_M s2"
        "same_data s2 s3" by (rule next_clus_table) (rule that)
      then have s3: "fat_next_clus s2 c = (c', s3)" "same_disk s2 s3"
        using nx(1) by (simp_all add: same_disk_table [OF sd] same_disk_def same_data_def)
      have sd3: "same_disk s s3" by (rule same_disk_trans [OF sd s3(2)])
      have eq: "fread_loop rest acc fp s = fread_loop (rest - n) acc1 (fp1\<lparr>cur_clus := c'\<rparr>) s3"
        using step cross s3(1) not_fat_end [OF less.prems(1) nx(3)] by simp
      have z: "unat (cur_pos (fp1\<lparr>cur_clus := c'\<rparr>)) mod ?CS = 0"
        using p1 cross(2) by (simp add: off_def) (metis mod_add_left_eq mod_self)
      have le: "0 + (?r - unat n) \<le> Suc (length cs') * ?CS"
      proof -
        have "Suc (length cs) * ?CS = Suc (length cs') * ?CS + ?CS" by (simp add: cs)
        then show ?thesis using offr cross(2) by linarith
      qed
      have "unat (rest - n) < ?r" using rn npos by simp
      from less.hyps [OF this, of s3 c' cs' "fp1\<lparr>cur_clus := c'\<rparr>" acc1] obtain s' where IH:
        "fread_loop (rest - n) acc1 (fp1\<lparr>cur_clus := c'\<rparr>) s3 =
          (let d = slice 0 (?r - unat n) (file_bytes s (c' # cs')) in (produced (acc1 @ d), acc1 @ d),
           fp1\<lparr>cur_pos := cur_pos fp + rest, cur_clus := (c' # cs') ! ((?r - unat n - 1) div ?CS)\<rparr>, s')" "same_disk s3 s'"
        using less.prems(1,4) nx(2) le rn npos(2) fpn z
        by (auto simp: same_disk_simps [OF sd3] cs)
      have "slice (off + unat n) (?r - unat n) (file_bytes s (c # cs)) = slice 0 (?r - unat n) (file_bytes s (c' # cs'))"
        using slice_append_right [of "clus_data s c" 0] len cross(2) by (simp add: file_bytes_def cs)
      moreover have "(off + ?r - 1) div ?CS = Suc ((?r - unat n - 1) div ?CS)"
      proof -
        have "off + ?r - 1 = ?CS + (?r - unat n - 1)" using cross(2) rn npos(2) \<open>0 < unat (rest - n)\<close> by linarith
        moreover have "(?CS + m) div ?CS = Suc (m div ?CS)" for m using CS by (simp only: div_add_self1)
        ultimately show ?thesis by (simp only:)
      qed
      ultimately show ?thesis using eq IH same_disk_trans [OF sd3 IH(2)] tot
        by (simp add: Let_def off_def [symmetric] acc1_def fp1_def cs)
    next
      case inside
      have md: "unat (cur_pos fp1) mod ?CS = off + unat n"
        using p1 inside(2) by (simp add: off_def) (metis mod_add_left_eq mod_less)
      then have "(off + unat n) mod ?CS \<noteq> 0" using inside(2) npos(1) by simp
      then have eq: "fread_loop rest acc fp s = fread_loop (rest - n) acc1 fp1 s2" using step by simp
      have "unat (rest - n) < ?r" using rn npos by simp
      from less.hyps [OF this, of s2 c cs fp1 acc1] obtain s' where IH:
        "fread_loop (rest - n) acc1 fp1 s2 =
          (let d = slice (off + unat n) (?r - unat n) (file_bytes s (c # cs)) in (produced (acc1 @ d), acc1 @ d),
           fp1\<lparr>cur_pos := cur_pos fp + rest, cur_clus := (c # cs) ! ((off + ?r - 1) div ?CS)\<rparr>, s')" "same_disk s2 s'"
        using less.prems offr rn npos(2) fpn md
        by (auto simp: same_disk_simps [OF sd] fp1_def)
      then show ?thesis using eq same_disk_trans [OF sd IH(2)] tot
        by (simp add: Let_def off_def [symmetric] acc1_def fp1_def)
    qed
  qed
qed

text \<open>A handle on a file whose chain is \<open>cs\<close>, long enough for its size.\<close>

definition file_ok :: "fat \<Rightarrow> fat_file \<Rightarrow> u32 list \<Rightarrow> bool" where
  "file_ok s fp cs \<longleftrightarrow> in_use fp \<and> linked s cs \<and> cs \<noteq> [] \<and> hd cs = first_clus fp \<and> unat (file_size fp) \<le> length cs * csize s"

lemma unat_clus_size: "vol_ok s \<Longrightarrow> unat (clus_size s) = csize s"
proof -
  assume "vol_ok s"
  then have "csize s < 2 ^ 17" by (rule and_clus_size(3))
  moreover have "clus_size s = of_nat (csize s)" by (simp add: clus_size_def spc_def)
  ultimately show ?thesis using unat_of_nat_small [of "csize s", where ?'a = 32] by simp
qed

lemma fread_at:
  assumes "vol_ok s" "linked s cs" "cs \<noteq> []" "in_use fp" "cur_clus fp = hd cs" "cur_pos fp < file_size fp"
    and "unat (cur_pos fp) mod csize s + unat (min mx (file_size fp - cur_pos fp)) \<le> length cs * csize s"
  shows "\<exists>s'. fat_fread s fp mx
    = (let n = unat (min mx (file_size fp - cur_pos fp)); d = slice (unat (cur_pos fp) mod csize s) n (file_bytes s cs) in (produced d, d),
       fp\<lparr>cur_pos := cur_pos fp + min mx (file_size fp - cur_pos fp),
          cur_clus := cs ! ((unat (cur_pos fp) mod csize s + unat (min mx (file_size fp - cur_pos fp)) - 1) div csize s)\<rparr>, s')
    \<and> same_disk s s'"
proof -
  let ?n = "min mx (file_size fp - cur_pos fp)"
  have "unat (file_size fp - cur_pos fp) = unat (file_size fp) - unat (cur_pos fp)"
    using assms(6) by (intro unat_sub) simp
  then have "unat ?n \<le> unat (file_size fp) - unat (cur_pos fp)" by (auto simp: min_def word_le_nat_alt)
  then have "unat (cur_pos fp) + unat ?n < 2 ^ 32"
    using assms(6) unsigned_less [of "file_size fp", where ?'a = nat] by (simp add: word_less_nat_alt)
  moreover obtain c cs' where cs: "cs = c # cs'" using assms(3) by (cases cs) auto
  ultimately have "\<exists>s'. fread_loop ?n [] fp s
    = (let d = slice (unat (cur_pos fp) mod csize s) (unat ?n) (file_bytes s cs) in (produced ([] @ d), [] @ d),
       fp\<lparr>cur_pos := cur_pos fp + ?n, cur_clus := cs ! ((unat (cur_pos fp) mod csize s + unat ?n - 1) div csize s)\<rparr>, s')
    \<and> same_disk s s'"
    unfolding cs using assms by (intro fread_loop_ok) (simp_all add: cs)
  then show ?thesis using assms(4,6) by (auto simp: fat_fread_def Let_def)
qed

lemma skip_clus_ok:
  assumes "vol_ok s" "linked s cs" "n < length cs" "cur_clus fp = hd cs"
  shows "\<exists>s'. skip_clus n fp s = (0, fp\<lparr>cur_clus := cs ! n\<rparr>, s') \<and> same_disk s s'"
  using assms
proof (induction n arbitrary: fp s cs)
  case 0
  then have "fp\<lparr>cur_clus := cs ! 0\<rparr> = fp" by (cases cs) auto
  then show ?case using 0 by (auto simp: vol_ok_def intro: same_disk_refl)
next
  case (Suc n)
  obtain c c' cs' where cs: "cs = c # c' # cs'" using Suc.prems(3) by (cases cs; cases "tl cs") auto
  have fok: "fat_ok s" and c: "c \<in> data_range (fat_M s)" "fat_table s c = c'" "linked s (c' # cs')" "c' \<in> data_range (fat_M s)"
    using Suc.prems(1,2) linked_data [of s cs c'] by (auto simp: cs vol_ok_def)
  obtain s1 where s1: "fat_next_clus s c = (fat_table s c, s1)" "fat_ok s1" "fat_M s1 = fat_M s" "disk s1 = disk s" "same_data s s1"
    by (rule next_clus_table [OF fok fat_ok_data [OF fok c(1)]]) (rule that)
  then have sd: "same_disk s s1" by (simp add: same_disk_def same_data_def)
  have "skip_clus (Suc n) fp s = skip_clus n (fp\<lparr>cur_clus := c'\<rparr>) s1"
    using s1(1) c(2) not_fat_end [OF Suc.prems(1) c(4)] Suc.prems(4) by (simp add: cs)
  moreover have "\<exists>s'. skip_clus n (fp\<lparr>cur_clus := c'\<rparr>) s1 = (0, (fp\<lparr>cur_clus := c'\<rparr>)\<lparr>cur_clus := (c' # cs') ! n\<rparr>, s') \<and> same_disk s1 s'"
    by (rule Suc.IH) (use Suc.prems(1,3) c(3) in \<open>simp_all add: same_disk_simps [OF sd] cs\<close>)
  ultimately show ?case using same_disk_trans [OF sd] by (auto simp: cs)
qed

lemma length_file_bytes:
  assumes "vol_ok s" "linked s cs"
  shows "length (file_bytes s cs) = length cs * csize s"
proof -
  have "map length (map (clus_data s) cs) = map (\<lambda>_. csize s) cs"
    using length_clus_data [OF assms(1)] linked_data [OF assms(2)] by simp
  then show ?thesis unfolding file_bytes_def length_concat by (simp add: map_replicate_const sum_list_replicate)
qed

lemma linked_take: "linked s cs \<Longrightarrow> linked s (take n cs)"
proof (induction s cs arbitrary: n rule: linked.induct)
  case (2 s c)
  then show ?case by (cases n) auto
next
  case (3 s c c' cs)
  show ?case
  proof (cases n)
    case (Suc m)
    have "linked s (take m (c' # cs))" if "linked s (c' # cs)" using that by (rule "3.IH")
    then show ?thesis using 3(2) Suc by (cases m) auto
  qed simp
qed simp

lemma file_bytes_drop:
  assumes "vol_ok s" "linked s cs" "q \<le> length cs"
  shows "slice (q * csize s + i) n (file_bytes s cs) = slice i n (file_bytes s (drop q cs))"
proof -
  have "file_bytes s cs = file_bytes s (take q cs) @ file_bytes s (drop q cs)"
    by (metis append_take_drop_id concat_append file_bytes_def map_append)
  moreover have "length (file_bytes s (take q cs)) = q * csize s"
    using length_file_bytes [OF assms(1) linked_take [OF assms(2)]] assms(3) by simp
  ultimately show ?thesis using slice_append_right by metis
qed

lemma seek_read:
  assumes "vol_ok s" "file_ok s fp cs" "pos < file_size fp"
  shows "\<exists>c1 s1 c2 s2. fat_fseek s fp pos = Some (0, fp\<lparr>cur_pos := pos, cur_clus := c1\<rparr>, s1) \<and> same_disk s s1
     \<and> (let d = slice (unat pos) (unat (min mx (file_size fp - pos))) (file_bytes s cs) in
         fat_fread s1 (fp\<lparr>cur_pos := pos, cur_clus := c1\<rparr>) mx
           = ((produced d, d), fp\<lparr>cur_pos := pos + min mx (file_size fp - pos), cur_clus := c2\<rparr>, s2))
     \<and> same_disk s s2"
proof -
  let ?CS = "csize s" and ?p = "unat pos" and ?n = "unat (min mx (file_size fp - pos))"
  have f: "in_use fp" "linked s cs" "cs \<noteq> []" "hd cs = first_clus fp" "unat (file_size fp) \<le> length cs * ?CS"
    using assms(2) by (simp_all add: file_ok_def)
  have CS: "0 < ?CS" "?CS < 2 ^ 17" using and_clus_size [OF assms(1)] by simp_all
  have ucs: "unat (clus_size s) = ?CS" by (rule unat_clus_size [OF assms(1)])
  define q where "q = ?p div ?CS"
  have p: "?p < unat (file_size fp)" using assms(3) by (simp add: word_less_nat_alt)
  then have q: "q < length cs" unfolding q_def using f(5) CS(1)
    by (meson div_less_iff_less_mult less_le_trans)
  define fp0 where "fp0 = fp\<lparr>cur_pos := pos, cur_clus := first_clus fp\<rparr>"
  obtain s1 where s1: "skip_clus q fp0 s = (0, fp0\<lparr>cur_clus := cs ! q\<rparr>, s1)" "same_disk s s1"
    using skip_clus_ok [OF assms(1) f(2) q, of fp0] f(4) by (auto simp: fp0_def)
  have "unat (pos div clus_size s) = q" by (simp add: unat_div ucs q_def)
  moreover have "clus_size s \<noteq> 0" "min pos (file_size fp) = pos" using ucs CS(1) assms(3) by (auto simp: min_def)
  ultimately have seek: "fat_fseek s fp pos = Some (0, fp0\<lparr>cur_clus := cs ! q\<rparr>, s1)"
    using f(1) s1(1) by (simp add: fat_fseek_def Let_def fp0_def)
  have v1: "vol_ok s1" using same_disk_simps(1) [OF s1(2) assms(1)] .
  have sub: "unat (file_size fp - pos) = unat (file_size fp) - ?p" using assms(3) by (intro unat_sub) simp
  have n: "?n \<le> unat (file_size fp) - ?p" by (auto simp: min_def word_le_nat_alt sub [symmetric])
  have le: "?p mod ?CS + ?n \<le> length (drop q cs) * ?CS"
  proof -
    have "?p = q * ?CS + ?p mod ?CS" unfolding q_def by (rule div_mult_mod_eq [symmetric])
    then have "q * ?CS + (?p mod ?CS + ?n) \<le> length cs * ?CS" using n f(5) p by linarith
    then show ?thesis by (simp add: diff_mult_distrib)
  qed
  have "\<exists>c2 s2. fat_fread s1 (fp0\<lparr>cur_clus := cs ! q\<rparr>) mx =
      (let d = slice (?p mod ?CS) ?n (file_bytes s (drop q cs)) in (produced d, d),
       fp0\<lparr>cur_pos := pos + min mx (file_size fp - pos), cur_clus := c2\<rparr>, s2) \<and> same_disk s1 s2"
    using fread_at [OF v1, of "drop q cs" "fp0\<lparr>cur_clus := cs ! q\<rparr>" mx] f q le assms(3) linked_drop [OF f(2), of q]
    by (auto simp: same_disk_simps [OF s1(2)] fp0_def Let_def hd_drop_conv_nth)
  moreover have "slice (?p mod ?CS) ?n (file_bytes s (drop q cs)) = slice ?p ?n (file_bytes s cs)"
    using file_bytes_drop [OF assms(1) f(2) less_imp_le [OF q], of "?p mod ?CS" ?n] unfolding q_def div_mult_mod_eq by (rule sym)
  ultimately show ?thesis using seek s1(2) same_disk_trans [OF s1(2)] by (auto simp: Let_def fp0_def)
qed

text \<open>
  C19: Random access. On a sound volume, seeking to a position before the end of a file and reading there returns
  the bytes of the file from this position on: those of its chain of clusters, as many as asked for and at
  most up to the end. The disk does not change.
\<close>

theorem fat_seek_read:
  assumes "vol_ok s" "file_ok s fp cs" "pos < file_size fp"
  shows "\<exists>fp1 s1 fp2 s2 d. fat_fseek s fp pos = Some (0, fp1, s1) \<and> fat_fread s1 fp1 mx = ((produced d, d), fp2, s2)
     \<and> d = slice (unat pos) (unat (min mx (file_size fp - pos))) (file_bytes s cs) \<and> same_disk s s2"
  using seek_read [OF assms, of mx] by (auto simp: Let_def)

lemma demo_vol_vol: "vol_ok demo_vol"
proof -
  have "spc demo_vol = 2 ^ 0" by (simp add: spc_def demo_vol_def demo_fat_def)
  moreover have "unat (first_data_sec (fat_M demo_vol)) + unat (cluster_count (fat_M demo_vol)) * spc demo_vol \<le> 8"
    by (simp add: spc_def demo_vol_def demo_fat_def)
  ultimately show ?thesis using demo_vol_ok demo_vol_disk(2) unfolding vol_ok_def by fastforce
qed

definition demo_file :: fat_file where
  "demo_file = (new_handle 3 0)\<lparr>first_clus := 2, cur_clus := 2, file_size := 3\<rparr>"

lemma demo_file_bytes: "file_bytes demo_vol [2] = demo_secs ! 4"
proof -
  have "clus_secs demo_vol 2 = [4]" by (simp add: clus_secs_def fat_clus_to_lba_def demo_vol_def demo_fat_def)
  then show ?thesis using demo_rd [of 4] by (simp add: file_bytes_def clus_data_def sector_def)
qed

lemma demo_linked: "linked demo_vol [2]" "csize demo_vol = 512"
  by (simp_all add: data_range_def spc_def demo_vol_def demo_fat_def)

lemma fat_seek_read_witness:
  "\<exists>fp1 s1 fp2 s2. fat_fseek demo_vol demo_file 1 = Some (0, fp1, s1) \<and> fat_fread s1 fp1 128 = ((2, [0x62, 0x63]), fp2, s2)"
proof -
  have "file_ok demo_vol demo_file [2]" using demo_linked by (simp add: file_ok_def demo_file_def new_handle_def)
  moreover have "(1 :: u32) < file_size demo_file" by (simp add: demo_file_def)
  ultimately have "\<exists>fp1 s1 fp2 s2 d. fat_fseek demo_vol demo_file 1 = Some (0, fp1, s1) \<and> fat_fread s1 fp1 128 = ((produced d, d), fp2, s2)
     \<and> d = slice 1 2 (file_bytes demo_vol [2]) \<and> same_disk demo_vol s2"
    using fat_seek_read [OF demo_vol_vol, of demo_file "[2]" 1 128] by (simp add: demo_file_def min_def)
  moreover have "slice 1 2 (file_bytes demo_vol [2]) = [0x62, 0x63]" by (simp add: demo_file_bytes demo_secs_def slice_def)
  moreover have "produced [0x62, 0x63] = 2" by (simp add: produced_def)
  ultimately show ?thesis by auto
qed

text \<open>
  C20: Sequential access across a cluster boundary. A read that ends at the end of a cluster leaves the handle in
  this cluster, so that the next read without a seek returns the beginning of the same cluster again and
  not the following bytes of the file: here for a file of more than one cluster read from the start, first the
  whole cluster and then \<open>n\<close> bytes.
\<close>

theorem fat_read_repeats_cluster:
  assumes "vol_ok s" "file_ok s fp cs" "cur_pos fp = 0" "cur_clus fp = first_clus fp"
    and "csize s + unat n \<le> unat (file_size fp)" "unat n \<le> csize s" "n \<noteq> 0"
  shows "\<exists>fp1 s1 fp2 s2 d1 d2. fat_fread s fp (clus_size s) = ((produced d1, d1), fp1, s1) \<and> d1 = slice 0 (csize s) (file_bytes s cs)
     \<and> fat_fread s1 fp1 n = ((produced d2, d2), fp2, s2) \<and> d2 = slice 0 (unat n) (file_bytes s cs) \<and> unat (cur_pos fp2) = csize s + unat n"
proof -
  let ?CS = "csize s"
  have f: "in_use fp" "linked s cs" "cs \<noteq> []" "hd cs = first_clus fp" "unat (file_size fp) \<le> length cs * ?CS"
    using assms(2) by (simp_all add: file_ok_def)
  have CS: "0 < ?CS" "?CS < 2 ^ 17" using and_clus_size [OF assms(1)] by simp_all
  have ucs: "unat (clus_size s) = ?CS" by (rule unat_clus_size [OF assms(1)])
  have n0: "0 < unat n" using assms(7) by (simp add: unat_gt_0)
  have m1: "min (clus_size s) (file_size fp - cur_pos fp) = clus_size s"
    using assms(3,5) by (simp add: min_def word_le_nat_alt ucs)
  have lt: "cur_pos fp < file_size fp" using assms(3,5) CS(1) by (simp add: word_less_nat_alt)
  have l1: "?CS \<le> length cs * ?CS" using f(3) by (cases cs) auto
  have "(?CS - 1) div ?CS = 0" using CS(1) by simp
  then obtain s1 where s1: "fat_fread s fp (clus_size s) = (let d = slice 0 ?CS (file_bytes s cs) in (produced d, d),
      fp\<lparr>cur_pos := clus_size s, cur_clus := cs ! 0\<rparr>, s1)" "same_disk s s1"
    using fread_at [OF assms(1) f(2,3,1) _ lt, of "clus_size s"] assms(3,4) f(4) l1 unfolding m1 ucs by (auto simp: Let_def)
  define fp1 where "fp1 = fp\<lparr>cur_pos := clus_size s, cur_clus := cs ! 0\<rparr>"
  have v1: "vol_ok s1" using same_disk_simps(1) [OF s1(2) assms(1)] .
  have sub: "unat (file_size fp - clus_size s) = unat (file_size fp) - ?CS"
    using assms(5) by (subst unat_sub) (simp_all add: word_le_nat_alt ucs)
  have "unat n \<le> unat (file_size fp1 - cur_pos fp1)" using assms(5) unfolding fp1_def by (simp add: sub)
  then have m2: "min n (file_size fp1 - cur_pos fp1) = n" by (simp add: min_def word_le_nat_alt)
  have "linked s1 [cs ! 0]" using f(2,3) linked_data [of s cs "cs ! 0"] by (simp add: same_disk_simps [OF s1(2)] s1(2)[unfolded same_disk_def])
  then obtain s2 where s2: "fat_fread s1 fp1 n = (let d = slice 0 (unat n) (file_bytes s [cs ! 0]) in (produced d, d),
      fp1\<lparr>cur_pos := cur_pos fp1 + n, cur_clus := [cs ! 0] ! ((0 + unat n - 1) div ?CS)\<rparr>, s2)"
    using fread_at [OF v1, of "[cs ! 0]" fp1 n] f(1) assms(5,6) n0 unfolding m2
    by (auto simp: fp1_def ucs same_disk_simps [OF s1(2)] word_less_nat_alt Let_def)
  have "slice 0 (unat n) (file_bytes s [cs ! 0]) = slice 0 (unat n) (file_bytes s cs)"
  proof -
    obtain c cs' where cs: "cs = c # cs'" using f(3) by (cases cs) auto
    have "length (clus_data s c) = ?CS" using length_clus_data [OF assms(1)] linked_data [OF f(2)] by (simp add: cs)
    then show ?thesis using assms(6) by (simp add: file_bytes_def cs slice_def)
  qed
  moreover have "unat (clus_size s + n) = ?CS + unat n"
    using assms(5) unsigned_less [of "file_size fp", where ?'a = nat] by (simp add: unat_word_ariths ucs)
  ultimately show ?thesis using s1(1) s2 by (auto simp: Let_def fp1_def)
qed

lemma fat_read_repeats_cluster_witness:
  "\<exists>s fp d1 fp1 s1 d2 fp2 s2. fat_fread s fp (clus_size s) = ((produced d1, d1), fp1, s1)
     \<and> fat_fread s1 fp1 1 = ((produced d2, d2), fp2, s2) \<and> d2 = slice 0 1 (file_bytes s [2, 3]) \<and> unat (cur_pos fp2) = csize s + 1"
proof -
  have M: "in_table (fat_M demo_vol) x = in_table (fat_M demo_fat) x" "m_type (fat_M demo_vol) = FAT12" for x
    by (simp_all add: demo_vol_def demo_fat_def)
  have t: "in_table (fat_M demo_vol) 2" using demo_in_table M by simp
  obtain s where s: "fat_ok s" "same_data demo_vol s" "fat_table s 2 = next_val FAT12 3"
    using t unfolding M(2) [symmetric] by (rule_tac set_entry_table [OF demo_vol_ok(1) t, of 3]) auto
  have fM: "fat_M s = fat_M demo_vol" "ramfat_cap (disk s) = ramfat_cap (disk demo_vol)" using s(2) by (simp_all add: same_data_def)
  then have v: "vol_ok s" using demo_vol_vol s(1) by (simp add: vol_ok_def spc_def)
  have D: "2 \<in> data_range (fat_M s)" "3 \<in> data_range (fat_M s)" by (simp_all add: fM data_range_def demo_vol_def demo_fat_def)
  have "fat_table s 2 = 3" using s(3) by (simp add: next_val_def)
  then have l: "linked s [2, 3]" using D by simp
  have spc: "spc s = 1" by (simp add: spc_def fM demo_vol_def demo_fat_def)
  define fp where "fp = demo_file\<lparr>file_size := 600\<rparr>"
  have "file_ok s fp [2, 3]" using l spc by (simp add: file_ok_def fp_def demo_file_def new_handle_def)
  moreover have "cur_pos fp = 0" "cur_clus fp = first_clus fp" "csize s + unat (1 :: u32) \<le> unat (file_size fp)" "unat (1 :: u32) \<le> csize s"
    by (simp_all add: fp_def demo_file_def new_handle_def spc)
  ultimately show ?thesis using fat_read_repeats_cluster [OF v, of fp "[2, 3]" 1] by (metis one_neq_zero unsigned_1)
qed

end
