(* ===== verification/Console.thy ===== *)
theory Console
  imports Duart
begin

text \<open>
  The console driver of XCP/M (\<open>xcpm-mips/src/console_mc68681.c\<close>), as built for the NCD15 board, on the
  emulator's model of the chip (\<open>Duart\<close>): both ends of the serial line are code of this repository. What the
  kernel uses of a console is the locale \<open>console\<close>: a queue of received bytes and the bytes sent. The driver
  is an interpretation of it. A wait for a byte that never comes is \<open>None\<close>.
\<close>

section \<open>The registers\<close>

text \<open>\<open>DUART_REG(n)\<close> with the stride and lane of the board, as an offset from \<open>DUART_BASE\<close>.\<close>

definition DUART_REG :: "nat \<Rightarrow> u32" where
  "DUART_REG n = of_nat (n * 4 + 2)"

definition reg_rd :: "nat \<Rightarrow> duart \<Rightarrow> (u8 \<times> duart) option" where
  "reg_rd n d = map_option (\<lambda>(v, d1). (ucast v, d1)) (duart_read d (DUART_REG n))"

definition reg_wr :: "nat \<Rightarrow> u8 \<Rightarrow> duart \<Rightarrow> duart option" where
  "reg_wr n v d = duart_write d (DUART_REG n) (ucast v)"

section \<open>The driver\<close>

text \<open>Register numbers and values in the order of the stores of \<open>uart_init\<close>.\<close>

definition uart_init_seq :: "(nat \<times> u8) list" where
  "uart_init_seq =
     [(0x4, 0x80), (0x5, 0x00), (0xD, 0x00), (0xC, 0x0F),
      (0x2, 0x20 OR 0x10), (0x2, 0x30), (0x2, 0x40), (0x1, 0xBB), (0x0, 0x13), (0x0, 0x07), (0x2, 0x00),
      (0xA, 0x20 OR 0x10), (0xA, 0x30), (0xA, 0x40), (0xA, 0x50), (0xA, 0x10), (0x9, 0xBB), (0x8, 0x13), (0x8, 0x07),
      (0xA, 0x04 OR 0x01)]"

primrec reg_wrs :: "(nat \<times> u8) list \<Rightarrow> duart \<Rightarrow> duart option" where
  "reg_wrs [] d = Some d"
| "reg_wrs (w # ws) d = do { d1 \<leftarrow> reg_wr (fst w) (snd w) d; reg_wrs ws d1 }"

definition uart_init :: "duart \<Rightarrow> duart option" where
  "uart_init d = reg_wrs uart_init_seq d"

text \<open>\<open>while ((DUART_SRB_CSRB & bits) == 0) ;\<close>\<close>

partial_function (option) wait_status :: "u8 \<Rightarrow> duart \<Rightarrow> duart option" where
  "wait_status bits d =
     (case reg_rd 0x9 d of None \<Rightarrow> None
      | Some (s, d1) \<Rightarrow> if s AND bits = 0 then wait_status bits d1 else Some d1)"

definition uart_putc :: "u8 \<Rightarrow> duart \<Rightarrow> duart option" where
  "uart_putc c d = do { d1 \<leftarrow> wait_status SR_TXRDY d; reg_wr 0xB c d1 }"

definition uart_getc :: "duart \<Rightarrow> (u8 \<times> duart) option" where
  "uart_getc d = do { d1 \<leftarrow> wait_status SR_RXRDY d; reg_rd 0xB d1 }"

text \<open>The byte, or -1.\<close>

definition uart_poll :: "duart \<Rightarrow> (int \<times> duart) option" where
  "uart_poll d =
     do { (s, d1) \<leftarrow> reg_rd 0x9 d;
          if s AND SR_RXRDY \<noteq> 0 then do { (b, d2) \<leftarrow> reg_rd 0xB d1; Some (uint b, d2) } else Some (-1, d1) }"

text \<open>Printing is defined over any \<open>putc\<close>.\<close>

primrec putcs :: "(u8 \<Rightarrow> 'd \<Rightarrow> 'd option) \<Rightarrow> u8 list \<Rightarrow> 'd \<Rightarrow> 'd option" where
  "putcs putc [] d = Some d"
| "putcs putc (c # cs) d = do { d1 \<leftarrow> putc c d; putcs putc cs d1 }"

text \<open>\<open>uart_puts\<close> sends a carriage return before each newline.\<close>

primrec uart_puts :: "(u8 \<Rightarrow> 'd \<Rightarrow> 'd option) \<Rightarrow> u8 list \<Rightarrow> 'd \<Rightarrow> 'd option" where
  "uart_puts putc [] d = Some d"
| "uart_puts putc (c # cs) d =
     do { d1 \<leftarrow> (if c = 0x0A then putc 0x0D d else Some d); d2 \<leftarrow> putc c d1; uart_puts putc cs d2 }"

primrec getcs :: "('d \<Rightarrow> (u8 \<times> 'd) option) \<Rightarrow> nat \<Rightarrow> 'd \<Rightarrow> (u8 list \<times> 'd) option" where
  "getcs getc 0 d = Some ([], d)"
| "getcs getc (Suc n) d = do { (b, d1) \<leftarrow> getc d; (bs, d2) \<leftarrow> getcs getc n d1; Some (b # bs, d2) }"

definition hex_char :: "u32 \<Rightarrow> u8" where
  "hex_char v = [0x30, 0x31, 0x32, 0x33, 0x34, 0x35, 0x36, 0x37, 0x38, 0x39, 0x41, 0x42, 0x43, 0x44, 0x45, 0x46] ! unat (v AND 0xF)"

text \<open>The buffer of \<open>xputhex\<close>: the loop fills it from the last digit.\<close>

primrec hex_digits :: "nat \<Rightarrow> u32 \<Rightarrow> u8 list" where
  "hex_digits 0 v = []"
| "hex_digits (Suc n) v = hex_digits n (drop_bit 4 v) @ [hex_char v]"

definition xputhex :: "(u8 \<Rightarrow> 'd \<Rightarrow> 'd option) \<Rightarrow> u32 \<Rightarrow> int \<Rightarrow> 'd \<Rightarrow> 'd option" where
  "xputhex putc v digits d = uart_puts putc (hex_digits (nat (min 8 (max 1 digits))) v) d"

text \<open>The buffer of \<open>xputdec\<close>: at most eleven digits.\<close>

primrec dec_loop :: "nat \<Rightarrow> u32 \<Rightarrow> u8 list \<Rightarrow> u8 list" where
  "dec_loop 0 v acc = acc"
| "dec_loop (Suc n) v acc = (if v = 0 then acc else dec_loop n (v div 10) ((0x30 + ucast (v mod 10)) # acc))"

definition dec_digits :: "u32 \<Rightarrow> u8 list" where
  "dec_digits v = (if v = 0 then [0x30] else dec_loop 11 v [])"

definition xputdec :: "(u8 \<Rightarrow> 'd \<Rightarrow> 'd option) \<Rightarrow> u32 \<Rightarrow> 'd \<Rightarrow> 'd option" where
  "xputdec putc v d = uart_puts putc (dec_digits v) d"

text \<open>The reports of an unhandled exception; \<open>p\<close> is the supervisor stack as 16-bit words.\<close>

definition ascii :: "string \<Rightarrow> u8 list" where
  "ascii cs = map of_char cs"

definition uart_panic :: "(u8 \<Rightarrow> 'd \<Rightarrow> 'd option) \<Rightarrow> 'd \<Rightarrow> 'd option" where
  "uart_panic putc d = putcs putc ([0x0D, 0x0A] @ ascii ''?XCP/M-68K: unhandled exception, halted.'' @ [0x0D, 0x0A]) d"

primrec dump_words :: "(u8 \<Rightarrow> 'd \<Rightarrow> 'd option) \<Rightarrow> u16 list \<Rightarrow> 'd \<Rightarrow> 'd option" where
  "dump_words putc [] d = Some d"
| "dump_words putc (w # ws) d = do { d1 \<leftarrow> putc 0x20 d; d2 \<leftarrow> xputhex putc (ucast w) 4 d1; dump_words putc ws d2 }"

definition uart_panic_at :: "(u8 \<Rightarrow> 'd \<Rightarrow> 'd option) \<Rightarrow> (nat \<Rightarrow> u16) \<Rightarrow> 'd \<Rightarrow> 'd option" where
  "uart_panic_at putc p d =
     do { d1 \<leftarrow> uart_puts putc ([0x0D, 0x0A] @ ascii ''?XCP/M-68K: unhandled exception'' @ [0x0D, 0x0A] @ ascii ''  ssp dump:'') d;
          d2 \<leftarrow> dump_words putc (map p [0..<8]) d1;
          uart_puts putc [0x0D, 0x0A] d2 }"

section \<open>Decimal output\<close>

definition dec_value :: "nat \<Rightarrow> u8 list \<Rightarrow> nat" where
  "dec_value a cs = foldl (\<lambda>a c. 10 * a + (unat c - 48)) a cs"

lemma dec_char: "unat (0x30 + ucast (v mod 10 :: u32) :: u8) = 48 + unat v mod 10"
proof -
  have u: "unat (v mod 10) = unat v mod 10" by (simp add: unat_mod)
  have "unat (ucast (v mod 10) :: u8) = unat v mod 10 mod 256" by (simp add: unsigned_ucast_eq take_bit_eq_mod u)
  moreover have "unat v mod 10 < 10" by simp
  ultimately show ?thesis by (simp add: unat_word_ariths)
qed

lemma dec_loop_value: "unat v < 10 ^ n \<Longrightarrow> dec_value 0 (dec_loop n v acc) = dec_value (unat v) acc"
proof (induction n arbitrary: v acc)
  case 0
  then have "v = 0" by (simp add: unsigned_eq_0_iff)
  then show ?case by simp
next
  case (Suc n)
  have "unat (v div 10) = unat v div 10" by (simp add: unat_div)
  moreover have "unat v div 10 < 10 ^ n" using Suc.prems by (simp add: less_mult_imp_div_less mult.commute)
  ultimately have "dec_value 0 (dec_loop n (v div 10) ((0x30 + ucast (v mod 10)) # acc))
      = dec_value (10 * (unat v div 10) + unat v mod 10) acc"
    using Suc.IH [of "v div 10"] dec_char [of v] by (simp add: dec_value_def)
  then show ?case by (simp only: mult_div_mod_eq) simp
qed

lemma dec_digits_value: "dec_value 0 (dec_digits v) = unat v"
proof (cases "v = 0")
  case False
  have "unat v < 10 ^ 11" using unsigned_less [of v, where ?'a = nat] by simp
  then show ?thesis using dec_loop_value [of v 11 "[]"] False by (simp add: dec_digits_def dec_value_def)
qed (simp add: dec_digits_def dec_value_def)

section \<open>The interface\<close>

locale console =
  fixes putc :: "u8 \<Rightarrow> 'd \<Rightarrow> 'd option"
    and getc :: "'d \<Rightarrow> (u8 \<times> 'd) option"
    and poll :: "'d \<Rightarrow> (int \<times> 'd) option"
    and ok :: "'d \<Rightarrow> bool"
    and inq :: "'d \<Rightarrow> u8 list"
    and sent :: "'d \<Rightarrow> u8 list"
  assumes putc_ok: "ok d \<Longrightarrow> \<exists>d'. putc c d = Some d' \<and> ok d' \<and> inq d' = inq d \<and> sent d' = sent d @ [c]"
    and getc_ok: "ok d \<Longrightarrow> inq d = b # bs \<Longrightarrow> \<exists>d'. getc d = Some (b, d') \<and> ok d' \<and> inq d' = bs \<and> sent d' = sent d"
    and getc_waits: "ok d \<Longrightarrow> inq d = [] \<Longrightarrow> getc d = None"
    and poll_ok: "ok d \<Longrightarrow> inq d = b # bs \<Longrightarrow> \<exists>d'. poll d = Some (uint b, d') \<and> ok d' \<and> inq d' = bs \<and> sent d' = sent d"
    and poll_none: "ok d \<Longrightarrow> inq d = [] \<Longrightarrow> \<exists>d'. poll d = Some (-1, d') \<and> ok d' \<and> inq d' = [] \<and> sent d' = sent d"
begin

lemma putcs_ok: "ok d \<Longrightarrow> \<exists>d'. putcs putc cs d = Some d' \<and> ok d' \<and> inq d' = inq d \<and> sent d' = sent d @ cs"
proof (induction cs arbitrary: d)
  case (Cons c cs)
  obtain d1 where d1: "putc c d = Some d1" "ok d1" "inq d1 = inq d" "sent d1 = sent d @ [c]"
    using putc_ok [OF Cons.prems] by blast
  then show ?case using Cons.IH [OF d1(2)] by auto
qed simp

lemma getcs_ok:
  "ok d \<Longrightarrow> inq d = bs @ r \<Longrightarrow> \<exists>d'. getcs getc (length bs) d = Some (bs, d') \<and> ok d' \<and> inq d' = r \<and> sent d' = sent d"
proof (induction bs arbitrary: d)
  case (Cons b bs)
  obtain d1 where d1: "getc d = Some (b, d1)" "ok d1" "inq d1 = bs @ r" "sent d1 = sent d"
    using getc_ok [OF Cons.prems(1), of b "bs @ r"] Cons.prems(2) by auto
  then show ?case using Cons.IH [OF d1(2,3)] by auto
qed simp

lemma puts_putcs: "uart_puts putc cs d = putcs putc (concat (map (\<lambda>c. if c = 0x0A then [0x0D, c] else [c]) cs)) d"
  by (induction cs arbitrary: d) auto

lemma puts_ok:
  "ok d \<Longrightarrow> \<exists>d'. uart_puts putc cs d = Some d' \<and> ok d' \<and> inq d' = inq d
     \<and> sent d' = sent d @ concat (map (\<lambda>c. if c = 0x0A then [0x0D, c] else [c]) cs)"
  unfolding puts_putcs by (rule putcs_ok)

end

section \<open>The driver on the emulated chip\<close>

definition con_ok :: "duart \<Rightarrow> bool" where
  "con_ok d \<longleftrightarrow> rx_ok 1 d \<and> log_tx d \<and> bit (d_srb d) 2"

definition con_in :: "duart \<Rightarrow> u8 list" where
  "con_in d = rx_list d 1"

definition con_sent :: "duart \<Rightarrow> u8 list" where
  "con_sent d = map snd (List.filter (\<lambda>(ch, b). ch = 1) (d_out d))"

lemma duart_reg_reg: "n < 32 \<Longrightarrow> duart_reg (DUART_REG n) = n"
proof -
  assume n: "n < 32"
  then have "unat (DUART_REG n) = n * 4 + 2" by (simp only: DUART_REG_def) (rule unat_of_nat_small, simp)
  then show ?thesis using n by (simp add: duart_reg_def)
qed

lemma ucast_back [simp]: "(ucast (ucast (x :: u8) :: u32) :: u8) = x"
  by (rule bit_word_eqI) (simp add: bit_simps)

lemma and_bit_iff: "(x :: u8) AND SR_RXRDY \<noteq> 0 \<longleftrightarrow> bit x 0" "(x :: u8) AND SR_TXRDY \<noteq> 0 \<longleftrightarrow> bit x 2"
proof -
  have "SR_RXRDY = push_bit 0 1" "SR_TXRDY = push_bit 2 (1 :: u8)" by simp_all
  then show "x AND SR_RXRDY \<noteq> 0 \<longleftrightarrow> bit x 0" "x AND SR_TXRDY \<noteq> 0 \<longleftrightarrow> bit x 2"
    by (simp_all only: bit_iff_and_push_bit_not_eq_0)
qed

text \<open>What a read of the status register returns and leaves.\<close>

definition status_of :: "duart \<Rightarrow> u8" where
  "status_of d = (if duart_rx_has d 1 then d_srb d OR SR_RXRDY else d_srb d AND NOT SR_RXRDY)"

lemma rd_status: "reg_rd 0x9 d = Some (status_of d, d\<lparr>d_srb := status_of d\<rparr>)"
  by (simp add: reg_rd_def duart_read_def duart_reg_reg Let_def status_of_def)

lemma status_bits:
  assumes "con_ok d"
  shows "bit (status_of d) 0 \<longleftrightarrow> con_in d \<noteq> []" "bit (status_of d) 2"
proof -
  have "duart_rx_has d 1 \<longleftrightarrow> con_in d \<noteq> []" using assms rx_has_list by (auto simp: con_ok_def con_in_def)
  then show "bit (status_of d) 0 \<longleftrightarrow> con_in d \<noteq> []" by (auto simp: status_of_def bit_simps)
  show "bit (status_of d) 2" using assms by (auto simp: con_ok_def status_of_def bit_simps)
qed

lemma con_ok_status: "con_ok d \<Longrightarrow> con_ok (d\<lparr>d_srb := status_of d\<rparr>)"
  using status_bits(2) by (auto simp: con_ok_def rx_ok_def)

lemma con_status [simp]: "con_in (d\<lparr>d_srb := x\<rparr>) = con_in d" "con_sent (d\<lparr>d_srb := x\<rparr>) = con_sent d"
  by (simp_all add: con_in_def con_sent_def rx_list_def)

lemma wait_tx: "con_ok d \<Longrightarrow> wait_status SR_TXRDY d = Some (d\<lparr>d_srb := status_of d\<rparr>)"
  using status_bits(2) [of d] unfolding and_bit_iff [symmetric] by (subst wait_status.simps) (simp add: rd_status)

lemma wait_rx: "con_ok d \<Longrightarrow> con_in d \<noteq> [] \<Longrightarrow> wait_status SR_RXRDY d = Some (d\<lparr>d_srb := status_of d\<rparr>)"
  using status_bits(1) [of d] unfolding and_bit_iff [symmetric] by (subst wait_status.simps) (simp add: rd_status)

text \<open>Without a byte the wait never ends: the loop comes back to the state it started from.\<close>

lemma wait_rx_some:
  assumes "wait_status SR_RXRDY d = Some d'" "con_ok d"
  shows "con_in d \<noteq> []"
proof -
  have "m = SR_RXRDY \<longrightarrow> con_ok d \<longrightarrow> con_in d \<noteq> []" if "wait_status m d = Some y" for m d y
  proof (rule wait_status.raw_induct [where P = "\<lambda>m d y. m = SR_RXRDY \<longrightarrow> con_ok d \<longrightarrow> con_in d \<noteq> []", OF _ that])
    fix loop :: "u8 \<Rightarrow> duart \<Rightarrow> duart option" and m d y
    assume IH: "\<And>m d y. loop m d = Some y \<Longrightarrow> m = SR_RXRDY \<longrightarrow> con_ok d \<longrightarrow> con_in d \<noteq> []"
    assume "(case reg_rd 9 d of None \<Rightarrow> None | Some (s, d1) \<Rightarrow> if s AND m = 0 then loop m d1 else Some d1) = Some y"
    then have r: "(if status_of d AND m = 0 then loop m (d\<lparr>d_srb := status_of d\<rparr>) else Some (d\<lparr>d_srb := status_of d\<rparr>)) = Some y"
      by (simp add: rd_status)
    show "m = SR_RXRDY \<longrightarrow> con_ok d \<longrightarrow> con_in d \<noteq> []"
      using r IH [of m "d\<lparr>d_srb := status_of d\<rparr>" y] con_ok_status [of d] status_bits(1) [of d] and_bit_iff(1) [of "status_of d"]
      by (auto split: if_splits)
  qed
  then show ?thesis using assms by blast
qed

lemma rd_data: "con_ok d \<Longrightarrow> reg_rd 0xB d = Some (duart_rx_pop d 1)"
  by (simp add: reg_rd_def duart_read_def duart_reg_reg Let_def split: prod.split)

lemma pop_ok:
  assumes "con_ok d" "con_in d = b # bs"
  shows "\<exists>d'. duart_rx_pop d 1 = (b, d') \<and> con_ok d' \<and> con_in d' = bs \<and> con_sent d' = con_sent d"
proof -
  have ok: "rx_ok 1 d" and q: "rx_list d 1 = b # bs" using assms by (simp_all add: con_ok_def con_in_def)
  have e: "fst (duart_rx_pop d 1) = b \<and> rx_list (snd (duart_rx_pop d 1)) 1 = bs" by (rule rx.pop_contents [OF ok q])
  have "rx_ok 1 (snd (duart_rx_pop d 1))" by (rule rx.pop_ok [OF ok])
  moreover have "log_tx (snd (duart_rx_pop d 1)) = log_tx d" "d_srb (snd (duart_rx_pop d 1)) = d_srb d"
    "d_out (snd (duart_rx_pop d 1)) = d_out d" by (simp_all add: duart_rx_pop_def)
  ultimately show ?thesis using e assms(1)
    by (cases "duart_rx_pop d 1") (simp add: con_ok_def con_in_def con_sent_def)
qed

lemma wr_data:
  assumes "con_ok d"
  shows "\<exists>d'. reg_wr 0xB c d = Some d' \<and> con_ok d' \<and> con_in d' = con_in d \<and> con_sent d' = con_sent d @ [c]"
proof -
  have "reg_wr 0xB c d = Some (d\<lparr>d_out := d_out d @ [(1, c)], d_srb := d_srb d OR SR_TXRDY OR SR_TXEMT\<rparr>)"
    using assms by (simp add: reg_wr_def duart_write_def duart_reg_reg Let_def duart_tx_def con_ok_def)
  then show ?thesis using assms by (auto simp: con_ok_def con_in_def con_sent_def rx_ok_def rx_list_def bit_simps)
qed

interpretation uart: console uart_putc uart_getc uart_poll con_ok con_in con_sent
proof unfold_locales
  fix d c assume ok: "con_ok d"
  show "\<exists>d'. uart_putc c d = Some d' \<and> con_ok d' \<and> con_in d' = con_in d \<and> con_sent d' = con_sent d @ [c]"
    using wr_data [OF con_ok_status [OF ok], of c] by (simp add: uart_putc_def wait_tx [OF ok])
next
  fix d b bs assume ok: "con_ok d" and q: "con_in d = b # bs"
  have "con_in (d\<lparr>d_srb := status_of d\<rparr>) = b # bs" using q by simp
  from pop_ok [OF con_ok_status [OF ok] this] obtain d' where d': "duart_rx_pop (d\<lparr>d_srb := status_of d\<rparr>) 1 = (b, d')"
    "con_ok d'" "con_in d' = bs" "con_sent d' = con_sent d" by auto
  have r: "reg_rd 0xB (d\<lparr>d_srb := status_of d\<rparr>) = Some (b, d')" by (simp only: rd_data [OF con_ok_status [OF ok]] d'(1))
  show "\<exists>d'. uart_getc d = Some (b, d') \<and> con_ok d' \<and> con_in d' = bs \<and> con_sent d' = con_sent d"
    using d' r wait_rx [OF ok] q by (simp add: uart_getc_def)
  show "\<exists>d'. uart_poll d = Some (uint b, d') \<and> con_ok d' \<and> con_in d' = bs \<and> con_sent d' = con_sent d"
    using d' r status_bits(1) [OF ok] and_bit_iff(1) [of "status_of d"] q by (simp add: uart_poll_def rd_status)
next
  fix d assume ok: "con_ok d" and q: "con_in d = []"
  have "wait_status SR_RXRDY d = None" using wait_rx_some [OF _ ok] q by (cases "wait_status SR_RXRDY d") auto
  then show "uart_getc d = None" by (simp add: uart_getc_def)
  show "\<exists>d'. uart_poll d = Some (-1, d') \<and> con_ok d' \<and> con_in d' = [] \<and> con_sent d' = con_sent d"
    using status_bits(1) [OF ok] and_bit_iff(1) [of "status_of d"] q con_ok_status [OF ok] by (simp add: uart_poll_def rd_status)
qed

section \<open>Start-up\<close>

lemma reg_wrs_append: "reg_wrs (xs @ ys) d = do { d1 \<leftarrow> reg_wrs xs d; reg_wrs ys d1 }"
  by (induction xs arbitrary: d) (simp_all split: Option.bind_split)

lemma reg_wr_ctl:
  assumes "n < 16" "n \<notin> {0x3, 0xB, 0xF}"
  shows "\<exists>d'. reg_wr n v d = Some d' \<and> rx_head d' = rx_head d \<and> rx_tail d' = rx_tail d \<and> rx_queue d' = rx_queue d
    \<and> log_tx d' = log_tx d \<and> d_srb d' = d_srb d \<and> d_out d' = d_out d"
  using assms by (simp add: reg_wr_def duart_write_def duart_reg_reg Let_def DUART_NREGS_def)

lemma reg_wrs_ctl:
  "\<forall>(n, v) \<in> set ws. n < 16 \<and> n \<notin> {0x3, 0xB, 0xF} \<Longrightarrow> \<exists>d'. reg_wrs ws d = Some d' \<and> rx_head d' = rx_head d \<and> rx_tail d' = rx_tail d
    \<and> rx_queue d' = rx_queue d \<and> log_tx d' = log_tx d \<and> d_srb d' = d_srb d \<and> d_out d' = d_out d"
proof (induction ws arbitrary: d)
  case (Cons w ws)
  obtain n v where w: "w = (n, v)" by fastforce
  obtain d1 where d1: "reg_wr n v d = Some d1" "rx_head d1 = rx_head d" "rx_tail d1 = rx_tail d" "rx_queue d1 = rx_queue d"
    "log_tx d1 = log_tx d" "d_srb d1 = d_srb d" "d_out d1 = d_out d"
    using reg_wr_ctl [of n v d] Cons.prems by (auto simp: w)
  then show ?case using Cons.IH [of d1] Cons.prems by (auto simp: w)
qed simp

lemma uart_init_ok: "\<exists>d'. uart_init duart_new = Some d' \<and> con_ok d' \<and> con_in d' = [] \<and> con_sent d' = []"
proof -
  obtain d' where "uart_init duart_new = Some d'" "rx_head d' = rx_head duart_new" "rx_tail d' = rx_tail duart_new"
    "rx_queue d' = rx_queue duart_new" "log_tx d' = log_tx duart_new" "d_srb d' = d_srb duart_new" "d_out d' = d_out duart_new"
    using reg_wrs_ctl [of uart_init_seq duart_new] by (auto simp: uart_init_def uart_init_seq_def)
  moreover have "bit (SR_TXRDY OR SR_TXEMT) 2" by (simp add: bit_simps)
  ultimately show ?thesis
    by (auto simp: con_ok_def con_in_def con_sent_def rx_ok_def rx_list_def duart_new_def ring_list_def)
qed

lemma feed_con: "log_tx (foldl (\<lambda>d b. duart_feed_input d ch b) d bs) = log_tx d \<and> d_srb (foldl (\<lambda>d b. duart_feed_input d ch b) d bs) = d_srb d
    \<and> d_out (foldl (\<lambda>d b. duart_feed_input d ch b) d bs) = d_out d"
  by (induction bs arbitrary: d) (simp_all add: duart_feed_input_def Let_def)

text \<open>
  C40: The console line. After \<open>uart_init\<close> on a fresh chip, up to fifteen bytes typed on the host are what the
  same number of \<open>uart_getc\<close> return, in order, and another one would wait for ever; and what \<open>uart_puts\<close> is given
  appears on the host's terminal with a carriage return before each newline.
\<close>

theorem console_line:
  assumes "length bs \<le> 15"
  shows "\<exists>d0 d1 d2. uart_init duart_new = Some d0
    \<and> getcs uart_getc (length bs) (foldl (\<lambda>d b. duart_feed_input d 1 b) d0 bs) = Some (bs, d1) \<and> uart_getc d1 = None
    \<and> uart_puts uart_putc msg d1 = Some d2 \<and> con_sent d2 = concat (map (\<lambda>c. if c = 0x0A then [0x0D, c] else [c]) msg)"
proof -
  obtain d0 where d0: "uart_init duart_new = Some d0" "con_ok d0" "con_in d0 = []" "con_sent d0 = []" using uart_init_ok by blast
  let ?d = "foldl (\<lambda>d b. duart_feed_input d 1 b) d0 bs"
  have ok: "rx_ok 1 d0" using d0(2) by (simp add: con_ok_def)
  have "con_in ?d = bs" using rx.pushes_contents [OF ok, of bs] d0(3) assms by (simp add: con_in_def)
  moreover have "con_ok ?d \<and> con_sent ?d = []"
    using d0(2,4) feed_con [where ch = 1 and d = d0 and bs = bs] rx.pushes_ok [OF ok, of bs] by (simp add: con_ok_def con_sent_def)
  ultimately obtain d1 where d1: "getcs uart_getc (length bs) ?d = Some (bs, d1)" "con_ok d1" "con_in d1 = []" "con_sent d1 = []"
    using uart.getcs_ok [of ?d bs "[]"] by auto
  obtain d2 where d2: "uart_puts uart_putc msg d1 = Some d2"
    "con_sent d2 = con_sent d1 @ concat (map (\<lambda>c. if c = 0x0A then [0x0D, c] else [c]) msg)" using uart.puts_ok [OF d1(2), of msg] by blast
  show ?thesis
    by (intro exI conjI) (rule d0(1), rule d1(1), rule uart.getc_waits [OF d1(2,3)], rule d2(1), use d2(2) d1(4) in simp)
qed

lemma console_line_witness:
  "\<exists>d0 d1. uart_init duart_new = Some d0
    \<and> getcs uart_getc 2 (foldl (\<lambda>d b. duart_feed_input d 1 b) d0 [0x41, 0x42]) = Some ([0x41, 0x42], d1)"
  using console_line [of "[0x41, 0x42]" "[]"] by (simp add: numeral_2_eq_2) blast

end
