(* ===== verification/Bios.thy ===== *)
theory Bios
  imports Fat_File Console
begin

text \<open>
  The BIOS of XCP/M (\<open>xcpm-mips/src/bios.c\<close>) and the redirection of console output and input that it calls
  in \<open>bdos.c\<close>. \<open>kernel\<close> is the static state of both files with what lies below: the volume, the memory that
  pointers of the callers refer to, and the console as the queue of received bytes and the list of bytes sent
  (the interface \<open>console\<close>, which \<open>Console\<close> shows to hold of the driver). Addresses chosen by the linker are
  fields that no operation changes. A call that waits for a byte that never comes, or whose file operation is
  undefined, is \<open>None\<close>.
\<close>

section \<open>State\<close>

record fhandle =
  h_in_use :: bool
  h_generation :: u8
  h_file :: fat_file

record kernel =
  k_mem :: "u32 \<Rightarrow> u8"
  k_in :: "u8 list"
  k_out :: "u8 list"
  k_fat :: fat
  iobyte :: u8
  b_drive :: u16
  b_track :: u16
  b_sector :: u16
  b_dma :: u32
  cur_drive :: u8
  cur_user :: u8
  cur_subpath :: cstring
  mounted :: bool
  redir_file :: fat_file
  redir_active :: bool
  redir_buf :: "u8 list"
  fhandles :: "fhandle list"
  next_generation :: u8
  cur_dma :: u32
  search_iter :: fat_dir_iter
  search_pattern :: "u8 list"
  search_active :: bool
  at_memtab :: u32
  at_dph0 :: u32
  at_dpb0 :: u32
  at_dirbuf :: u32
  at_window :: u32

text \<open>Words in memory, most significant byte first, and strings.\<close>

definition mem32 :: "(u32 \<Rightarrow> u8) \<Rightarrow> u32 \<Rightarrow> u32" where
  "mem32 m a = push_bit 24 (ucast (m a)) OR push_bit 16 (ucast (m (a + 1))) OR push_bit 8 (ucast (m (a + 2))) OR ucast (m (a + 3))"

definition put32 :: "u32 \<Rightarrow> u32 \<Rightarrow> (u32 \<Rightarrow> u8) \<Rightarrow> (u32 \<Rightarrow> u8)" where
  "put32 a v m = m(a := ucast (drop_bit 24 v), a + 1 := ucast (drop_bit 16 v), a + 2 := ucast (drop_bit 8 v), a + 3 := ucast v)"

primrec put_bytes :: "u32 \<Rightarrow> u8 list \<Rightarrow> (u32 \<Rightarrow> u8) \<Rightarrow> (u32 \<Rightarrow> u8)" where
  "put_bytes a [] m = m"
| "put_bytes a (b # bs) m = put_bytes (a + 1) bs (m(a := b))"

definition get_bytes :: "u32 \<Rightarrow> nat \<Rightarrow> (u32 \<Rightarrow> u8) \<Rightarrow> u8 list" where
  "get_bytes a n m = map (\<lambda>i. m (a + of_nat i)) [0..<n]"

partial_function (option) cstr_at :: "(u32 \<Rightarrow> u8) \<Rightarrow> u32 \<Rightarrow> cstring option" where
  "cstr_at m a = (if m a = 0 then Some [] else do { cs \<leftarrow> cstr_at m (a + 1); Some (m a # cs) })"

section \<open>The console\<close>

definition k_putc :: "u8 \<Rightarrow> kernel \<Rightarrow> kernel option" where
  "k_putc c k = Some (k\<lparr>k_out := k_out k @ [c]\<rparr>)"

definition k_getc :: "kernel \<Rightarrow> (u8 \<times> kernel) option" where
  "k_getc k = (case k_in k of [] \<Rightarrow> None | b # bs \<Rightarrow> Some (b, k\<lparr>k_in := bs\<rparr>))"

definition k_poll :: "kernel \<Rightarrow> (int \<times> kernel) option" where
  "k_poll k = (case k_in k of [] \<Rightarrow> Some (-1, k) | b # bs \<Rightarrow> Some (uint b, k\<lparr>k_in := bs\<rparr>))"

interpretation kcon: console k_putc k_getc k_poll "\<lambda>_. True" k_in k_out
  by unfold_locales (auto simp: k_putc_def k_getc_def k_poll_def)

section \<open>Redirection\<close>

definition redir_flush :: "kernel \<Rightarrow> kernel option" where
  "redir_flush k =
     (if \<not> redir_active k \<or> redir_buf k = [] then Some k
      else do { (rc, fp, s) \<leftarrow> fat_fwrite (k_fat k) (redir_file k) (redir_buf k);
                Some (k\<lparr>k_fat := s, redir_file := fp, redir_buf := []\<rparr>) })"

text \<open>Whether the byte was taken.\<close>

definition bdos_redir_putc :: "u8 \<Rightarrow> kernel \<Rightarrow> (bool \<times> kernel) option" where
  "bdos_redir_putc c k =
     (if \<not> redir_active k then Some (False, k)
      else if 128 \<le> length (redir_buf k) then None
      else let k1 = k\<lparr>redir_buf := redir_buf k @ [c]\<rparr> in
        do { k2 \<leftarrow> (if 128 \<le> length (redir_buf k1) then redir_flush k1 else Some k1); Some (True, k2) })"

text \<open>
  Redirected input lies in the upper half of the LZSS window: the words \<open>active\<close>, \<open>pos\<close>, \<open>len\<close> and, from
  offset 16 on, the bytes.
\<close>

definition inrd :: "kernel \<Rightarrow> u32" where
  "inrd k = at_window k + 2048"

definition bdos_redir_getc :: "kernel \<Rightarrow> int \<times> kernel" where
  "bdos_redir_getc k =
     (let h = inrd k; pos = mem32 (k_mem k) (h + 4) in
      if mem32 (k_mem k) h = 0 then (-1, k)
      else if mem32 (k_mem k) (h + 8) \<le> pos then (0x1A, k)
      else (uint (k_mem k (h + 16 + pos)), k\<lparr>k_mem := put32 (h + 4) (pos + 1) (k_mem k)\<rparr>))"

definition bdos_redir_status :: "kernel \<Rightarrow> int" where
  "bdos_redir_status k = (if mem32 (k_mem k) (inrd k) = 0 then -1 else 0xFF)"

section \<open>The handlers\<close>

type_synonym handler = "u32 \<Rightarrow> u32 \<Rightarrow> kernel \<Rightarrow> (u32 \<times> kernel) option"

definition ret :: "u32 \<Rightarrow> handler" where
  "ret v a b k = Some (v, k)"

definition b_constat :: handler where
  "b_constat a b k =
     (let rs = bdos_redir_status k in
      if 0 \<le> rs then Some (word_of_int rs, k)
      else do { (r, k1) \<leftarrow> k_poll k; Some (if 0 \<le> r then 0xFF else 0, k1) })"

definition b_conin :: handler where
  "b_conin a b k =
     (case bdos_redir_getc k of
        (rc, k1) \<Rightarrow>
          if 0 \<le> rc then Some (word_of_int rc AND 0xFF, k1)
          else do { (c, k2) \<leftarrow> k_getc k1; Some (ucast c, k2) })"

definition b_conout :: handler where
  "b_conout c b k =
     do { (taken, k1) \<leftarrow> bdos_redir_putc (ucast c) k;
          if taken then Some (0, k1) else do { k2 \<leftarrow> k_putc (ucast c) k1; Some (0, k2) } }"

definition b_home :: handler where
  "b_home a b k = Some (0, k\<lparr>b_track := 0\<rparr>)"

definition b_seldsk :: handler where
  "b_seldsk d b k = (if d AND 0xF \<noteq> 0 then Some (0, k) else Some (at_dph0 k, k\<lparr>b_drive := ucast d\<rparr>))"

definition b_settrk :: handler where
  "b_settrk t b k = Some (0, k\<lparr>b_track := ucast t\<rparr>)"

definition b_setsec :: handler where
  "b_setsec s b k = Some (0, k\<lparr>b_sector := ucast s\<rparr>)"

definition b_setdma :: handler where
  "b_setdma a b k = Some (0, k\<lparr>b_dma := a\<rparr>)"

definition b_sectran :: handler where
  "b_sectran s xlt k = Some (s, k)"

definition b_getseg :: handler where
  "b_getseg a b k = Some (at_memtab k, k)"

definition b_getiob :: handler where
  "b_getiob a b k = Some (ucast (iobyte k), k)"

definition b_setiob :: handler where
  "b_setiob v b k = Some (0, k\<lparr>iobyte := ucast v\<rparr>)"

text \<open>The MIPS build has no vector table: \<open>b_setexc\<close> does nothing.\<close>

definition b_setexc :: handler where
  "b_setexc vec addr k = (if 256 \<le> vec then Some (0, k) else Some (0, k))"

text \<open>The handlers that do nothing.\<close>

definition b_init :: handler where "b_init = ret 0"
definition b_wboot :: handler where "b_wboot = ret 0"
definition b_lstout :: handler where "b_lstout = ret 0"
definition b_auxout :: handler where "b_auxout = ret 0"
definition b_auxin :: handler where "b_auxin = ret 0x1A"
definition b_read :: handler where "b_read = ret 1"
definition b_write :: handler where "b_write = ret 1"
definition b_lststat :: handler where "b_lststat = ret 0xFF"
definition b_conoutstat :: handler where "b_conoutstat = ret 0xFF"
definition b_flush :: handler where "b_flush = ret 0"
definition b_auxinstat :: handler where "b_auxinstat = ret 0"
definition b_auxoutstat :: handler where "b_auxoutstat = ret 0xFF"

lemmas b_stub_defs = b_init_def b_wboot_def b_lstout_def b_auxout_def b_auxin_def b_read_def b_write_def b_lststat_def
  b_conoutstat_def b_flush_def b_auxinstat_def b_auxoutstat_def

text \<open>The dispatch table; the entries from 25 on are null.\<close>

definition bios_table :: "handler list" where
  "bios_table =
     [b_init, b_wboot, b_constat, b_conin, b_conout, b_lstout, b_auxout, b_auxin, b_home, b_seldsk, b_settrk, b_setsec,
      b_setdma, b_read, b_write, b_lststat, b_sectran, b_conoutstat, b_getseg, b_getiob, b_setiob, b_flush, b_setexc,
      b_auxinstat, b_auxoutstat]"

definition bios_dispatch :: "u32 \<Rightarrow> handler" where
  "bios_dispatch func p1 p2 k =
     (if 32 \<le> func then Some (0, k)
      else if length bios_table \<le> unat func then Some (0, k)
      else (bios_table ! unat func) p1 p2 k)"

definition bios_init :: "kernel \<Rightarrow> kernel" where
  "bios_init k = k\<lparr>k_mem := put32 (at_dph0 k + 16) (at_dpb0 k) (put32 (at_dph0 k + 12) (at_dirbuf k) (k_mem k))\<rparr>"

text \<open>\<open>bios_call(BIOS_CONOUT, c, 0)\<close>, once and for a string.\<close>

definition conout :: "u8 \<Rightarrow> kernel \<Rightarrow> kernel option" where
  "conout c k = map_option snd (bios_dispatch 4 (ucast c) 0 k)"

definition conin :: "kernel \<Rightarrow> (u32 \<times> kernel) option" where
  "conin k = bios_dispatch 3 0 0 k"

section \<open>Facts\<close>

lemma bios_null: "25 \<le> func \<Longrightarrow> bios_dispatch func p1 p2 k = Some (0, k)"
  by (simp add: bios_dispatch_def bios_table_def word_le_nat_alt)

lemma ucast_and_ff [simp]: "(ucast (ucast (c :: u8) :: u32) :: u8) = c"
  by (rule ucast_back)

text \<open>Output while no redirection is active goes to the console.\<close>

lemma conout_plain: "\<not> redir_active k \<Longrightarrow> conout c k = Some (k\<lparr>k_out := k_out k @ [c]\<rparr>)"
  by (simp add: conout_def bios_dispatch_def bios_table_def b_conout_def bdos_redir_putc_def k_putc_def)

lemma conouts_plain: "\<not> redir_active k \<Longrightarrow> putcs conout cs k = Some (k\<lparr>k_out := k_out k @ cs\<rparr>)"
  by (induction cs arbitrary: k) (simp_all add: conout_plain)

lemma put_bytes_other: "\<forall>i < length xs. c + of_nat i \<noteq> a \<Longrightarrow> put_bytes c xs m a = m a"
proof (induction xs arbitrary: c m)
  case (Cons x xs)
  have "c \<noteq> a" using Cons.prems by (auto dest: spec [of _ 0])
  moreover have "\<forall>i < length xs. c + 1 + of_nat i \<noteq> a" using Cons.prems by (auto dest: spec [of _ "Suc _"] simp: add.assoc)
  ultimately show ?case using Cons.IH [of "c + 1" "m(c := x)"] by (metis fun_upd_other put_bytes.simps(2))
qed simp

lemma get_put_bytes: "length bs \<le> 2 ^ 32 \<Longrightarrow> n = length bs \<Longrightarrow> get_bytes a n (put_bytes a bs m) = bs"
proof (induction bs arbitrary: a m n)
  case Nil
  then show ?case by (simp add: get_bytes_def)
next
  case (Cons b bs)
  have "a + 1 + of_nat i \<noteq> a" if "i < length bs" for i
  proof
    assume "a + 1 + of_nat i = a"
    then have "(of_nat (Suc i) :: u32) = 0" by (simp add: add.assoc)
    then have "unat (of_nat (Suc i) :: u32) = 0" by (simp only: unsigned_0)
    moreover have "unat (of_nat (Suc i) :: u32) = Suc i" using that Cons.prems by (intro unat_of_nat_small) simp
    ultimately show False by simp
  qed
  then have "put_bytes (a + 1) bs (m(a := b)) a = b" by (simp add: put_bytes_other)
  moreover have "get_bytes (a + 1) (length bs) (put_bytes (a + 1) bs (m(a := b))) = bs" using Cons by simp
  moreover have "[0..<Suc (length bs)] = 0 # map Suc [0..<length bs]" by (simp only: upt_conv_Cons map_Suc_upt)
  ultimately show ?case using Cons.prems(2) by (simp add: get_bytes_def comp_def add.assoc)
qed

end
