(* ===== verification/Bdos_File.thy ===== *)
theory Bdos_File
  imports Bios
begin

text \<open>
  The file functions of the BDOS (\<open>xcpm-mips/src/bdos.c\<close>): paths, file control blocks and the functions 15 to
  23, 26 and 33 to 36. A file control block (FCB) is 36 bytes of the caller's memory; the kernel keeps an index and a
  generation number of its handle table in it. A handler returns \<open>Ret v\<close>, or \<open>Warmboot\<close> when it leaves the
  calling program for good.
\<close>

datatype bres = Ret u32 | Warmboot

type_synonym bhandler = "u32 \<Rightarrow> u32 \<Rightarrow> kernel \<Rightarrow> (bres \<times> kernel) option"

definition rv :: "u32 \<Rightarrow> kernel \<Rightarrow> (bres \<times> kernel) option" where
  "rv v k = Some (Ret v, k)"

definition setb :: "u32 \<Rightarrow> u8 \<Rightarrow> kernel \<Rightarrow> kernel" where
  "setb a v k = k\<lparr>k_mem := (k_mem k)(a := v)\<rparr>"

section \<open>Mounting and paths\<close>

definition ensure_mounted :: "kernel \<Rightarrow> bool \<times> kernel" where
  "ensure_mounted k =
     (if mounted k then (True, k)
      else case fat_mount_op (k_fat k) of
             (rc, s) \<Rightarrow> if rc \<noteq> 0 then (False, k\<lparr>k_fat := s\<rparr>) else (True, k\<lparr>k_fat := s, mounted := True\<rparr>))"

definition mount_path :: "u8 \<Rightarrow> cstring" where
  "mount_path drive = (if drive = 0 then [] else [0x2F, 0x41 + drive])"

definition user_part :: "u8 \<Rightarrow> cstring" where
  "user_part user = [0x2F, 0x55] @ (if 10 \<le> user then [0x30 + user div 10] else []) @ [0x30 + user mod 10]"

text \<open>\<open>None\<close>: the function returns -1 without writing the buffer, which its callers do not notice.\<close>

definition build_path :: "u8 \<Rightarrow> u8 \<Rightarrow> cstring \<Rightarrow> cstring \<Rightarrow> nat \<Rightarrow> cstring option" where
  "build_path drive user sub name mx =
     (let p = take (mx - 1) (mount_path drive) in
      if 16 \<le> drive \<or> 0 < user \<and> mx - 1 < length p + 4 then None
      else let p1 = (if 0 < user then p @ user_part user else p); p2 = take (mx - 1) (p1 @ sub) in
        Some (if name = [] then p2 else take (mx - 1) (p2 @ 0x2F # name)))"

definition path_of :: "u8 \<Rightarrow> cstring \<Rightarrow> kernel \<Rightarrow> cstring option" where
  "path_of drive name k = build_path drive (cur_user k) (cur_subpath k) name 40"

section \<open>File control blocks\<close>

abbreviation "FCB_EX \<equiv> 12 :: u32"
abbreviation "FCB_S1 \<equiv> 13 :: u32"
abbreviation "FCB_S2 \<equiv> 14 :: u32"
abbreviation "FCB_RC \<equiv> 15 :: u32"
abbreviation "FCB_PRIV \<equiv> 16 :: u32"
abbreviation "FCB_CR \<equiv> 32 :: u32"
abbreviation "FCB_R0 \<equiv> 33 :: u32"

definition fcb_drive :: "kernel \<Rightarrow> u32 \<Rightarrow> u8" where
  "fcb_drive k fcb = (let d = k_mem k fcb in if d = 0 then cur_drive k else (d - 1) AND 0x0F)"

definition fcb_to_name :: "u8 list \<Rightarrow> cstring" where
  "fcb_to_name raw =
     (let base = takeWhile (\<lambda>c. c \<noteq> 0x20) (take 8 raw); e = take 3 (drop 8 raw) in
      cstr (take 15 (base @ (if list_ex (\<lambda>c. c \<noteq> 0x20) e then 0x2E # takeWhile (\<lambda>c. c \<noteq> 0x20) e else []))))"

definition fcb_to_path :: "kernel \<Rightarrow> u32 \<Rightarrow> cstring option" where
  "fcb_to_path k fcb = path_of (fcb_drive k fcb) (fcb_to_name (get_bytes (fcb + 1) 11 (k_mem k))) k"

definition alloc_handle :: "kernel \<Rightarrow> (nat \<times> kernel) option" where
  "alloc_handle k =
     (case find (\<lambda>i. \<not> h_in_use (fhandles k ! i)) [0..<16] of
        None \<Rightarrow> None
      | Some i \<Rightarrow>
          Some (i, k\<lparr>fhandles := (fhandles k)[i := (fhandles k ! i)\<lparr>h_in_use := True, h_generation := next_generation k\<rparr>],
                     next_generation := (if next_generation k + 1 = 0 then 1 else next_generation k + 1)\<rparr>))"

definition resolve_fcb :: "kernel \<Rightarrow> u32 \<Rightarrow> nat option" where
  "resolve_fcb k fcb =
     (let m = k_mem k; p = fcb + FCB_PRIV; idx = unat (m (p + 4)) in
      if m p \<noteq> 0x58 \<or> m (p + 1) \<noteq> 0x46 then None
      else if 16 \<le> idx then None
      else if \<not> h_in_use (fhandles k ! idx) then None
      else if h_generation (fhandles k ! idx) \<noteq> m (p + 5) then None
      else Some idx)"

definition stash_handle :: "u32 \<Rightarrow> nat \<Rightarrow> kernel \<Rightarrow> kernel" where
  "stash_handle fcb idx k =
     k\<lparr>k_mem := put_bytes (fcb + FCB_PRIV) [0x58, 0x46, 0, 0, of_nat idx, h_generation (fhandles k ! idx)] (k_mem k)\<rparr>"

text \<open>The file of a handle, and the handle marked free.\<close>

definition set_file :: "nat \<Rightarrow> fat_file \<Rightarrow> kernel \<Rightarrow> kernel" where
  "set_file i fp k = k\<lparr>fhandles := (fhandles k)[i := (fhandles k ! i)\<lparr>h_file := fp\<rparr>]\<rparr>"

definition free_handle :: "nat \<Rightarrow> kernel \<Rightarrow> kernel" where
  "free_handle i k = k\<lparr>fhandles := (fhandles k)[i := (fhandles k ! i)\<lparr>h_in_use := False\<rparr>]\<rparr>"

abbreviation file_of :: "kernel \<Rightarrow> nat \<Rightarrow> fat_file" where
  "file_of k i \<equiv> h_file (fhandles k ! i)"

definition records :: "u32 \<Rightarrow> u32" where
  "records n = (n + 127) div 128"

text \<open>The record number in the extent fields, and the fields for a record number.\<close>

definition fcb_record :: "kernel \<Rightarrow> u32 \<Rightarrow> u32" where
  "fcb_record k fcb =
     push_bit 12 (ucast (k_mem k (fcb + FCB_S2))) OR push_bit 7 (ucast (k_mem k (fcb + FCB_EX))) OR ucast (k_mem k (fcb + FCB_CR))"

definition set_record :: "u32 \<Rightarrow> u32 \<Rightarrow> kernel \<Rightarrow> kernel" where
  "set_record fcb r k =
     setb (fcb + FCB_S2) (ucast (drop_bit 12 r)) (setb (fcb + FCB_EX) (ucast (drop_bit 7 r AND 0x1F))
       (setb (fcb + FCB_CR) (ucast (r AND 0x7F)) k))"

definition fcb_random :: "kernel \<Rightarrow> u32 \<Rightarrow> u32" where
  "fcb_random k fcb =
     ucast (k_mem k (fcb + FCB_R0)) OR push_bit 8 (ucast (k_mem k (fcb + FCB_R0 + 1))) OR push_bit 16 (ucast (k_mem k (fcb + FCB_R0 + 2)))"

definition set_random :: "u32 \<Rightarrow> u32 \<Rightarrow> kernel \<Rightarrow> kernel" where
  "set_random fcb r k =
     setb (fcb + FCB_R0 + 2) (ucast (drop_bit 16 r AND 0xFF)) (setb (fcb + FCB_R0 + 1) (ucast (drop_bit 8 r AND 0xFF))
       (setb (fcb + FCB_R0) (ucast (r AND 0xFF)) k))"

section \<open>Open, close, make\<close>

definition d_open :: bhandler where
  "d_open fcb b k0 =
     (case ensure_mounted k0 of (ok, k) \<Rightarrow>
        if \<not> ok then rv 0xFF k
        else do { path \<leftarrow> fcb_to_path k fcb;
          (case alloc_handle k of
             None \<Rightarrow> rv 0xFF k
           | Some (i, k1) \<Rightarrow>
               do { (rc, fp, s) \<leftarrow> fat_fopen (k_fat k1) path (file_of k1 i);
                    let k2 = set_file i fp (k1\<lparr>k_fat := s\<rparr>) in
                    if rc \<noteq> 0 then rv 0xFF (free_handle i k2)
                    else let r = records (file_size fp); k3 = stash_handle fcb i k2 in
                      rv 0 (setb (fcb + FCB_CR) 0 (setb (fcb + FCB_RC) (ucast (r AND 0x7F))
                             (setb (fcb + FCB_S2) (ucast (drop_bit 12 r)) (setb (fcb + FCB_S1) 0
                               (setb (fcb + FCB_EX) (ucast (drop_bit 7 r AND 0x1F)) k3))))) }) })"

definition d_close :: bhandler where
  "d_close fcb b k =
     (case resolve_fcb k fcb of
        None \<Rightarrow> rv 0xFF k
      | Some i \<Rightarrow> rv 0 (setb (fcb + FCB_PRIV) 0 (free_handle i (set_file i (fat_fclose (file_of k i)) k))))"

definition d_make :: bhandler where
  "d_make fcb b k0 =
     (case ensure_mounted k0 of (ok, k) \<Rightarrow>
        if \<not> ok then rv 0xFF k
        else do { path \<leftarrow> fcb_to_path k fcb;
          (case alloc_handle k of
             None \<Rightarrow> rv 0xFF k
           | Some (i, k1) \<Rightarrow>
               do { (rc, fp, s) \<leftarrow> fat_fcreate (k_fat k1) path (file_of k1 i);
                    let k2 = set_file i fp (k1\<lparr>k_fat := s\<rparr>) in
                    if rc \<noteq> 0 then rv 0xFF (free_handle i k2)
                    else rv 0 (setb (fcb + FCB_CR) 0 (setb (fcb + FCB_RC) 0 (setb (fcb + FCB_S2) 0
                                (setb (fcb + FCB_S1) 0 (setb (fcb + FCB_EX) 0 (stash_handle fcb i k2)))))) }) })"

section \<open>Searching\<close>

definition emit_dirent_to_dma :: "fat_dirent \<Rightarrow> kernel \<Rightarrow> u32 \<times> kernel" where
  "emit_dirent_to_dma de k =
     (if cur_dma k = 0 then (0xFF, k)
      else (0, k\<lparr>k_mem := put_bytes (cur_dma k)
              ([0] @ take 11 (de_name de) @ [0, 0, 0, ucast (records (de_file_size de) AND 0x7F)] @ replicate 16 0) (k_mem k)\<rparr>))"

text \<open>One more match, to the DMA buffer.\<close>

definition search_step :: "kernel \<Rightarrow> (bres \<times> kernel) option" where
  "search_step k =
     do { (r, it, s) \<leftarrow> fat_search_next (search_iter k) (k_fat k) (search_pattern k);
          let k1 = k\<lparr>search_iter := it, k_fat := s\<rparr> in
          (case r of
             Inl _ \<Rightarrow> rv 0xFF (k1\<lparr>search_active := False\<rparr>)
           | Inr de \<Rightarrow>
               (case emit_dirent_to_dma de (k1\<lparr>search_active := True\<rparr>) of
                  (e, k2) \<Rightarrow> rv (if e \<noteq> 0 then 0xFF else 0) k2)) }"

definition d_search1 :: bhandler where
  "d_search1 fcb b k0 =
     (case ensure_mounted k0 of (ok, k) \<Rightarrow>
        if \<not> ok then rv 0xFF k
        else let k1 = k\<lparr>search_pattern := map upc (get_bytes (fcb + 1) 11 (k_mem k))\<rparr> in
          do { dir \<leftarrow> path_of (fcb_drive k1 fcb) [] k1;
               (rc, it, s) \<leftarrow> fat_diropen_path (search_iter k1) (k_fat k1) dir;
               let k2 = k1\<lparr>search_iter := it, k_fat := s\<rparr> in
               if rc \<noteq> 0 then rv 0xFF (k2\<lparr>search_active := False\<rparr>) else search_step k2 })"

definition d_searchN :: bhandler where
  "d_searchN fcb b k = (if \<not> search_active k then rv 0xFF k else search_step k)"

section \<open>Records\<close>

text \<open>
  The common part of the reads: the record at a byte offset to the DMA buffer, filled up with the
  end-of-file character. \<open>Inl\<close> is the value to return at once.
\<close>

definition read_record :: "nat \<Rightarrow> u32 \<Rightarrow> kernel \<Rightarrow> ((u32 + unit) \<times> kernel) option" where
  "read_record i byte_off k =
     (if file_size (file_of k i) \<le> byte_off then Some (Inl 1, k)
      else do { (rc, fp, s) \<leftarrow> fat_fseek (k_fat k) (file_of k i) byte_off;
                let k1 = set_file i fp (k\<lparr>k_fat := s\<rparr>) in
                if rc \<noteq> 0 then Some (Inl 0xFF, k1)
                else case fat_fread (k_fat k1) (file_of k1 i) 128 of
                       ((got, bs), fp2, s2) \<Rightarrow>
                         let k2 = set_file i fp2 (k1\<lparr>k_fat := s2, k_mem := put_bytes (cur_dma k1) bs (k_mem k1)\<rparr>) in
                         if got \<le> 0 then Some (Inl 1, k2)
                         else Some (Inr (), k2\<lparr>k_mem := put_bytes (cur_dma k2) (bs @ replicate (128 - nat got) 0x1A) (k_mem k2)\<rparr>) })"

definition d_read_seq :: bhandler where
  "d_read_seq fcb b k =
     (case resolve_fcb k fcb of
        None \<Rightarrow> rv 1 k
      | Some i \<Rightarrow>
          if cur_dma k = 0 then rv 0xFF k
          else let r = fcb_record k fcb in
            do { (x, k1) \<leftarrow> read_record i (r * 128) k;
                 (case x of Inl v \<Rightarrow> rv v k1 | Inr _ \<Rightarrow> rv 0 (set_record fcb (r + 1) k1)) })"

definition d_read_random :: bhandler where
  "d_read_random fcb b k =
     (case resolve_fcb k fcb of
        None \<Rightarrow> rv 6 k
      | Some i \<Rightarrow>
          if cur_dma k = 0 then rv 0xFF k
          else let r = fcb_random k fcb in
            do { (x, k1) \<leftarrow> read_record i (r * 128) k;
                 (case x of Inl v \<Rightarrow> rv v k1 | Inr _ \<Rightarrow> rv 0 (set_record fcb r k1)) })"

text \<open>The common part of the writes: whether 128 bytes were written.\<close>

definition write_record :: "nat \<Rightarrow> u32 \<Rightarrow> kernel \<Rightarrow> (bool \<times> kernel) option" where
  "write_record i byte_off k =
     do { (rc, fp, s) \<leftarrow> fat_fseek (k_fat k) (file_of k i) byte_off;
          let k1 = set_file i fp (k\<lparr>k_fat := s\<rparr>) in
          if rc \<noteq> 0 then Some (False, k1)
          else do { (wrote, fp2, s2) \<leftarrow> fat_fwrite (k_fat k1) (file_of k1 i) (get_bytes (cur_dma k1) 128 (k_mem k1));
                    Some (wrote = 128, set_file i fp2 (k1\<lparr>k_fat := s2\<rparr>)) } }"

definition flush_handle :: "nat \<Rightarrow> kernel \<Rightarrow> kernel option" where
  "flush_handle i k = do { (rc, s) \<leftarrow> fat_fflush (k_fat k) (file_of k i); Some (k\<lparr>k_fat := s\<rparr>) }"

definition d_write_seq :: bhandler where
  "d_write_seq fcb b k =
     (case resolve_fcb k fcb of
        None \<Rightarrow> rv 0xFF k
      | Some i \<Rightarrow>
          if cur_dma k = 0 then rv 0xFF k
          else let r = fcb_record k fcb in
            do { (ok, k1) \<leftarrow> write_record i (r * 128) k;
                 if \<not> ok then rv 0xFF k1
                 else let k2 = set_record fcb (r + 1) k1;
                          k3 = setb (fcb + FCB_RC) (ucast (records (file_size (file_of k2 i)) AND 0x7F)) k2 in
                   do { k4 \<leftarrow> flush_handle i k3; rv 0 k4 } })"

definition d_write_random :: bhandler where
  "d_write_random fcb b k =
     (case resolve_fcb k fcb of
        None \<Rightarrow> rv 0xFF k
      | Some i \<Rightarrow>
          if cur_dma k = 0 then rv 0xFF k
          else let r = fcb_random k fcb in
            do { (ok, k1) \<leftarrow> write_record i (r * 128) k;
                 if \<not> ok then rv 0xFF k1 else do { k2 \<leftarrow> flush_handle i (set_record fcb r k1); rv 0 k2 } })"

definition d_set_dma :: bhandler where
  "d_set_dma a b k = rv 0 (k\<lparr>cur_dma := a\<rparr>)"

definition d_file_size :: bhandler where
  "d_file_size fcb b k =
     (case resolve_fcb k fcb of None \<Rightarrow> rv 0xFF k | Some i \<Rightarrow> rv 0 (set_random fcb (records (file_size (file_of k i))) k))"

definition d_set_rrec :: bhandler where
  "d_set_rrec fcb b k = rv 0 (set_random fcb (fcb_record k fcb) k)"

section \<open>Delete and rename\<close>

definition d_delete :: bhandler where
  "d_delete fcb b k0 =
     (case ensure_mounted k0 of (ok, k) \<Rightarrow>
        if \<not> ok then rv 0xFF k
        else do { path \<leftarrow> fcb_to_path k fcb; (rc, s) \<leftarrow> fat_funlink (k_fat k) path;
                  rv (if rc = 0 then 0 else 0xFF) (k\<lparr>k_fat := s\<rparr>) })"

definition d_rename :: bhandler where
  "d_rename fcb b k0 =
     (case ensure_mounted k0 of (ok, k) \<Rightarrow>
        if \<not> ok then rv 0xFF k
        else do { old \<leftarrow> path_of (fcb_drive k fcb) (fcb_to_name (get_bytes (fcb + 1) 11 (k_mem k))) k;
                  new \<leftarrow> path_of (fcb_drive k fcb) (fcb_to_name (get_bytes (fcb + 17) 11 (k_mem k))) k;
                  (rc, s) \<leftarrow> fat_frename (k_fat k) old new;
                  rv (if rc = 0 then 0 else 0xFF) (k\<lparr>k_fat := s\<rparr>) })"

end
