(* ===== verification/Bdos.thy ===== *)
theory Bdos
  imports Bdos_File Lzss
begin

text \<open>
  The console functions and the extensions of the BDOS (\<open>xcpm-mips/src/bdos.c\<close>), its dispatch table and
  dispatcher, with the program loader of \<open>glue_ncd15.c\<close>. Machine code that the loader starts is the parameter
  \<open>app\<close>: given the load address, the size and the command tail it ends with a return code, or leaves through
  the warm boot.
\<close>

datatype app_end = Exits int | Leaves

type_synonym app = "u32 \<Rightarrow> u32 \<Rightarrow> cstring \<Rightarrow> kernel \<Rightarrow> (app_end \<times> kernel) option"

text \<open>A local file variable; every field is set before it is read, except as \<open>fat_fopen\<close> leaves it.\<close>

definition file0 :: fat_file where
  "file0 = \<lparr>in_use = False, first_clus = 0, cur_clus = 0, cur_pos = 0, file_size = 0, dir_lba = 0, dir_off = 0, f_attr = 0\<rparr>"

text \<open>The string at a pointer, where a null pointer counts as empty; the path of a name on the current drive.\<close>

definition name_at :: "kernel \<Rightarrow> u32 \<Rightarrow> cstring option" where
  "name_at k p = (if p = 0 then Some [] else cstr_at (k_mem k) p)"

definition here_path :: "u32 \<Rightarrow> kernel \<Rightarrow> cstring option" where
  "here_path name_p k = do { name \<leftarrow> name_at k name_p; path_of (cur_drive k) name k }"

section \<open>The console functions\<close>

definition d_reset :: bhandler where
  "d_reset a b k = Some (Warmboot, k)"

definition echoed :: "u32 \<Rightarrow> bool" where
  "echoed c \<longleftrightarrow> 0x20 \<le> c \<or> c = 0x0D \<or> c = 0x0A \<or> c = 0x09 \<or> c = 0x08"

definition d_conin :: bhandler where
  "d_conin a b k =
     do { (c, k1) \<leftarrow> conin k;
          if echoed c then do { k2 \<leftarrow> conout (ucast c) k1; rv c k2 } else rv c k1 }"

definition d_conout :: bhandler where
  "d_conout c b k = do { k1 \<leftarrow> conout (ucast (c AND 0xFF)) k; rv 0 k1 }"

definition d_directio :: bhandler where
  "d_directio c b k =
     (if c AND 0xFF = 0xFF then do { (r, k1) \<leftarrow> k_poll k; rv (if r < 0 then 0 else word_of_int r AND 0xFF) k1 }
      else if c AND 0xFF = 0xFE then do { (r, k1) \<leftarrow> k_poll k; rv (if 0 \<le> r then 0xFF else 0) k1 }
      else do { k1 \<leftarrow> conout (ucast (c AND 0xFF)) k; rv 0 k1 })"

partial_function (option) printstr_loop :: "u32 \<Rightarrow> kernel \<Rightarrow> kernel option" where
  "printstr_loop p k =
     (let c = k_mem k p in
      if c = 0 \<or> c = 0x24 then Some k else do { k1 \<leftarrow> conout c k; printstr_loop (p + 1) k1 })"

definition d_printstr :: bhandler where
  "d_printstr p b k = do { k1 \<leftarrow> printstr_loop p k; rv 0 k1 }"

text \<open>
  The line editor, with \<open>n\<close> characters of at most \<open>mx\<close> in the buffer at \<open>ptr + 2\<close>. The result is the
  length of the line, or \<open>None\<close> for a warm boot.
\<close>

definition rub_out :: "nat \<Rightarrow> kernel \<Rightarrow> kernel option" where
  "rub_out n k = putcs conout (concat (replicate n [0x08, 0x20, 0x08])) k"

partial_function (option) readline_loop :: "u32 \<Rightarrow> u8 \<Rightarrow> u8 \<Rightarrow> kernel \<Rightarrow> (u8 option \<times> kernel) option" where
  "readline_loop ptr mx n k =
     do { (c32, k1) \<leftarrow> conin k;
          let c = (ucast (c32 AND 0xFF) :: u8) in
          if c = 0x0D \<or> c = 0x0A then do { k2 \<leftarrow> putcs conout [0x0D, 0x0A] k1; Some (Some n, k2) }
          else if c = 0x08 \<or> c = 0x7F then
            if 0 < n then do { k2 \<leftarrow> rub_out 1 k1; readline_loop ptr mx (n - 1) k2 } else readline_loop ptr mx n k1
          else if c = 0x15 then do { k2 \<leftarrow> rub_out (unat n) k1; readline_loop ptr mx 0 k2 }
          else if c = 0x03 then Some (None, k1)
          else if n < mx then do { k2 \<leftarrow> conout c (setb (ptr + 2 + ucast n) c k1); readline_loop ptr mx (n + 1) k2 }
          else readline_loop ptr mx n k1 }"

definition d_readline :: bhandler where
  "d_readline ptr b k =
     do { (r, k1) \<leftarrow> readline_loop ptr (k_mem k ptr) 0 k;
          (case r of None \<Rightarrow> d_reset 0 0 k1 | Some n \<Rightarrow> rv 0 (setb (ptr + 1) n k1)) }"

text \<open>A BIOS call as a BDOS function.\<close>

definition via_bios :: "u32 \<Rightarrow> bhandler" where
  "via_bios f a b k = do { (v, k1) \<leftarrow> bios_dispatch f a b k; rv v k1 }"

definition d_constat :: bhandler where
  "d_constat a b k = via_bios 2 0 0 k"

definition d_version :: bhandler where
  "d_version a b k = rv 0x22 k"

definition d_getdisk :: bhandler where
  "d_getdisk a b k = rv (ucast (cur_drive k)) k"

definition d_seldisk :: bhandler where
  "d_seldisk d b k = rv 0 (k\<lparr>cur_drive := ucast (d AND 0x0F), cur_subpath := []\<rparr>)"

definition d_user :: bhandler where
  "d_user u b k =
     (if u AND 0xFF = 0xFF then rv (ucast (cur_user k)) k else rv 0 (k\<lparr>cur_user := ucast (u AND 0x0F)\<rparr>))"

definition d_directbios :: bhandler where
  "d_directbios ptr b k =
     (let m = k_mem k in
      if ptr = 0 \<or> 32 \<le> mem32 m ptr then rv 0 k else via_bios (mem32 m ptr) (mem32 m (ptr + 4)) (mem32 m (ptr + 8)) k)"

definition d_setexc :: bhandler where
  "d_setexc vec addr k = via_bios 22 vec addr k"

section \<open>Mount and directory listing\<close>

definition type_num :: "fat_type \<Rightarrow> u32" where
  "type_num t = (case t of FAT_NONE \<Rightarrow> 0 | FAT12 \<Rightarrow> 12 | FAT16 \<Rightarrow> 16 | FAT32 \<Rightarrow> 32)"

definition d_ext_mount :: bhandler where
  "d_ext_mount a b k =
     (case fat_mount_op (k_fat k) of
        (rc, s) \<Rightarrow> rv (if rc \<noteq> 0 then 0 else type_num (m_type (fat_M s))) (k\<lparr>k_fat := s\<rparr>))"

text \<open>The line of one entry.\<close>

definition entry_name :: "u8 list \<Rightarrow> u8 list" where
  "entry_name raw =
     takeWhile (\<lambda>c. c \<noteq> 0x20) (take 8 raw)
     @ (if raw ! 8 \<noteq> 0x20 then 0x2E # takeWhile (\<lambda>c. c \<noteq> 0x20) (take 3 (drop 8 raw)) else [])"

definition entry_line :: "fat_dirent \<Rightarrow> cstring \<Rightarrow> u8 list" where
  "entry_line de lfn =
     (let nm = entry_name (de_name de) in
      nm @ replicate (14 - length nm) 0x20 @ [0x20]
      @ (if de_attr de AND ATTR_DIR \<noteq> 0 then [0x3C, 0x44, 0x49, 0x52, 0x3E] else dec_digits (de_file_size de))
      @ (if lfn \<noteq> [] then [0x20, 0x20] @ lfn else []) @ [0x0D, 0x0A])"

partial_function (option) listroot_loop :: "fat_dir_iter \<Rightarrow> u32 \<Rightarrow> kernel \<Rightarrow> (u32 \<times> kernel) option" where
  "listroot_loop it count k =
     do { (r, it1, s) \<leftarrow> fat_dirnext it (k_fat k) 256;
          let k1 = k\<lparr>k_fat := s\<rparr> in
          if isl r then Some (count, k1)
          else do { k2 \<leftarrow> putcs conout (entry_line (fst (projr r)) (snd (projr r))) k1; listroot_loop it1 (count + 1) k2 } }"

definition d_ext_listroot :: bhandler where
  "d_ext_listroot cb ctx k =
     do { dir \<leftarrow> path_of (cur_drive k) [] k;
          (rc, it, s) \<leftarrow> fat_diropen_path iter0 (k_fat k) dir;
          let k1 = k\<lparr>k_fat := s\<rparr> in
          if rc \<noteq> 0 then rv 0xFFFFFFFF k1 else do { (n, k2) \<leftarrow> listroot_loop it 0 k1; rv n k2 } }"

section \<open>Redirection\<close>

definition d_ext_redir_begin :: bhandler where
  "d_ext_redir_begin name_p md k0 =
     (case ensure_mounted k0 of (ok, k) \<Rightarrow>
        if \<not> ok then rv 0xFF k
        else do { k1 \<leftarrow> (if redir_active k then redir_flush k else Some k);
                  path \<leftarrow> here_path name_p k1;
                  (ok2, k2) \<leftarrow>
                    (if md AND 1 \<noteq> 0
                     then do { (rc, fp, s) \<leftarrow> fat_fopen (k_fat k1) path (redir_file k1);
                               if rc \<noteq> 0
                               then do { (rc2, fp2, s2) \<leftarrow> fat_fcreate s path fp;
                                         Some (rc2 = 0, k1\<lparr>k_fat := s2, redir_file := fp2\<rparr>) }
                               else do { (rc2, fp2, s2) \<leftarrow> fat_fseek s fp (file_size fp);
                                         Some (True, k1\<lparr>k_fat := s2, redir_file := fp2\<rparr>) } }
                     else do { (rc, fp, s) \<leftarrow> fat_fcreate (k_fat k1) path (redir_file k1);
                               Some (rc = 0, k1\<lparr>k_fat := s, redir_file := fp\<rparr>) });
                  if ok2 then rv 0 (k2\<lparr>redir_buf := [], redir_active := True\<rparr>) else rv 0xFF k2 })"

definition d_ext_redir_end :: bhandler where
  "d_ext_redir_end a b k =
     (if \<not> redir_active k then rv 0 k
      else do { k1 \<leftarrow> redir_flush k;
                (rc, s) \<leftarrow> fat_fflush (k_fat k1) (redir_file k1);
                rv 0 (k1\<lparr>k_fat := s, redir_file := fat_fclose (redir_file k1), redir_active := False, redir_buf := []\<rparr>) })"

definition d_ext_inrd_begin :: bhandler where
  "d_ext_inrd_begin name_p b k0 =
     (case ensure_mounted k0 of (ok, k) \<Rightarrow>
        if \<not> ok then rv 0xFF k
        else do { path \<leftarrow> here_path name_p k;
                  (rc, fp, s) \<leftarrow> fat_fopen (k_fat k) path file0;
                  if rc \<noteq> 0 then rv 0xFF (k\<lparr>k_fat := s\<rparr>)
                  else case fat_fread s fp 2032 of
                         ((n, bs), fp2, s2) \<Rightarrow>
                           let h = inrd k; k1 = k\<lparr>k_fat := s2, k_mem := put_bytes (h + 16) bs (k_mem k)\<rparr> in
                           if n < 0 then rv 0xFF k1
                           else rv 0 (k1\<lparr>k_mem := put32 h 1 (put32 (h + 4) 0 (put32 (h + 8) (word_of_int n) (k_mem k1)))\<rparr>) })"

definition d_ext_inrd_end :: bhandler where
  "d_ext_inrd_end a b k = rv 0 (k\<lparr>k_mem := put32 (inrd k) 0 (k_mem k)\<rparr>)"

section \<open>Whole files\<close>

partial_function (option) copy_loop :: "u32 \<Rightarrow> u32 \<Rightarrow> fat_file \<Rightarrow> fat_file \<Rightarrow> fat \<Rightarrow> (u32 \<times> fat_file \<times> fat) option" where
  "copy_loop tot copied sf df s =
     (if \<not> copied < tot then Some (copied, df, s)
      else case fat_fread s sf 128 of
             ((n, bs), sf1, s1) \<Rightarrow>
               if n \<le> 0 then Some (copied, df, s1)
               else do { (w, df1, s2) \<leftarrow> fat_fwrite s1 df bs;
                         if w \<noteq> n then Some (0xFFFFFFFF, df1, s2) else copy_loop tot (copied + word_of_int n) sf1 df1 s2 })"

definition d_ext_copy :: bhandler where
  "d_ext_copy src_p dst_p k0 =
     (case ensure_mounted k0 of (ok, k) \<Rightarrow>
        if \<not> ok then rv 0xFFFFFFFF k
        else do { src \<leftarrow> here_path src_p k; dst \<leftarrow> here_path dst_p k;
                  (rc, sf, s) \<leftarrow> fat_fopen (k_fat k) src file0;
                  if rc \<noteq> 0 then rv 0xFFFFFFFF (k\<lparr>k_fat := s\<rparr>)
                  else do { (rc2, df, s2) \<leftarrow> fat_fcreate s dst file0;
                            if rc2 \<noteq> 0 then rv 0xFFFFFFFF (k\<lparr>k_fat := s2\<rparr>)
                            else do { (copied, df2, s3) \<leftarrow> copy_loop (file_size sf) 0 sf df s2;
                                      (rc3, s4) \<leftarrow> fat_fflush s3 df2;
                                      rv copied (k\<lparr>k_fat := s4\<rparr>) } } })"

definition d_ext_scratch :: bhandler where
  "d_ext_scratch si_p b k =
     (if si_p = 0 then rv 0xFF k
      else rv 0 (k\<lparr>k_mem := put32 (si_p + 4) 4096 (put32 si_p (at_window k) (k_mem k))\<rparr>))"

definition d_ext_savefile :: bhandler where
  "d_ext_savefile path_p sb_p k0 =
     (case ensure_mounted k0 of (ok, k) \<Rightarrow>
        let buf = mem32 (k_mem k) sb_p; n = mem32 (k_mem k) (sb_p + 4) in
        if \<not> ok \<or> sb_p = 0 \<or> buf = 0 then rv 0xFFFFFFFF k
        else do { path \<leftarrow> here_path path_p k;
                  (rc, fp, s) \<leftarrow> fat_fcreate (k_fat k) path file0;
                  if rc \<noteq> 0 then rv 0xFFFFFFFF (k\<lparr>k_fat := s\<rparr>)
                  else do { (wrote, fp2, s2) \<leftarrow> fat_fwrite s fp (get_bytes buf (unat n) (k_mem k));
                            (rc2, s3) \<leftarrow> fat_fflush s2 fp2;
                            rv (if word_of_int wrote = n then 0 else 0xFFFFFFFF) (k\<lparr>k_fat := s3\<rparr>) } })"

text \<open>The loop reads the caller's structure again in every round.\<close>

partial_function (option) loadfile_loop :: "u32 \<Rightarrow> u32 \<Rightarrow> fat_file \<Rightarrow> kernel \<Rightarrow> (u32 \<times> kernel) option" where
  "loadfile_loop lb_p tot fp k =
     (let buf = mem32 (k_mem k) lb_p; mx = mem32 (k_mem k) (lb_p + 4) in
      if \<not> tot < mx then Some (tot, k)
      else case fat_fread (k_fat k) fp (mx - tot) of
             ((n, bs), fp1, s) \<Rightarrow>
               let k1 = k\<lparr>k_fat := s, k_mem := put_bytes (buf + tot) bs (k_mem k)\<rparr> in
               if n \<le> 0 then Some (tot, k1) else loadfile_loop lb_p (tot + word_of_int n) fp1 k1)"

definition d_ext_loadfile :: bhandler where
  "d_ext_loadfile path_p lb_p k0 =
     (case ensure_mounted k0 of (ok, k) \<Rightarrow>
        if \<not> ok \<or> lb_p = 0 \<or> mem32 (k_mem k) lb_p = 0 \<or> mem32 (k_mem k) (lb_p + 4) = 0 then rv 0xFFFFFFFF k
        else do { path \<leftarrow> here_path path_p k;
                  (rc, fp, s) \<leftarrow> fat_fopen (k_fat k) path file0;
                  if rc \<noteq> 0 then rv 0xFFFFFFFF (k\<lparr>k_fat := s\<rparr>)
                  else do { (tot, k1) \<leftarrow> loadfile_loop lb_p 0 fp (k\<lparr>k_fat := s\<rparr>); rv tot k1 } })"

partial_function (option) cat_loop :: "u32 \<Rightarrow> fat_file \<Rightarrow> kernel \<Rightarrow> (u32 \<times> kernel) option" where
  "cat_loop tot fp k =
     (case fat_fread (k_fat k) fp 128 of
        ((n, bs), fp1, s) \<Rightarrow>
          if n \<le> 0 then Some (tot, k\<lparr>k_fat := s\<rparr>)
          else do { k1 \<leftarrow> putcs conout bs (k\<lparr>k_fat := s\<rparr>); cat_loop (tot + word_of_int n) fp1 k1 })"

definition d_ext_cat :: bhandler where
  "d_ext_cat path_p b k =
     do { path \<leftarrow> here_path path_p k;
          (rc, fp, s) \<leftarrow> fat_fopen (k_fat k) path file0;
          if rc \<noteq> 0 then rv 0xFFFFFFFF (k\<lparr>k_fat := s\<rparr>) else do { (n, k1) \<leftarrow> cat_loop 0 fp (k\<lparr>k_fat := s\<rparr>); rv n k1 } }"

section \<open>Decompression\<close>

text \<open>Bytes in memory as the decompressor reads them, and regions that do not meet.\<close>

definition blob_at :: "(u32 \<Rightarrow> u8) \<Rightarrow> u32 \<Rightarrow> mem" where
  "blob_at m a i = m (a + of_nat i)"

definition apart :: "u32 \<Rightarrow> nat \<Rightarrow> u32 \<Rightarrow> nat \<Rightarrow> bool" where
  "apart a n b l \<longleftrightarrow> unat a + n \<le> unat b \<or> unat b + l \<le> unat a"

text \<open>The window: zeros, then every byte of the output at the next position.\<close>

primrec win_fill :: "u32 \<Rightarrow> u32 \<Rightarrow> u8 list \<Rightarrow> (u32 \<Rightarrow> u8) \<Rightarrow> (u32 \<Rightarrow> u8)" where
  "win_fill w wpos [] m = m"
| "win_fill w wpos (c # cs) m = win_fill w (wpos + 1) cs (m(w + (wpos AND LZSS_WINDOW_MASK) := c))"

definition window_after :: "u32 \<Rightarrow> u8 list \<Rightarrow> (u32 \<Rightarrow> u8) \<Rightarrow> (u32 \<Rightarrow> u8)" where
  "window_after w out m = win_fill w 0 out (put_bytes w (replicate 4096 0) m)"

text \<open>A blob that lies in the window it is unpacked through is not modelled.\<close>

definition d_ext_lzss_print :: bhandler where
  "d_ext_lzss_print blob_p blob_size k =
     (let m = k_mem k; blob = blob_at m blob_p in
      if blob_p = 0 \<or> lzss_uncompressed_size blob = 0 then rv 0 k
      else if \<not> apart blob_p (unat blob_size) (at_window k) 4096 then None
      else case lzss_decompress_stream blob blob_size of
             (n, out) \<Rightarrow>
               do { k1 \<leftarrow> putcs conout out (k\<lparr>k_mem := window_after (at_window k) out m\<rparr>); rv n k1 })"

section \<open>The current directory\<close>

text \<open>The candidate for an argument, or \<open>None\<close> where the call returns at once.\<close>

definition parent_path :: "cstring \<Rightarrow> cstring" where
  "parent_path p = butlast (rev (dropWhile (\<lambda>c. c \<noteq> 0x2F) (rev p)))"

definition chdir_target :: "cstring \<Rightarrow> cstring \<Rightarrow> cstring option" where
  "chdir_target cwd arg =
     (case arg of
        [] \<Rightarrow> None
      | c # p \<Rightarrow>
          if c = 0x2F then Some (if p = [] then [] else take 39 (0x2F # p))
          else if arg = [0x2E, 0x2E] then (if cwd = [] then None else Some (take 39 (parent_path cwd)))
          else Some (take 39 (take 39 cwd @ 0x2F # arg)))"

definition d_ext_chdir :: bhandler where
  "d_ext_chdir arg_p b k0 =
     (case ensure_mounted k0 of (ok, k) \<Rightarrow>
        if \<not> ok \<or> arg_p = 0 then rv 0xFF k
        else do { arg \<leftarrow> cstr_at (k_mem k) arg_p;
                  (case chdir_target (cur_subpath k) arg of
                     None \<Rightarrow> rv 0 k
                   | Some ns \<Rightarrow>
                       if ns = [] then rv 0 (k\<lparr>cur_subpath := []\<rparr>)
                       else if 16 \<le> cur_drive k then None
                       else let full = take 79 (mount_path (cur_drive k) @ (if 0 < cur_user k then user_part (cur_user k) else []) @ ns) in
                         do { (rc, it, s) \<leftarrow> fat_diropen_path iter0 (k_fat k) full;
                              if rc \<noteq> 0 then rv 0xFF (k\<lparr>k_fat := s\<rparr>)
                              else rv 0 (k\<lparr>k_fat := s, cur_subpath := take 39 ns\<rparr>) }) })"

definition d_ext_getcwd :: bhandler where
  "d_ext_getcwd buf_p mx k =
     (if buf_p = 0 \<or> mx = 0 then rv 0xFF k
      else rv 0 (k\<lparr>k_mem := put_bytes buf_p (take (unat (mx - 1)) (cur_subpath k) @ [0]) (k_mem k)\<rparr>))"

definition d_ext_mkdir :: bhandler where
  "d_ext_mkdir name_p b k0 =
     (case ensure_mounted k0 of (ok, k) \<Rightarrow>
        if \<not> ok then rv 0xFF k
        else do { path \<leftarrow> here_path name_p k; (rc, s) \<leftarrow> fat_mkdir (k_fat k) path;
                  rv (if rc = 0 then 0 else 0xFF) (k\<lparr>k_fat := s\<rparr>) })"

definition d_ext_rmdir :: bhandler where
  "d_ext_rmdir name_p b k0 =
     (case ensure_mounted k0 of (ok, k) \<Rightarrow>
        if \<not> ok then rv 0xFF k
        else do { path \<leftarrow> here_path name_p k; (rc, s) \<leftarrow> fat_rmdir (k_fat k) path;
                  rv (if rc = 0 then 0 else if rc = -4 then 1 else 0xFF) (k\<lparr>k_fat := s\<rparr>) })"

section \<open>The program loader\<close>

abbreviation "TPA_BASE \<equiv> 0x0ED40000 :: u32"
abbreviation "RAM_END \<equiv> 0x0F000000 :: u32"

definition pgmld_finish_and_run :: "u32 \<Rightarrow> u32 \<Rightarrow> kernel \<Rightarrow> (int \<times> kernel) option" where
  "pgmld_finish_and_run cseg n k = Some (-1, k)"

text \<open>Reading a file to memory until \<open>mx\<close> bytes are there or a read returns nothing.\<close>

partial_function (option) read_all :: "u32 \<Rightarrow> u32 \<Rightarrow> u32 \<Rightarrow> fat_file \<Rightarrow> kernel \<Rightarrow> (u32 \<times> kernel) option" where
  "read_all dst mx tot fp k =
     (if \<not> tot < mx then Some (tot, k)
      else case fat_fread (k_fat k) fp (mx - tot) of
             ((n, bs), fp1, s) \<Rightarrow>
               let k1 = k\<lparr>k_fat := s, k_mem := put_bytes (dst + tot) bs (k_mem k)\<rparr> in
               if n \<le> 0 then Some (tot, k1) else read_all dst mx (tot + word_of_int n) fp1 k1)"

text \<open>\<open>pgmld_run_mips\<close> and the load before it; \<open>Inl\<close> is the return code.\<close>

definition load_file :: "u32 \<Rightarrow> cstring \<Rightarrow> kernel \<Rightarrow> ((int + u32) \<times> kernel) option" where
  "load_file dst name k =
     do { full \<leftarrow> path_of (cur_drive k) name k;
          (rc, fp, s) \<leftarrow> fat_fopen (k_fat k) full file0;
          let n = fat_fsize fp in
          if rc \<noteq> 0 then Some (Inl (-1), k\<lparr>k_fat := s\<rparr>)
          else do { (tot, k1) \<leftarrow> read_all dst n 0 fp (k\<lparr>k_fat := s\<rparr>);
                    Some (if tot \<noteq> n then Inl (-3) else Inr n, k1) } }"

definition try_load_path_mips :: "app \<Rightarrow> cstring \<Rightarrow> cstring \<Rightarrow> kernel \<Rightarrow> (app_end \<times> kernel) option" where
  "try_load_path_mips app name tail k =
     do { (r, k1) \<leftarrow> load_file TPA_BASE name k;
          (case r of Inl e \<Rightarrow> Some (Exits e, k1) | Inr n \<Rightarrow> app TPA_BASE n tail k1) }"

text \<open>
  Images for the 68000. A compressed image is moved to the top of the memory and unpacked from there. What happens
  when the sum in the size check wraps around is not modelled.
\<close>

definition unpack_image :: "u32 \<Rightarrow> u32 \<Rightarrow> kernel \<Rightarrow> (int \<times> kernel) option" where
  "unpack_image cseg n k =
     (let m = k_mem k; unc = lzss_uncompressed_size (blob_at m cseg); room = RAM_END - cseg in
      if room < unc + n + 0x1000 then Some (-2, k)
      else let src = RAM_END - 0x1000 - n; m1 = put_bytes src (get_bytes cseg (unat n) m) m in
        case lzss_decompress (blob_at m1 src) n room of
          (wrote, out) \<Rightarrow>
            if unat room < unat unc + unat n + 0x1000 \<or> \<not> apart (at_window k) 4096 cseg (unat room) then None
            else let k1 = k\<lparr>k_mem := put_bytes cseg out (if unc = 0 then m1 else window_after (at_window k) out m1)\<rparr> in
              if wrote \<noteq> unc then Some (-4, k1) else pgmld_finish_and_run cseg unc k1)"

definition try_load_path :: "cstring \<Rightarrow> kernel \<Rightarrow> (int \<times> kernel) option" where
  "try_load_path name k =
     (let cseg = TPA_BASE + 0x100 in
      do { (r, k1) \<leftarrow> load_file cseg name k;
           (case r of
              Inl e \<Rightarrow> Some (e, k1)
            | Inr n \<Rightarrow>
                if 4 \<le> n \<and> get_bytes cseg 4 (k_mem k1) = [0x4C, 0x5A, 0x53, 0x53] then unpack_image cseg n k1
                else pgmld_finish_and_run cseg n k1) })"

definition load_base :: "cstring \<Rightarrow> cstring" where
  "load_base name = takeWhile (\<lambda>c. c \<noteq> 0x2E) (take 16 name)"

definition finish_load :: "kernel \<Rightarrow> (bres \<times> kernel) option" where
  "finish_load k =
     do { (r, k1) \<leftarrow> (if redir_active k then d_ext_redir_end 0 0 k else rv 0 k);
          (r2, k2) \<leftarrow> d_ext_inrd_end 0 0 k1;
          Some (Warmboot, k2) }"

definition d_ext_loadrun :: "app \<Rightarrow> bhandler" where
  "d_ext_loadrun app name_p tail_p k0 =
     (case ensure_mounted k0 of (ok, k) \<Rightarrow>
        if \<not> ok then rv 0xFF k
        else do { tail \<leftarrow> name_at k tail_p; name \<leftarrow> cstr_at (k_mem k) name_p;
                  (r, k1) \<leftarrow> try_load_path_mips app (load_base name @ [0x2E, 0x4D, 0x49, 0x50]) tail k;
                  (case r of
                     Leaves \<Rightarrow> Some (Warmboot, k1)
                   | Exits e \<Rightarrow>
                       if e = 0 then finish_load k1
                       else do { (e2, k2) \<leftarrow> try_load_path (load_base name @ [0x2E, 0x36, 0x38, 0x4B]) k1;
                                 if e2 = 0 then finish_load k2
                                 else do { (e3, k3) \<leftarrow> try_load_path (load_base name @ [0x2E, 0x4C, 0x5A]) k2;
                                           if e3 = 0 then finish_load k3 else rv 0xFF k3 } }) })"

definition d_xcpm_ident :: bhandler where
  "d_xcpm_ident a b k = rv 0x58504D4B k"

section \<open>The dispatcher\<close>

definition d_stub_zero :: bhandler where
  "d_stub_zero a b k = rv 0 k"

definition d_stub_err :: bhandler where
  "d_stub_err a b k = rv 0xFF k"

text \<open>The entries in the order of the source; of two entries for one number the later counts.\<close>

definition bdos_table :: "app \<Rightarrow> (nat \<times> bhandler) list" where
  "bdos_table app =
     [(0, d_reset), (1, d_conin), (2, d_conout), (3, d_stub_zero), (4, d_stub_zero), (5, d_stub_zero), (6, d_directio),
      (7, d_stub_zero), (8, d_stub_zero), (9, d_printstr), (10, d_readline), (11, d_constat), (12, d_version),
      (13, d_stub_zero), (14, d_seldisk), (15, d_open), (16, d_close), (17, d_search1), (18, d_searchN), (19, d_delete),
      (20, d_read_seq), (21, d_write_seq), (22, d_make), (23, d_rename), (24, d_stub_zero), (25, d_getdisk),
      (26, d_set_dma), (27, d_stub_zero), (28, d_stub_zero), (29, d_stub_zero), (30, d_stub_zero), (31, d_stub_zero),
      (32, d_user), (33, d_read_random), (34, d_write_random), (35, d_file_size), (36, d_set_rrec), (40, d_write_random),
      (37, d_stub_zero), (40, d_stub_err), (47, d_reset), (48, d_stub_zero), (50, d_directbios), (59, d_stub_err),
      (62, d_setexc), (63, d_stub_zero), (100, d_xcpm_ident), (110, d_ext_listroot), (111, d_ext_cat), (112, d_ext_mount),
      (113, d_ext_loadrun app), (114, d_ext_redir_begin), (115, d_ext_redir_end), (116, d_ext_inrd_begin),
      (117, d_ext_inrd_end), (118, d_ext_mkdir), (119, d_ext_rmdir), (120, d_ext_savefile), (121, d_ext_loadfile),
      (122, d_ext_scratch), (123, d_ext_copy), (124, d_ext_chdir), (125, d_ext_getcwd), (127, d_ext_lzss_print)]"

definition bdos_dispatch :: "app \<Rightarrow> u32 \<Rightarrow> bhandler" where
  "bdos_dispatch app func p1 p2 k =
     (if 128 \<le> func then rv 0 k
      else case map_of (rev (bdos_table app)) (unat func) of None \<Rightarrow> rv 0 k | Some h \<Rightarrow> h p1 p2 k)"

definition bdos_init :: "kernel \<Rightarrow> kernel" where
  "bdos_init k = k\<lparr>cur_drive := 0, cur_user := 0, cur_subpath := []\<rparr>"

end
