(* ===== verification/Bdos_Inv.thy ===== *)
theory Bdos_Inv
  imports Bdos
begin

text \<open>
  The invariant of the kernel's static state: what every system call keeps, whatever program makes it. The
  output buffer of a redirection always has room for a byte, so that \<open>bdos_redir_putc\<close> never writes past it,
  the selected drive is one of \<open>mount_paths\<close>, and the generations of the handles in use are never 0.
\<close>

definition handles_ok :: "fhandle list \<Rightarrow> bool" where
  "handles_ok hs \<longleftrightarrow> length hs = 16 \<and> (\<forall>h \<in> set hs. h_in_use h \<longrightarrow> h_generation h \<noteq> 0)"

definition kernel_ok :: "kernel \<Rightarrow> bool" where
  "kernel_ok k \<longleftrightarrow> cur_drive k < 16 \<and> cur_user k < 16 \<and> length (cur_subpath k) < 40 \<and> length (redir_buf k) < 128
     \<and> handles_ok (fhandles k) \<and> next_generation k \<noteq> 0 \<and> (search_active k \<longrightarrow> length (search_pattern k) = 11)"

section \<open>Updates that keep the invariant\<close>

lemma kernel_ok_simps [simp]:
  "kernel_ok (k\<lparr>k_fat := s\<rparr>) = kernel_ok k" "kernel_ok (k\<lparr>k_mem := m\<rparr>) = kernel_ok k"
  "kernel_ok (k\<lparr>k_in := i\<rparr>) = kernel_ok k" "kernel_ok (k\<lparr>k_out := out\<rparr>) = kernel_ok k"
  "kernel_ok (k\<lparr>mounted := mt\<rparr>) = kernel_ok k" "kernel_ok (k\<lparr>redir_file := fp\<rparr>) = kernel_ok k"
  "kernel_ok (k\<lparr>redir_active := ra\<rparr>) = kernel_ok k" "kernel_ok (k\<lparr>cur_dma := a\<rparr>) = kernel_ok k"
  "kernel_ok (k\<lparr>search_iter := it\<rparr>) = kernel_ok k" "kernel_ok (k\<lparr>b_track := t\<rparr>) = kernel_ok k"
  "kernel_ok (k\<lparr>b_sector := t\<rparr>) = kernel_ok k" "kernel_ok (k\<lparr>b_drive := t\<rparr>) = kernel_ok k"
  "kernel_ok (k\<lparr>b_dma := a\<rparr>) = kernel_ok k" "kernel_ok (k\<lparr>iobyte := v\<rparr>) = kernel_ok k"
  "kernel_ok (setb a v k) = kernel_ok k"
  by (simp_all add: kernel_ok_def setb_def)

named_theorems keeps

lemma kernel_ok_upds [keeps]:
  "kernel_ok k \<Longrightarrow> kernel_ok (k\<lparr>redir_buf := []\<rparr>)"
  "kernel_ok k \<Longrightarrow> kernel_ok (k\<lparr>search_active := False\<rparr>)"
  "kernel_ok k \<Longrightarrow> length (search_pattern k) = 11 \<Longrightarrow> kernel_ok (k\<lparr>search_active := sa\<rparr>)"
  "kernel_ok k \<Longrightarrow> length p = 11 \<Longrightarrow> kernel_ok (k\<lparr>search_pattern := p\<rparr>)"
  "kernel_ok k \<Longrightarrow> length q < 40 \<Longrightarrow> kernel_ok (k\<lparr>cur_subpath := q\<rparr>)"
  by (simp_all add: kernel_ok_def)

text \<open>Rules for the results of the option monad, and the splits of a handler's branches.\<close>

lemma case_Some_conv:
  "(case x of None \<Rightarrow> f | Some y \<Rightarrow> g y) = Some z \<longleftrightarrow> x = None \<and> f = Some z \<or> (\<exists>y. x = Some y \<and> g y = Some z)"
  "(case u of Inl a \<Rightarrow> f1 a | Inr b \<Rightarrow> f2 b) = Some z \<longleftrightarrow> (\<exists>a. u = Inl a \<and> f1 a = Some z) \<or> (\<exists>b. u = Inr b \<and> f2 b = Some z)"
  "(case e of Exits i \<Rightarrow> g1 i | Leaves \<Rightarrow> g2) = Some z \<longleftrightarrow> (\<exists>i. e = Exits i \<and> g1 i = Some z) \<or> e = Leaves \<and> g2 = Some z"
  "(case p of (a, b) \<Rightarrow> h a b) = Some z \<longleftrightarrow> (\<exists>a b. p = (a, b) \<and> h a b = Some z)"
  "(if c then v else w) = Some z \<longleftrightarrow> c \<and> v = Some z \<or> \<not> c \<and> w = Some z"
  by (auto split: option.splits sum.splits prod.splits app_end.splits)

lemmas handler_simps = Let_def rv_def Option.bind_eq_Some_conv
lemmas handler_splits = prod.splits option.splits sum.splits if_splits

section \<open>The parts of the handlers\<close>

lemma redir_flush_ok: "redir_flush k = Some k' \<Longrightarrow> kernel_ok k \<Longrightarrow> kernel_ok k'"
  by (auto simp: redir_flush_def handler_simps split: handler_splits intro: keeps)

lemma redir_putc_ok: "bdos_redir_putc c k = Some (t, k') \<Longrightarrow> kernel_ok k \<Longrightarrow> kernel_ok k'"
  by (auto simp: bdos_redir_putc_def redir_flush_def handler_simps split: handler_splits simp: kernel_ok_def)

text \<open>A handler that keeps the invariant whatever its arguments are.\<close>

definition keeps_ok :: "(u32 \<Rightarrow> u32 \<Rightarrow> kernel \<Rightarrow> ('r \<times> kernel) option) \<Rightarrow> bool" where
  "keeps_ok h \<longleftrightarrow> (\<forall>a b k r k'. kernel_ok k \<longrightarrow> h a b k = Some (r, k') \<longrightarrow> kernel_ok k')"

lemma keeps_okI: "(\<And>a b k r k'. kernel_ok k \<Longrightarrow> h a b k = Some (r, k') \<Longrightarrow> kernel_ok k') \<Longrightarrow> keeps_ok h"
  unfolding keeps_ok_def by blast

lemma keeps_okD: "keeps_ok h \<Longrightarrow> kernel_ok k \<Longrightarrow> h a b k = Some (r, k') \<Longrightarrow> kernel_ok k'"
  unfolding keeps_ok_def by blast

lemma bios_table_ok: "list_all keeps_ok bios_table"
  unfolding bios_table_def list.pred_inject
  by (intro conjI TrueI keeps_okI)
    (auto simp: b_stub_defs ret_def b_constat_def b_conin_def b_conout_def b_home_def b_seldsk_def b_settrk_def
      b_setsec_def b_setdma_def b_sectran_def b_getseg_def b_getiob_def b_setiob_def b_setexc_def k_putc_def k_getc_def
      k_poll_def bdos_redir_getc_def handler_simps split: if_splits option.splits list.splits prod.splits dest: redir_putc_ok)

lemma bios_ok: "bios_dispatch f a b k = Some (v, k') \<Longrightarrow> kernel_ok k \<Longrightarrow> kernel_ok k'"
  using bios_table_ok
  by (auto simp: bios_dispatch_def list_all_iff not_le split: if_splits intro: keeps_okD [rotated 2] dest!: nth_mem)

lemma conout_ok: "conout c k = Some k' \<Longrightarrow> kernel_ok k \<Longrightarrow> kernel_ok k'"
  by (auto simp: conout_def dest: bios_ok)

lemma conouts_ok: "putcs conout cs k = Some k' \<Longrightarrow> kernel_ok k \<Longrightarrow> kernel_ok k'"
  by (induction cs arbitrary: k) (auto simp: Option.bind_eq_Some_conv dest: conout_ok)

lemma conin_ok: "conin k = Some (c, k') \<Longrightarrow> kernel_ok k \<Longrightarrow> kernel_ok k'"
  by (auto simp: conin_def dest: bios_ok)

lemma poll_ok: "k_poll k = Some (r, k') \<Longrightarrow> kernel_ok k \<Longrightarrow> kernel_ok k'"
  by (auto simp: k_poll_def split: list.splits)

lemma mounted_ok: "ensure_mounted k = (ok, k') \<Longrightarrow> kernel_ok k \<Longrightarrow> kernel_ok k'"
  by (auto simp: ensure_mounted_def split: if_splits prod.splits)

section \<open>The loops\<close>

lemma printstr_ok:
  assumes "printstr_loop p k = Some r"
  shows "kernel_ok k \<longrightarrow> kernel_ok r"
  by (rule printstr_loop.raw_induct [where P = "\<lambda>p k r. kernel_ok k \<longrightarrow> kernel_ok r", OF _ assms])
    (auto simp: handler_simps split: if_splits prod.splits dest: conout_ok conouts_ok conin_ok)

lemma rub_out_ok: "rub_out n k = Some k' \<Longrightarrow> kernel_ok k \<Longrightarrow> kernel_ok k'"
  unfolding rub_out_def by (rule conouts_ok)

lemma conout_setb_ok: "conout c (setb a v k) = Some k' \<Longrightarrow> kernel_ok k \<Longrightarrow> kernel_ok k'"
  by (auto dest: conout_ok)

lemma readline_ok:
  assumes "readline_loop ptr mx n k = Some r"
  shows "kernel_ok k \<longrightarrow> kernel_ok (snd r)"
  by (rule readline_loop.raw_induct [where P = "\<lambda>ptr mx n k r. kernel_ok k \<longrightarrow> kernel_ok (snd r)", OF _ assms])
    (auto simp: handler_simps simp del: putcs.simps split: if_splits prod.splits dest: conout_setb_ok conouts_ok conin_ok rub_out_ok)

lemma listroot_ok:
  assumes "listroot_loop it n k = Some r"
  shows "kernel_ok k \<longrightarrow> kernel_ok (snd r)"
  by (rule listroot_loop.raw_induct [where P = "\<lambda>it n k r. kernel_ok k \<longrightarrow> kernel_ok (snd r)", OF _ assms])
    (auto simp: handler_simps split: if_splits prod.splits dest: conout_ok conouts_ok conin_ok)

lemma loadfile_ok:
  assumes "loadfile_loop lb n fp k = Some r"
  shows "kernel_ok k \<longrightarrow> kernel_ok (snd r)"
  by (rule loadfile_loop.raw_induct [where P = "\<lambda>lb n fp k r. kernel_ok k \<longrightarrow> kernel_ok (snd r)", OF _ assms])
    (auto simp: handler_simps split: if_splits prod.splits)

lemma read_all_ok:
  assumes "read_all dst mx n fp k = Some r"
  shows "kernel_ok k \<longrightarrow> kernel_ok (snd r)"
  by (rule read_all.raw_induct [where P = "\<lambda>dst mx n fp k r. kernel_ok k \<longrightarrow> kernel_ok (snd r)", OF _ assms])
    (auto simp: handler_simps split: if_splits prod.splits)

lemma cat_ok:
  assumes "cat_loop n fp k = Some r"
  shows "kernel_ok k \<longrightarrow> kernel_ok (snd r)"
  by (rule cat_loop.raw_induct [where P = "\<lambda>n fp k r. kernel_ok k \<longrightarrow> kernel_ok (snd r)", OF _ assms])
    (auto simp: handler_simps split: if_splits prod.splits dest: conout_ok conouts_ok conin_ok)

section \<open>Handles\<close>

lemma kernel_ok_mem_ops [simp]:
  "kernel_ok (set_record fcb n k) = kernel_ok k" "kernel_ok (set_random fcb n k) = kernel_ok k"
  "kernel_ok (stash_handle fcb i k) = kernel_ok k"
  by (simp_all add: set_record_def set_random_def stash_handle_def)

lemma handles_ok_update:
  assumes "handles_ok hs" "i < 16 \<Longrightarrow> h_in_use h \<Longrightarrow> h_generation h \<noteq> 0"
  shows "handles_ok (hs[i := h])"
proof (cases "i < 16")
  case True
  then show ?thesis using assms set_update_subset_insert [of hs i h] by (auto simp: handles_ok_def)
next
  case False
  then have "hs[i := h] = hs" using assms(1) by (simp add: handles_ok_def list_update_beyond)
  then show ?thesis using assms(1) by simp
qed

lemma handles_ok_nth: "handles_ok hs \<Longrightarrow> i < 16 \<Longrightarrow> h_in_use (hs ! i) \<Longrightarrow> h_generation (hs ! i) \<noteq> 0"
  by (simp add: handles_ok_def)

lemma kernel_ok_files [keeps]:
  "kernel_ok k \<Longrightarrow> kernel_ok (set_file i fp k)" "kernel_ok k \<Longrightarrow> kernel_ok (free_handle i k)"
  by (auto simp: kernel_ok_def set_file_def free_handle_def handles_ok_nth intro!: handles_ok_update)

lemma alloc_ok: "alloc_handle k = Some (i, k') \<Longrightarrow> kernel_ok k \<Longrightarrow> kernel_ok k'"
  by (auto simp: alloc_handle_def kernel_ok_def split: option.splits if_splits intro!: handles_ok_update)

section \<open>The system calls\<close>

lemmas console_call_defs = d_reset_def d_conin_def d_conout_def d_directio_def d_printstr_def d_readline_def via_bios_def
  d_constat_def d_version_def d_getdisk_def d_seldisk_def d_user_def d_directbios_def d_setexc_def

lemmas console_oks = conout_ok conouts_ok conin_ok poll_ok bios_ok printstr_ok readline_ok

lemma low_nibble: "ucast (d AND 0xF :: u32) < (16 :: u8)"
proof -
  have "unat (d AND 0xF) < 16" using unat_and_mask [of d 4] by (simp add: mask_eq_exp_minus_1)
  then show ?thesis by (simp add: word_less_nat_alt unsigned_ucast_eq take_bit_eq_mod)
qed

lemma console_calls_ok:
  "keeps_ok d_reset" "keeps_ok d_conin" "keeps_ok d_conout" "keeps_ok d_directio" "keeps_ok d_printstr" "keeps_ok d_readline"
  "keeps_ok d_constat" "keeps_ok d_version" "keeps_ok d_getdisk" "keeps_ok d_directbios"
  "keeps_ok d_setexc" "keeps_ok d_stub_zero" "keeps_ok d_stub_err" "keeps_ok d_xcpm_ident" "keeps_ok d_set_dma"
  by (auto intro!: keeps_okI simp: console_call_defs handler_simps d_stub_zero_def d_stub_err_def d_xcpm_ident_def d_set_dma_def
      split: handler_splits dest!: console_oks [rule_format])

lemma select_calls_ok: "keeps_ok d_seldisk" "keeps_ok d_user"
  by (auto intro!: keeps_okI simp: d_seldisk_def d_user_def handler_simps kernel_ok_def low_nibble split: if_splits)

lemma file_calls_ok:
  "keeps_ok d_open" "keeps_ok d_close" "keeps_ok d_make" "keeps_ok d_delete" "keeps_ok d_rename" "keeps_ok d_file_size"
  "keeps_ok d_set_rrec"
  by (auto intro!: keeps_okI simp: d_open_def d_close_def d_make_def d_delete_def d_rename_def d_file_size_def d_set_rrec_def
      handler_simps case_Some_conv kernel_ok_files dest!: mounted_ok alloc_ok)

lemma search_step_ok:
  assumes "search_step k = Some (r, k')" "kernel_ok k" "length (search_pattern k) = 11"
  shows "kernel_ok k'"
  using assms by (auto simp: search_step_def emit_dirent_to_dma_def handler_simps case_Some_conv split: if_splits intro!: keeps)

lemma kernel_ok_search: "kernel_ok k \<Longrightarrow> search_active k \<Longrightarrow> length (search_pattern k) = 11"
  by (simp add: kernel_ok_def)

lemma searchN_ok: "keeps_ok d_searchN"
  by (auto intro!: keeps_okI simp: d_searchN_def handler_simps case_Some_conv elim!: search_step_ok intro: kernel_ok_search)

lemma search1_ok: "keeps_ok d_search1"
proof (rule keeps_okI)
  fix fcb b k0 r k'
  assume k0: "kernel_ok k0" and r: "d_search1 fcb b k0 = Some (r, k')"
  obtain ok k where m: "ensure_mounted k0 = (ok, k)" by fastforce
  have k: "kernel_ok k" by (rule mounted_ok [OF m k0])
  define k1 where "k1 = k\<lparr>search_pattern := map upc (get_bytes (fcb + 1) 11 (k_mem k))\<rparr>"
  have k1: "kernel_ok k1" and len: "length (search_pattern k1) = 11"
    using k unfolding k1_def by (simp_all add: get_bytes_def kernel_ok_upds)
  show "kernel_ok k'"
    using r k k1 len unfolding d_search1_def m
    by (auto simp: handler_simps case_Some_conv kernel_ok_upds simp flip: k1_def elim!: search_step_ok)
qed

lemma record_calls_ok: "keeps_ok d_read_seq" "keeps_ok d_read_random" "keeps_ok d_write_seq" "keeps_ok d_write_random"
  by (auto intro!: keeps_okI simp: d_read_seq_def d_read_random_def d_write_seq_def d_write_random_def read_record_def
      write_record_def flush_handle_def handler_simps case_Some_conv intro!: keeps)

lemma redir_calls_ok: "keeps_ok d_ext_redir_begin" "keeps_ok d_ext_redir_end" "keeps_ok d_ext_inrd_begin" "keeps_ok d_ext_inrd_end"
  by (auto intro!: keeps_okI simp: d_ext_redir_begin_def d_ext_redir_end_def d_ext_inrd_begin_def d_ext_inrd_end_def
      handler_simps case_Some_conv kernel_ok_upds dest!: mounted_ok redir_flush_ok)

lemma listing_calls_ok: "keeps_ok d_ext_mount" "keeps_ok d_ext_listroot" "keeps_ok d_ext_cat"
  by (auto intro!: keeps_okI simp: d_ext_mount_def d_ext_listroot_def d_ext_cat_def handler_simps case_Some_conv
      dest!: listroot_ok cat_ok)

lemma whole_file_calls_ok: "keeps_ok d_ext_copy" "keeps_ok d_ext_scratch" "keeps_ok d_ext_savefile" "keeps_ok d_ext_loadfile"
    "keeps_ok d_ext_mkdir" "keeps_ok d_ext_rmdir" "keeps_ok d_ext_getcwd" "keeps_ok d_ext_lzss_print"
  by (auto intro!: keeps_okI simp: d_ext_copy_def d_ext_scratch_def d_ext_savefile_def d_ext_loadfile_def d_ext_mkdir_def
      d_ext_rmdir_def d_ext_getcwd_def d_ext_lzss_print_def handler_simps case_Some_conv
      dest!: mounted_ok loadfile_ok conouts_ok)

lemma chdir_ok: "keeps_ok d_ext_chdir"
  by (auto intro!: keeps_okI simp: d_ext_chdir_def handler_simps case_Some_conv kernel_ok_upds dest!: mounted_ok)

text \<open>What a program does is the program's: it is assumed to keep the invariant, as its system calls do.\<close>

definition app_ok :: "app \<Rightarrow> bool" where
  "app_ok app \<longleftrightarrow> (\<forall>base n t k e k'. app base n t k = Some (e, k') \<longrightarrow> kernel_ok k \<longrightarrow> kernel_ok k')"

lemma load_file_ok: "load_file dst name k = Some (r, k') \<Longrightarrow> kernel_ok k \<Longrightarrow> kernel_ok k'"
  by (auto simp: load_file_def handler_simps case_Some_conv dest!: read_all_ok)

lemma try_load_path_ok: "try_load_path name k = Some (r, k') \<Longrightarrow> kernel_ok k \<Longrightarrow> kernel_ok k'"
  by (auto simp: try_load_path_def unpack_image_def pgmld_finish_and_run_def handler_simps case_Some_conv
      dest!: load_file_ok split: if_splits)

lemma try_load_path_mips_ok:
  "app_ok app \<Longrightarrow> try_load_path_mips app name tail k = Some (r, k') \<Longrightarrow> kernel_ok k \<Longrightarrow> kernel_ok k'"
  unfolding app_ok_def by (auto simp: try_load_path_mips_def handler_simps case_Some_conv dest!: load_file_ok)

lemma finish_load_ok: "finish_load k = Some (r, k') \<Longrightarrow> kernel_ok k \<Longrightarrow> kernel_ok k'"
  by (auto simp: finish_load_def handler_simps case_Some_conv dest: keeps_okD [OF redir_calls_ok(2), rotated]
      keeps_okD [OF redir_calls_ok(4), rotated])

lemma loadrun_ok: "app_ok app \<Longrightarrow> keeps_ok (d_ext_loadrun app)"
  by (auto intro!: keeps_okI simp: d_ext_loadrun_def handler_simps case_Some_conv
      dest!: mounted_ok try_load_path_ok finish_load_ok dest: try_load_path_mips_ok)

lemmas calls_ok = console_calls_ok select_calls_ok file_calls_ok searchN_ok search1_ok record_calls_ok redir_calls_ok
  listing_calls_ok whole_file_calls_ok chdir_ok loadrun_ok

lemma bdos_table_ok: "app_ok app \<Longrightarrow> \<forall>(f, h) \<in> set (bdos_table app). keeps_ok h"
  unfolding bdos_table_def by (simp add: calls_ok)

lemma table_lookup: "map_of (rev (bdos_table app)) n = Some h \<Longrightarrow> (n, h) \<in> set (bdos_table app)"
  by (metis map_of_SomeD set_rev)

lemma dispatch_ok:
  assumes "bdos_dispatch app f p q k = Some (r, k')" "kernel_ok k" "app_ok app"
  shows "kernel_ok k'"
proof (cases "map_of (rev (bdos_table app)) (unat f)")
  case None
  then show ?thesis using assms by (auto simp: bdos_dispatch_def rv_def split: if_splits)
next
  case (Some h)
  then have "keeps_ok h" using bdos_table_ok [OF assms(3)] table_lookup [OF Some] by auto
  then show ?thesis using assms Some by (auto simp: bdos_dispatch_def rv_def split: if_splits dest: keeps_okD)
qed

section \<open>Reachable states\<close>

text \<open>
  The state before \<open>bdos_init\<close>: static variables are zero but \<open>next_generation\<close>. The volume, the memory and the
  addresses of the kernel's tables are given.
\<close>

definition boot_kernel :: "fat \<Rightarrow> (u32 \<Rightarrow> u8) \<Rightarrow> u32 \<Rightarrow> kernel" where
  "boot_kernel s m window =
     \<lparr>k_mem = m, k_in = [], k_out = [], k_fat = s, iobyte = 0, b_drive = 0, b_track = 0, b_sector = 0, b_dma = 0,
      cur_drive = 0, cur_user = 0, cur_subpath = [], mounted = False, redir_file = file0, redir_active = False,
      redir_buf = [], fhandles = replicate 16 \<lparr>h_in_use = False, h_generation = 0, h_file = file0\<rparr>,
      next_generation = 1, cur_dma = 0, search_iter = iter0, search_pattern = replicate 11 0, search_active = False,
      at_memtab = window + 4096, at_dph0 = window + 4112, at_dpb0 = window + 4144, at_dirbuf = window + 4160,
      at_window = window\<rparr>"

text \<open>What can happen: a system call, a store of the running program, bytes on the serial line.\<close>

inductive sys_step :: "app \<Rightarrow> kernel \<Rightarrow> kernel \<Rightarrow> bool" for app where
  call: "bdos_dispatch app f p q k = Some (r, k') \<Longrightarrow> sys_step app k k'"
| store: "sys_step app k (k\<lparr>k_mem := (k_mem k)(a := v)\<rparr>)"
| receive: "sys_step app k (k\<lparr>k_in := k_in k @ bs\<rparr>)"

inductive_cases sys_stepE: "sys_step app k k'"

lemma sys_step_ok: "sys_step app k k' \<Longrightarrow> app_ok app \<Longrightarrow> kernel_ok k \<Longrightarrow> kernel_ok k'"
  by (erule sys_stepE) (auto intro: dispatch_ok)

lemma boot_ok: "kernel_ok (bdos_init (boot_kernel s m w))"
  by (simp add: kernel_ok_def boot_kernel_def bdos_init_def handles_ok_def)

text \<open>
  C10: In every state that system calls, stores of programs and received bytes lead to from the start of the
  kernel, the drive and user numbers are below 16, the current path fits its buffer, the buffer of redirected
  output has room for a byte, and no handle in use has generation 0 -- provided that a program run by the loader
  returns in such a state.
\<close>

theorem kernel_reachable_ok:
  assumes "(sys_step app)\<^sup>*\<^sup>* (bdos_init (boot_kernel s m w)) k" "app_ok app"
  shows "cur_drive k < 16 \<and> cur_user k < 16 \<and> length (cur_subpath k) < 40 \<and> length (redir_buf k) < 128
    \<and> (\<forall>h \<in> set (fhandles k). h_in_use h \<longrightarrow> h_generation h \<noteq> 0)"
proof -
  from assms(1) have "kernel_ok k"
    by (induction rule: rtranclp_induct) (auto intro: boot_ok sys_step_ok [OF _ assms(2)])
  then show ?thesis by (simp add: kernel_ok_def handles_ok_def)
qed

lemma demo_step:
  "sys_step (\<lambda>base n t k. None) (bdos_init (boot_kernel s m w)) (bdos_init (boot_kernel s m w)\<lparr>cur_user := 3, cur_subpath := []\<rparr>)"
  by (rule sys_step.call [where f = 32 and p = "0x13" and r = "Ret 0"])
    (simp add: bdos_dispatch_def bdos_table_def d_user_def rv_def bdos_init_def)

theorem kernel_reachable_ok_witness:
  "cur_user (bdos_init (boot_kernel demo_fat (\<lambda>_. 0) 0x0EC00000)\<lparr>cur_user := 3, cur_subpath := []\<rparr>) < 16"
proof -
  have "(sys_step (\<lambda>base n t k. None))\<^sup>*\<^sup>* (bdos_init (boot_kernel demo_fat (\<lambda>_. 0) 0x0EC00000))
      (bdos_init (boot_kernel demo_fat (\<lambda>_. 0) 0x0EC00000)\<lparr>cur_user := 3, cur_subpath := []\<rparr>)"
    by (rule r_into_rtranclp) (rule demo_step)
  then show ?thesis using kernel_reachable_ok by (auto simp: app_ok_def)
qed

text \<open>A path can always be built.\<close>

lemma path_of_defined: "drive < 16 \<Longrightarrow> path_of drive name k \<noteq> None"
  by (auto simp: path_of_def build_path_def Let_def mount_path_def)

end
