(* ===== verification/Bdos_Facts.thy ===== *)
theory Bdos_Facts
  imports Bdos_Inv
begin

text \<open>
  What the system calls do: the line editor, status calls, handles behind file control blocks, sequential reads.
\<close>

text \<open>The functions used below, looked up in the table.\<close>

lemma calls:
  "bdos_dispatch app 6 p q k = d_directio p q k" "bdos_dispatch app 10 p q k = d_readline p q k"
  "bdos_dispatch app 11 p q k = d_constat p q k" "bdos_dispatch app 15 p q k = d_open p q k"
  "bdos_dispatch app 16 p q k = d_close p q k" "bdos_dispatch app 20 p q k = d_read_seq p q k"
  "bdos_dispatch app 21 p q k = d_write_seq p q k" "bdos_dispatch app 33 p q k = d_read_random p q k"
  "bdos_dispatch app 34 p q k = d_write_random p q k" "bdos_dispatch app 35 p q k = d_file_size p q k"
  by (simp_all add: bdos_dispatch_def bdos_table_def)

section \<open>The line editor\<close>

text \<open>The specification: the line after a key, and what the key prints.\<close>

definition rubs :: "nat \<Rightarrow> u8 list" where
  "rubs n = concat (replicate n [0x08, 0x20, 0x08])"

definition edit_key :: "nat \<Rightarrow> u8 list \<Rightarrow> u8 \<Rightarrow> u8 list" where
  "edit_key mx line c =
     (if c = 0x08 \<or> c = 0x7F then butlast line else if c = 0x15 then [] else if length line < mx then line @ [c] else line)"

definition key_echo :: "nat \<Rightarrow> u8 list \<Rightarrow> u8 \<Rightarrow> u8 list" where
  "key_echo mx line c =
     (if c = 0x08 \<or> c = 0x7F then rubs (if line = [] then 0 else 1) else if c = 0x15 then rubs (length line)
      else if length line < mx then [c] else [])"

primrec edit :: "nat \<Rightarrow> u8 list \<Rightarrow> u8 list \<Rightarrow> u8 list" where
  "edit mx line [] = line"
| "edit mx line (c # cs) = edit mx (edit_key mx line c) cs"

primrec echo :: "nat \<Rightarrow> u8 list \<Rightarrow> u8 list \<Rightarrow> u8 list" where
  "echo mx line [] = []"
| "echo mx line (c # cs) = key_echo mx line c @ echo mx (edit_key mx line c) cs"

definition plain_keys :: "u8 list \<Rightarrow> bool" where
  "plain_keys cs \<longleftrightarrow> set cs \<inter> {0x0D, 0x0A, 0x03} = {}"

lemma edit_key_length: "length line \<le> mx \<Longrightarrow> length (edit_key mx line c) \<le> mx"
  by (auto simp: edit_key_def)

lemma edit_length: "length line \<le> mx \<Longrightarrow> length (edit mx line cs) \<le> mx"
  by (induction cs arbitrary: line) (simp_all add: edit_key_length)

text \<open>No redirection in either direction.\<close>

definition quiet :: "kernel \<Rightarrow> bool" where
  "quiet k \<longleftrightarrow> \<not> redir_active k \<and> mem32 (k_mem k) (inrd k) = 0"

lemma conin_quiet: "quiet k \<Longrightarrow> k_in k = b # bs \<Longrightarrow> conin k = Some (ucast b, k\<lparr>k_in := bs\<rparr>)"
  by (simp add: conin_def bios_dispatch_def bios_table_def b_conin_def bdos_redir_getc_def quiet_def k_getc_def Let_def)

lemma conouts_quiet: "quiet k \<Longrightarrow> putcs conout cs k = Some (k\<lparr>k_out := k_out k @ cs\<rparr>)"
  by (simp add: conouts_plain quiet_def)

lemma conout_quiet: "quiet k \<Longrightarrow> conout c k = Some (k\<lparr>k_out := k_out k @ [c]\<rparr>)"
  by (simp add: conout_plain quiet_def)

lemma rub_out_quiet: "quiet k \<Longrightarrow> rub_out n k = Some (k\<lparr>k_out := k_out k @ rubs n\<rparr>)"
  by (simp add: rub_out_def conouts_quiet rubs_def)

lemma quiet_io [simp]: "quiet (k\<lparr>k_in := i\<rparr>) = quiet k" "quiet (k\<lparr>k_out := out\<rparr>) = quiet k"
  by (simp_all add: quiet_def inrd_def)

text \<open>The line in memory: its characters from \<open>a\<close> on, everything outside the \<open>n\<close> cells as in \<open>m\<close>.\<close>

definition line_at :: "u32 \<Rightarrow> nat \<Rightarrow> (u32 \<Rightarrow> u8) \<Rightarrow> u8 list \<Rightarrow> (u32 \<Rightarrow> u8) \<Rightarrow> bool" where
  "line_at a n m line m' \<longleftrightarrow> get_bytes a (length line) m' = line \<and> (\<forall>b. (\<forall>i < n. b \<noteq> a + of_nat i) \<longrightarrow> m' b = m b)"

lemma get_bytes_Suc: "get_bytes a (Suc n) m = get_bytes a n m @ [m (a + of_nat n)]"
  by (simp add: get_bytes_def)

lemma get_bytes_upd: "\<forall>i < n. a + of_nat i \<noteq> b \<Longrightarrow> get_bytes a n (m(b := v)) = get_bytes a n m"
  by (auto simp: get_bytes_def)

lemma cell_neq: "i < j \<Longrightarrow> j < 2 ^ 32 \<Longrightarrow> a + of_nat i \<noteq> a + (of_nat j :: u32)"
proof
  assume h: "i < j" "j < 2 ^ 32" "a + of_nat i = a + (of_nat j :: u32)"
  then have "unat (of_nat i :: u32) = unat (of_nat j :: u32)" by simp
  then show False using h unat_of_nat_small [of i, where ?'a = 32] unat_of_nat_small [of j, where ?'a = 32] by simp
qed

lemma line_at_snoc:
  assumes "line_at a n m line m'" "length line < n" "n \<le> 256"
  shows "line_at a n m (line @ [c]) (m'(a + of_nat (length line) := c))"
proof -
  have "\<forall>i < length line. a + of_nat i \<noteq> a + of_nat (length line)"
    using cell_neq [of _ "length line" a] assms by auto
  then show ?thesis using assms unfolding line_at_def by (auto simp: get_bytes_Suc get_bytes_upd)
qed

lemma line_at_butlast: "line_at a n m line m' \<Longrightarrow> line_at a n m (butlast line) m'"
  by (cases line rule: rev_cases) (auto simp: line_at_def get_bytes_Suc)

lemma line_at_nil: "line_at a n m line m' \<Longrightarrow> line_at a n m [] m'"
  by (simp add: line_at_def get_bytes_def)

text \<open>The word that says whether input is redirected, away from the line.\<close>

definition inrd_clear :: "u32 \<Rightarrow> nat \<Rightarrow> kernel \<Rightarrow> bool" where
  "inrd_clear a n k \<longleftrightarrow> (\<forall>i < n. \<forall>j \<in> {0, 1, 2, 3}. inrd k + j \<noteq> a + of_nat i)"

lemma quiet_line:
  assumes "line_at a n (k_mem k) line m'" "inrd_clear a n k" "quiet k"
  shows "quiet (k\<lparr>k_mem := m'\<rparr>)"
proof -
  have "m' (inrd k + j) = k_mem k (inrd k + j)" if "j \<in> {0, 1, 2, 3}" for j
    using assms(1,2) that by (auto simp: line_at_def inrd_clear_def)
  from this [of 0] this [of 1] this [of 2] this [of 3]
  show ?thesis using assms(3) by (simp add: quiet_def mem32_def inrd_def)
qed

lemma cell_addr: "n < 256 \<Longrightarrow> (ucast (of_nat n :: u8) :: u32) = of_nat n"
  by (rule word_unat_eq_iff [THEN iffD2]) (simp add: unsigned_ucast_eq take_bit_eq_mod unat_of_nat)

lemma u8_less: "m < 256 \<Longrightarrow> n < 256 \<Longrightarrow> ((of_nat n :: u8) < of_nat m) = (n < m)"
  by (simp add: word_less_nat_alt unat_of_nat)

lemma and_255_u8: "(ucast (c :: u8) :: u32) AND 0xFF = ucast c"
  by (rule word_unat_eq_iff [THEN iffD2])
    (use unat_and_mask [of "ucast c :: u32" 8] unsigned_less [of c, where ?'a = nat] in
      \<open>simp add: mask_eq_exp_minus_1 unsigned_ucast_eq take_bit_eq_mod\<close>)

lemma low_byte: "(ucast ((ucast (c :: u8) :: u32) AND 0xFF) :: u8) = c"
  unfolding and_255_u8 by simp

lemma readline_step:
  assumes k: "quiet k" "k_in k = c # bs" and c: "c \<notin> {0x0D, 0x0A, 0x03}"
    and l: "line_at (ptr + 2) mx m0 line (k_mem k)" "length line \<le> mx" "mx < 256"
  shows "\<exists>m'. readline_loop ptr (of_nat mx) (of_nat (length line)) k
        = readline_loop ptr (of_nat mx) (of_nat (length (edit_key mx line c)))
            (k\<lparr>k_in := bs, k_out := k_out k @ key_echo mx line c, k_mem := m'\<rparr>)
      \<and> line_at (ptr + 2) mx m0 (edit_key mx line c) m'"
proof -
  have len: "length line < 256" using l by simp
  have pos: "(0 < (of_nat (length line) :: u8)) = (line \<noteq> [])" using u8_less [of "length line" 0] len by auto
  have mx: "((of_nat (length line) :: u8) < of_nat mx) = (length line < mx)" by (rule u8_less [OF l(3) len])
  have pred: "line \<noteq> [] \<Longrightarrow> (of_nat (length line) :: u8) - 1 = of_nat (length line - Suc 0)" by (cases line) simp_all
  note simps = readline_loop.simps [of ptr "of_nat mx" "of_nat (length line)" k] conin_quiet [OF k] k(1) c low_byte
  show ?thesis
  proof (cases "c = 0x08 \<or> c = 0x7F")
    case True
    have "readline_loop ptr (of_nat mx) (of_nat (length line)) k
        = readline_loop ptr (of_nat mx) (of_nat (length (butlast line))) (k\<lparr>k_in := bs, k_out := k_out k @ rubs (if line = [] then 0 else 1)\<rparr>)"
      using True c by (auto simp: simps pos pred rub_out_quiet rubs_def Let_def)
    then show ?thesis using True line_at_butlast [OF l(1)] by (auto simp: edit_key_def key_echo_def intro!: exI [of _ "k_mem k"])
  next
    case bs: False
    show ?thesis
    proof (cases "c = 0x15")
      case True
      then show ?thesis using line_at_nil [OF l(1)] len
        by (auto simp: simps edit_key_def key_echo_def rub_out_quiet Let_def unat_of_nat intro!: exI [of _ "k_mem k"])
    next
      case False
      note c' = bs False
      show ?thesis
      proof (cases "length line < mx")
        case True
        define m' where "m' = (k_mem k)(ptr + 2 + of_nat (length line) := c)"
        have "line_at (ptr + 2) mx m0 (line @ [c]) m'" unfolding m'_def by (rule line_at_snoc [OF l(1) True]) (use l in simp)
        moreover have "conout c (setb (ptr + 2 + of_nat (length line)) c (k\<lparr>k_in := bs\<rparr>))
            = Some (k\<lparr>k_in := bs, k_out := k_out k @ [c], k_mem := m'\<rparr>)"
          using k(1) by (simp add: conout_plain quiet_def setb_def m'_def)
        then have "readline_loop ptr (of_nat mx) (of_nat (length line)) k
            = readline_loop ptr (of_nat mx) (of_nat (length line) + 1) (k\<lparr>k_in := bs, k_out := k_out k @ [c], k_mem := m'\<rparr>)"
          using True c c' by (simp add: simps mx cell_addr [OF len] Let_def)
        ultimately show ?thesis using True c' by (auto simp: edit_key_def key_echo_def add.commute)
      next
        case False
        then show ?thesis using c c' l(1) mx
          by (auto simp: simps edit_key_def key_echo_def Let_def intro!: exI [of _ "k_mem k"])
      qed
    qed
  qed
qed

lemma plain_keys_Cons: "plain_keys (c # cs) \<longleftrightarrow> c \<notin> {0x0D, 0x0A, 0x03} \<and> plain_keys cs"
  by (auto simp: plain_keys_def)

lemma readline_keys:
  assumes "quiet k" "k_in k = cs @ rest" "plain_keys cs" "line_at (ptr + 2) mx (k_mem kk) line (k_mem k)" "length line \<le> mx"
    and "mx < 256" "inrd_clear (ptr + 2) mx k" "quiet kk" "inrd k = inrd kk"
  shows "\<exists>m'. readline_loop ptr (of_nat mx) (of_nat (length line)) k
        = readline_loop ptr (of_nat mx) (of_nat (length (edit mx line cs)))
            (k\<lparr>k_in := rest, k_out := k_out k @ echo mx line cs, k_mem := m'\<rparr>)
      \<and> line_at (ptr + 2) mx (k_mem kk) (edit mx line cs) m'"
  using assms
proof (induction cs arbitrary: k line)
  case Nil
  then show ?case by (auto intro!: exI [of _ "k_mem k"])
next
  case (Cons c cs)
  let ?line = "edit_key mx line c"
  from readline_step [OF Cons.prems(1) _ _ Cons.prems(4-6), of c "cs @ rest"] Cons.prems(2,3)
  obtain m1 where step: "readline_loop ptr (of_nat mx) (of_nat (length line)) k = readline_loop ptr (of_nat mx) (of_nat (length ?line))
      (k\<lparr>k_in := cs @ rest, k_out := k_out k @ key_echo mx line c, k_mem := m1\<rparr>)"
    and l: "line_at (ptr + 2) mx (k_mem kk) ?line m1"
    by (auto simp: plain_keys_Cons)
  let ?k = "k\<lparr>k_in := cs @ rest, k_out := k_out k @ key_echo mx line c, k_mem := m1\<rparr>"
  have inrd: "inrd ?k = inrd k" by (simp add: inrd_def)
  have "quiet (kk\<lparr>k_mem := m1\<rparr>)"
    by (rule quiet_line [OF l]) (use Cons.prems in \<open>simp_all add: inrd_clear_def\<close>)
  then have q: "quiet ?k" using Cons.prems(1,9) by (simp add: quiet_def inrd_def)
  from Cons.IH [of ?k ?line] q l Cons.prems edit_key_length [OF Cons.prems(5)]
  show ?case unfolding step by (simp add: plain_keys_Cons inrd_clear_def inrd)
qed

lemma readline_end:
  assumes "quiet k" "k_in k = t # rest" "t \<in> {0x0D, 0x0A}"
  shows "readline_loop ptr mx n k = Some (Some n, k\<lparr>k_in := rest, k_out := k_out k @ [0x0D, 0x0A]\<rparr>)"
  using assms by (auto simp: readline_loop.simps [of ptr mx n k] conin_quiet conout_quiet low_byte Let_def)

text \<open>
  C12: BDOS function 10 is a line editor: with input from the console, the keys up to the first CR or LF (no ^C among
  them) leave in the caller's buffer the line the abstract editor makes of them -- backspace and DEL delete, ^U
  clears, other keys are appended while there is room -- with its length before it; nothing else in memory changes,
  the screen gets the echo, and the keys after the end of the line stay in the queue.
\<close>

theorem readline_edits:
  assumes "quiet k" "k_in k = cs @ t # rest" "plain_keys cs" "t \<in> {0x0D, 0x0A}"
    and "inrd_clear (ptr + 2) (unat (k_mem k ptr)) k"
  shows "\<exists>m'. bdos_dispatch app 10 ptr b k
        = Some (Ret 0, k\<lparr>k_in := rest, k_out := k_out k @ echo (unat (k_mem k ptr)) [] cs @ [0x0D, 0x0A], k_mem := m'\<rparr>)
      \<and> (let line = edit (unat (k_mem k ptr)) [] cs in
          m' (ptr + 1) = of_nat (length line) \<and> get_bytes (ptr + 2) (length line) m' = line)
      \<and> (\<forall>a. a \<noteq> ptr + 1 \<and> (\<forall>i < unat (k_mem k ptr). a \<noteq> ptr + 2 + of_nat i) \<longrightarrow> m' a = k_mem k a)"
proof -
  let ?mx = "unat (k_mem k ptr)" and ?line = "edit (unat (k_mem k ptr)) [] cs"
  have mx: "?mx < 256" "of_nat ?mx = k_mem k ptr" using unsigned_less [of "k_mem k ptr", where ?'a = nat] by simp_all
  have len: "length ?line \<le> ?mx" by (rule edit_length) simp
  obtain m1 where loop: "readline_loop ptr (k_mem k ptr) 0 k = readline_loop ptr (k_mem k ptr) (of_nat (length ?line))
      (k\<lparr>k_in := t # rest, k_out := k_out k @ echo ?mx [] cs, k_mem := m1\<rparr>)"
    and l: "line_at (ptr + 2) ?mx (k_mem k) ?line m1"
    using readline_keys [OF assms(1-3), where kk = k and mx = ?mx and line = "[]" and ptr = ptr] assms(1,5) mx
    by (auto simp: line_at_def get_bytes_def)
  have q: "quiet (k\<lparr>k_mem := m1\<rparr>)" by (rule quiet_line [OF l assms(5,1)])
  let ?k1 = "k\<lparr>k_in := t # rest, k_out := k_out k @ echo ?mx [] cs, k_mem := m1\<rparr>"
  have "readline_loop ptr (k_mem k ptr) 0 k
      = Some (Some (of_nat (length ?line)), k\<lparr>k_in := rest, k_out := k_out k @ echo ?mx [] cs @ [0x0D, 0x0A], k_mem := m1\<rparr>)"
    unfolding loop using readline_end [of ?k1 t rest] q assms(4) by (simp add: quiet_def inrd_def)
  moreover have "ptr + 2 + of_nat i \<noteq> ptr + 1" if "i < 256" for i
  proof
    assume "ptr + 2 + of_nat i = ptr + 1"
    then have "(of_nat (i + 1) :: u32) = 0" by (simp add: algebra_simps)
    then have "unat (of_nat (i + 1) :: u32) = 0" by (simp only: unsigned_0)
    then show False using that unat_of_nat_small [of "i + 1", where ?'a = 32] by simp
  qed
  then have "get_bytes (ptr + 2) (length ?line) (m1(ptr + 1 := v)) = ?line" for v
    using l len mx by (subst get_bytes_upd) (auto simp: line_at_def)
  ultimately show ?thesis using l
    by (auto simp: calls d_readline_def rv_def setb_def Let_def line_at_def
        intro!: exI [of _ "m1(ptr + 1 := of_nat (length ?line))"])
qed

text \<open>A terminal that typed A, backspace, B, C, Enter and Q.\<close>

definition demo_term :: kernel where
  "demo_term = (bdos_init (boot_kernel demo_vol (\<lambda>a. if a = 0x100 then 10 else 0) 0x0EC00000))
     \<lparr>k_in := [0x41, 0x08, 0x42, 0x43, 0x0D, 0x51]\<rparr>"

lemma readline_edits_witness:
  "\<exists>m'. bdos_dispatch (\<lambda>base n t k. None) 10 0x100 0 demo_term
        = Some (Ret 0, demo_term\<lparr>k_in := [0x51], k_out := [0x41, 0x08, 0x20, 0x08, 0x42, 0x43, 0x0D, 0x0A], k_mem := m'\<rparr>)
      \<and> m' 0x101 = 2 \<and> get_bytes 0x102 (length [0x42 :: u8, 0x43]) m' = [0x42, 0x43]"
proof -
  have fields: "k_mem demo_term 0x100 = 10" "k_in demo_term = [0x41, 0x08, 0x42, 0x43] @ 0x0D # [0x51]" "k_out demo_term = []"
      "inrd demo_term = 0x0EC00800" "mem32 (k_mem demo_term) 0x0EC00800 = 0" "\<not> redir_active demo_term"
    by (simp_all add: demo_term_def boot_kernel_def bdos_init_def inrd_def mem32_def)
  have ten: "unat (10 :: u8) = 10" by simp
  have "(0x0EC00800 :: u32) + j \<noteq> 0x100 + 2 + of_nat i" if "i < 10" "j \<in> {0, 1, 2, 3}" for i j
  proof -
    have "i \<in> {0, 1, 2, 3, 4, 5, 6, 7, 8, 9}" using that(1) by auto
    then show ?thesis using that(2) by auto
  qed
  then have "\<forall>i < unat (10 :: u8). \<forall>j \<in> {0, 1, 2, 3}. (0x0EC00800 :: u32) + j \<noteq> 0x100 + 2 + of_nat i"
    unfolding ten by blast
  then have "inrd_clear (0x100 + 2) (unat (k_mem demo_term 0x100)) demo_term" unfolding inrd_clear_def fields .
  moreover have "edit 10 [] [0x41, 0x08, 0x42, 0x43] = [0x42, 0x43]"
      "echo 10 [] [0x41, 0x08, 0x42, 0x43] = [0x41, 0x08, 0x20, 0x08, 0x42, 0x43]"
    by (simp_all add: edit_key_def key_echo_def rubs_def)
  ultimately show ?thesis
    using readline_edits [OF _ fields(2), where ptr = "0x100" and app = "\<lambda>base n t k. None" and b = 0]
    by (auto simp: quiet_def fields plain_keys_def Let_def)
qed

section \<open>Status calls\<close>

text \<open>
  C22: Asking whether a byte is there (BDOS 11, and BDOS 6 with 0xFE) reads it from the serial line and drops it: the
  answer is 0xFF, and the byte that the next call delivers is the second one received.
\<close>

theorem status_loses_byte:
  assumes "quiet k" "k_in k = b # c # bs"
  shows "bdos_dispatch app 11 p q k = Some (Ret 0xFF, k\<lparr>k_in := c # bs\<rparr>)
    \<and> bdos_dispatch app 6 0xFE q k = Some (Ret 0xFF, k\<lparr>k_in := c # bs\<rparr>)
    \<and> bdos_dispatch app 6 0xFF q (k\<lparr>k_in := c # bs\<rparr>) = Some (Ret (ucast c), k\<lparr>k_in := bs\<rparr>)"
  using assms unsigned_less [of c, where ?'a = int]
  by (auto simp: calls d_constat_def via_bios_def bios_dispatch_def bios_table_def b_constat_def
      and_255_u8 bdos_redir_status_def quiet_def k_poll_def d_directio_def rv_def Let_def)

lemma status_loses_byte_witness:
  "bdos_dispatch (\<lambda>base n t k. None) 11 0 0 demo_term = Some (Ret 0xFF, demo_term\<lparr>k_in := [0x08, 0x42, 0x43, 0x0D, 0x51]\<rparr>)"
proof -
  have "quiet demo_term" "k_in demo_term = 0x41 # 0x08 # [0x42, 0x43, 0x0D, 0x51]"
    by (simp_all add: quiet_def demo_term_def boot_kernel_def bdos_init_def inrd_def mem32_def)
  then show ?thesis by (rule status_loses_byte [THEN conjunct1])
qed

section \<open>File control blocks\<close>

text \<open>The calls on an open file, and what they answer when it is not open.\<close>

lemma not_open:
  assumes "resolve_fcb k fcb = None" "f \<in> {16, 20, 21, 33, 34, 35}"
  shows "bdos_dispatch app f fcb b k = Some (Ret (if f = 20 then 1 else if f = 33 then 6 else 0xFF), k)"
  using assms(2) by (auto simp: calls assms(1) d_close_def d_read_seq_def d_write_seq_def d_read_random_def
      d_write_random_def d_file_size_def rv_def)

lemma get_bytes_nth: "i < n \<Longrightarrow> get_bytes a n m ! i = m (a + of_nat i)"
  by (simp add: get_bytes_def)

lemma same_stash:
  assumes "get_bytes (g + 16) 6 m2 = get_bytes (f + 16) 6 m1" "i < 6"
  shows "m2 (g + 16 + of_nat i) = m1 (f + 16 + of_nat i)"
proof -
  have "get_bytes (g + 16) 6 m2 ! i = get_bytes (f + 16) 6 m1 ! i" using assms(1) by simp
  then show ?thesis using assms(2) by (simp add: get_bytes_nth)
qed

text \<open>
  A copy of the handle fields of an open FCB resolves to nothing in a state where the handle is free or has another
  generation.
\<close>

lemma stale_fcb:
  assumes "resolve_fcb k fcb = Some i" "get_bytes (g + 16) 6 (k_mem k2) = get_bytes (fcb + 16) 6 (k_mem k)"
    and "\<not> h_in_use (fhandles k2 ! i) \<or> h_generation (fhandles k2 ! i) \<noteq> h_generation (fhandles k ! i)"
  shows "resolve_fcb k2 g = None"
proof -
  note same = same_stash [OF assms(2)]
  show ?thesis
    using assms(1,3) same [of 0] same [of 1] same [of 4] same [of 5]
    by (auto simp: resolve_fcb_def Let_def split: if_splits)
qed

lemma resolve_less: "resolve_fcb k fcb = Some i \<Longrightarrow> i < 16 \<and> h_in_use (fhandles k ! i)"
  by (auto simp: resolve_fcb_def Let_def split: if_splits)

lemma d_close_handles:
  assumes "bdos_dispatch app 16 fcb b k = Some (r, k1)" "resolve_fcb k fcb = Some i" "handles_ok (fhandles k)"
  shows "r = Ret 0" "\<not> h_in_use (fhandles k1 ! i)" "length (fhandles k1) = 16"
  using assms resolve_less [OF assms(2)]
  by (auto simp: calls d_close_def rv_def setb_def free_handle_def set_file_def handles_ok_def)

text \<open>
  What may happen between two calls through an FCB, seen from the handle table: file calls, made while the generation counter
  is not at \<open>g\<close>, and whatever leaves the table as it is (stores of the program, console calls, received bytes).
\<close>

definition file_calls :: "u32 set" where
  "file_calls = {14, 15, 16, 19, 20, 21, 22, 23, 26, 32, 33, 34, 35, 36}"

inductive file_step :: "app \<Rightarrow> u8 \<Rightarrow> kernel \<Rightarrow> kernel \<Rightarrow> bool" for app g where
  call: "f \<in> file_calls \<Longrightarrow> next_generation k \<noteq> g \<Longrightarrow> bdos_dispatch app f p q k = Some (r, k') \<Longrightarrow> file_step app g k k'"
| other: "fhandles k' = fhandles k \<Longrightarrow> file_step app g k k'"

text \<open>A handle that is free, or in use under another generation than \<open>g\<close>.\<close>

definition retired :: "nat \<Rightarrow> u8 \<Rightarrow> kernel \<Rightarrow> bool" where
  "retired i g k \<longleftrightarrow> length (fhandles k) = 16 \<and> i < 16 \<and> (\<not> h_in_use (fhandles k ! i) \<or> h_generation (fhandles k ! i) \<noteq> g)"

lemma retired_cong: "fhandles k' = fhandles k \<Longrightarrow> retired i g k' = retired i g k"
  by (simp add: retired_def)

lemma retired_simps [simp]:
  "retired i g (k\<lparr>k_fat := s\<rparr>) = retired i g k" "retired i g (k\<lparr>k_mem := m\<rparr>) = retired i g k"
  "retired i g (k\<lparr>mounted := mt\<rparr>) = retired i g k" "retired i g (setb a v k) = retired i g k"
  "retired i g (k\<lparr>cur_drive := cd\<rparr>) = retired i g k" "retired i g (k\<lparr>cur_subpath := cp\<rparr>) = retired i g k"
  "retired i g (k\<lparr>cur_user := cu\<rparr>) = retired i g k" "retired i g (k\<lparr>cur_dma := cdm\<rparr>) = retired i g k"
  "retired i g (set_record fcb n k) = retired i g k" "retired i g (set_random fcb n k) = retired i g k"
  "retired i g (stash_handle fcb j k) = retired i g k"
  by (simp_all add: retired_def setb_def set_record_def set_random_def stash_handle_def)

lemma retired_files: "retired i g k \<Longrightarrow> retired i g (set_file j fp k)" "retired i g k \<Longrightarrow> retired i g (free_handle j k)"
  by (cases "i = j"; auto simp: retired_def set_file_def free_handle_def)+

lemma retired_alloc: "alloc_handle k = Some (j, k') \<Longrightarrow> retired i g k \<Longrightarrow> next_generation k \<noteq> g \<Longrightarrow> retired i g k'"
  by (cases "i = j") (auto simp: retired_def alloc_handle_def split: option.splits)

lemma retired_mounted:
  "ensure_mounted k = (ok, k') \<Longrightarrow> retired i g k \<Longrightarrow> retired i g k' \<and> next_generation k' = next_generation k"
  by (auto simp: ensure_mounted_def split: if_splits prod.splits)

definition retires :: "bhandler \<Rightarrow> bool" where
  "retires h \<longleftrightarrow> (\<forall>p q k r k' i g. retired i g k \<longrightarrow> next_generation k \<noteq> g \<longrightarrow> h p q k = Some (r, k') \<longrightarrow> retired i g k')"

lemma retiresI:
  "(\<And>p q k r k' i g. retired i g k \<Longrightarrow> next_generation k \<noteq> g \<Longrightarrow> h p q k = Some (r, k') \<Longrightarrow> retired i g k') \<Longrightarrow> retires h"
  unfolding retires_def by blast

lemma retiresD: "retires h \<Longrightarrow> retired i g k \<Longrightarrow> next_generation k \<noteq> g \<Longrightarrow> h p q k = Some (r, k') \<Longrightarrow> retired i g k'"
  unfolding retires_def by blast

lemma name_calls_retire: "retires d_delete" "retires d_rename" "retires d_file_size" "retires d_set_rrec" "retires d_seldisk"
    "retires d_user" "retires d_set_dma" "retires d_close"
  by (auto intro!: retiresI simp: d_delete_def d_rename_def d_file_size_def d_set_rrec_def d_seldisk_def d_user_def d_set_dma_def
      d_close_def handler_simps case_Some_conv retired_files dest!: retired_mounted)

lemma open_calls_retire: "retires d_open" "retires d_make"
  by (auto intro!: retiresI simp: d_open_def d_make_def handler_simps case_Some_conv retired_files
      dest!: retired_alloc retired_mounted)

lemma record_calls_retire: "retires d_read_seq" "retires d_read_random" "retires d_write_seq" "retires d_write_random"
  by (auto intro!: retiresI simp: d_read_seq_def d_read_random_def d_write_seq_def d_write_random_def read_record_def
      write_record_def flush_handle_def handler_simps case_Some_conv retired_files)

lemmas calls_retire = name_calls_retire open_calls_retire record_calls_retire

lemma dispatch_file_calls:
  "bdos_dispatch app 14 = d_seldisk" "bdos_dispatch app 15 = d_open" "bdos_dispatch app 16 = d_close" "bdos_dispatch app 19 = d_delete"
  "bdos_dispatch app 20 = d_read_seq" "bdos_dispatch app 21 = d_write_seq" "bdos_dispatch app 22 = d_make"
  "bdos_dispatch app 23 = d_rename" "bdos_dispatch app 26 = d_set_dma" "bdos_dispatch app 32 = d_user"
  "bdos_dispatch app 33 = d_read_random" "bdos_dispatch app 34 = d_write_random" "bdos_dispatch app 35 = d_file_size"
  "bdos_dispatch app 36 = d_set_rrec"
  by (simp_all add: fun_eq_iff bdos_dispatch_def bdos_table_def)

lemma file_calls_retire: "f \<in> file_calls \<Longrightarrow> retires (bdos_dispatch app f)"
  unfolding file_calls_def insert_iff empty_iff
  by (elim disjE FalseE; hypsubst; unfold dispatch_file_calls; rule calls_retire)

lemma file_step_retired: "file_step app g k k' \<Longrightarrow> retired i g k \<Longrightarrow> retired i g k'"
proof (induction rule: file_step.induct)
  case (call f k p q r k')
  show ?case by (rule retiresD [OF file_calls_retire [OF call(1)] call(4,2,3)])
next
  case (other k' k)
  then show ?case using retired_cong by blast
qed

lemma file_steps_retired: "(file_step app g)\<^sup>*\<^sup>* k k' \<Longrightarrow> retired i g k \<Longrightarrow> retired i g k'"
  by (induction rule: rtranclp_induct) (auto intro: file_step_retired)

text \<open>
  C11: A closed file cannot be used any more, through any copy of its FCB. After closing, let the program make any number of file
  calls (opening and making files among them, which may reuse the handle) and do anything else that leaves the handle table alone,
  such that no call is made while the generation counter has come around to the generation of the closed file. Then close, read,
  write and size calls on memory that still has the handle fields of the open FCB answer with an error and change
  nothing.
\<close>

theorem closed_fcb_rejected:
  assumes "resolve_fcb k fcb = Some i" "handles_ok (fhandles k)" "bdos_dispatch app 16 fcb b k = Some (r, k1)"
    and "(file_step app (h_generation (fhandles k ! i)))\<^sup>*\<^sup>* k1 k2"
    and "get_bytes (g + 16) 6 (k_mem k2) = get_bytes (fcb + 16) 6 (k_mem k)" "f \<in> {16, 20, 21, 33, 34, 35}"
  shows "r = Ret 0 \<and> bdos_dispatch app f g b2 k2 = Some (Ret (if f = 20 then 1 else if f = 33 then 6 else 0xFF), k2)"
proof -
  note c = d_close_handles [OF assms(3,1,2)]
  have "retired i (h_generation (fhandles k ! i)) k1" using c resolve_less [OF assms(1)] by (simp add: retired_def)
  from file_steps_retired [OF assms(4) this] have "resolve_fcb k2 g = None"
    by (intro stale_fcb [OF assms(1,5)]) (simp add: retired_def)
  then show ?thesis using not_open [OF _ assms(6)] c(1) by simp
qed

section \<open>The position in a file\<close>

lemma setb_mem [simp]: "k_mem (setb a v k) = (k_mem k)(a := v)"
  by (simp add: setb_def)

lemma join_record: "(x :: u32) < 2 ^ 20 \<Longrightarrow>
    push_bit 12 (ucast (ucast (drop_bit 12 x) :: u8)) OR push_bit 7 (ucast (ucast (drop_bit 7 x AND 0x1F) :: u8)) OR ucast (ucast (x AND 0x7F) :: u8) = x"
proof -
  assume x: "x < 2 ^ 20"
  have m: "(0x1F :: u32) = mask 5" "(0x7F :: u32) = mask 7" by (simp_all add: mask_eq_exp_minus_1)
  have "take_bit 20 x = x"
    by (rule word_unat_eq_iff [THEN iffD2]) (use x in \<open>simp add: unsigned_take_bit_eq take_bit_nat_eq_self_iff word_less_nat_alt\<close>)
  then have hi: "bit x n \<Longrightarrow> n < 20" for n by (metis bit_take_bit_iff)
  show ?thesis
  proof (rule bit_word_eqI)
    fix n
    assume "n < LENGTH(32)"
    consider "n < 7" | "7 \<le> n" "n < 12" | "12 \<le> n" by linarith
    then show "bit (push_bit 12 (ucast (ucast (drop_bit 12 x) :: u8)) OR push_bit 7 (ucast (ucast (drop_bit 7 x AND 0x1F) :: u8))
        OR ucast (ucast (x AND 0x7F) :: u8) :: u32) n = bit x n"
      using hi [of n] \<open>n < LENGTH(32)\<close>
      by cases (auto simp: m bit_or_iff bit_push_bit_iff bit_unsigned_iff bit_drop_bit_eq bit_and_iff bit_mask_iff)
  qed
qed

lemma fcb_record_set: "n < 2 ^ 20 \<Longrightarrow> fcb_record (set_record fcb n k) fcb = n"
  by (simp add: fcb_record_def set_record_def join_record)

text \<open>A fresh handle is in use with the current generation.\<close>

lemma alloc_handle_new:
  assumes "alloc_handle k = Some (i, k')" "handles_ok (fhandles k)"
  shows "i < 16" "h_in_use (fhandles k' ! i)" "length (fhandles k') = 16"
  using assms by (auto simp: alloc_handle_def handles_ok_def find_Some_iff split: option.splits)

lemma resolve_stash:
  assumes "i < 16" "h_in_use (fhandles k ! i)"
  shows "resolve_fcb (stash_handle fcb i k) fcb = Some i"
  using assms by (simp add: resolve_fcb_def stash_handle_def unat_of_nat Let_def)

lemma resolve_fields:
  assumes "\<forall>i < 16. h_in_use (fhandles k' ! i) = h_in_use (fhandles k ! i) \<and> h_generation (fhandles k' ! i) = h_generation (fhandles k ! i)"
    and "\<forall>j < 36. k_mem k' (fcb + of_nat j) = k_mem k (fcb + of_nat j)"
  shows "resolve_fcb k' fcb = resolve_fcb k fcb"
  using assms(1) spec [OF assms(2), of 16] spec [OF assms(2), of 17] spec [OF assms(2), of 20] spec [OF assms(2), of 21]
  by (simp add: resolve_fcb_def Let_def add.assoc)

lemma resolve_setb:
  "a \<noteq> fcb + 16 \<Longrightarrow> a \<noteq> fcb + 17 \<Longrightarrow> a \<noteq> fcb + 20 \<Longrightarrow> a \<noteq> fcb + 21 \<Longrightarrow> resolve_fcb (setb a v k) fcb = resolve_fcb k fcb"
  by (simp add: resolve_fcb_def Let_def setb_def add.assoc)

definition at_extent :: "u32 \<Rightarrow> u32" where
  "at_extent n = push_bit 7 (drop_bit 7 n)"

lemma at_extent_value: "unat (at_extent n) = unat n div 128 * 128"
proof -
  have "unat n div 128 * 128 < 2 ^ 32"
    by (rule le_less_trans [OF div_times_less_eq_dividend]) (use unsigned_less [of n, where ?'a = nat] in simp)
  then show ?thesis by (simp add: at_extent_def push_bit_eq_mult drop_bit_eq_div unat_word_ariths unat_div)
qed

lemma at_extent_parts:
  assumes "n < 2 ^ 20"
  shows "push_bit 12 (ucast (ucast (drop_bit 12 n) :: u8)) OR push_bit 7 (ucast (ucast (drop_bit 7 n AND 0x1F) :: u8)) = at_extent n"
proof -
  have d: "drop_bit 12 (at_extent n) = drop_bit 12 n" "drop_bit 7 (at_extent n) = drop_bit 7 n" "at_extent n AND 0x7F = 0"
  proof -
    have m: "(0x7F :: u32) = mask 7" by (simp add: mask_eq_exp_minus_1)
    show "drop_bit 12 (at_extent n) = drop_bit 12 n" "drop_bit 7 (at_extent n) = drop_bit 7 n" "at_extent n AND 0x7F = 0"
      unfolding m at_extent_def
      by (rule bit_word_eqI; auto simp: bit_push_bit_iff bit_drop_bit_eq bit_and_iff bit_mask_iff dest: bit_imp_le_length)+
  qed
  have "unat (at_extent n) \<le> unat n" by (simp add: at_extent_value)
  then have "at_extent n < 2 ^ 20" using assms by (simp add: word_less_nat_alt)
  then show ?thesis using join_record [of "at_extent n"] unfolding d by simp
qed

text \<open>
  C21: Opening a file (BDOS 15) leaves an FCB that resolves to the handle of the file, positioned not at its start
  but at the start of the last extent: the number of the next record to be read is the number of records of
  the file, rounded down to a multiple of 128.
\<close>

theorem open_position:
  assumes "bdos_dispatch app 15 fcb b k = Some (Ret 0, k')" "handles_ok (fhandles k)"
  shows "\<exists>i. resolve_fcb k' fcb = Some i
    \<and> (records (file_size (file_of k' i)) < 2 ^ 20 \<longrightarrow>
         unat (fcb_record k' fcb) = unat (records (file_size (file_of k' i))) div 128 * 128)"
proof -
  obtain k1 where m: "ensure_mounted k = (True, k1)" and h1: "fhandles k1 = fhandles k"
    using assms(1) by (auto simp: calls d_open_def ensure_mounted_def rv_def split: if_splits prod.splits)
  from assms(1) m obtain path i k2 rc fp s where i: "alloc_handle k1 = Some (i, k2)"
    and k': "k' = (let r = records (file_size fp); k3 = stash_handle fcb i (set_file i fp (k2\<lparr>k_fat := s\<rparr>)) in
       setb (fcb + FCB_CR) 0 (setb (fcb + FCB_RC) (ucast (r AND 0x7F)) (setb (fcb + FCB_S2) (ucast (drop_bit 12 r))
         (setb (fcb + FCB_S1) 0 (setb (fcb + FCB_EX) (ucast (drop_bit 7 r AND 0x1F)) k3)))))"
    by (auto simp: calls d_open_def handler_simps case_Some_conv)
  note new = alloc_handle_new [OF i, unfolded h1, OF assms(2)]
  let ?k3 = "stash_handle fcb i (set_file i fp (k2\<lparr>k_fat := s\<rparr>))"
  have f: "fhandles k' = fhandles ?k3" "file_of k' i = fp"
    using new unfolding k' by (simp_all add: setb_def stash_handle_def set_file_def Let_def)
  have "resolve_fcb ?k3 fcb = Some i"
    by (rule resolve_stash) (use new in \<open>simp_all add: set_file_def\<close>)
  moreover have "resolve_fcb k' fcb = resolve_fcb ?k3 fcb"
    unfolding k' by (simp add: resolve_setb Let_def)
  moreover have "fcb_record k' fcb = at_extent (records (file_size fp))" if "records (file_size fp) < 2 ^ 20"
    using that unfolding k' by (simp add: fcb_record_def Let_def at_extent_parts)
  ultimately show ?thesis using f(2) by (auto simp: at_extent_value)
qed

section \<open>A file that is found\<close>

text \<open>Opening the first entry of the root directory by its 8.3 name.\<close>

lemma fopen_first:
  assumes "fat_ok s" "m_valid (fat_M s)" "dir_start s 0 = (c, l)" "dir_walk (fat_M s) (disk s) c l ls"
    and "live_recs (dir_recs (disk s) ls) = (l1, j, e) # rest" "name_match_83 (take 11 e) name" "e ! 11 AND ATTR_DIR = 0"
    and "name \<noteq> []" "0x2F \<notin> set name" "length name \<le> 15"
  shows "\<exists>s'. fat_fopen s (0x2F # name) fp = Some (0, open_handle (parse_dirent e) fp, s') \<and> same_disk s s'"
proof -
  obtain it where it: "fat_diropen_root iter0 s = (0, it)" "dir_pos s it (dir_recs (disk s) ls)"
    using dir_pos_start [OF assms(2-4)] by auto
  have "dir_pos s (clear_lfn it) (dir_recs (disk s) ls)" using it(2) by (auto simp: dir_pos_def clear_lfn_def it_ok_def)
  from dirnext_loop_ok [OF assms(1) this, of 256] assms(2,5) obtain lfn it1 s1 where
    n: "fat_dirnext it s 256 = Some (Inr (parse_dirent e, lfn), it1, s1)" "same_disk s s1"
    by (auto simp: fat_dirnext_def)
  have "find_entry_in_dir it s name = Some (Some (parse_dirent e), it1, s1)"
    using n(1) assms(6) by (simp add: find_entry_in_dir_def dir_search.simps [of _ it] name_is_def parse_dirent_def)
  moreover have tw: "takeWhile (\<lambda>c. c \<noteq> 0x2F) name = name" using assms(9) by (auto simp: takeWhile_eq_all_conv)
  have "path_comp name = name" "path_rest name = []"
    unfolding path_comp_def path_rest_def tw using assms(10) by simp_all
  moreover have "de_attr (parse_dirent e) AND ATTR_DIR = 0" using assms(7) by (simp add: parse_dirent_def)
  ultimately show ?thesis
    using assms(2,8) it(1) n(2) by (auto simp: fat_fopen_def strip_slash_def fopen_walk.simps [of name])
qed

lemma demo_live: "live_recs (dir_recs (disk demo_vol) [3]) = [(3, 0, take 32 (demo_secs ! 3))]"
proof -
  have "ramfat_rd (disk demo_vol) 3 = Some (demo_secs ! 3)" using demo_rd [of 3] by simp
  then have "sec_recs (disk demo_vol) 3 = map (\<lambda>j. (3, j, slice (j * 32) 32 (demo_secs ! 3))) [0..<16]"
    by (simp add: sec_recs_def)
  moreover have "[0..<16] = 0 # 1 # [2..<16 :: nat]" by (simp add: upt_rec)
  ultimately show ?thesis
    by (simp add: dir_recs_def live_recs_def live_def Let_def slice_def demo_secs_def build_raw_name_def upc_def pad_def nth_append)
qed

text \<open>A kernel with this volume mounted, and an FCB for the file \<open>HI\<close> at address 512.\<close>

definition demo_kernel :: kernel where
  "demo_kernel = (bdos_init (boot_kernel demo_vol
     (\<lambda>a. if a = 0x201 then 0x48 else if a = 0x202 then 0x49 else if 0x203 \<le> a \<and> a \<le> 0x20B then 0x20 else 0) 0x0EC00000))
     \<lparr>mounted := True, cur_dma := 0x1000\<rparr>"

lemma demo_path: "fcb_to_path demo_kernel 0x200 = Some [0x2F, 0x48, 0x49]"
proof -
  have "get_bytes (0x200 + 1) 11 (k_mem demo_kernel) = [0x48, 0x49, 0x20, 0x20, 0x20, 0x20, 0x20, 0x20, 0x20, 0x20, 0x20]"
    by (simp add: get_bytes_def demo_kernel_def boot_kernel_def bdos_init_def upt_rec)
  then show ?thesis
    by (simp add: fcb_to_path_def fcb_drive_def fcb_to_name_def path_of_def build_path_def mount_path_def demo_kernel_def
        boot_kernel_def bdos_init_def cstr_def)
qed

lemma demo_fopen: "\<exists>s'. fat_fopen demo_vol [0x2F, 0x48, 0x49] file0 = Some (0, demo_file\<lparr>dir_lba := 0, f_attr := 0x20\<rparr>, s') \<and> same_disk demo_vol s'"
proof -
  have "dir_start demo_vol 0 = (0, 3)" by (simp add: dir_start_def demo_vol_def demo_fat_def)
  from fopen_first [OF demo_vol_ok this demo_walk demo_live, of "[0x48, 0x49]" file0]
  show ?thesis
    by (simp add: demo_secs_def build_raw_name_def upc_def pad_def nth_append name_match_83_def name_cand_def cstr_def
        parse_dirent_def open_handle_def demo_file_def new_handle_def file0_def de_clus_def join_clus_def rd16_def rd32_def)
qed

lemma demo_open:
  "\<exists>k'. bdos_dispatch app 15 0x200 b demo_kernel = Some (Ret 0, k') \<and> resolve_fcb k' 0x200 = Some 0
     \<and> file_of k' 0 = demo_file\<lparr>dir_lba := 0, f_attr := 0x20\<rparr> \<and> same_disk demo_vol (k_fat k') \<and> fcb_record k' 0x200 = 0
     \<and> cur_dma k' = 0x1000 \<and> length (fhandles k') = 16"
proof -
  let ?f = "demo_file\<lparr>dir_lba := 0, f_attr := 0x20\<rparr>"
  obtain s' where s': "fat_fopen demo_vol [0x2F, 0x48, 0x49] file0 = Some (0, ?f, s')" "same_disk demo_vol s'"
    using demo_fopen by blast
  let ?h = "replicate 15 \<lparr>h_in_use = False, h_generation = 0, h_file = file0\<rparr>"
  let ?k1 = "demo_kernel\<lparr>fhandles := \<lparr>h_in_use = True, h_generation = 1, h_file = file0\<rparr> # ?h, next_generation := 2\<rparr>"
  let ?k2 = "set_file 0 ?f (?k1\<lparr>k_fat := s'\<rparr>)"
  have "[0..<16] = 0 # [1..<16 :: nat]" by (simp add: upt_rec)
  moreover have "fhandles demo_kernel = \<lparr>h_in_use = False, h_generation = 0, h_file = file0\<rparr> # ?h"
    by (simp add: demo_kernel_def boot_kernel_def bdos_init_def numeral_eq_Suc)
  ultimately have alloc: "alloc_handle demo_kernel = Some (0, ?k1)"
    by (simp add: alloc_handle_def) (simp add: demo_kernel_def boot_kernel_def bdos_init_def)
  have "ensure_mounted demo_kernel = (True, demo_kernel)" "k_fat demo_kernel = demo_vol" "cur_dma demo_kernel = 0x1000"
    by (simp_all add: ensure_mounted_def demo_kernel_def boot_kernel_def bdos_init_def)
  then have "bdos_dispatch app 15 0x200 b demo_kernel = Some (Ret 0,
      setb (0x200 + FCB_CR) 0 (setb (0x200 + FCB_RC) 1 (setb (0x200 + FCB_S2) 0 (setb (0x200 + FCB_S1) 0
        (setb (0x200 + FCB_EX) 0 (stash_handle 0x200 0 ?k2))))))" (is "_ = Some (_, ?k')")
    using s'(1) by (simp add: calls d_open_def demo_path alloc rv_def Let_def records_def demo_file_def new_handle_def)
  moreover have "resolve_fcb (stash_handle 0x200 0 ?k2) 0x200 = Some 0"
    by (rule resolve_stash) (simp_all add: set_file_def)
  then have "resolve_fcb ?k' 0x200 = Some 0" by (simp add: resolve_setb)
  moreover have "file_of ?k' 0 = ?f" "k_fat ?k' = s'" "cur_dma ?k' = 0x1000" "fcb_record ?k' 0x200 = 0" "length (fhandles ?k') = 16"
    by (simp_all add: setb_def stash_handle_def set_file_def fcb_record_def demo_kernel_def)
  ultimately show ?thesis using s'(2) by auto
qed

lemma open_position_witness:
  "\<exists>k' i. bdos_dispatch (\<lambda>base n t k. None) 15 0x200 0 demo_kernel = Some (Ret 0, k') \<and> resolve_fcb k' 0x200 = Some i
     \<and> (records (file_size (file_of k' i)) < 2 ^ 20 \<longrightarrow>
         unat (fcb_record k' 0x200) = unat (records (file_size (file_of k' i))) div 128 * 128)"
proof -
  have "handles_ok (fhandles demo_kernel)" by (simp add: handles_ok_def demo_kernel_def boot_kernel_def bdos_init_def)
  then show ?thesis using demo_open [of "\<lambda>base n t k. None" 0] open_position by blast
qed

section \<open>Reading records\<close>

definition file_data :: "fat \<Rightarrow> fat_file \<Rightarrow> u32 list \<Rightarrow> u8 list" where
  "file_data s fp cs = take (unat (file_size fp)) (file_bytes s cs)"

text \<open>Record \<open>n\<close> of a file with these data, filled up with the end-of-file character.\<close>

definition record_of :: "u8 list \<Rightarrow> nat \<Rightarrow> u8 list" where
  "record_of xs n = take 128 (drop (128 * n) xs @ replicate 128 0x1A)"

lemma record_of_slice:
  assumes "d = slice (128 * n) (min 128 (length xs - 128 * n)) xs" "128 * n < length xs"
  shows "d @ replicate (128 - length d) 0x1A = record_of xs n" "0 < length d" "length d \<le> 128"
  using assms by (auto simp: record_of_def slice_def min_def take_append)

lemma slice_take: "p + q \<le> n \<Longrightarrow> slice p q (take n xs) = slice p q xs"
  by (simp add: slice_def drop_take min_def)

lemma produced_small: "length d \<le> 128 \<Longrightarrow> produced d = int (length d)"
  by (simp add: produced_def signed_of_nat signed_take_bit_int_eq_self)

text \<open>The FCB and the DMA buffer do not meet.\<close>

definition fcb_apart :: "kernel \<Rightarrow> u32 \<Rightarrow> bool" where
  "fcb_apart k fcb \<longleftrightarrow> (\<forall>i < 128. \<forall>j < 36. cur_dma k + of_nat i \<noteq> fcb + of_nat j)"

lemma read_record_ok:
  assumes "i < 16" "length (fhandles k) = 16" "vol_ok (k_fat k)" "file_ok (k_fat k) (file_of k i) cs"
    and "off = 128 * n" "unat off < unat (file_size (file_of k i))" "unat off = 128 * unat n"
  shows "\<exists>c s pos m. read_record i off k = Some (Inr (), (set_file i ((file_of k i)\<lparr>cur_pos := pos, cur_clus := c\<rparr>) (k\<lparr>k_fat := s\<rparr>))
          \<lparr>k_mem := put_bytes (cur_dma k) (record_of (file_data (k_fat k) (file_of k i) cs) (unat n)) m\<rparr>)
       \<and> (\<forall>a. (\<forall>j < 128. cur_dma k + of_nat j \<noteq> a) \<longrightarrow> m a = k_mem k a) \<and> same_disk (k_fat k) s"
proof -
  let ?s = "k_fat k" and ?fp = "file_of k i" and ?xs = "file_data (k_fat k) (file_of k i) cs"
  have lt: "off < file_size ?fp" using assms(6) by (simp add: word_less_nat_alt)
  obtain c1 s1 c2 s2 d where seek: "fat_fseek ?s ?fp off = Some (0, ?fp\<lparr>cur_pos := off, cur_clus := c1\<rparr>, s1)"
    and d: "d = slice (unat off) (unat (min 128 (file_size ?fp - off))) (file_bytes ?s cs)"
    and read: "fat_fread s1 (?fp\<lparr>cur_pos := off, cur_clus := c1\<rparr>) 128
        = ((produced d, d), ?fp\<lparr>cur_pos := off + min 128 (file_size ?fp - off), cur_clus := c2\<rparr>, s2)"
    and sd: "same_disk ?s s2"
    using seek_read [OF assms(3,4) lt, of 128] by (auto simp: Let_def)
  have len: "length ?xs = unat (file_size ?fp)"
    using assms(4) length_file_bytes [OF assms(3), of cs] by (simp add: file_data_def file_ok_def)
  have "unat (file_size ?fp - off) = unat (file_size ?fp) - unat off" using lt by (intro unat_sub) simp
  then have "unat (min 128 (file_size ?fp - off)) = min 128 (length ?xs - 128 * unat n)"
    using assms(7) len by (auto simp: min_def word_le_nat_alt)
  moreover have "slice p q (file_bytes ?s cs) = slice p q ?xs" if "p + q \<le> length ?xs" for p q
    using that unfolding len by (simp add: file_data_def slice_take)
  ultimately have "d = slice (128 * unat n) (min 128 (length ?xs - 128 * unat n)) ?xs"
    using assms(6,7) len d by simp
  note r = record_of_slice [OF this]
  have r: "d @ replicate (128 - length d) 0x1A = record_of ?xs (unat n)" "0 < length d" "length d \<le> 128"
    using r assms(6,7) len by simp_all
  let ?m = "put_bytes (cur_dma k) d (k_mem k)"
  have "read_record i off k = Some (Inr (), (set_file i (?fp\<lparr>cur_pos := off + min 128 (file_size ?fp - off), cur_clus := c2\<rparr>) (k\<lparr>k_fat := s2\<rparr>))
      \<lparr>k_mem := put_bytes (cur_dma k) (record_of ?xs (unat n)) ?m\<rparr>)"
    using lt seek read r(2,3) assms(1,2) by (simp add: read_record_def set_file_def produced_small Let_def flip: r(1))
  moreover have "?m a = k_mem k a" if "\<forall>j < 128. cur_dma k + of_nat j \<noteq> a" for a
    using that r(3) by (intro put_bytes_other) auto
  ultimately show ?thesis using sd by blast
qed

text \<open>A file open for reading through an FCB, at record \<open>n\<close>.\<close>

definition reading :: "kernel \<Rightarrow> u32 \<Rightarrow> nat \<Rightarrow> u32 list \<Rightarrow> nat \<Rightarrow> bool" where
  "reading k fcb i cs n \<longleftrightarrow> resolve_fcb k fcb = Some i \<and> length (fhandles k) = 16 \<and> cur_dma k \<noteq> 0 \<and> vol_ok (k_fat k)
     \<and> file_ok (k_fat k) (file_of k i) cs \<and> unat (fcb_record k fcb) = n \<and> fcb_apart k fcb"

abbreviation the_data :: "kernel \<Rightarrow> nat \<Rightarrow> u32 list \<Rightarrow> u8 list" where
  "the_data k i cs \<equiv> file_data (k_fat k) (file_of k i) cs"

lemma length_the_data: "reading k fcb i cs n \<Longrightarrow> length (the_data k i cs) = unat (file_size (file_of k i))"
  using length_file_bytes [of "k_fat k" cs] by (simp add: reading_def file_data_def file_ok_def)

lemma apart_fcb: "fcb_apart k fcb \<Longrightarrow> j < 36 \<Longrightarrow> \<forall>i < 128. cur_dma k + of_nat i \<noteq> fcb + of_nat j"
  by (simp add: fcb_apart_def)

lemma length_record_of: "length (record_of xs n) = 128"
  by (simp add: record_of_def)

lemma set_record_frame:
  "fhandles (set_record fcb n k) = fhandles k" "cur_dma (set_record fcb n k) = cur_dma k" "k_fat (set_record fcb n k) = k_fat k"
  by (simp_all add: set_record_def setb_def)

lemma resolve_set_record: "resolve_fcb (set_record fcb n k) fcb = resolve_fcb k fcb"
  by (simp add: set_record_def resolve_setb)

lemma get_bytes_set_record:
  assumes "fcb_apart k fcb" "a = cur_dma k"
  shows "get_bytes a 128 (k_mem (set_record fcb n k)) = get_bytes a 128 (k_mem k)"
  using apart_fcb [OF assms(1), of 12] apart_fcb [OF assms(1), of 14] apart_fcb [OF assms(1), of 32] assms(2)
  by (simp add: set_record_def get_bytes_upd)

lemma read_step:
  assumes r: "reading k fcb i cs n" and n: "128 * n < length (the_data k i cs)" "Suc n < 2 ^ 20"
  shows "\<exists>k'. d_read_seq fcb b k = Some (Ret 0, k') \<and> reading k' fcb i cs (Suc n) \<and> the_data k' i cs = the_data k i cs
     \<and> get_bytes (cur_dma k') 128 (k_mem k') = record_of (the_data k i cs) n \<and> cur_dma k' = cur_dma k \<and> disk (k_fat k') = disk (k_fat k)"
proof -
  let ?n = "fcb_record k fcb" and ?fp = "file_of k i"
  have st: "resolve_fcb k fcb = Some i" "i < 16" "length (fhandles k) = 16" "vol_ok (k_fat k)" "file_ok (k_fat k) ?fp cs"
      "unat ?n = n" "cur_dma k \<noteq> 0" "fcb_apart k fcb"
    using r resolve_less by (auto simp: reading_def)
  have off: "unat (128 * ?n) = 128 * unat ?n" using n(2) st(6) by (simp add: unat_word_ariths)
  have lt: "unat (128 * ?n) < unat (file_size ?fp)" using n(1) off st(6) length_the_data [OF r] by simp
  obtain c s pos m where rd: "read_record i (128 * ?n) k = Some (Inr (), (set_file i (?fp\<lparr>cur_pos := pos, cur_clus := c\<rparr>) (k\<lparr>k_fat := s\<rparr>))
          \<lparr>k_mem := put_bytes (cur_dma k) (record_of (the_data k i cs) n) m\<rparr>)"
      and m: "\<forall>a. (\<forall>j < 128. cur_dma k + of_nat j \<noteq> a) \<longrightarrow> m a = k_mem k a" and sd: "same_disk (k_fat k) s"
    using read_record_ok [OF st(2-5) refl lt off] unfolding st(6) by blast
  define k1 where "k1 = (set_file i (?fp\<lparr>cur_pos := pos, cur_clus := c\<rparr>) (k\<lparr>k_fat := s\<rparr>))
          \<lparr>k_mem := put_bytes (cur_dma k) (record_of (the_data k i cs) n) m\<rparr>"
  define k' where "k' = set_record fcb (?n + 1) k1"
  have k1: "k_fat k1 = s" "cur_dma k1 = cur_dma k" "length (fhandles k1) = 16" "file_of k1 i = ?fp\<lparr>cur_pos := pos, cur_clus := c\<rparr>"
    using st(2,3) by (simp_all add: k1_def set_file_def)
  have f: "k_fat k' = s" "cur_dma k' = cur_dma k" "length (fhandles k') = 16" "file_of k' i = ?fp\<lparr>cur_pos := pos, cur_clus := c\<rparr>"
    using k1 by (simp_all add: k'_def set_record_frame)
  have "d_read_seq fcb b k = Some (Ret 0, k')"
    using st(1,7) rd by (simp add: d_read_seq_def rv_def mult.commute k1_def k'_def)
  moreover have "unat ?n + 1 < 2 ^ 20" using n(2) st(6) by simp
  then have n1: "unat (?n + 1) = Suc n" "?n + 1 < 2 ^ 20" using st(6) by (simp_all add: unat_word_ariths word_less_nat_alt)
  then have "unat (fcb_record k' fcb) = Suc n" by (simp add: k'_def fcb_record_set)
  moreover have "k_mem k1 (fcb + of_nat j) = k_mem k (fcb + of_nat j)" if "j < 36" for j
    using apart_fcb [OF st(8) that] m by (simp add: k1_def put_bytes_other length_record_of)
  then have "resolve_fcb k1 fcb = resolve_fcb k fcb"
    using st(2,3) by (intro resolve_fields) (auto simp: k1_def set_file_def nth_list_update)
  then have "resolve_fcb k' fcb = Some i" using st(1) by (simp add: k'_def resolve_set_record)
  moreover have "file_ok (k_fat k') (file_of k' i) cs" "vol_ok (k_fat k')" "the_data k' i cs = the_data k i cs"
    using st(4,5) unfolding f by (simp_all add: file_ok_def file_data_def same_disk_simps [OF sd])
  moreover have "fcb_apart k1 fcb" using st(8) k1(2) by (simp add: fcb_apart_def)
  then have "get_bytes (cur_dma k') 128 (k_mem k') = record_of (the_data k i cs) n"
    by (simp add: k'_def set_record_frame get_bytes_set_record) (simp add: k1_def set_file_def get_put_bytes length_record_of)
  moreover have "disk (k_fat k') = disk (k_fat k)" using sd by (simp add: f same_disk_def)
  ultimately show ?thesis using st(7,8) f by (auto simp: reading_def fcb_apart_def)
qed

lemma read_eof:
  assumes "reading k fcb i cs n" "length (the_data k i cs) \<le> 128 * n" "n < 2 ^ 20"
  shows "d_read_seq fcb b k = Some (Ret 1, k)"
proof -
  have "unat (128 * fcb_record k fcb) = 128 * n" using assms(1,3) by (simp add: reading_def unat_word_ariths)
  then have "file_size (file_of k i) \<le> 128 * fcb_record k fcb"
    using assms(2) length_the_data [OF assms(1)] by (simp add: word_le_nat_alt)
  then show ?thesis using assms(1) by (simp add: d_read_seq_def read_record_def reading_def rv_def mult.commute)
qed

text \<open>A program that reads records until the end of the file and collects what it finds in its DMA buffer.\<close>

partial_function (option) read_to_end :: "app \<Rightarrow> u32 \<Rightarrow> u8 list \<Rightarrow> kernel \<Rightarrow> (u8 list \<times> kernel) option" where
  "read_to_end app fcb acc k =
     do { (r, k1) \<leftarrow> bdos_dispatch app 20 fcb 0 k;
          if r = Ret 0 then read_to_end app fcb (acc @ get_bytes (cur_dma k1) 128 (k_mem k1)) k1 else Some (acc, k1) }"

lemma read_to_end_ok:
  assumes "reading k fcb i cs n" "length (the_data k i cs) \<le> 128 * (n + m)" "\<forall>j < m. 128 * (n + j) < length (the_data k i cs)" "n + m < 2 ^ 20"
  shows "\<exists>k'. read_to_end app fcb acc k = Some (acc @ concat (map (record_of (the_data k i cs)) [n..<n + m]), k')
     \<and> disk (k_fat k') = disk (k_fat k)"
  using assms
proof (induction m arbitrary: k n acc)
  case 0
  then show ?case using read_eof [of k fcb i cs n] by (simp add: read_to_end.simps [of app fcb] calls)
next
  case (Suc m)
  from Suc.prems(3) have "128 * n < length (the_data k i cs)" by (auto dest: spec [of _ 0])
  then obtain k1 where k1: "d_read_seq fcb 0 k = Some (Ret 0, k1)" "reading k1 fcb i cs (Suc n)" "the_data k1 i cs = the_data k i cs"
    "get_bytes (cur_dma k1) 128 (k_mem k1) = record_of (the_data k i cs) n" "disk (k_fat k1) = disk (k_fat k)"
    using read_step [OF Suc.prems(1), of 0] Suc.prems(4) by auto
  have pre: "\<forall>j < m. 128 * (Suc n + j) < length (the_data k1 i cs)"
    using Suc.prems(3) k1(3) by (auto dest: spec [of _ "Suc _"])
  then obtain k' where "read_to_end app fcb (acc @ record_of (the_data k i cs) n) k1
      = Some ((acc @ record_of (the_data k i cs) n) @ concat (map (record_of (the_data k1 i cs)) [Suc n..<Suc n + m]), k')"
      "disk (k_fat k') = disk (k_fat k1)"
    using Suc.IH [OF k1(2) _ pre, of "acc @ record_of (the_data k i cs) n"] Suc.prems(2,4) k1(3)
    by (auto simp del: upt_Suc append_assoc)
  moreover have "[n..<n + Suc m] = n # [Suc n..<Suc n + m]" by (simp add: upt_conv_Cons)
  ultimately show ?case using k1 by (simp add: read_to_end.simps [of app fcb acc k] calls)
qed

definition padded :: "u8 list \<Rightarrow> u8 list" where
  "padded xs = xs @ replicate (128 * ((length xs + 127) div 128) - length xs) 0x1A"

lemma concat_chunks: "concat (map (\<lambda>j. take 128 (drop (128 * j) ys)) [0..<m]) = take (128 * m) ys"
proof (induction m)
  case (Suc m)
  have "take (128 * Suc m) ys = take (128 * m) ys @ take 128 (drop (128 * m) ys)"
    by (simp only: take_add [symmetric]) (simp add: add.commute)
  then show ?case using Suc by simp
qed simp

lemma concat_records:
  assumes "m = (length xs + 127) div 128"
  shows "concat (map (record_of xs) [0..<m]) = padded xs"
proof -
  have m: "length xs \<le> 128 * m" "\<forall>j < m. 128 * j < length xs" using assms by (auto simp: less_eq_div_iff_mult_less_eq)
  have "record_of xs j = take 128 (drop (128 * j) (padded xs))" if j: "j < m" for j
  proof -
    have "128 * Suc j \<le> 128 * m" using j by (intro mult_le_mono2) simp
    then have "128 - (length xs - 128 * j) \<le> 128 * m - length xs" using m j by auto
    then show ?thesis using m j unfolding padded_def assms [symmetric] by (auto simp: record_of_def take_append min_def)
  qed
  then have "map (record_of xs) [0..<m] = map (\<lambda>j. take 128 (drop (128 * j) (padded xs))) [0..<m]" by simp
  moreover have "length (padded xs) = 128 * m" using m(1) unfolding padded_def assms [symmetric] by simp
  ultimately show ?thesis by (simp only: concat_chunks take_all_iff)
qed

text \<open>
  C9: Sequential reading (BDOS 20) delivers files exactly. A program that sets the DMA address and calls
  the function until it no longer answers 0, through an FCB that stands at record 0 of a file on a sound volume, has then
  been given all bytes of the file in order, filled up with 0x1A to a whole number of records, and the disk is as before. The DMA
  buffer does not overlap the FCB, and the file has at most 128 MB less a record, so that record numbers fit the FCB.
\<close>

theorem sequential_read:
  assumes "reading k fcb i cs 0" "unat (file_size (file_of k i)) \<le> 128 * (2 ^ 20 - 1)"
  shows "\<exists>k'. read_to_end app fcb [] k = Some (padded (the_data k i cs), k') \<and> disk (k_fat k') = disk (k_fat k)"
proof -
  let ?m = "(length (the_data k i cs) + 127) div 128"
  have len: "length (the_data k i cs) = unat (file_size (file_of k i))" by (rule length_the_data [OF assms(1)])
  have "length (the_data k i cs) \<le> 128 * (0 + ?m)" "\<forall>j < ?m. 128 * (0 + j) < length (the_data k i cs)" by auto
  moreover have "0 + ?m < 2 ^ 20" using assms(2) len by auto
  ultimately show ?thesis using read_to_end_ok [OF assms(1), of ?m app "[]"] concat_records [OF refl] by simp
qed

lemma sequential_read_witness:
  "\<exists>k k'. bdos_dispatch (\<lambda>base n t k. None) 15 0x200 0 demo_kernel = Some (Ret 0, k)
     \<and> read_to_end (\<lambda>base n t k. None) 0x200 [] k = Some ([0x61, 0x62, 0x63] @ replicate 125 0x1A, k')"
proof -
  obtain k where k: "bdos_dispatch (\<lambda>base n t k. None) 15 0x200 0 demo_kernel = Some (Ret 0, k)" "resolve_fcb k 0x200 = Some 0"
    "file_of k 0 = demo_file\<lparr>dir_lba := 0, f_attr := 0x20\<rparr>" "same_disk demo_vol (k_fat k)" "fcb_record k 0x200 = 0" "cur_dma k = 0x1000" "length (fhandles k) = 16"
    using demo_open [of "\<lambda>base n t k. None" 0] by blast
  have "(0x1000 :: u32) + of_nat i \<noteq> 0x200 + of_nat j" if "i < 128" "j < 36" for i j
  proof
    assume "(0x1000 :: u32) + of_nat i = 0x200 + of_nat j"
    then have "unat ((0x1000 :: u32) + of_nat i) = unat ((0x200 :: u32) + of_nat j)" by (rule arg_cong)
    moreover have "unat ((0x1000 :: u32) + of_nat i) = 0x1000 + i" "unat ((0x200 :: u32) + of_nat j) = 0x200 + j"
      using that by (simp_all add: unat_word_ariths unat_of_nat)
    ultimately show False using that by simp
  qed
  then have "fcb_apart k 0x200" by (simp add: fcb_apart_def k(6))
  moreover have "linked (k_fat k) [2]" using demo_linked(1) by (simp only: same_disk_simps(2) [OF k(4)])
  then have "file_ok (k_fat k) (file_of k 0) [2]"
    using demo_linked(2) by (simp add: k(3) file_ok_def demo_file_def new_handle_def same_disk_simps(5) [OF k(4)])
  moreover have "vol_ok (k_fat k)" by (rule same_disk_simps(1) [OF k(4) demo_vol_vol])
  ultimately have "reading k 0x200 0 [2] 0" using k by (simp add: reading_def)
  moreover have "the_data k 0 [2] = [0x61, 0x62, 0x63]"
    by (simp add: k(3) file_data_def same_disk_simps [OF k(4)] demo_file_bytes demo_secs_def demo_file_def new_handle_def)
  moreover have "unat (file_size (file_of k 0)) \<le> 128 * (2 ^ 20 - 1)" by (simp add: k(3) demo_file_def new_handle_def)
  ultimately show ?thesis
    using sequential_read [of k "0x200" 0 "[2]" "\<lambda>base n t k. None"] k(1) by (auto simp: padded_def)
qed

text \<open>Opening the file once more, in any state with the volume, its FCB and a free first handle.\<close>

lemma demo_open_again:
  assumes "mounted k" "k_mem k = k_mem demo_kernel" "cur_drive k = 0" "cur_user k = 0" "cur_subpath k = []"
    and "same_disk demo_vol (k_fat k)" "fhandles k = h # hs" "\<not> h_in_use h" "length hs = 15"
  shows "\<exists>k'. bdos_dispatch app 15 0x200 b k = Some (Ret 0, k') \<and> resolve_fcb k' 0x200 = Some 0 \<and> mounted k' \<and> cur_drive k' = 0
     \<and> cur_user k' = 0 \<and> cur_subpath k' = [] \<and> same_disk demo_vol (k_fat k') \<and> tl (fhandles k') = hs \<and> length (fhandles k') = 16
     \<and> h_in_use (fhandles k' ! 0) \<and> h_generation (fhandles k' ! 0) = next_generation k
     \<and> next_generation k' = (if next_generation k + 1 = 0 then 1 else next_generation k + 1)"
proof -
  have path: "fcb_to_path k 0x200 = Some [0x2F, 0x48, 0x49]"
    using demo_path assms(2-5)
    by (simp add: fcb_to_path_def fcb_drive_def path_of_def demo_kernel_def boot_kernel_def bdos_init_def)
  have sd: "fat_ok (k_fat k)" "fat_M (k_fat k) = fat_M demo_vol" "disk (k_fat k) = disk demo_vol"
    using assms(6) by (simp_all add: same_disk_def)
  have "dir_start (k_fat k) 0 = (0, 3)" by (simp add: dir_start_def sd demo_vol_def demo_fat_def)
  then obtain s' fp where s': "fat_fopen (k_fat k) [0x2F, 0x48, 0x49] (h_file h) = Some (0, fp, s')" "same_disk (k_fat k) s'"
    using fopen_first [of "k_fat k" 0 3 "[3]" 3 0 "take 32 (demo_secs ! 3)" "[]" "[0x48, 0x49]" "h_file h"] demo_vol_ok demo_walk demo_live
    by (auto simp: sd demo_secs_def build_raw_name_def upc_def pad_def nth_append name_match_83_def name_cand_def cstr_def)
  let ?h = "h\<lparr>h_in_use := True, h_generation := next_generation k\<rparr>"
  let ?k1 = "k\<lparr>fhandles := ?h # hs, next_generation := (if next_generation k + 1 = 0 then 1 else next_generation k + 1)\<rparr>"
  have "[0..<16] = 0 # [1..<16 :: nat]" by (simp add: upt_rec)
  then have alloc: "alloc_handle k = Some (0, ?k1)" using assms(7,8) by (simp add: alloc_handle_def)
  let ?k2 = "stash_handle 0x200 0 (set_file 0 fp (?k1\<lparr>k_fat := s'\<rparr>))" and ?r = "records (file_size fp)"
  let ?k' = "setb (0x200 + FCB_CR) 0 (setb (0x200 + FCB_RC) (ucast (?r AND 0x7F)) (setb (0x200 + FCB_S2) (ucast (drop_bit 12 ?r))
      (setb (0x200 + FCB_S1) 0 (setb (0x200 + FCB_EX) (ucast (drop_bit 7 ?r AND 0x1F)) ?k2))))"
  have "bdos_dispatch app 15 0x200 b k = Some (Ret 0, ?k')"
    using s'(1) assms(1) by (simp add: calls d_open_def path alloc rv_def Let_def ensure_mounted_def)
  moreover have "resolve_fcb ?k2 0x200 = Some 0" by (rule resolve_stash) (simp_all add: set_file_def)
  then have "resolve_fcb ?k' 0x200 = Some 0" by (simp add: resolve_setb)
  ultimately show ?thesis
    using assms(1,3-5,9) same_disk_trans [OF assms(6) s'(2)] by (auto simp: setb_def stash_handle_def set_file_def)
qed

lemma closed_fcb_rejected_witness:
  "\<exists>k k1 k3 k4. bdos_dispatch (\<lambda>base n t k. None) 15 0x200 0 demo_kernel = Some (Ret 0, k)
     \<and> bdos_dispatch (\<lambda>base n t k. None) 16 0x200 0 k = Some (Ret 0, k1)
     \<and> bdos_dispatch (\<lambda>base n t k. None) 15 0x200 0 (k1\<lparr>k_mem := k_mem demo_kernel\<rparr>) = Some (Ret 0, k3)
     \<and> resolve_fcb k 0x200 = Some 0 \<and> resolve_fcb k3 0x200 = Some 0
     \<and> k4 = k3\<lparr>k_mem := k_mem k\<rparr> \<and> bdos_dispatch (\<lambda>base n t k. None) 20 0x200 0 k4 = Some (Ret 1, k4)"
proof -
  let ?app = "\<lambda>base n t k. None" and ?hs = "replicate 15 \<lparr>h_in_use = False, h_generation = 0, h_file = file0\<rparr>"
  have d: "mounted demo_kernel" "cur_drive demo_kernel = 0" "cur_user demo_kernel = 0" "cur_subpath demo_kernel = []"
      "same_disk demo_vol (k_fat demo_kernel)" "next_generation demo_kernel = 1"
      "fhandles demo_kernel = \<lparr>h_in_use = False, h_generation = 0, h_file = file0\<rparr> # ?hs"
    by (simp_all add: demo_kernel_def boot_kernel_def bdos_init_def same_disk_refl demo_vol_ok numeral_eq_Suc)
  obtain k where k: "bdos_dispatch ?app 15 0x200 0 demo_kernel = Some (Ret 0, k)" "resolve_fcb k 0x200 = Some 0" "mounted k"
      "cur_drive k = 0" "cur_user k = 0" "cur_subpath k = []" "same_disk demo_vol (k_fat k)" "tl (fhandles k) = ?hs" "length (fhandles k) = 16"
      "h_generation (fhandles k ! 0) = 1" "next_generation k = 2"
    using demo_open_again [OF d(1) refl d(2-5,7), of ?app 0] by (auto simp: d(6))
  have "handles_ok (fhandles k)"
    using k(8-10) by (cases "fhandles k") (auto simp: handles_ok_def)
  note ok = k(2) this
  obtain k1 where k1: "bdos_dispatch ?app 16 0x200 0 k = Some (Ret 0, k1)"
    and f: "k1 = setb (0x200 + FCB_PRIV) 0 (free_handle 0 (set_file 0 (fat_fclose (file_of k 0)) k))"
    using k(2) by (simp add: calls d_close_def rv_def)
  let ?k1 = "k1\<lparr>k_mem := k_mem demo_kernel\<rparr>"
  have g: "mounted ?k1" "cur_drive ?k1 = 0" "cur_user ?k1 = 0" "cur_subpath ?k1 = []" "same_disk demo_vol (k_fat ?k1)" "next_generation ?k1 = 2"
    using k(3-7,11) by (simp_all add: f setb_def free_handle_def set_file_def)
  obtain h where h: "fhandles ?k1 = h # ?hs" "\<not> h_in_use h"
    using k(8,9) by (cases "fhandles k") (simp_all add: f setb_def free_handle_def set_file_def)
  obtain k3 where k3: "bdos_dispatch ?app 15 0x200 0 ?k1 = Some (Ret 0, k3)" "resolve_fcb k3 0x200 = Some 0"
    using demo_open_again [OF g(1) _ g(2-5) h, of ?app 0] by auto
  let ?k4 = "k3\<lparr>k_mem := k_mem k\<rparr>"
  have "file_step ?app 1 k1 ?k1" "file_step ?app 1 k3 ?k4" by (rule file_step.other, simp)+
  moreover have "file_step ?app 1 ?k1 k3"
    by (rule file_step.call [OF _ _ k3(1)]) (simp_all add: file_calls_def g(6))
  ultimately have "(file_step ?app 1)\<^sup>*\<^sup>* k1 ?k4" by (blast intro: rtranclp.rtrancl_into_rtrancl)
  from closed_fcb_rejected [OF ok k1, unfolded k(10), OF this, of "0x200" 20 0] have
    "bdos_dispatch ?app 20 0x200 0 ?k4 = Some (Ret 1, ?k4)" by simp
  then show ?thesis using k(1,2) k1 k3 by blast
qed

end
