(* ===== verification/Ccp_Text.thy ===== *)
theory Ccp_Text
  imports Console Fat_Dir
begin

text \<open>
  The text helpers of the command processor (\<open>xcpm-mips/src_ccp/ccpmain.c\<close>, first part): what is printed,
  comparison of names, the tokenizer and the numbers of a command line. A C string is the list of its bytes
  before the terminating zero; what a function prints is the list of bytes it hands to \<open>putc_\<close>, in order.
\<close>

section \<open>Printing\<close>

primrec ccp_puts :: "cstring \<Rightarrow> u8 list" where
  "ccp_puts [] = []"
| "ccp_puts (c # cs) = (if c = 0x0A then [0x0D, c] else [c]) @ ccp_puts cs"

text \<open>\<open>"\r\n"\<close> through \<open>ccp_puts\<close>, which adds a carriage return of its own.\<close>

definition nl :: "u8 list" where
  "nl = ccp_puts [0x0D, 0x0A]"

text \<open>The number of digits when the caller passes none.\<close>

function hex_width :: "u32 \<Rightarrow> nat" where
  "hex_width t = (if t = 0 then 0 else Suc (hex_width (drop_bit 4 t)))"
  by auto
termination
proof (relation "measure unat")
  fix t :: u32 assume "t \<noteq> 0"
  then have "0 < unat t" using unsigned_eq_0_iff [of t, where ?'a = nat] by (metis gr0I)
  moreover have "unat (drop_bit 4 t) = unat t div 16" by (simp add: drop_bit_eq_div unat_div)
  ultimately show "(drop_bit 4 t, t) \<in> measure unat" by simp
qed simp

definition ccp_puthex :: "u32 \<Rightarrow> int \<Rightarrow> u8 list" where
  "ccp_puthex v digits =
     (let digits = (if digits = 0 then int (Suc (hex_width (drop_bit 4 v))) else digits) in
      ccp_puts (hex_digits (nat (min 8 (max 1 digits))) v))"

definition ccp_putdec :: "u32 \<Rightarrow> u8 list" where
  "ccp_putdec v = ccp_puts (dec_digits v)"

section \<open>Characters and strings\<close>

definition isspace :: "u8 \<Rightarrow> bool" where
  "isspace c \<longleftrightarrow> c = 0x20 \<or> c = 0x09"

definition is_lower :: "u8 \<Rightarrow> bool" where
  "is_lower c \<longleftrightarrow> 0x61 \<le> c \<and> c \<le> 0x7A"

definition to_upper :: "u8 \<Rightarrow> u8" where
  "to_upper c = (if is_lower c then c - 32 else c)"

fun ccp_strieq :: "cstring \<Rightarrow> cstring \<Rightarrow> bool" where
  "ccp_strieq (a # as) (b # bs) = (to_upper a = to_upper b \<and> ccp_strieq as bs)"
| "ccp_strieq as bs = (as = [] \<and> bs = [])"

text \<open>The comparison of at most \<open>n\<close> characters stops at the end of either string.\<close>

fun ccp_strieqn :: "cstring \<Rightarrow> cstring \<Rightarrow> nat \<Rightarrow> bool" where
  "ccp_strieqn as bs 0 = True"
| "ccp_strieqn (a # as) (b # bs) (Suc n) = (to_upper a = to_upper b \<and> ccp_strieqn as bs n)"
| "ccp_strieqn as bs (Suc n) = (as = [] \<and> bs = [])"

text \<open>Messages; a null argument is \<open>None\<close>.\<close>

definition usage :: "cstring list \<Rightarrow> string \<Rightarrow> u8 list" where
  "usage argv args = ccp_puts (ascii ''usage: '') @ ccp_puts (argv ! 0) @ [0x20] @ ccp_puts (ascii args) @ nl"

definition errf :: "cstring \<Rightarrow> cstring option \<Rightarrow> string \<Rightarrow> u8 list" where
  "errf prefix arg msg =
     [0x3F] @ ccp_puts prefix @ (case arg of None \<Rightarrow> [] | Some a \<Rightarrow> ccp_puts (ascii '': '') @ ccp_puts a)
     @ ccp_puts (ascii '': '') @ ccp_puts (ascii msg) @ nl"

section \<open>The tokenizer\<close>

text \<open>An escape inside double quotes.\<close>

definition unescape :: "u8 \<Rightarrow> u8" where
  "unescape e = (if e = 0x6E then 0x0A else if e = 0x72 then 0x0D else if e = 0x74 then 0x09 else e)"

text \<open>The loops inside quotes: what is copied, and the text after the closing quote.\<close>

fun dquote_loop :: "cstring \<Rightarrow> cstring \<times> cstring" where
  "dquote_loop [] = ([], [])"
| "dquote_loop (c # r) =
     (if c = 0x22 then ([], r)
      else if c = 0x5C \<and> r \<noteq> [] then (case dquote_loop (tl r) of (t, r1) \<Rightarrow> (unescape (hd r) # t, r1))
      else (case dquote_loop r of (t, r1) \<Rightarrow> (c # t, r1)))"

definition squote_loop :: "cstring \<Rightarrow> cstring \<times> cstring" where
  "squote_loop r = (takeWhile (\<lambda>c. c \<noteq> 0x27) r, drop 1 (dropWhile (\<lambda>c. c \<noteq> 0x27) r))"

lemma dquote_shorter [termination_simp]: "length (snd (dquote_loop r)) \<le> length r"
proof (induction r rule: dquote_loop.induct)
  case (2 c r)
  then show ?case by (cases r) (auto split: prod.splits)
qed simp

lemma squote_shorter [termination_simp]: "length (snd (squote_loop r)) \<le> length r"
  using length_dropWhile_le [of "\<lambda>c. c \<noteq> 0x27" r] by (simp add: squote_loop_def)

text \<open>The loop over one token: its characters, and the text from the space (or the end) on.\<close>

function token_loop :: "cstring \<Rightarrow> cstring \<times> cstring" where
  "token_loop [] = ([], [])"
| "token_loop (c # r) =
     (if isspace c then ([], c # r)
      else let (q, r1) = (if c = 0x22 then dquote_loop r else if c = 0x27 then squote_loop r else ([c], r)) in
        case token_loop r1 of (t, r2) \<Rightarrow> (q @ t, r2))"
  by pat_completeness auto
termination
proof (relation "measure length")
  fix c :: u8 and r x and q r1 :: cstring
  assume "x = (if c = 0x22 then dquote_loop r else if c = 0x27 then squote_loop r else ([c], r))" "(q, r1) = x"
  then have "length r1 \<le> length r"
    using dquote_shorter [of r] squote_shorter [of r] by (metis snd_conv order_refl)
  then show "(r1, c # r) \<in> measure length" by simp
qed simp

text \<open>The token and the text after its separator; \<open>None\<close> at the end of the line.\<close>

definition next_token :: "cstring \<Rightarrow> (cstring \<times> cstring) option" where
  "next_token p =
     (let p1 = dropWhile isspace p in
      if p1 = [] then None else let (t, r) = token_loop p1 in Some (t, drop 1 r))"

section \<open>Numbers\<close>

definition digit_of :: "bool \<Rightarrow> u8 \<Rightarrow> u32 option" where
  "digit_of hex c =
     (if 0x30 \<le> c \<and> c \<le> 0x39 then Some (ucast (c - 0x30))
      else if hex \<and> 0x41 \<le> c \<and> c \<le> 0x46 then Some (ucast (c - 0x41 + 10)) else None)"

text \<open>The loop of \<open>parse_num\<close>; \<open>n\<close> counts the digits read.\<close>

primrec num_loop :: "bool \<Rightarrow> cstring \<Rightarrow> u32 \<Rightarrow> nat \<Rightarrow> u32 option" where
  "num_loop hex [] v n = (if n = 0 then None else Some v)"
| "num_loop hex (c # cs) v n =
     (case digit_of hex (to_upper c) of None \<Rightarrow> None
      | Some d \<Rightarrow> if 10 < Suc n then None
                  else num_loop hex cs (if hex then push_bit 4 v OR d else v * 10 + d) (Suc n))"

definition parse_num :: "cstring \<Rightarrow> u32 option" where
  "parse_num cs =
     (let hex = (2 \<le> length cs \<and> cs ! 0 = 0x30 \<and> (cs ! 1 = 0x78 \<or> cs ! 1 = 0x58)) in
      num_loop hex (if hex then drop 2 cs else cs) 0 0)"

text \<open>The loop on a list of digits: the value it computes, when the count allows it.\<close>

definition num_value :: "bool \<Rightarrow> u32 \<Rightarrow> cstring \<Rightarrow> u32" where
  "num_value hex v cs = foldl (\<lambda>v c. if hex then push_bit 4 v OR the (digit_of hex (to_upper c)) else v * 10 + the (digit_of hex (to_upper c))) v cs"

lemma num_value_append: "num_value hex v (cs @ [c]) =
  (if hex then push_bit 4 (num_value hex v cs) OR the (digit_of hex (to_upper c)) else num_value hex v cs * 10 + the (digit_of hex (to_upper c)))"
  by (simp add: num_value_def)

lemma num_loop_value:
  "list_all (\<lambda>c. digit_of hex (to_upper c) \<noteq> None) cs \<Longrightarrow> length cs + n \<le> 10 \<Longrightarrow> 0 < length cs + n
     \<Longrightarrow> num_loop hex cs v n = Some (num_value hex v cs)"
proof (induction cs arbitrary: v n)
  case (Cons c cs)
  then obtain d where "digit_of hex (to_upper c) = Some d" by auto
  then show ?case using Cons by (cases hex) (simp_all add: num_value_def)
qed (simp add: num_value_def)

lemma parse_dec:
  assumes "list_all (\<lambda>c. digit_of False (to_upper c) \<noteq> None) cs" "cs \<noteq> []" "length cs \<le> 10"
  shows "parse_num cs = Some (num_value False 0 cs)"
proof -
  have "digit_of False (to_upper (cs ! 1)) \<noteq> None" if "2 \<le> length cs" using assms(1) that by (simp add: list_all_length)
  moreover have "digit_of False (to_upper 0x78) = None" "digit_of False (to_upper 0x58) = None"
    by (simp_all add: to_upper_def digit_of_def is_lower_def)
  ultimately have hex: "(2 \<le> length cs \<and> cs ! 0 = 0x30 \<and> (cs ! 1 = 0x78 \<or> cs ! 1 = 0x58)) = False" by metis
  show ?thesis unfolding parse_num_def Let_def hex if_False using num_loop_value [of False cs 0 0] assms by simp
qed

lemma digit_dec:
  assumes "0x30 \<le> c" "c \<le> (0x39 :: u8)"
  shows "digit_of hex (to_upper c) = Some (of_nat (unat c - 48))"
proof -
  have "\<not> is_lower c" using assms by (auto simp: is_lower_def word_le_nat_alt)
  moreover have "ucast (c - 0x30) = (of_nat (unat (c - 0x30)) :: u32)" by simp
  moreover have "unat (c - 0x30) = unat c - 48" using assms by (simp add: unat_sub)
  ultimately show ?thesis using assms by (simp add: digit_of_def to_upper_def)
qed

lemma num_value_dec:
  "list_all (\<lambda>c. 0x30 \<le> c \<and> c \<le> 0x39) cs \<Longrightarrow> num_value False (of_nat a) cs = of_nat (dec_value a cs)"
proof (induction cs arbitrary: a)
  case (Cons c cs)
  have "num_value False (of_nat a) (c # cs) = num_value False (of_nat (10 * a + (unat c - 48))) cs"
    using Cons.prems digit_dec [of c False] by (simp add: num_value_def algebra_simps)
  then show ?case using Cons.IH [of "10 * a + (unat c - 48)"] Cons.prems by (simp add: dec_value_def)
qed (simp add: num_value_def dec_value_def)

lemma dec_char_range: "0x30 \<le> (0x30 + ucast (v mod 10 :: u32) :: u8) \<and> (0x30 + ucast (v mod 10 :: u32) :: u8) \<le> 0x39"
proof -
  have "unat v mod 10 < 10" by simp
  then show ?thesis using dec_char [of v] by (simp add: word_le_nat_alt)
qed

lemma dec_loop_digits:
  "list_all (\<lambda>c. 0x30 \<le> c \<and> c \<le> 0x39) acc \<Longrightarrow> list_all (\<lambda>c. 0x30 \<le> c \<and> c \<le> 0x39) (dec_loop n v acc)"
  by (induction n arbitrary: v acc) (use dec_char_range in auto)

lemma dec_loop_length: "unat v < 10 ^ k \<Longrightarrow> length (dec_loop n v acc) \<le> k + length acc"
proof (induction n arbitrary: v acc k)
  case (Suc n)
  show ?case
  proof (cases "v = 0")
    case False
    then have "0 < unat v" using unsigned_eq_0_iff [of v, where ?'a = nat] by (metis gr0I)
    then obtain j where k: "k = Suc j" using Suc.prems by (cases k) auto
    have "unat (v div 10) < 10 ^ j" using Suc.prems by (simp add: k unat_div less_mult_imp_div_less mult.commute)
    then show ?thesis using Suc.IH [of "v div 10" j "(0x30 + ucast (v mod 10)) # acc"] False by (simp add: k)
  qed simp
qed simp

lemma dec_loop_nonempty: "acc \<noteq> [] \<Longrightarrow> dec_loop n v acc \<noteq> []"
  by (induction n arbitrary: v acc) auto

lemma dec_digits_shape:
  "list_all (\<lambda>c. 0x30 \<le> c \<and> c \<le> 0x39) (dec_digits v)" "dec_digits v \<noteq> []" "length (dec_digits v) \<le> 10"
proof -
  show "list_all (\<lambda>c. 0x30 \<le> c \<and> c \<le> 0x39) (dec_digits v)" by (simp add: dec_digits_def dec_loop_digits)
  have "dec_loop 11 v [] = dec_loop 10 (v div 10) [0x30 + ucast (v mod 10)]" if "v \<noteq> 0"
    using that by (simp add: numeral_eq_Suc)
  then show "dec_digits v \<noteq> []" by (simp add: dec_digits_def dec_loop_nonempty)
  have "unat v < 10 ^ 10" using unsigned_less [of v, where ?'a = nat] by simp
  then show "length (dec_digits v) \<le> 10" using dec_loop_length [of v 10 11 "[]"] by (simp add: dec_digits_def)
qed

lemma parse_dec_digits: "parse_num (dec_digits v) = Some v"
proof -
  have "list_all (\<lambda>c. digit_of False (to_upper c) \<noteq> None) (dec_digits v)"
    using dec_digits_shape(1) by (auto simp: list_all_iff digit_dec)
  then have "parse_num (dec_digits v) = Some (num_value False 0 (dec_digits v))"
    using dec_digits_shape(2,3) by (rule parse_dec)
  then show ?thesis using num_value_dec [OF dec_digits_shape(1), of 0 v] dec_digits_value [of v] by simp
qed

lemma hex_char_digit: "digit_of True (to_upper (hex_char v)) = Some (v AND 0xF)"
proof -
  have "v AND 0xF = take_bit 4 v" by (simp add: take_bit_eq_mask mask_eq_exp_minus_1)
  then have m: "unat (v AND 0xF) < 16" using take_bit_nat_less_exp [of 4 "unat v"] by (simp add: unsigned_take_bit_eq)
  obtain k where k: "unat (v AND 0xF) = k" by simp
  have "of_nat (unat (v AND 0xF)) = v AND 0xF" by simp
  then have v: "v AND 0xF = of_nat k" unfolding k by (rule sym)
  have "k = 0 \<or> k = 1 \<or> k = 2 \<or> k = 3 \<or> k = 4 \<or> k = 5 \<or> k = 6 \<or> k = 7 \<or> k = 8 \<or> k = 9 \<or> k = 10 \<or> k = 11
      \<or> k = 12 \<or> k = 13 \<or> k = 14 \<or> k = 15" using m unfolding k by presburger
  then show ?thesis unfolding hex_char_def k v
    by (elim disjE) (simp_all add: digit_of_def to_upper_def is_lower_def)
qed

lemma num_value_hex: "num_value True 0 (hex_digits n v) = take_bit (4 * n) v"
proof (induction n arbitrary: v)
  case 0
  then show ?case by (simp add: num_value_def)
next
  case (Suc n)
  have f: "(0xF :: u32) = mask 4" by (simp add: mask_eq_exp_minus_1)
  have "push_bit 4 (take_bit (4 * n) (drop_bit 4 v)) OR (v AND 0xF) = take_bit (4 * Suc n) v"
    unfolding f by (rule bit_word_eqI) (auto simp: bit_simps)
  then show ?case by (simp add: num_value_append hex_char_digit Suc.IH)
qed

lemma length_hex_digits [simp]: "length (hex_digits n v) = n"
  by (induction n arbitrary: v) simp_all

lemma hex_digits_ok: "list_all (\<lambda>c. digit_of True (to_upper c) \<noteq> None) (hex_digits n v)"
  by (induction n arbitrary: v) (simp_all add: hex_char_digit)

lemma parse_hex_digits: "0 < n \<Longrightarrow> n \<le> 8 \<Longrightarrow> parse_num ([0x30, 0x78] @ hex_digits n v) = Some (take_bit (4 * n) v)"
  using num_loop_value [OF hex_digits_ok, of n v 0 0] by (simp add: parse_num_def num_value_hex)


text \<open>Numbers print as their digits.\<close>

lemma ccp_puts_plain: "0x0A \<notin> set cs \<Longrightarrow> ccp_puts cs = cs"
  by (induction cs) auto

lemma ccp_puts_append [simp]: "ccp_puts (as @ bs) = ccp_puts as @ ccp_puts bs"
  by (induction as) simp_all

lemma hex_puts [simp]: "ccp_puts (hex_digits n v) = hex_digits n v"
proof (rule ccp_puts_plain)
  have "digit_of True (to_upper 0x0A) = None" by (simp add: digit_of_def to_upper_def is_lower_def)
  then show "0x0A \<notin> set (hex_digits n v)" using hex_digits_ok [of n v] by (auto simp: list_all_iff)
qed

lemma dec_puts [simp]: "ccp_puts (dec_digits v) = dec_digits v"
  using dec_digits_shape(1) [of v] by (intro ccp_puts_plain) (auto simp: list_all_iff)

section \<open>Writing a command line\<close>

text \<open>Repeated calls of \<open>next_token\<close>.\<close>

lemma token_loop_shorter: "length (snd (token_loop p)) \<le> length p"
proof (induction p rule: token_loop.induct)
  case (2 c r)
  define x where "x = (if c = 0x22 then dquote_loop r else if c = 0x27 then squote_loop r else ([c], r))"
  have "length (snd x) \<le> length r" using dquote_shorter [of r] squote_shorter [of r] by (simp add: x_def)
  then show ?case using 2 [OF _ x_def, of "fst x" "snd x"] by (auto simp: x_def [symmetric] Let_def split: prod.splits)
qed simp

lemma next_token_shorter: "next_token p = Some (t, r) \<Longrightarrow> length r < length p"
proof -
  assume n: "next_token p = Some (t, r)"
  let ?p = "dropWhile isspace p"
  have p: "?p \<noteq> []" "r = drop 1 (snd (token_loop ?p))" using n by (auto simp: next_token_def Let_def split: if_splits prod.splits)
  have "length (snd (token_loop ?p)) \<le> length p"
    using token_loop_shorter [of ?p] length_dropWhile_le [of isspace p] by linarith
  moreover have "p \<noteq> []" using p(1) by auto
  ultimately show ?thesis by (cases "snd (token_loop ?p)") (auto simp: p(2))
qed

function tokens :: "cstring \<Rightarrow> cstring list" where
  "tokens p = (case next_token p of None \<Rightarrow> [] | Some (t, r) \<Rightarrow> t # tokens r)"
  by auto
termination by (relation "measure length") (auto simp: next_token_shorter)

declare tokens.simps [simp del]

text \<open>One way to write an argument: as it is when it holds no special character, in double quotes otherwise.\<close>

definition plain :: "cstring \<Rightarrow> bool" where
  "plain a \<longleftrightarrow> a \<noteq> [] \<and> list_all (\<lambda>c. \<not> isspace c \<and> c \<noteq> 0x22 \<and> c \<noteq> 0x27) a"

definition in_quotes :: "cstring \<Rightarrow> cstring" where
  "in_quotes a = [0x22] @ concat (map (\<lambda>c. if c = 0x22 \<or> c = 0x5C then [0x5C, c] else [c]) a) @ [0x22]"

definition write_arg :: "cstring \<Rightarrow> cstring" where
  "write_arg a = (if plain a then a else in_quotes a)"

lemma dquote_escaped:
  "dquote_loop (concat (map (\<lambda>c. if c = 0x22 \<or> c = 0x5C then [0x5C, c] else [c]) a) @ 0x22 # r) = (a, r)"
  by (induction a) (auto simp: unescape_def)

lemma token_plain:
  "list_all (\<lambda>c. \<not> isspace c \<and> c \<noteq> 0x22 \<and> c \<noteq> 0x27) a \<Longrightarrow> token_loop (a @ 0x20 # r) = (a, 0x20 # r)"
  by (induction a) (auto simp: isspace_def)

lemma token_written: "token_loop (write_arg a @ 0x20 # r) = (a, 0x20 # r)"
proof (cases "plain a")
  case False
  then show ?thesis using dquote_escaped [of a "0x20 # r"] by (simp add: write_arg_def in_quotes_def isspace_def)
qed (simp add: write_arg_def plain_def token_plain)

lemma next_written: "next_token (write_arg a @ 0x20 # r) = Some (a, r)"
proof -
  have "\<exists>c s. write_arg a = c # s \<and> \<not> isspace c"
    by (cases a) (auto simp: write_arg_def plain_def in_quotes_def isspace_def)
  then show ?thesis using token_written [of a r] by (auto simp: next_token_def)
qed

text \<open>Every list of arguments can be written on a command line: the tokens of the line, whatever characters
  the arguments hold, are the arguments.\<close>

theorem tokens_written: "tokens (concat (map (\<lambda>a. write_arg a @ [0x20]) args)) = args"
proof (induction args)
  case Nil
  show ?case by (simp add: tokens.simps next_token_def)
next
  case (Cons a args)
  then show ?case by (simp add: tokens.simps [of "write_arg a @ r" for r] next_written)
qed

text \<open>Numbers are read back as they are printed, in decimal and in hexadecimal with enough digits.\<close>

theorem numbers_read_back:
  "parse_num (dec_digits v) = Some v \<and> parse_num ([0x30, 0x78] @ hex_digits 8 v) = Some v"
  using parse_hex_digits [of 8 v] take_bit_length_eq [of v] by (simp add: parse_dec_digits)

end
