(* ===== verification/Ccp_Codec.thy ===== *)
theory Ccp_Codec
  imports Ccp_Text Lance_Glue
begin

text \<open>
  The encodings of the command processor (\<open>ccpmain.c\<close>): \<open>crc32\<close>, \<open>base64\<close>, \<open>uuencode\<close> and \<open>uudecode\<close>. A
  command is a function of its arguments that gives the bytes it prints and its result.
\<close>

section \<open>The commands\<close>

type_synonym pure_cmd = "cstring list \<Rightarrow> u8 list \<times> int"

definition crc32_byte :: "u32 \<Rightarrow> u8 \<Rightarrow> u32" where
  "crc32_byte crc b = ((\<lambda>crc. drop_bit 1 crc XOR (if crc AND 1 \<noteq> 0 then 0xEDB88320 else 0)) ^^ 8) (crc XOR ucast b)"

text \<open>The loop over the arguments; \<open>first\<close> holds for the first of them.\<close>

primrec crc32_args :: "bool \<Rightarrow> cstring list \<Rightarrow> u32 \<Rightarrow> u32" where
  "crc32_args first [] crc = crc"
| "crc32_args first (a # as) crc = crc32_args False as (foldl crc32_byte (if first then crc else crc32_byte crc 0x20) a)"

definition cmd_crc32 :: pure_cmd where
  "cmd_crc32 argv =
     (if length argv < 2 then (usage argv ''<ascii-string>'', 1)
      else (ccp_puthex (crc32_args True (tl argv) 0xFFFFFFFF XOR 0xFFFFFFFF) 8 @ nl, 0))"

definition b64chars :: "u8 list" where
  "b64chars = ascii ''ABCDEFGHIJKLMNOPQRSTUVWXYZabcdefghijklmnopqrstuvwxyz0123456789+/''"

definition b64_index :: "u8 \<Rightarrow> int" where
  "b64_index c =
     (if 0x41 \<le> c \<and> c \<le> 0x5A then uint c - 0x41
      else if 0x61 \<le> c \<and> c \<le> 0x7A then uint c - 0x61 + 26
      else if 0x30 \<le> c \<and> c \<le> 0x39 then uint c - 0x30 + 52
      else if c = 0x2B then 62 else if c = 0x2F then 63 else -1)"

definition b64_char :: "u32 \<Rightarrow> nat \<Rightarrow> u8" where
  "b64_char v k = b64chars ! unat (drop_bit k v AND 0x3F)"

text \<open>The loop takes three bytes a time; \<open>rem\<close> is the number of bytes left.\<close>

function b64_encode :: "u8 list \<Rightarrow> u8 list" where
  "b64_encode bs =
     (if bs = [] then nl
      else let rem = length bs;
               v = push_bit 16 (ucast (bs ! 0)) OR (if 2 \<le> rem then push_bit 8 (ucast (bs ! 1)) else 0)
                   OR (if 3 \<le> rem then ucast (bs ! 2) else 0) in
           [b64_char v 18, b64_char v 12, if 2 \<le> rem then b64_char v 6 else 0x3D, if 3 \<le> rem then b64_char v 0 else 0x3D]
           @ b64_encode (drop 3 bs))"
  by auto
termination by (relation "measure length") auto

text \<open>The loop takes four characters a time; the padding \<open>=\<close> and a missing character are -2, other characters -1.\<close>

function b64_decode :: "cstring \<Rightarrow> u8 list" where
  "b64_decode cs =
     (if cs = [] then nl
      else let idx = (\<lambda>i none. if i < length cs then (if 2 \<le> i \<and> cs ! i = 0x3D then -2 else b64_index (cs ! i)) else none);
               a = idx 0 (-1); b = idx 1 (-1); c = idx 2 (-2); d = idx 3 (-2) in
           if a < 0 \<or> b < 0 then nl
           else [word_of_int (push_bit 2 a OR drop_bit 4 b)]
             @ (if 0 \<le> c then [word_of_int (push_bit 4 (b AND 0xF) OR drop_bit 2 c)] else [])
             @ (if 0 \<le> d then [word_of_int (push_bit 6 (c AND 3) OR d)] else [])
             @ b64_decode (drop 4 cs))"
  by auto
termination by (relation "measure length") auto

declare b64_encode.simps [simp del] b64_decode.simps [simp del]

definition cmd_base64 :: pure_cmd where
  "cmd_base64 argv =
     (let decode = (2 \<le> length argv \<and> take 2 (argv ! 1) = ascii ''-d''); ai = (if decode then 2 else 1) in
      if length argv \<le> ai then (usage argv ''[-d] <ascii>'', 1)
      else (if decode then b64_decode (argv ! ai) else b64_encode (argv ! ai), 0))"

definition uu_char :: "u32 \<Rightarrow> u8" where
  "uu_char b = (if b \<noteq> 0 then ucast (b + 0x20) else 0x60)"

function uue_loop :: "u8 list \<Rightarrow> u8 list" where
  "uue_loop bs =
     (if bs = [] then []
      else let byte = (\<lambda>i. if i < length bs then ucast (bs ! i) else 0); c1 = byte 0; c2 = byte 1; c3 = byte 2 in
           [uu_char (drop_bit 2 c1), uu_char (push_bit 4 (c1 AND 3) OR drop_bit 4 c2),
            uu_char (push_bit 2 (c2 AND 0xF) OR drop_bit 6 c3), uu_char (c3 AND 0x3F)] @ uue_loop (drop 3 bs))"
  by auto
termination by (relation "measure length") auto

definition cmd_uue :: pure_cmd where
  "cmd_uue argv =
     (if length argv < 2 then (usage argv ''<ascii>'', 1)
      else let s = argv ! 1; n = min 45 (length s) in ([of_nat (n + 0x20)] @ uue_loop (take n s) @ nl, 0))"

text \<open>
  The loop reads three characters before it looks at the end of the line, and steps over the terminating zero
  when the last group is short: a read of what lies behind the string is \<open>None\<close>. \<open>m\<close> is the number of bytes still to print.
\<close>

function uud_loop :: "cstring \<Rightarrow> nat \<Rightarrow> u8 list option" where
  "uud_loop s m =
     (if m = 0 \<or> s = [] then Some []
      else if length s < 3 \<or> (length s < 4 \<and> 3 < m) then None
      else let val = (\<lambda>i. if i < length s then (ucast (s ! i) - 0x20) AND 0x3F else 0 :: u32);
               b1 = val 0; b2 = val 1; b3 = val 2; b4 = val 3 in
           map_option (\<lambda>r. take m [ucast (push_bit 2 b1 OR drop_bit 4 b2), ucast (push_bit 4 b2 OR drop_bit 2 b3),
               ucast (push_bit 6 b3 OR b4)] @ r) (uud_loop (drop 4 s) (m - 3)))"
  by auto
termination by (relation "measure (\<lambda>(s, m). length s)") auto

declare uue_loop.simps [simp del] uud_loop.simps [simp del]

definition cmd_uud :: "cstring list \<Rightarrow> (u8 list \<times> int) option" where
  "cmd_uud argv =
     (if length argv < 2 then Some (usage argv ''<line>'', 1)
      else case argv ! 1 of [] \<Rightarrow> Some ([], 1)
      | c # s \<Rightarrow>
          let n = uint c - 0x20 in
          if n < 0 \<or> 45 < n then Some (ccp_puts (ascii ''?bad length'' @ [0x0D, 0x0A]), 1)
          else map_option (\<lambda>out. (out @ nl, 0)) (uud_loop s (nat n)))"

section \<open>The checksum\<close>

lemma crc32_byte_step: "crc32_byte = crc_step"
proof (intro ext)
  fix c b
  have "(\<lambda>crc. drop_bit 1 crc XOR (if crc AND 1 \<noteq> 0 then 0xEDB88320 else 0)) = crc_bit"
    by (rule ext) (auto simp: crc_bit_def and_one_eq odd_iff_mod_2_eq_one [symmetric] bit_0 xor.commute)
  then have "crc32_byte c b = (crc_bit ^^ 8) (c XOR ucast b)" by (simp only: crc32_byte_def)
  also have "\<dots> = eth_crc_byte c b" by (simp only: eth_crc_byte_def crc_bit_mask [abs_def])
  finally show "crc32_byte c b = crc_step c b" by (simp only: eth_crc_byte_step)
qed

lemma crc32_args_join:
  "crc32_args False as crc = foldl crc32_byte crc (concat (map (\<lambda>a. 0x20 # a) as))"
  by (induction as arbitrary: crc) simp_all

lemma crc32_args_bytes:
  "crc32_args True (a # as) crc = foldl crc32_byte crc (a @ concat (map (\<lambda>a. 0x20 # a) as))"
  by (simp add: crc32_args_join)

text \<open>C33: the \<open>crc32\<close> command prints, in eight hexadecimal digits, the checksum that the Ethernet chip computes
  for the arguments joined by blanks.\<close>

theorem crc32_command:
  "cmd_crc32 (c # a # as) = (hex_digits 8 (lance_crc32 (a @ concat (map (\<lambda>a. 0x20 # a) as))) @ nl, 0)"
proof -
  have "x XOR 0xFFFFFFFF = NOT x" for x :: u32
  proof -
    have m: "(0xFFFFFFFF :: u32) = mask 32" by (simp add: mask_eq_exp_minus_1)
    show ?thesis unfolding m by (rule bit_word_eqI) (simp add: bit_simps)
  qed
  then show ?thesis
    by (simp add: cmd_crc32_def ccp_puthex_def crc32_args_join crc32_byte_step lance_crc32_steps)
qed

section \<open>Base64\<close>

lemma less_64: "(k :: nat) < 64 \<Longrightarrow> k \<in> set [0..<64]"
  by simp

lemma b64_table: "map b64_index b64chars = map int [0..<64]"
  by code_simp

lemma length_b64chars: "length b64chars = 64"
  by code_simp

lemma b64_index_char: "b64_index (b64_char v k) = uint (drop_bit k v AND 0x3F)"
proof -
  have "drop_bit k v AND 0x3F = take_bit 6 (drop_bit k v)" by (simp add: take_bit_eq_mask mask_eq_exp_minus_1)
  then have l: "unat (drop_bit k v AND 0x3F) < 64"
    using take_bit_nat_less_exp [of 6 "unat (drop_bit k v)"] by (simp add: unsigned_take_bit_eq)
  have "b64_index (b64chars ! n) = int n" if "n < 64" for n
    using arg_cong [OF b64_table, of "\<lambda>xs. xs ! n"] that length_b64chars by simp
  then show ?thesis using l by (simp add: b64_char_def)
qed

lemma b64_pad: "b64_char v k \<noteq> 0x3D"
proof
  assume "b64_char v k = 0x3D"
  then have "uint (drop_bit k v AND 0x3F) = -1" using b64_index_char [of v k] by (simp add: b64_index_def)
  then show False using uint_ge_0 [of "drop_bit k v AND 0x3F"] by linarith
qed

text \<open>The three bytes from the four digits.\<close>

lemma b64_bytes:
  fixes a b c :: u8
  defines "v \<equiv> push_bit 16 (ucast a) OR push_bit 8 (ucast b) OR ucast c :: u32"
  shows "word_of_int (push_bit 2 (uint (drop_bit 18 v AND 0x3F)) OR drop_bit 4 (uint (drop_bit 12 v AND 0x3F))) = a"
    "word_of_int (push_bit 4 (uint (drop_bit 12 v AND 0x3F) AND 0xF) OR drop_bit 2 (uint (drop_bit 6 v AND 0x3F))) = b"
    "word_of_int (push_bit 6 (uint (drop_bit 6 v AND 0x3F) AND 3) OR uint (drop_bit 0 v AND 0x3F)) = c"
proof -
  have m: "(0x3F :: u32) = mask 6" "(0xF :: int) = mask 4" "(3 :: int) = mask 2" by (simp_all add: mask_eq_exp_minus_1)
  show "word_of_int (push_bit 2 (uint (drop_bit 18 v AND 0x3F)) OR drop_bit 4 (uint (drop_bit 12 v AND 0x3F))) = a"
    unfolding m v_def by (rule bit_word_eqI) (auto simp: bit_simps not_less dest: bit_imp_le_length dest!: le_Suc_ex)
  show "word_of_int (push_bit 4 (uint (drop_bit 12 v AND 0x3F) AND 0xF) OR drop_bit 2 (uint (drop_bit 6 v AND 0x3F))) = b"
    unfolding m v_def by (rule bit_word_eqI) (auto simp: bit_simps not_less dest: bit_imp_le_length dest!: le_Suc_ex)
  show "word_of_int (push_bit 6 (uint (drop_bit 6 v AND 0x3F) AND 3) OR uint (drop_bit 0 v AND 0x3F)) = c"
    unfolding m v_def by (rule bit_word_eqI) (auto simp: bit_simps not_less dest: bit_imp_le_length dest!: le_Suc_ex)
qed

lemma b64_group:
  "\<exists>p q r t. b64_encode (a # b # c # bs) = p # q # r # t # b64_encode bs
     \<and> (\<forall>rest. b64_decode (p # q # r # t # rest) = a # b # c # b64_decode rest)"
proof -
  define v :: u32 where "v = push_bit 16 (ucast a) OR push_bit 8 (ucast b) OR ucast c"
  have "b64_encode (a # b # c # bs) = b64_char v 18 # b64_char v 12 # b64_char v 6 # b64_char v 0 # b64_encode bs"
    by (subst b64_encode.simps) (simp add: v_def Let_def numeral_2_eq_2)
  moreover have "b64_decode (b64_char v 18 # b64_char v 12 # b64_char v 6 # b64_char v 0 # rest) = a # b # c # b64_decode rest" for rest
    using b64_bytes [of a b c] unfolding v_def [symmetric]
    by (subst b64_decode.simps) (simp add: Let_def b64_index_char b64_pad numeral_2_eq_2 numeral_3_eq_3 not_less [symmetric] uint_lt_0)
  ultimately show ?thesis by blast
qed

lemma b64_last:
  "\<exists>t. b64_encode [a] = t @ nl \<and> b64_decode t = [a] @ nl"
  "\<exists>t. b64_encode [a, b] = t @ nl \<and> b64_decode t = [a, b] @ nl"
proof -
  define v :: u32 where "v = push_bit 16 (ucast a) OR push_bit 8 (ucast (0 :: u8)) OR ucast (0 :: u8)"
  have "b64_encode [a] = [b64_char v 18, b64_char v 12, 0x3D, 0x3D] @ nl"
    by (subst b64_encode.simps) (simp add: v_def Let_def b64_encode.simps [of "[]"])
  moreover have "b64_decode [b64_char v 18, b64_char v 12, 0x3D, 0x3D] = [a] @ nl"
    using b64_bytes [of a 0 0] unfolding v_def [symmetric]
    by (subst b64_decode.simps) (simp add: Let_def b64_index_char b64_pad numeral_2_eq_2 numeral_3_eq_3 not_less [symmetric] uint_lt_0
        b64_decode.simps [of "[]"])
  ultimately show "\<exists>t. b64_encode [a] = t @ nl \<and> b64_decode t = [a] @ nl" by blast
next
  define v :: u32 where "v = push_bit 16 (ucast a) OR push_bit 8 (ucast b) OR ucast (0 :: u8)"
  have "b64_encode [a, b] = [b64_char v 18, b64_char v 12, b64_char v 6, 0x3D] @ nl"
    by (subst b64_encode.simps) (simp add: v_def Let_def b64_encode.simps [of "[]"])
  moreover have "b64_decode [b64_char v 18, b64_char v 12, b64_char v 6, 0x3D] = [a, b] @ nl"
    using b64_bytes [of a b 0] unfolding v_def [symmetric]
    by (subst b64_decode.simps) (simp add: Let_def b64_index_char b64_pad numeral_2_eq_2 numeral_3_eq_3 not_less [symmetric] uint_lt_0
        b64_decode.simps [of "[]"])
  ultimately show "\<exists>t. b64_encode [a, b] = t @ nl \<and> b64_decode t = [a, b] @ nl" by blast
qed

lemma b64_roundtrip: "\<exists>t. b64_encode s = t @ nl \<and> b64_decode t = s @ nl"
proof (induction s rule: length_induct)
  case (1 s)
  consider "s = []" | a where "s = [a]" | a b where "s = [a, b]" | a b c r where "s = a # b # c # r"
    by (metis list.exhaust)
  then show ?case
  proof cases
    case 1
    have "b64_encode [] = [] @ nl" "b64_decode [] = [] @ nl" by (simp_all add: b64_encode.simps b64_decode.simps)
    then show ?thesis using 1 by blast
  next
    case (4 a b c r)
    then obtain t where t: "b64_encode r = t @ nl" "b64_decode t = r @ nl" using "1.IH" [rule_format, of r] by auto
    obtain w x y z where g: "b64_encode (a # b # c # r) = w # x # y # z # b64_encode r"
      "\<And>rest. b64_decode (w # x # y # z # rest) = a # b # c # b64_decode rest" using b64_group [of a b c r] by blast
    have "b64_encode s = (w # x # y # z # t) @ nl" "b64_decode (w # x # y # z # t) = s @ nl"
      using g t by (simp_all add: 4)
    then show ?thesis by blast
  qed (simp_all only: b64_last)
qed

section \<open>Uuencode\<close>

lemma uu_val: "b < 64 \<Longrightarrow> (ucast (uu_char b) - 0x20) AND 0x3F = (b :: u32)"
proof -
  assume b: "b < 64"
  have f: "(0x3F :: u32) = mask 6" by (simp add: mask_eq_exp_minus_1)
  have u: "unat b < 64" using b by (simp add: word_less_nat_alt)
  have "ucast (uu_char b) = b + (if b = 0 then 0x60 else 0x20)"
  proof (rule word_unat_eq_iff [THEN iffD2], cases "b = 0")
    case False
    have "unat (b + 0x20) = unat b + 32" using u by (simp add: unat_word_ariths)
    then have "unat (ucast (b + 0x20) :: u8) = unat b + 32" using u by (simp add: unsigned_ucast_eq take_bit_eq_mod)
    then show "unat (ucast (uu_char b) :: u32) = unat (b + (if b = 0 then 0x60 else 0x20))"
      using False u by (simp add: uu_char_def unsigned_ucast_eq take_bit_eq_mod unat_word_ariths)
  qed (simp add: uu_char_def)
  then have "(ucast (uu_char b) - 0x20) AND 0x3F = take_bit 6 (b + (if b = 0 then 0x40 else 0))"
    unfolding f by (simp add: take_bit_eq_mask)
  also have "\<dots> = b"
  proof (cases "b = 0")
    case False
    then show ?thesis using u by (simp add: word_unat_eq_iff unsigned_take_bit_eq take_bit_nat_eq_self_iff)
  qed simp
  finally show ?thesis .
qed

lemma uu_bytes:
  fixes a b c :: u8
  shows "ucast (push_bit 2 (drop_bit 2 (ucast a :: u32)) OR drop_bit 4 (push_bit 4 (ucast a AND 3) OR drop_bit 4 (ucast b :: u32))) = a"
    "ucast (push_bit 4 (push_bit 4 (ucast a AND 3) OR drop_bit 4 (ucast b :: u32)) OR drop_bit 2 (push_bit 2 (ucast b AND 0xF) OR drop_bit 6 (ucast c :: u32))) = b"
    "ucast (push_bit 6 (push_bit 2 (ucast b AND 0xF) OR drop_bit 6 (ucast c :: u32)) OR (ucast c AND 0x3F)) = c"
proof -
  have m: "(0x3F :: u32) = mask 6" "(0xF :: u32) = mask 4" "(3 :: u32) = mask 2" by (simp_all add: mask_eq_exp_minus_1)
  show "ucast (push_bit 2 (drop_bit 2 (ucast a :: u32)) OR drop_bit 4 (push_bit 4 (ucast a AND 3) OR drop_bit 4 (ucast b :: u32))) = a"
    unfolding m by (rule bit_word_eqI) (auto simp: bit_simps not_less dest: bit_imp_le_length dest!: le_Suc_ex)
  show "ucast (push_bit 4 (push_bit 4 (ucast a AND 3) OR drop_bit 4 (ucast b :: u32)) OR drop_bit 2 (push_bit 2 (ucast b AND 0xF) OR drop_bit 6 (ucast c :: u32))) = b"
    unfolding m by (rule bit_word_eqI) (auto simp: bit_simps not_less dest: bit_imp_le_length dest!: le_Suc_ex)
  show "ucast (push_bit 6 (push_bit 2 (ucast b AND 0xF) OR drop_bit 6 (ucast c :: u32)) OR (ucast c AND 0x3F)) = c"
    unfolding m by (rule bit_word_eqI) (auto simp: bit_simps not_less dest: bit_imp_le_length dest!: le_Suc_ex)
qed

lemma uu_digits:
  fixes a b c :: u8
  shows "drop_bit 2 (ucast a) < (64 :: u32)" "push_bit 4 (ucast a AND 3) OR drop_bit 4 (ucast b) < (64 :: u32)"
    "push_bit 2 (ucast b AND 0xF) OR drop_bit 6 (ucast c) < (64 :: u32)" "ucast c AND 0x3F < (64 :: u32)"
proof -
  have m: "(0x3F :: u32) = mask 6" "(0xF :: u32) = mask 4" "(3 :: u32) = mask 2" by (simp_all add: mask_eq_exp_minus_1)
  have l: "x < 64" if "take_bit 6 x = x" for x :: u32
  proof -
    have "unat x = take_bit 6 (unat x)" using arg_cong [OF that, of unat] by (simp add: unsigned_take_bit_eq)
    then have "unat x < 2 ^ 6" using take_bit_nat_less_exp [of 6 "unat x"] by linarith
    then show ?thesis by (simp add: word_less_nat_alt)
  qed
  show "drop_bit 2 (ucast a) < (64 :: u32)"
    by (rule l, rule bit_word_eqI) (auto simp: bit_simps dest: bit_imp_le_length)
  show "push_bit 4 (ucast a AND 3) OR drop_bit 4 (ucast b) < (64 :: u32)"
    unfolding m by (rule l, rule bit_word_eqI) (auto simp: bit_simps dest: bit_imp_le_length)
  show "push_bit 2 (ucast b AND 0xF) OR drop_bit 6 (ucast c) < (64 :: u32)"
    unfolding m by (rule l, rule bit_word_eqI) (auto simp: bit_simps dest: bit_imp_le_length)
  show "ucast c AND 0x3F < (64 :: u32)"
    unfolding m by (rule l, rule bit_word_eqI) (auto simp: bit_simps dest: bit_imp_le_length)
qed

text \<open>One group of three bytes, of which the last one or two may be the fill.\<close>

lemma uu_group:
  assumes "c1 = ucast a" "c2 = ucast b" "c3 = ucast c" "0 < m"
  shows "uud_loop ([uu_char (drop_bit 2 c1), uu_char (push_bit 4 (c1 AND 3) OR drop_bit 4 c2),
            uu_char (push_bit 2 (c2 AND 0xF) OR drop_bit 6 c3), uu_char (c3 AND 0x3F)] @ rest) m
     = map_option (\<lambda>r. take m [a, b, c] @ r) (uud_loop rest (m - 3))"
  unfolding assms(1-3) using assms(4) uu_bytes(1) [of a b] uu_bytes(2) [of a b c] uu_bytes(3) [of b c]
    uu_digits(1) [of a] uu_digits(2) [of a b] uu_digits(3) [of b c] uu_digits(4) [of c]
  by (subst uud_loop.simps) (simp add: uu_val Let_def numeral_2_eq_2 numeral_3_eq_3)

lemma uud_uue: "uud_loop (uue_loop s) (length s) = Some s"
proof (induction s rule: length_induct)
  case (1 s)
  consider "s = []" | a where "s = [a]" | a b where "s = [a, b]" | a b c r where "s = a # b # c # r"
    by (metis list.exhaust)
  then show ?case
  proof cases
    case 1
    then show ?thesis by (simp add: uue_loop.simps uud_loop.simps)
  next
    case (2 a)
    show ?thesis unfolding 2 using uu_group [of _ a _ 0 _ 0 1 "[]"]
      by (subst uue_loop.simps) (simp add: Let_def uue_loop.simps [of "[]"] uud_loop.simps [of "[]"])
  next
    case (3 a b)
    show ?thesis unfolding 3 using uu_group [of _ a _ b _ 0 2 "[]"]
      by (subst uue_loop.simps) (simp add: Let_def uue_loop.simps [of "[]"] uud_loop.simps [of "[]"] numeral_2_eq_2)
  next
    case (4 a b c r)
    have "uud_loop (uue_loop r) (length r) = Some r" using "1.IH" [rule_format, of r] by (simp add: 4)
    then show ?thesis unfolding 4 using uu_group [of _ a _ b _ c "length s" "uue_loop r"]
      by (subst uue_loop.simps) (simp add: Let_def 4 numeral_2_eq_2)
  qed
qed

text \<open>C32: both printable encodings are decoded to what they encode: \<open>base64 -d\<close> of the characters that
  \<open>base64\<close> prints prints the argument again, and so does \<open>uudecode\<close> after \<open>uuencode\<close>, for arguments of at
  most 45 bytes that do not start with the option \<open>-d\<close>.\<close>

theorem codec_roundtrip:
  assumes "take 2 s \<noteq> ascii ''-d''" "length s \<le> 45"
  shows "(\<exists>t. cmd_base64 [cmd, s] = (t @ nl, 0) \<and> cmd_base64 [cmd, ascii ''-d'', t] = (s @ nl, 0))
    \<and> (\<exists>t. cmd_uue [cmd, s] = (t @ nl, 0) \<and> cmd_uud [cmd, t] = Some (s @ nl, 0))"
proof
  obtain t where "b64_encode s = t @ nl" "b64_decode t = s @ nl" using b64_roundtrip [of s] by blast
  then have "cmd_base64 [cmd, s] = (t @ nl, 0)" "cmd_base64 [cmd, ascii ''-d'', t] = (s @ nl, 0)"
    using assms(1) by (simp_all add: cmd_base64_def Let_def ascii_def)
  then show "\<exists>t. cmd_base64 [cmd, s] = (t @ nl, 0) \<and> cmd_base64 [cmd, ascii ''-d'', t] = (s @ nl, 0)" by blast
  let ?t = "of_nat (length s + 0x20) # uue_loop s"
  have "uint (of_nat (length s + 0x20) :: u8) = int (length s) + 32"
    using assms(2) by (simp add: uint_nat unat_of_nat_small unat_word_ariths)
  then have "cmd_uue [cmd, s] = (?t @ nl, 0)" "cmd_uud [cmd, ?t] = Some (s @ nl, 0)"
    using assms(2) by (simp_all add: cmd_uue_def cmd_uud_def Let_def min_def uud_uue)
  then show "\<exists>t. cmd_uue [cmd, s] = (t @ nl, 0) \<and> cmd_uud [cmd, t] = Some (s @ nl, 0)" by blast
qed

lemma codec_roundtrip_witness:
  "\<exists>t. cmd_base64 [ascii ''base64'', ascii ''hi''] = (t @ nl, 0) \<and> cmd_base64 [ascii ''base64'', ascii ''-d'', t] = (ascii ''hi'' @ nl, 0)"
  using codec_roundtrip [of "ascii ''hi''" "ascii ''base64''"] by (simp add: ascii_def)

end
