(* ===== verification/Ccp_Applets.thy ===== *)
theory Ccp_Applets
  imports Ccp_Codec
begin

text \<open>
  The small commands of the command processor (\<open>ccpmain.c\<close>) that use no file system: each is a function of its
  arguments that gives the bytes it prints and its result. A loop that does not end is \<open>None\<close>.
\<close>

section \<open>Printing commands\<close>

definition cmd_cls :: pure_cmd where
  "cmd_cls argv = (ccp_puts ([0x1B] @ ascii ''[2J'' @ [0x1B] @ ascii ''[H''), 0)"

text \<open>The loop over the arguments, with a blank before each but the first.\<close>

primrec spaced :: "bool \<Rightarrow> cstring list \<Rightarrow> u8 list" where
  "spaced first [] = []"
| "spaced first (a # as) = (if first then [] else [0x20]) @ ccp_puts a @ spaced False as"

definition cmd_echo :: pure_cmd where
  "cmd_echo argv = (spaced True (tl argv) @ nl, 0)"

definition cmd_uname :: pure_cmd where
  "cmd_uname argv =
     (if 2 \<le> length argv \<and> take 2 (argv ! 1) = ascii ''-a''
      then (ccp_puts (ascii ''XCP/M-68K v0.1 m68k pvs2 (compressed CCP, FAT32-native)'' @ [0x0D, 0x0A]), 0)
      else (ccp_puts (ascii ''XCP/M-68K'' @ [0x0D, 0x0A]), 0))"

definition cmd_true :: pure_cmd where
  "cmd_true argv = ([], 0)"

definition cmd_false :: pure_cmd where
  "cmd_false argv = ([], 1)"

definition cmd_yes :: pure_cmd where
  "cmd_yes argv = (concat (replicate 8 (ccp_puts (if 2 \<le> length argv then argv ! 1 else ascii ''y'') @ nl)), 0)"

section \<open>Arithmetic\<close>

definition cmd_expr :: pure_cmd where
  "cmd_expr argv =
     (if length argv \<noteq> 4 then (usage argv ''A op B'', 1)
      else case (parse_num (argv ! 1), parse_num (argv ! 3)) of
        (Some a, Some b) \<Rightarrow>
          let op = (case argv ! 2 of [] \<Rightarrow> 0 | c # _ \<Rightarrow> c); result = (\<lambda>r. (ccp_putdec r @ nl, 0)) in
          if op = 0x2B then result (a + b)
          else if op = 0x2D then result (a - b)
          else if op = 0x2A then result (a * b)
          else if op = 0x2F then (if b = 0 then (ccp_puts (ascii ''?div by zero'' @ [0x0D, 0x0A]), 1) else result (a div b))
          else if op = 0x25 then (if b = 0 then (ccp_puts (ascii ''?div by zero'' @ [0x0D, 0x0A]), 1) else result (a mod b))
          else if op = 0x26 then result (a AND b)
          else if op = 0x7C then result (a OR b)
          else if op = 0x5E then result (a XOR b)
          else (ccp_puts (ascii ''?op (+,-,*,/,%%,&,|,^)'' @ [0x0D, 0x0A]), 1)
      | _ \<Rightarrow> (ccp_puts (ascii ''?bad number'' @ [0x0D, 0x0A]), 1))"

partial_function (option) seq_loop :: "u32 \<Rightarrow> u32 \<Rightarrow> u8 list option" where
  "seq_loop i hi =
     (if i \<le> hi then do { out \<leftarrow> seq_loop (i + 1) hi; Some (ccp_putdec i @ nl @ out) } else Some [])"

definition cmd_seq :: "cstring list \<Rightarrow> (u8 list \<times> int) option" where
  "cmd_seq argv =
     (let wrong = Some (usage argv ''[lo] hi'', 1);
          run = (\<lambda>lo hi. map_option (\<lambda>out. (out, 0)) (seq_loop lo hi)) in
      if length argv = 2 then (case parse_num (argv ! 1) of None \<Rightarrow> wrong | Some hi \<Rightarrow> run 1 hi)
      else if length argv = 3
      then (case (parse_num (argv ! 1), parse_num (argv ! 2)) of (Some lo, Some hi) \<Rightarrow> run lo hi | _ \<Rightarrow> wrong)
      else wrong)"

text \<open>\<open>while (n % d == 0)\<close>: the factors printed and what is left of \<open>n\<close>.\<close>

partial_function (option) divide_out :: "u32 \<Rightarrow> u32 \<Rightarrow> (u32 list \<times> u32) option" where
  "divide_out d n =
     (if n mod d = 0 then do { (fs, n1) \<leftarrow> divide_out d (n div d); Some (d # fs, n1) } else Some ([], n))"

text \<open>\<open>while (n > 1)\<close>; the square of the divisor may wrap around.\<close>

partial_function (option) factor_loop :: "u32 \<Rightarrow> u32 \<Rightarrow> u32 list option" where
  "factor_loop d n =
     (if 1 < n
      then do { (fs, n1) \<leftarrow> divide_out d n;
                if n1 < (d + 1) * (d + 1) \<and> 1 < n1 then Some (fs @ [n1])
                else do { rest \<leftarrow> factor_loop (d + 1) n1; Some (fs @ rest) } }
      else Some [])"

definition cmd_factor :: "cstring list \<Rightarrow> (u8 list \<times> int) option" where
  "cmd_factor argv =
     (if length argv < 2 then Some (usage argv ''N'', 1)
      else case parse_num (argv ! 1) of
        None \<Rightarrow> Some (ccp_puts (ascii ''?N >= 2'' @ [0x0D, 0x0A]), 1)
      | Some n \<Rightarrow>
          if n < 2 then Some (ccp_puts (ascii ''?N >= 2'' @ [0x0D, 0x0A]), 1)
          else map_option (\<lambda>fs. (ccp_putdec n @ [0x3A] @ concat (map (\<lambda>f. 0x20 # ccp_putdec f) fs) @ nl, 0)) (factor_loop 2 n))"

section \<open>Formatting and tests\<close>

definition emit :: "u8 list \<Rightarrow> u8 list \<times> int \<Rightarrow> u8 list \<times> int" where
  "emit out res = (out @ fst res, snd res)"

definition num_arg :: "cstring \<Rightarrow> u32" where
  "num_arg a = (case parse_num a of None \<Rightarrow> 0 | Some v \<Rightarrow> v)"

text \<open>The conversion \<open>c\<close> of one argument.\<close>

definition conversion :: "u8 \<Rightarrow> cstring \<Rightarrow> u8 list" where
  "conversion c a =
     (if c = 0x64 \<or> c = 0x69 then ccp_putdec (num_arg a)
      else if c = 0x78 then ccp_puthex (num_arg a) 0
      else if c = 0x58 then ccp_puthex (num_arg a) 8
      else if c = 0x73 then ccp_puts a
      else [case a of [] \<Rightarrow> 0 | b # _ \<Rightarrow> b])"

definition takes_arg :: "u8 \<Rightarrow> bool" where
  "takes_arg c \<longleftrightarrow> c \<in> set (ascii ''dixXsc'')"

text \<open>A backslash at the end of the format prints the terminating zero.\<close>

fun printf_loop :: "cstring \<Rightarrow> cstring list \<Rightarrow> u8 list \<times> int" where
  "printf_loop [] as = ([], 0)"
| "printf_loop [c] as = (if c = 0x25 then ([], 0) else if c = 0x5C then ([0], 0) else ([c], 0))"
| "printf_loop (c # e # r) as =
     (if c = 0x5C then emit [unescape e] (printf_loop r as)
      else if c \<noteq> 0x25 then emit [c] (printf_loop (e # r) as)
      else if takes_arg e then
        (case as of [] \<Rightarrow> ([], 1) | a # as \<Rightarrow> emit (conversion e a) (printf_loop r as))
      else emit (if e = 0x25 then [0x25] else [0x25, e]) (printf_loop r as))"

definition cmd_printf :: pure_cmd where
  "cmd_printf argv = (if length argv < 2 then ([], 0) else printf_loop (argv ! 1) (drop 2 argv))"

definition truth :: "bool \<Rightarrow> u8 list \<times> int" where
  "truth b = ([], if b then 0 else 1)"

definition cmd_test :: pure_cmd where
  "cmd_test argv =
     (let last = length argv - 1; n = (if 1 \<le> last \<and> argv ! last = [0x5D] then last - 1 else last) in
      if n = 1 then truth (argv ! 1 \<noteq> [])
      else if n = 2 then
        (if ccp_strieq (argv ! 1) (ascii ''-z'') then truth (argv ! 2 = [])
         else if ccp_strieq (argv ! 1) (ascii ''-n'') then truth (argv ! 2 \<noteq> [])
         else ([], 1))
      else if n = 3 then
        (let a = argv ! 1; op = argv ! 2; b = argv ! 3 in
         if ccp_strieq op (ascii ''='') \<or> ccp_strieq op (ascii ''=='') then truth (ccp_strieq a b)
         else if ccp_strieq op (ascii ''!='') then truth (\<not> ccp_strieq a b)
         else case (parse_num a, parse_num b) of
           (Some av, Some bv) \<Rightarrow>
             if ccp_strieq op (ascii ''-eq'') then truth (av = bv)
             else if ccp_strieq op (ascii ''-ne'') then truth (av \<noteq> bv)
             else if ccp_strieq op (ascii ''-lt'') then truth (av < bv)
             else if ccp_strieq op (ascii ''-le'') then truth (av \<le> bv)
             else if ccp_strieq op (ascii ''-gt'') then truth (bv < av)
             else if ccp_strieq op (ascii ''-ge'') then truth (bv \<le> av)
             else ([], 1)
         | _ \<Rightarrow> ([], 1))
      else ([], 1))"

section \<open>The loop of \<open>seq\<close>\<close>

lemma seq_loop_runs:
  assumes "hi \<noteq> 0xFFFFFFFF"
  shows "unat i \<le> Suc (unat hi)
    \<Longrightarrow> seq_loop i hi = Some (concat (map (\<lambda>v. ccp_putdec (of_nat v) @ nl) [unat i..<Suc (unat hi)]))"
proof (induction "Suc (unat hi) - unat i" arbitrary: i)
  case 0
  then have "\<not> i \<le> hi" by (simp add: word_le_nat_alt)
  then show ?case using 0 by (subst seq_loop.simps) simp
next
  case (Suc n)
  have hi: "unat hi < 0xFFFFFFFF"
    using assms unsigned_less [of hi, where ?'a = nat] by (simp add: word_unat_eq_iff)
  have i: "i \<le> hi" using Suc.hyps(2) by (simp add: word_le_nat_alt)
  then have s: "unat (i + 1) = Suc (unat i)" using hi by (simp add: word_le_nat_alt unat_word_ariths)
  have "seq_loop (i + 1) hi = Some (concat (map (\<lambda>v. ccp_putdec (of_nat v) @ nl) [unat (i + 1)..<Suc (unat hi)]))"
    by (rule Suc.hyps(1)) (use Suc.hyps(2) i s in \<open>simp_all add: word_le_nat_alt\<close>)
  moreover have "[unat i..<Suc (unat hi)] = unat i # [Suc (unat i)..<Suc (unat hi)]"
    using i by (intro upt_conv_Cons) (simp add: word_le_nat_alt)
  ultimately show ?case using i by (subst seq_loop.simps) (simp add: s del: upt_Suc)
qed

lemma seq_loop_ends: "seq_loop i hi = Some out \<Longrightarrow> hi \<noteq> 0xFFFFFFFF"
proof (rule seq_loop.raw_induct [where P = "\<lambda>i hi out. hi \<noteq> 0xFFFFFFFF"])
  fix loop :: "u32 \<Rightarrow> u32 \<Rightarrow> u8 list option" and i hi out
  assume IH: "\<And>i hi out. loop i hi = Some out \<Longrightarrow> hi \<noteq> 0xFFFFFFFF"
    and body: "(if i \<le> hi then do { out \<leftarrow> loop (i + 1) hi; Some (ccp_putdec i @ nl @ out) } else Some []) = Some out"
  have "i \<le> 0xFFFFFFFF" using unsigned_less [of i, where ?'a = nat] by (simp add: word_le_nat_alt)
  then show "hi \<noteq> 0xFFFFFFFF" using IH body by (auto split: bind_splits if_splits)
qed

text \<open>C35: \<open>seq lo hi\<close> returns unless \<open>hi\<close> is the largest number, and then it has printed the numbers from
  \<open>lo\<close> to \<open>hi\<close>, one a line; with the largest number the loop counter wraps around and the command never ends.\<close>

theorem seq_command:
  assumes "parse_num a = Some lo" "parse_num b = Some hi"
  shows "cmd_seq [c, a, b] =
    (if hi = 0xFFFFFFFF then None
     else Some (concat (map (\<lambda>v. dec_digits (of_nat v) @ nl) [unat lo..<Suc (unat hi)]), 0))"
proof (cases "hi = 0xFFFFFFFF")
  case True
  then have "seq_loop lo hi = None" using seq_loop_ends [of lo hi] by (cases "seq_loop lo hi") auto
  then show ?thesis using assms True by (simp add: cmd_seq_def)
next
  case False
  have "seq_loop lo hi = Some (concat (map (\<lambda>v. dec_digits (of_nat v) @ nl) [unat lo..<Suc (unat hi)]))"
  proof (cases "unat lo \<le> Suc (unat hi)")
    case True
    then show ?thesis using seq_loop_runs [OF False True] by (simp add: ccp_putdec_def)
  next
    case False
    then have "\<not> lo \<le> hi" by (simp add: word_le_nat_alt)
    then show ?thesis using False by (subst seq_loop.simps) simp
  qed
  then show ?thesis using assms False by (simp add: cmd_seq_def)
qed

lemma seq_command_witness:
  "cmd_seq [ascii ''seq'', ascii ''1'', ascii ''2''] = Some (ascii ''1'' @ nl @ ascii ''2'' @ nl, 0)"
proof -
  have "parse_num (ascii ''1'') = Some 1" "parse_num (ascii ''2'') = Some 2" by code_simp+
  moreover have "dec_digits 1 = ascii ''1''" "dec_digits 2 = ascii ''2''" by code_simp+
  moreover have "[unat (1 :: u32)..<Suc (unat (2 :: u32))] = [1, 2]" by (simp add: upt_rec)
  ultimately show ?thesis using seq_command [of "ascii ''1''" 1 "ascii ''2''" 2 "ascii ''seq''"] by simp
qed

section \<open>Factoring\<close>

text \<open>Primes, and the invariant of the loop: no divisor below the trial divisor.\<close>

definition is_prime :: "nat \<Rightarrow> bool" where
  "is_prime p \<longleftrightarrow> 1 < p \<and> (\<forall>k. k dvd p \<longrightarrow> k = 1 \<or> k = p)"

definition no_factor_below :: "nat \<Rightarrow> nat \<Rightarrow> bool" where
  "no_factor_below d n \<longleftrightarrow> (\<forall>k. 1 < k \<and> k < d \<longrightarrow> \<not> k dvd n)"

lemma no_factor_dvd: "no_factor_below d n \<Longrightarrow> m dvd n \<Longrightarrow> no_factor_below d m"
  unfolding no_factor_below_def using dvd_trans by blast

lemma least_factor_prime:
  assumes "no_factor_below d n" "d dvd n" "1 < d"
  shows "is_prime d"
  unfolding is_prime_def
proof (intro conjI allI impI)
  fix k assume k: "k dvd d"
  have "k \<le> d" "0 < k" using k assms(3) dvd_imp_le [of k d] dvd_pos_nat [of d k] by auto
  moreover have "k dvd n" using k assms(2) by (rule dvd_trans)
  then have "\<not> (1 < k \<and> k < d)" using assms(1) by (auto simp: no_factor_below_def)
  ultimately show "k = 1 \<or> k = d" by linarith
qed (rule assms(3))

lemma no_factor_prime:
  assumes "no_factor_below d n" "1 < n" "n < d * d"
  shows "is_prime n"
  unfolding is_prime_def
proof (intro conjI allI impI)
  fix k assume "k dvd n"
  then obtain j where n: "n = k * j" by (auto elim: dvdE)
  show "k = 1 \<or> k = n"
  proof (rule ccontr)
    assume k: "\<not> (k = 1 \<or> k = n)"
    then have "1 < k" "1 < j" using assms(2) n by (auto simp: Suc_lessI nat_neq_iff)
    then have "d \<le> k" "d \<le> j" using assms(1) n by (auto simp: no_factor_below_def not_less [symmetric])
    then have "d * d \<le> n" unfolding n by (rule mult_le_mono)
    then show False using assms(3) by simp
  qed
qed (rule assms(2))

lemma divide_out_ok:
  "2 \<le> unat d \<Longrightarrow> 0 < unat n \<Longrightarrow> \<exists>j n1. divide_out d n = Some (replicate j d, n1)
     \<and> unat n = unat d ^ j * unat n1 \<and> \<not> unat d dvd unat n1 \<and> 0 < unat n1"
proof (induction "unat n" arbitrary: n rule: less_induct)
  case less
  have m: "n mod d = 0 \<longleftrightarrow> unat d dvd unat n"
    by (simp add: word_unat_eq_iff unat_mod dvd_eq_mod_eq_0)
  show ?case
  proof (cases "unat d dvd unat n")
    case True
    then obtain q where q: "unat n = unat d * q" by (rule dvdE)
    have dv: "unat (n div d) = q" using less.prems q by (simp add: unat_div)
    have "0 < q" "q < unat n" using less.prems q by auto
    then obtain j n1 where "divide_out d (n div d) = Some (replicate j d, n1)" "q = unat d ^ j * unat n1"
      "\<not> unat d dvd unat n1" "0 < unat n1" using less.hyps [of "n div d"] less.prems dv by auto
    then have "divide_out d n = Some (replicate (Suc j) d, n1) \<and> unat n = unat d ^ Suc j * unat n1
      \<and> \<not> unat d dvd unat n1 \<and> 0 < unat n1"
      using True m q by (subst divide_out.simps) simp
    then show ?thesis by blast
  next
    case False
    then have "divide_out d n = Some (replicate 0 d, n) \<and> unat n = unat d ^ 0 * unat n" using m by (subst divide_out.simps) simp
    then show ?thesis using False less.prems(2) by blast
  qed
qed

lemma factor_loop_ok:
  "0 < unat n \<Longrightarrow> 1 < unat n \<longrightarrow> 2 \<le> unat d \<and> no_factor_below (unat d) (unat n)
     \<Longrightarrow> \<exists>fs. factor_loop d n = Some fs \<and> prod_list (map unat fs) = unat n \<and> (\<forall>f\<in>set fs. is_prime (unat f))"
proof (induction "unat n - unat d" arbitrary: d n rule: less_induct)
  case less
  show ?case
  proof (cases "1 < unat n")
    case False
    then have n: "unat n = 1" using less.prems(1) by linarith
    then have "\<not> 1 < n" by (simp add: word_less_nat_alt)
    then show ?thesis using n by (subst factor_loop.simps) simp
  next
    case True
    then have d: "2 \<le> unat d" and low: "no_factor_below (unat d) (unat n)" using less.prems(2) by auto
    obtain j n1 where o: "divide_out d n = Some (replicate j d, n1)" "unat n = unat d ^ j * unat n1"
      "\<not> unat d dvd unat n1" "0 < unat n1" using divide_out_ok [OF d less.prems(1)] by blast
    have pd: "is_prime (unat d)" if "j \<noteq> 0"
      using that o(2) d low by (intro least_factor_prime [OF low]) (auto simp: dvd_def power_eq_if)
    have "no_factor_below (unat d) (unat n1)" using low o(2) by (intro no_factor_dvd [OF low]) simp
    then have low1: "no_factor_below (Suc (unat d)) (unat n1)" using o(3) by (auto simp: no_factor_below_def less_Suc_eq)
    have big: "Suc (unat d) \<le> unat n1" if "1 < unat n1"
      using low1 that by (auto simp: no_factor_below_def not_less [symmetric])
    have d1: "unat (d + 1) = Suc (unat d)" if "1 < unat n1"
      using big [OF that] unsigned_less [of n1, where ?'a = nat] by (simp add: unat_word_ariths)
    have n: "1 < n" using True by (simp add: word_less_nat_alt)
    have prod: "prod_list (map unat (replicate j d @ fs)) = unat n" if "prod_list (map unat fs) = unat n1" for fs
      using that o(2) by (simp add: prod_list_replicate map_replicate)
    show ?thesis
    proof (cases "n1 < (d + 1) * (d + 1) \<and> 1 < n1")
      case last: True
      then have g: "1 < unat n1" by (simp add: word_less_nat_alt)
      have "unat n1 < unat ((d + 1) * (d + 1))" using last by (simp add: word_less_nat_alt)
      also have "\<dots> \<le> unat (d + 1) * unat (d + 1)" by (simp add: unat_word_ariths)
      finally have "is_prime (unat n1)" using low1 g by (intro no_factor_prime [of "Suc (unat d)"]) (simp_all add: d1)
      moreover have "factor_loop d n = Some (replicate j d @ [n1])" using n o(1) last by (subst factor_loop.simps) simp
      ultimately show ?thesis using prod [of "[n1]"] pd by auto
    next
      case more: False
      have "\<exists>fs. factor_loop (d + 1) n1 = Some fs \<and> prod_list (map unat fs) = unat n1 \<and> (\<forall>f\<in>set fs. is_prime (unat f))"
      proof (cases "1 < unat n1")
        case True
        have "unat n1 \<le> unat n" using o(2) d by simp
        then have "unat n1 - unat (d + 1) < unat n - unat d" using big [OF True] d1 [OF True] by linarith
        then show ?thesis using less.hyps [of n1 "d + 1"] o(4) low1 d d1 [OF True] by auto
      next
        case False
        then have "unat n1 = 1" using o(4) by linarith
        then show ?thesis by (subst factor_loop.simps) (simp add: word_less_nat_alt)
      qed
      then obtain fs where fs: "factor_loop (d + 1) n1 = Some fs" "prod_list (map unat fs) = unat n1"
        "\<forall>f\<in>set fs. is_prime (unat f)" by blast
      have "factor_loop d n = Some (replicate j d @ fs)" using n o(1) more fs(1) by (subst factor_loop.simps) auto
      then show ?thesis using prod [OF fs(2)] fs(3) pd by auto
    qed
  qed
qed

text \<open>C34: \<open>factor\<close> always ends, although the square of its trial divisor wraps around: it prints the prime
  factors of its argument, with their multiplicities.\<close>

theorem factor_command:
  assumes "parse_num a = Some n" "2 \<le> n"
  shows "\<exists>fs. cmd_factor [c, a] = Some (dec_digits n @ [0x3A] @ concat (map (\<lambda>f. 0x20 # dec_digits f) fs) @ nl, 0)
    \<and> prod_list (map unat fs) = unat n \<and> (\<forall>f\<in>set fs. is_prime (unat f))"
proof -
  have low: "no_factor_below (unat (2 :: u32)) (unat n)" by (auto simp: no_factor_below_def)
  have "2 \<le> unat n" using assms(2) by (simp add: word_le_nat_alt)
  then obtain fs where "factor_loop 2 n = Some fs" "prod_list (map unat fs) = unat n" "\<forall>f\<in>set fs. is_prime (unat f)"
    using factor_loop_ok [of n 2] low by auto
  then show ?thesis using assms by (auto simp: cmd_factor_def ccp_putdec_def not_less [symmetric])
qed

lemma factor_command_witness:
  "\<exists>fs. cmd_factor [ascii ''factor'', ascii ''12''] = Some (dec_digits 12 @ [0x3A] @ concat (map (\<lambda>f. 0x20 # dec_digits f) fs) @ nl, 0)
    \<and> prod_list (map unat fs) = unat (12 :: u32) \<and> (\<forall>f\<in>set fs. is_prime (unat f))"
proof -
  have "parse_num (ascii ''12'') = Some 12" by code_simp
  then show ?thesis by (rule factor_command) simp
qed

end
