(* ===== verification/Ccp_State.thy ===== *)
theory Ccp_State
  imports Ccp_Applets
begin

text \<open>
  What the command processor keeps between commands (\<open>ccpmain.c\<close>): the environment block, the history ring and
  the kill buffer, and the commands on them. The environment is refined to a map from names, whose letter case
  does not count, to values; the history is refined to the list of its lines, the most recent first.
\<close>

section \<open>State\<close>

text \<open>
  \<open>env_block\<close> holds the bytes below \<open>env_used\<close>, which is its length. A line of the history is the string in
  its slot.
\<close>

record ccp =
  env_block :: "u8 list"
  hist_buf :: "nat \<Rightarrow> cstring"
  hist_count :: nat
  hist_head :: nat
  kill_buf :: cstring
  ccp_mounted :: bool

abbreviation "CCP_LINE_MAX \<equiv> 80 :: nat"
abbreviation "HISTORY_DEPTH \<equiv> 8 :: nat"
abbreviation "ENV_BLOCK_SIZE \<equiv> 256 :: nat"

section \<open>The environment\<close>

text \<open>The search from an offset on: the offset of the entry.\<close>

function env_find_from :: "cstring \<Rightarrow> u8 list \<Rightarrow> nat \<Rightarrow> nat option" where
  "env_find_from name e i =
     (if e = [] then None
      else let j = length (takeWhile (\<lambda>c. c \<noteq> 0 \<and> c \<noteq> 0x3D) e) in
        if j = length name \<and> ccp_strieqn (cstr e) name (length name) \<and> j < length e \<and> e ! j = 0x3D then Some i
        else env_find_from name (drop (length (cstr e) + 1) e) (i + length (cstr e) + 1))"
  by auto
termination by (relation "measure (\<lambda>(name, e, i). length e)") auto

declare env_find_from.simps [simp del]

definition env_find :: "cstring \<Rightarrow> ccp \<Rightarrow> nat option" where
  "env_find name s = env_find_from name (env_block s) 0"

definition env_get :: "cstring \<Rightarrow> ccp \<Rightarrow> cstring option" where
  "env_get name s =
     (case env_find name s of None \<Rightarrow> None
      | Some i \<Rightarrow> Some (drop 1 (dropWhile (\<lambda>c. c \<noteq> 0x3D) (cstr (drop i (env_block s))))))"

text \<open>The old entry is taken out before the room is checked. Whether there was room, and the new state.\<close>

definition env_set :: "cstring \<Rightarrow> cstring \<Rightarrow> ccp \<Rightarrow> bool \<times> ccp" where
  "env_set name val s =
     (let bs = env_block s;
          bs1 = (case env_find name s of None \<Rightarrow> bs | Some i \<Rightarrow> take i bs @ drop (i + length (cstr (drop i bs)) + 1) bs) in
      if ENV_BLOCK_SIZE \<le> length bs1 + (length name + 1 + length val + 1) then (False, s\<lparr>env_block := bs1\<rparr>)
      else (True, s\<lparr>env_block := bs1 @ name @ [0x3D] @ val @ [0]\<rparr>))"

text \<open>Arguments joined by blanks into a buffer with room for \<open>lim\<close> characters and the zero.\<close>

primrec join_args :: "nat \<Rightarrow> bool \<Rightarrow> cstring list \<Rightarrow> cstring \<Rightarrow> cstring" where
  "join_args lim first [] acc = acc"
| "join_args lim first (a # as) acc =
     (if lim \<le> length acc then acc
      else let acc1 = (if first then acc else acc @ [0x20]) in
        join_args lim False as (acc1 @ take (lim - length acc1) a))"

text \<open>The listing of \<open>set\<close>.\<close>

function env_list :: "u8 list \<Rightarrow> u8 list" where
  "env_list e = (if e = [] then [] else ccp_puts (cstr e) @ nl @ env_list (drop (length (cstr e) + 1) e))"
  by auto
termination by (relation "measure length") auto

declare env_list.simps [simp del]

type_synonym state_cmd = "cstring list \<Rightarrow> ccp \<Rightarrow> u8 list \<times> int \<times> ccp"

definition cmd_set :: state_cmd where
  "cmd_set argv s =
     (if length argv < 2
      then (env_list (env_block s) @ (if env_block s = [] then ccp_puts (ascii ''(no environment variables)'' @ [0x0D, 0x0A]) else []), 0, s)
      else let buf = join_args 127 True (tl argv) [] in
        if 0x3D \<notin> set buf
        then (ccp_puts buf @ (case env_get buf s of Some v \<Rightarrow> [0x3D] @ ccp_puts v @ nl
               | None \<Rightarrow> ccp_puts (ascii '' not set'' @ [0x0D, 0x0A])), 0, s)
        else let name = takeWhile (\<lambda>c. c \<noteq> 0x3D) buf; val = drop 1 (dropWhile (\<lambda>c. c \<noteq> 0x3D) buf) in
          (case env_set name val s of
             (True, s1) \<Rightarrow> ([], 0, s1)
           | (False, s1) \<Rightarrow> (ccp_puts (ascii ''?env block full'' @ [0x0D, 0x0A]), 1, s1)))"

definition cmd_prompt :: state_cmd where
  "cmd_prompt argv s =
     (if length argv < 2
      then (case env_get (ascii ''PROMPT'') s of
              Some p \<Rightarrow> (ccp_puts (ascii ''PROMPT='') @ ccp_puts p @ nl, 0, s)
            | None \<Rightarrow> (ccp_puts (ascii ''PROMPT not set (default = $P$G$S)'' @ [0x0D, 0x0A]), 0, s))
      else ([], 0, snd (env_set (ascii ''PROMPT'') (join_args 63 True (tl argv) []) s)))"

section \<open>Variables on the command line\<close>

definition name_start :: "u8 \<Rightarrow> bool" where
  "name_start c \<longleftrightarrow> is_lower c \<or> (0x41 \<le> c \<and> c \<le> 0x5A) \<or> c = 0x5F"

definition name_char :: "u8 \<Rightarrow> bool" where
  "name_char c \<longleftrightarrow> name_start c \<or> (0x30 \<le> c \<and> c \<le> 0x39)"

text \<open>The value of a variable, as much of it as there is room for.\<close>

definition put_value :: "ccp \<Rightarrow> nat \<Rightarrow> cstring \<Rightarrow> cstring \<Rightarrow> cstring" where
  "put_value s lim name out = out @ take (lim - length out) (case env_get name s of None \<Rightarrow> [] | Some v \<Rightarrow> v)"

text \<open>\<open>lim\<close> is \<open>max - 1\<close>.\<close>

function expand_loop :: "ccp \<Rightarrow> nat \<Rightarrow> cstring \<Rightarrow> cstring \<Rightarrow> cstring" where
  "expand_loop s lim p out =
     (if p = [] \<or> lim \<le> length out then out
      else let c = hd p; r = tl p in
        if c = 0x24 \<and> r \<noteq> [] \<and> name_start (hd r)
        then let name = take 31 (takeWhile name_char r) in
          expand_loop s lim (drop (length name) r) (put_value s lim name out)
        else let name = takeWhile name_char r; q = dropWhile name_char r in
          if c = 0x25 \<and> q \<noteq> [] \<and> hd q = 0x25 \<and> name \<noteq> []
          then expand_loop s lim (tl q) (put_value s lim (take 31 name) out)
          else expand_loop s lim r (out @ [c]))"
  by auto
termination
  by (relation "measure (\<lambda>(s, lim, p, out). length p)")
    (auto simp: neq_Nil_conv intro!: le_imp_less_Suc order_trans [OF diff_le_self length_dropWhile_le])

declare expand_loop.simps [simp del]

definition expand_token :: "ccp \<Rightarrow> cstring \<Rightarrow> nat \<Rightarrow> cstring" where
  "expand_token s t lim = expand_loop s (lim - 1) t []"

section \<open>The history\<close>

definition history_add :: "cstring \<Rightarrow> ccp \<Rightarrow> ccp" where
  "history_add line s =
     (if line = [] \<or> (0 < hist_count s \<and> ccp_strieq (hist_buf s ((hist_head s + HISTORY_DEPTH - 1) mod HISTORY_DEPTH)) line) then s
      else s\<lparr>hist_buf := (hist_buf s)(hist_head s := take (CCP_LINE_MAX - 1) line),
             hist_head := (hist_head s + 1) mod HISTORY_DEPTH,
             hist_count := (if hist_count s < HISTORY_DEPTH then hist_count s + 1 else hist_count s)\<rparr>)"

definition history_get :: "int \<Rightarrow> ccp \<Rightarrow> cstring option" where
  "history_get back s =
     (if back < 1 \<or> int (hist_count s) < back then None
      else Some (hist_buf s (nat ((int (hist_head s) + int HISTORY_DEPTH - back) mod int HISTORY_DEPTH))))"

definition hist_line :: "nat \<Rightarrow> ccp \<Rightarrow> cstring" where
  "hist_line i s = (case history_get (int i) s of None \<Rightarrow> [] | Some l \<Rightarrow> l)"

definition cmd_history :: state_cmd where
  "cmd_history argv s =
     (if hist_count s = 0 then (ccp_puts (ascii ''(no history)'' @ [0x0D, 0x0A]), 0, s)
      else (concat (map (\<lambda>i. ccp_putdec (of_nat (hist_count s - i + 1)) @ ccp_puts (ascii ''  '') @ ccp_puts (hist_line i s) @ nl)
              (rev [1..<hist_count s + 1])), 0, s))"

text \<open>The first back-index whose line satisfies a condition.\<close>

definition hist_search :: "(cstring \<Rightarrow> bool) \<Rightarrow> nat \<Rightarrow> ccp \<Rightarrow> nat option" where
  "hist_search ok from s = find (\<lambda>i. ok (hist_line i s)) [from..<hist_count s + 1]"

text \<open>What is printed, whether the line was replaced (-1, 0, 1), and the line.\<close>

definition hist_substitute :: "ccp \<Rightarrow> cstring \<Rightarrow> u8 list \<times> int \<times> cstring" where
  "hist_substitute s line =
     (if length line < 2 \<or> line ! 0 \<noteq> 0x21 then ([], 0, line)
      else let src =
        (if line ! 1 = 0x21 then history_get 1 s
         else if 0x30 \<le> line ! 1 \<and> line ! 1 \<le> 0x39
         then let v = foldl (\<lambda>v c. v * 10 + ucast (c - 0x30) :: u32) 0 (takeWhile (\<lambda>c. 0x30 \<le> c \<and> c \<le> 0x39) (tl line)) in
           if 1 \<le> v \<and> v \<le> of_nat (hist_count s) then history_get (int (hist_count s) - sint v + 1) s else None
         else map_option (\<lambda>i. hist_line i s) (hist_search (\<lambda>h. ccp_strieqn h (tl line) (length (tl line))) 1 s)) in
        case src of None \<Rightarrow> (ccp_puts (ascii ''?no match'' @ [0x0D, 0x0A]), -1, line)
        | Some l \<Rightarrow> let l1 = take (CCP_LINE_MAX - 1) l in (ccp_puts l1 @ nl, 1, l1))"

section \<open>Names of commands\<close>

definition aliases :: "(cstring \<times> cstring) list" where
  "aliases = map (\<lambda>(a, b). (ascii a, ascii b))
     [(''env'', ''set''), (''export'', ''set''), (''quit'', ''exit''), (''bye'', ''exit''), (''logout'', ''exit'')]"

definition resolve_alias :: "cstring \<Rightarrow> cstring" where
  "resolve_alias name = (case find (\<lambda>a. ccp_strieq name (fst a)) aliases of None \<Rightarrow> name | Some a \<Rightarrow> snd a)"

definition fs_needed :: "cstring list" where
  "fs_needed = map ascii
     [''rm'', ''cp'', ''mv'', ''mkdir'', ''rmdir'', ''cd'', ''pwd'', ''which'', ''find'', ''grep'', ''more'', ''less'',
      ''head'', ''tail'', ''wc'', ''ERA'', ''ERASE'', ''DEL'', ''REN'', ''RENAME'', ''COPY'', ''MOVE'', ''XCOPY'', ''MD'',
      ''RD'', ''CD'', ''CHDIR'', ''WHERE'', ''FIND'', ''FINDSTR'', ''MORE'']"

definition needs_fs :: "cstring \<Rightarrow> bool" where
  "needs_fs name \<longleftrightarrow> list_ex (ccp_strieq name) fs_needed"

section \<open>The environment as a map\<close>

text \<open>An environment block is a list of entries; a name holds no zero and no \<open>=\<close>, a value no zero.\<close>

definition name_ok :: "cstring \<Rightarrow> bool" where
  "name_ok n \<longleftrightarrow> 0 \<notin> set n \<and> 0x3D \<notin> set n"

definition entry :: "cstring \<times> cstring \<Rightarrow> u8 list" where
  "entry nv = fst nv @ [0x3D] @ snd nv @ [0]"

definition block :: "(cstring \<times> cstring) list \<Rightarrow> u8 list" where
  "block es = concat (map entry es)"

definition entry_ok :: "cstring \<times> cstring \<Rightarrow> bool" where
  "entry_ok nv \<longleftrightarrow> name_ok (fst nv) \<and> 0 \<notin> set (snd nv)"

definition upper :: "cstring \<Rightarrow> cstring" where
  "upper = map to_upper"

text \<open>The entries of a block, their names different also when the letter case is ignored.\<close>

definition env_entries :: "(cstring \<times> cstring) list \<Rightarrow> ccp \<Rightarrow> bool" where
  "env_entries es s \<longleftrightarrow> env_block s = block es \<and> list_all entry_ok es \<and> distinct (map (upper \<circ> fst) es)
     \<and> length (env_block s) < ENV_BLOCK_SIZE"

definition env_map :: "(cstring \<times> cstring) list \<Rightarrow> cstring \<Rightarrow> cstring option" where
  "env_map es = map_of (map (\<lambda>(n, v). (upper n, v)) es)"

lemma strieqn_upper: "length bs = n \<Longrightarrow> ccp_strieqn (as @ r) bs n \<longleftrightarrow> upper as = upper bs" if "length as = n"
  using that by (induction as bs n rule: ccp_strieqn.induct) (auto simp: upper_def)

lemma cstr_entry:
  assumes "entry_ok nv"
  shows "cstr (entry nv @ r) = fst nv @ [0x3D] @ snd nv"
proof -
  have "0 \<notin> set (fst nv @ [0x3D] @ snd nv)" using assms by (auto simp: entry_ok_def name_ok_def)
  then have "takeWhile (\<lambda>c. c \<noteq> 0) ((fst nv @ [0x3D] @ snd nv) @ 0 # r) = fst nv @ [0x3D] @ snd nv"
    by (subst takeWhile_append2) auto
  then show ?thesis by (simp add: cstr_def entry_def)
qed

lemma name_of_entry:
  assumes "entry_ok nv"
  shows "takeWhile (\<lambda>c. c \<noteq> 0 \<and> c \<noteq> 0x3D) (entry nv @ r) = fst nv"
proof -
  have "\<forall>c\<in>set (fst nv). c \<noteq> 0 \<and> c \<noteq> 0x3D" using assms by (auto simp: entry_ok_def name_ok_def)
  then have "takeWhile (\<lambda>c. c \<noteq> 0 \<and> c \<noteq> 0x3D) (fst nv @ 0x3D # snd nv @ 0 # r) = fst nv"
    by (subst takeWhile_append2) auto
  then show ?thesis by (simp add: entry_def)
qed

lemma find_entry:
  assumes "entry_ok nv"
  shows "env_find_from name (entry nv @ r) i =
    (if upper (fst nv) = upper name then Some i else env_find_from name r (i + length (entry nv)))"
proof -
  have c: "cstr (entry nv @ r) = fst nv @ [0x3D] @ snd nv" by (rule cstr_entry [OF assms])
  have eq: "(length (fst nv) = length name \<and> ccp_strieqn (fst nv @ [0x3D] @ snd nv) name (length name)) \<longleftrightarrow> upper (fst nv) = upper name"
    using strieqn_upper [of "fst nv" "length name" name "[0x3D] @ snd nv"] by (auto simp: upper_def dest: map_eq_imp_length_eq)
  have e: "entry nv \<noteq> []" "length (fst nv) < length (entry nv @ r)" "(entry nv @ r) ! length (fst nv) = 0x3D"
    "drop (length (fst nv @ [0x3D] @ snd nv) + 1) (entry nv @ r) = r" "length (entry nv) = length (fst nv @ [0x3D] @ snd nv) + 1"
    by (auto simp: entry_def nth_append)
  show ?thesis
    by (subst env_find_from.simps) (use e eq in \<open>simp add: name_of_entry [OF assms] c Let_def add.assoc\<close>)
qed

lemma find_block:
  "list_all entry_ok es \<Longrightarrow> env_find_from name (block es) i =
     (let as = takeWhile (\<lambda>e. upper (fst e) \<noteq> upper name) es in if as = es then None else Some (i + length (block as)))"
proof (induction es arbitrary: i)
  case Nil
  show ?case by (simp add: block_def env_find_from.simps)
next
  case (Cons e es)
  have b: "block (e # es) = entry e @ block es" by (simp add: block_def)
  have "entry_ok e" "list_all entry_ok es" using Cons.prems by simp_all
  then show ?case unfolding b using Cons.IH [of "i + length (entry e)"]
    by (simp add: find_entry Let_def block_def add.assoc)
qed

lemma block_append: "block (as @ bs) = block as @ block bs"
  by (simp add: block_def)

lemma env_map_search:
  "env_map es (upper name) = (case dropWhile (\<lambda>e. upper (fst e) \<noteq> upper name) es of [] \<Rightarrow> None | e # _ \<Rightarrow> Some (snd e))"
  by (induction es) (auto simp: env_map_def split: prod.splits)

text \<open>The entry of a name in a block, when there is one.\<close>

lemma split_entries:
  assumes "takeWhile (\<lambda>e. upper (fst e) \<noteq> upper name) es \<noteq> es"
  obtains nv bs where "es = takeWhile (\<lambda>e. upper (fst e) \<noteq> upper name) es @ nv # bs" "upper (fst nv) = upper name"
    "dropWhile (\<lambda>e. upper (fst e) \<noteq> upper name) es = nv # bs"
proof -
  let ?d = "dropWhile (\<lambda>e. upper (fst e) \<noteq> upper name) es"
  have "?d \<noteq> []" using assms by (metis append_Nil2 takeWhile_dropWhile_id)
  then obtain nv bs where d: "?d = nv # bs" by (cases ?d) auto
  have "upper (fst nv) = upper name" using hd_dropWhile [OF \<open>?d \<noteq> []\<close>] by (simp add: d)
  moreover have "es = takeWhile (\<lambda>e. upper (fst e) \<noteq> upper name) es @ nv # bs"
    using takeWhile_dropWhile_id [of "\<lambda>e. upper (fst e) \<noteq> upper name" es] by (simp only: d)
  ultimately show ?thesis using that d by blast
qed

lemma env_get_block:
  assumes "env_entries es s"
  shows "env_get name s = env_map es (upper name)"
proof -
  let ?as = "takeWhile (\<lambda>e. upper (fst e) \<noteq> upper name) es"
  have b: "env_block s = block es" and ok: "list_all entry_ok es" using assms by (simp_all add: env_entries_def)
  show ?thesis
  proof (cases "?as = es")
    case True
    then have d: "dropWhile (\<lambda>e. upper (fst e) \<noteq> upper name) es = []" by (metis append_self_conv takeWhile_dropWhile_id)
    have "env_find name s = None" using find_block [OF ok, of name 0] True by (simp add: env_find_def b Let_def)
    then show ?thesis by (simp add: env_get_def env_map_search d)
  next
    case False
    then obtain nv bs where es: "es = ?as @ nv # bs" and nv: "upper (fst nv) = upper name"
      and d: "dropWhile (\<lambda>e. upper (fst e) \<noteq> upper name) es = nv # bs" by (rule split_entries)
    have "entry_ok nv" using ok by (subst (asm) es) simp
    have "block es = block ?as @ entry nv @ block bs" by (subst es) (simp add: block_def)
    then have "cstr (drop (length (block ?as)) (block es)) = fst nv @ [0x3D] @ snd nv"
      using cstr_entry [OF \<open>entry_ok nv\<close>] by simp
    moreover have "\<forall>c\<in>set (fst nv). c \<noteq> 0x3D" using \<open>entry_ok nv\<close> by (auto simp: entry_ok_def name_ok_def)
    then have "dropWhile (\<lambda>c. c \<noteq> 0x3D) (fst nv @ [0x3D] @ snd nv) = [0x3D] @ snd nv" by (subst dropWhile_append2) auto
    ultimately show ?thesis using find_block [OF ok, of name 0] False
      by (simp add: env_get_def env_find_def b env_map_search d Let_def)
  qed
qed

text \<open>What is left of a block when the entry of a name is taken out.\<close>

definition others :: "cstring \<Rightarrow> (cstring \<times> cstring) list \<Rightarrow> (cstring \<times> cstring) list" where
  "others name es = filter (\<lambda>e. upper (fst e) \<noteq> upper name) es"

lemma others_block:
  assumes "env_entries es s"
  shows "(case env_find name s of None \<Rightarrow> env_block s
      | Some i \<Rightarrow> take i (env_block s) @ drop (i + length (cstr (drop i (env_block s))) + 1) (env_block s)) = block (others name es)"
proof -
  let ?as = "takeWhile (\<lambda>e. upper (fst e) \<noteq> upper name) es"
  have b: "env_block s = block es" and ok: "list_all entry_ok es" and ds: "distinct (map (upper \<circ> fst) es)"
    using assms by (simp_all add: env_entries_def)
  show ?thesis
  proof (cases "?as = es")
    case True
    then have "others name es = es" by (simp add: others_def filter_id_conv takeWhile_eq_all_conv)
    then show ?thesis using find_block [OF ok, of name 0] True by (simp add: env_find_def b Let_def)
  next
    case False
    then obtain nv bs where es: "es = ?as @ nv # bs" and nv: "upper (fst nv) = upper name" by (rule split_entries)
    have "entry_ok nv" using ok by (subst (asm) es) simp
    have "upper (fst e) \<noteq> upper name" if "e \<in> set bs" for e
      using ds that by (subst (asm) es) (auto simp: nv [symmetric] image_iff)
    then have "filter (\<lambda>e. upper (fst e) \<noteq> upper name) bs = bs" by (simp add: filter_id_conv)
    moreover have "filter (\<lambda>e. upper (fst e) \<noteq> upper name) ?as = ?as" by (auto simp: filter_id_conv dest: set_takeWhileD)
    ultimately have o: "others name es = ?as @ bs" unfolding others_def by (subst es) (simp add: nv)
    have be: "block es = block ?as @ entry nv @ block bs" by (subst es) (simp add: block_def)
    then have "cstr (drop (length (block ?as)) (block es)) = fst nv @ [0x3D] @ snd nv"
      using cstr_entry [OF \<open>entry_ok nv\<close>] by simp
    then have "length (block ?as) + length (cstr (drop (length (block ?as)) (block es))) + 1 = length (block ?as @ entry nv)"
      by (simp add: entry_def)
    moreover have "env_find name s = Some (length (block ?as))" using find_block [OF ok, of name 0] False by (simp add: env_find_def b Let_def)
    ultimately show ?thesis unfolding b by (simp only: option.case o) (simp add: be block_append)
  qed
qed

lemma env_map_others: "env_map (others name es) (upper n) = (if upper n = upper name then None else env_map es (upper n))"
  by (induction es) (auto simp: env_map_def others_def split: prod.splits)

lemma env_map_snoc:
  "env_map (es @ [(n, v)]) k = (case env_map es k of None \<Rightarrow> if k = upper n then Some v else None | Some w \<Rightarrow> Some w)"
  by (induction es) (auto simp: env_map_def)

definition env_ok :: "ccp \<Rightarrow> bool" where
  "env_ok s \<longleftrightarrow> (\<exists>es. env_entries es s)"

lemma length_others: "length (block (others name es)) \<le> length (block es)"
  by (induction es) (auto simp: block_def others_def)

text \<open>C39: the environment block is a map from names, whatever their letter case, to values: setting a variable
  changes that variable and no other, and keeps the block well formed. When the new entry does not fit, the old
  value of the variable is lost.\<close>

theorem env_set_map:
  assumes "env_ok s" "name_ok name" "0 \<notin> set val" "env_set name val s = (fits, s')"
  shows "env_ok s' \<and> (\<forall>n. env_get n s' = (if upper n = upper name then if fits then Some val else None else env_get n s))"
proof -
  obtain es where es: "env_entries es s" using assms(1) by (auto simp: env_ok_def)
  let ?os = "others name es"
  have ok: "list_all entry_ok ?os" "distinct (map (upper \<circ> fst) ?os)" "length (block ?os) < ENV_BLOCK_SIZE"
    using es length_others [of name es] by (auto simp: env_entries_def others_def list_all_iff distinct_map inj_on_def)
  have set: "env_set name val s = (if ENV_BLOCK_SIZE \<le> length (block ?os) + (length name + 1 + length val + 1)
      then (False, s\<lparr>env_block := block ?os\<rparr>) else (True, s\<lparr>env_block := block (?os @ [(name, val)])\<rparr>))"
    unfolding env_set_def Let_def others_block [OF es] by (simp add: block_append) (simp add: block_def entry_def)
  show ?thesis
  proof (cases fits)
    case True
    then have s': "s' = s\<lparr>env_block := block (?os @ [(name, val)])\<rparr>"
      and room: "length (block ?os) + (length name + 1 + length val + 1) < ENV_BLOCK_SIZE"
      using assms(4) unfolding set by (auto split: if_splits)
    have "length (block (?os @ [(name, val)])) < ENV_BLOCK_SIZE" using room by (simp add: block_def entry_def)
    then have e: "env_entries (?os @ [(name, val)]) s'"
      using ok assms(2,3) by (auto simp: env_entries_def s' entry_ok_def others_def)
    moreover have "env_map (?os @ [(name, val)]) (upper n) = (if upper n = upper name then Some val else env_map es (upper n))" for n
      by (simp add: env_map_snoc env_map_others split: option.splits)
    ultimately show ?thesis using True by (auto simp: env_ok_def env_get_block [OF es] env_get_block [OF e])
  next
    case False
    then have s': "s' = s\<lparr>env_block := block ?os\<rparr>" using assms(4) unfolding set by (auto split: if_splits)
    then have e: "env_entries ?os s'" using ok by (simp add: env_entries_def)
    then show ?thesis using False by (auto simp: env_ok_def env_get_block [OF es] env_get_block [OF e] env_map_others)
  qed
qed

definition ccp_start :: ccp where
  "ccp_start = \<lparr>env_block = [], hist_buf = (\<lambda>_. []), hist_count = 0, hist_head = 0, kill_buf = [], ccp_mounted = False\<rparr>"

lemma env_ok_start: "env_ok ccp_start"
  unfolding env_ok_def env_entries_def by (rule exI [of _ "[]"]) (simp add: ccp_start_def block_def)

lemma env_set_map_witness:
  "env_get (ascii ''path'') (snd (env_set (ascii ''PATH'') (ascii ''/bin'') ccp_start)) = Some (ascii ''/bin'')"
proof -
  have s: "fst (env_set (ascii ''PATH'') (ascii ''/bin'') ccp_start)" by code_simp
  have "upper (ascii ''path'') = upper (ascii ''PATH'')" by code_simp
  moreover have "name_ok (ascii ''PATH'')" "0 \<notin> set (ascii ''/bin'')" by code_simp+
  ultimately show ?thesis
    using env_set_map [OF env_ok_start, of "ascii ''PATH''" "ascii ''/bin''" True] s by (metis prod.collapse)
qed

section \<open>The history as a list\<close>

text \<open>The lines of the history, the most recent first.\<close>

definition recent :: "ccp \<Rightarrow> cstring list" where
  "recent s = map (\<lambda>i. hist_buf s ((hist_head s + HISTORY_DEPTH - i) mod HISTORY_DEPTH)) [1..<hist_count s + 1]"

definition hist_ok :: "ccp \<Rightarrow> bool" where
  "hist_ok s \<longleftrightarrow> hist_count s \<le> HISTORY_DEPTH \<and> hist_head s < HISTORY_DEPTH"

lemma length_recent [simp]: "length (recent s) = hist_count s"
  by (simp add: recent_def)

lemma recent_nth: "i < hist_count s \<Longrightarrow> recent s ! i = hist_buf s ((hist_head s + HISTORY_DEPTH - Suc i) mod HISTORY_DEPTH)"
  unfolding recent_def by (subst nth_map) (simp_all del: upt_Suc)

lemma hist_line_recent: "1 \<le> i \<Longrightarrow> i \<le> hist_count s \<Longrightarrow> hist_ok s \<Longrightarrow> hist_line i s = recent s ! (i - 1)"
proof -
  assume h: "1 \<le> i" "i \<le> hist_count s" "hist_ok s"
  then have "int (hist_head s) + int HISTORY_DEPTH - int i = int (hist_head s + HISTORY_DEPTH - i)" by (auto simp: hist_ok_def)
  then have "nat ((int (hist_head s) + int HISTORY_DEPTH - int i) mod int HISTORY_DEPTH) = (hist_head s + HISTORY_DEPTH - i) mod HISTORY_DEPTH"
    by (simp only: zmod_int [symmetric] nat_int)
  then show ?thesis using h recent_nth [of "i - 1" s] by (simp add: hist_line_def history_get_def)
qed

lemma ring_slot:
  assumes "h < 8" "i < 8"
  shows "Suc i < 8 \<Longrightarrow> ((h + 1) mod 8 + 8 - Suc (Suc i)) mod 8 = (h + 8 - Suc i) mod 8" "(7 + Suc h mod 8) mod 8 = h"
    "Suc i < 8 \<Longrightarrow> (h + 8 - Suc i) mod 8 \<noteq> h"
proof -
  have "h = 0 \<or> h = 1 \<or> h = 2 \<or> h = 3 \<or> h = 4 \<or> h = 5 \<or> h = 6 \<or> h = (7 :: nat)" using assms(1) by presburger
  moreover have "i = 0 \<or> i = 1 \<or> i = 2 \<or> i = 3 \<or> i = 4 \<or> i = 5 \<or> i = 6 \<or> i = (7 :: nat)" using assms(2) by presburger
  ultimately show "Suc i < 8 \<Longrightarrow> ((h + 1) mod 8 + 8 - Suc (Suc i)) mod 8 = (h + 8 - Suc i) mod 8" "(7 + Suc h mod 8) mod 8 = h"
    "Suc i < 8 \<Longrightarrow> (h + 8 - Suc i) mod 8 \<noteq> h" by (elim disjE; simp)+
qed

text \<open>The ring of history lines keeps the last eight lines: a line is put in front (cut to 79 characters)
  unless it is empty or repeats the most recent one, and the oldest one is dropped.\<close>

theorem history_add_recent:
  assumes "hist_ok s"
  shows "hist_ok (history_add line s) \<and> recent (history_add line s) =
    (if line = [] \<or> (recent s \<noteq> [] \<and> ccp_strieq (hd (recent s)) line) then recent s
     else take HISTORY_DEPTH (take (CCP_LINE_MAX - 1) line # recent s))"
proof -
  have hd: "hd (recent s) = hist_buf s ((hist_head s + HISTORY_DEPTH - 1) mod HISTORY_DEPTH)" if "0 < hist_count s"
    using that recent_nth [of 0 s] by (simp add: hd_conv_nth recent_def)
  have ne: "recent s \<noteq> [] \<longleftrightarrow> 0 < hist_count s" by (simp add: recent_def)
  show ?thesis
  proof (cases "line = [] \<or> (recent s \<noteq> [] \<and> ccp_strieq (hd (recent s)) line)")
    case True
    then have "history_add line s = s" using hd ne by (auto simp: history_add_def)
    then show ?thesis using True assms by auto
  next
    case False
    let ?t = "history_add line s"
    have t: "hist_buf ?t = (hist_buf s)(hist_head s := take (CCP_LINE_MAX - 1) line)" "hist_head ?t = (hist_head s + 1) mod HISTORY_DEPTH"
      "hist_count ?t = (if hist_count s < HISTORY_DEPTH then hist_count s + 1 else hist_count s)"
      using False hd ne by (auto simp: history_add_def)
    have c: "hist_head s < 8" "hist_count s \<le> 8" using assms by (simp_all add: hist_ok_def)
    have ok: "hist_ok ?t" using c by (simp add: hist_ok_def t)
    have "recent ?t = take HISTORY_DEPTH (take (CCP_LINE_MAX - 1) line # recent s)"
    proof (rule nth_equalityI)
      show "length (recent ?t) = length (take HISTORY_DEPTH (take (CCP_LINE_MAX - 1) line # recent s))" using c by (simp add: t)
      fix i assume i: "i < length (recent ?t)"
      then have i8: "i < 8" "i < hist_count ?t" using c by (auto simp: t split: if_splits)
      show "recent ?t ! i = take HISTORY_DEPTH (take (CCP_LINE_MAX - 1) line # recent s) ! i"
      proof (cases i)
        case 0
        then show ?thesis using i8 ring_slot(2) [OF c(1), of 0] by (simp add: recent_nth t)
      next
        case (Suc j)
        then have j: "j < hist_count s" using i8 c by (auto simp: t split: if_splits)
        show ?thesis using Suc i8 j ring_slot(1,3) [OF c(1), of j] by (simp add: recent_nth t)
      qed
    qed
    then show ?thesis using ok by (simp only: False if_False)
  qed
qed

lemma history_add_recent_witness:
  "recent (history_add (ascii ''ls'') (history_add (ascii ''cd'') ccp_start)) = [ascii ''ls'', ascii ''cd'']"
proof -
  have o: "hist_ok ccp_start" "recent ccp_start = []" by (simp_all add: hist_ok_def ccp_start_def recent_def)
  have "ascii ''cd'' \<noteq> []" "ascii ''ls'' \<noteq> []" "\<not> ccp_strieq (ascii ''cd'') (ascii ''ls'')"
    "take 79 (ascii ''cd'') = ascii ''cd''" "take 79 (ascii ''ls'') = ascii ''ls''" by code_simp+
  then show ?thesis
    using history_add_recent [OF o(1), of "ascii ''cd''"] history_add_recent [of "history_add (ascii ''cd'') ccp_start" "ascii ''ls''"] o(2)
    by simp
qed

end
