(* ===== verification/Ccp_Edit.thy ===== *)
theory Ccp_Edit
  imports Ccp_State Bdos
begin

text \<open>
  The line editor of the command processor (\<open>ccpmain.c\<close>): the keys, the editing of a line with its history and kill
  buffer, and completion. The line buffer is a byte memory of which 80 bytes exist; what the loops of the code move
  within it is moved byte by byte, in their order. The editor is refined to a pair of strings, the text before
  and behind the cursor.
\<close>

section \<open>Bytes from and to the console\<close>

definition ccp_getc :: "kernel \<Rightarrow> (u8 \<times> kernel) option" where
  "ccp_getc k = map_option (\<lambda>(v, k1). (ucast v, k1)) (bios_dispatch 3 0 0 k)"

definition ccp_putc :: "u8 \<Rightarrow> kernel \<Rightarrow> kernel option" where
  "ccp_putc c k = conout c k"

definition say :: "u8 list \<Rightarrow> kernel \<Rightarrow> kernel option" where
  "say out k = putcs ccp_putc out k"

text \<open>\<open>putc_\<close> is the call of BDOS function 2.\<close>

lemma ccp_putc_call: "bdos_dispatch app 2 (ucast c) 0 k = map_option (\<lambda>k1. (Ret 0, k1)) (ccp_putc c k)"
proof -
  have m: "(0xFF :: u32) = mask 8" by (simp add: mask_eq_exp_minus_1)
  have "(ucast (ucast c AND 0xFF :: u32) :: u8) = c" unfolding m by (rule bit_word_eqI) (simp add: bit_simps)
  moreover have "map_of (rev (bdos_table app)) 2 = Some d_conout" by (simp add: bdos_table_def)
  ultimately show ?thesis
    by (cases "conout c k") (simp_all add: bdos_dispatch_def d_conout_def rv_def ccp_putc_def)
qed

section \<open>Keys\<close>

abbreviation "KEY_UP \<equiv> 0x100 :: nat"
abbreviation "KEY_DOWN \<equiv> 0x101 :: nat"
abbreviation "KEY_LEFT \<equiv> 0x102 :: nat"
abbreviation "KEY_RIGHT \<equiv> 0x103 :: nat"
abbreviation "KEY_HOME \<equiv> 0x104 :: nat"
abbreviation "KEY_END \<equiv> 0x105 :: nat"
abbreviation "KEY_DEL \<equiv> 0x106 :: nat"
abbreviation "KEY_C_LEFT \<equiv> 0x107 :: nat"
abbreviation "KEY_C_RIGHT \<equiv> 0x108 :: nat"
abbreviation "KEY_M_BS \<equiv> 0x109 :: nat"
abbreviation "KEY_F7 \<equiv> 0x10A :: nat"
abbreviation "KEY_F8 \<equiv> 0x10B :: nat"

text \<open>A key that ends with a tilde.\<close>

definition tilde_key :: "nat \<Rightarrow> kernel \<Rightarrow> (nat \<times> kernel) option" where
  "tilde_key key k = do { (c, k1) \<leftarrow> ccp_getc k; Some (if c = 0x7E then key else 0, k1) }"

text \<open>The sequences behind \<open>ESC [ 1\<close>.\<close>

definition read_key_1 :: "kernel \<Rightarrow> (nat \<times> kernel) option" where
  "read_key_1 k =
     do { (c4, k1) \<leftarrow> ccp_getc k;
          if c4 = 0x3B then
            do { (c5, k2) \<leftarrow> ccp_getc k1; (c6, k3) \<leftarrow> ccp_getc k2;
                 Some (if c6 = 0x43 then KEY_C_RIGHT else if c6 = 0x44 then KEY_C_LEFT
                       else if c6 = 0x48 then KEY_HOME else if c6 = 0x46 then KEY_END else 0, k3) }
          else if c4 = 0x7E then Some (KEY_HOME, k1)
          else if c4 = 0x38 then tilde_key KEY_F7 k1
          else if c4 = 0x39 then tilde_key KEY_F8 k1
          else Some (0, k1) }"

definition read_key :: "kernel \<Rightarrow> (nat \<times> kernel) option" where
  "read_key k =
     do { (c, k1) \<leftarrow> ccp_getc k;
          if c \<noteq> 0x1B then Some (unat c, k1)
          else do { (c2, k2) \<leftarrow> ccp_getc k1;
                    if c2 = 0x7F \<or> c2 = 0x08 then Some (KEY_M_BS, k2)
                    else if c2 \<noteq> 0x5B \<and> c2 \<noteq> 0x4F then Some (0x1B, k2)
                    else do { (c3, k3) \<leftarrow> ccp_getc k2;
                              if c3 = 0x41 then Some (KEY_UP, k3)
                              else if c3 = 0x42 then Some (KEY_DOWN, k3)
                              else if c3 = 0x43 then Some (KEY_RIGHT, k3)
                              else if c3 = 0x44 then Some (KEY_LEFT, k3)
                              else if c3 = 0x48 then Some (KEY_HOME, k3)
                              else if c3 = 0x46 then Some (KEY_END, k3)
                              else if c3 = 0x31 then read_key_1 k3
                              else if c3 = 0x33 then tilde_key KEY_DEL k3
                              else if c3 = 0x34 then tilde_key KEY_END k3
                              else if c3 \<in> {0x35, 0x36, 0x32} then tilde_key 0 k3
                              else Some (0, k3) } } }"

section \<open>The line buffer\<close>

text \<open>The loops that move bytes within the buffer, upwards from the first byte and downwards from the last.\<close>

primrec move_fwd :: "mem \<Rightarrow> nat \<Rightarrow> nat \<Rightarrow> nat \<Rightarrow> mem" where
  "move_fwd b i j 0 = b"
| "move_fwd b i j (Suc n) = move_fwd (b(i := b j)) (Suc i) (Suc j) n"

primrec move_bwd :: "mem \<Rightarrow> nat \<Rightarrow> nat \<Rightarrow> nat \<Rightarrow> mem" where
  "move_bwd b i j 0 = b"
| "move_bwd b i j (Suc n) = move_bwd (b(i + n := b (j + n))) i j n"

primrec fill :: "mem \<Rightarrow> nat \<Rightarrow> u8 list \<Rightarrow> mem" where
  "fill b i [] = b"
| "fill b i (x # xs) = fill (b(i := x)) (Suc i) xs"

definition slice_of :: "mem \<Rightarrow> nat \<Rightarrow> nat \<Rightarrow> u8 list" where
  "slice_of b i j = map b [i..<j]"

text \<open>Scanning back from, and forward to, a position.\<close>

primrec back_over :: "(u8 \<Rightarrow> bool) \<Rightarrow> mem \<Rightarrow> nat \<Rightarrow> nat" where
  "back_over P b 0 = 0"
| "back_over P b (Suc j) = (if P (b j) then back_over P b j else Suc j)"

function fwd_over :: "(u8 \<Rightarrow> bool) \<Rightarrow> mem \<Rightarrow> nat \<Rightarrow> nat \<Rightarrow> nat" where
  "fwd_over P b j n = (if j < n \<and> P (b j) then fwd_over P b (Suc j) n else j)"
  by auto
termination by (relation "measure (\<lambda>(P, b, j, n). n - j)") auto

declare fwd_over.simps [simp del]

definition word_left :: "mem \<Rightarrow> nat \<Rightarrow> nat" where
  "word_left b j = back_over (\<lambda>c. \<not> isspace c) b (back_over isspace b j)"

definition word_right :: "mem \<Rightarrow> nat \<Rightarrow> nat \<Rightarrow> nat" where
  "word_right b j n = fwd_over (\<lambda>c. \<not> isspace c) b (fwd_over isspace b j n) n"

section \<open>The editor\<close>

record ed =
  e_buf :: mem
  e_len :: nat
  e_cur :: nat
  hist_pos :: nat
  saved :: cstring
  saved_cur :: nat
  last_tab :: bool

definition e_text :: "ed \<Rightarrow> cstring" where
  "e_text e = slice_of (e_buf e) 0 (e_len e)"

text \<open>A cursor movement: \<open>ESC [ n c\<close>.\<close>

definition csi :: "nat \<Rightarrow> u8 \<Rightarrow> u8 list" where
  "csi n c = [0x1B, 0x5B] @ ccp_putdec (of_nat n) @ [c]"

definition repaint :: "cstring \<Rightarrow> ed \<Rightarrow> u8 list" where
  "repaint prompt e =
     [0x0D] @ ccp_puts prompt @ e_text e @ [0x1B, 0x5B, 0x4B]
     @ (let back = e_len e - e_cur e in if 0 < back then csi back 0x44 else [])"

text \<open>A line of the history replaces the line; the cursor goes behind it.\<close>

definition set_line :: "cstring \<Rightarrow> ed \<Rightarrow> ed" where
  "set_line h e =
     (let l = take (CCP_LINE_MAX - 1) h in
      e\<lparr>e_buf := (fill (e_buf e) 0 l)(length l := 0), e_len := length l, e_cur := length l\<rparr>)"

text \<open>Removal of the bytes from \<open>i\<close> to \<open>j\<close>; the cursor goes to \<open>i\<close>.\<close>

definition cut :: "nat \<Rightarrow> nat \<Rightarrow> ed \<Rightarrow> ed" where
  "cut i j e =
     e\<lparr>e_buf := (move_fwd (e_buf e) i j (e_len e - j))(e_len e - (j - i) := 0), e_len := e_len e - (j - i), e_cur := i\<rparr>"

text \<open>Insertion at the cursor, which goes behind the inserted bytes.\<close>

definition insert_at :: "cstring \<Rightarrow> ed \<Rightarrow> ed" where
  "insert_at xs e =
     (let n = length xs; c = e_cur e in
      e\<lparr>e_buf := (fill (move_bwd (e_buf e) (c + n) c (e_len e - c)) c xs)(e_len e + n := 0), e_len := e_len e + n, e_cur := c + n\<rparr>)"

text \<open>
  The keys that read no further input give the editor, the kill buffer and what is printed: the keys that recall a
  line, and printable characters;
\<close>

definition recall_key :: "cstring \<Rightarrow> ccp \<Rightarrow> nat \<Rightarrow> ed \<Rightarrow> ed \<times> cstring \<times> u8 list" where
  "recall_key prompt s key e =
     (let b = e_buf e; len = e_len e; cur = e_cur e; kill = kill_buf s;
          same = (e, kill, []); painted = (\<lambda>e1 kill1. (e1, kill1, repaint prompt e1)) in
      if key = KEY_F8 then
        (case hist_search (\<lambda>h. ccp_strieqn h (e_text e) len) 1 s of None \<Rightarrow> same
         | Some i \<Rightarrow> painted (set_line (hist_line i s) e) kill)
      else if key = KEY_UP then
        (if hist_pos e < hist_count s
         then (let e1 = (if hist_pos e = 0 then e\<lparr>saved := e_text e, saved_cur := cur\<rparr> else e) in
           painted (set_line (hist_line (hist_pos e + 1) s) (e1\<lparr>hist_pos := hist_pos e + 1\<rparr>)) kill)
         else same)
      else if key = KEY_DOWN then
        (if 0 < hist_pos e
         then (let e1 = e\<lparr>hist_pos := hist_pos e - 1\<rparr> in
           painted (if hist_pos e = 1
             then e1\<lparr>e_buf := (fill b 0 (saved e))(length (saved e) := 0), e_len := length (saved e), e_cur := saved_cur e\<rparr>
             else set_line (hist_line (hist_pos e - 1) s) e1) kill)
         else same)
      else if 0x20 \<le> key \<and> key < 0x7F \<and> len < CCP_LINE_MAX - 1 then painted (insert_at [of_nat key] e) kill
      else same)"

text \<open>word movements and the redrawing of the screen;\<close>

definition word_key :: "cstring \<Rightarrow> ccp \<Rightarrow> nat \<Rightarrow> ed \<Rightarrow> ed \<times> cstring \<times> u8 list" where
  "word_key prompt s key e =
     (let b = e_buf e; len = e_len e; cur = e_cur e; kill = kill_buf s;
          same = (e, kill, []); painted = (\<lambda>e1 kill1. (e1, kill1, repaint prompt e1)) in
      if key = KEY_C_LEFT then
        (let j = word_left b cur in if j \<noteq> cur then (e\<lparr>e_cur := j\<rparr>, kill, csi (cur - j) 0x44) else same)
      else if key = KEY_C_RIGHT then
        (let j = word_right b cur len in if j \<noteq> cur then (e\<lparr>e_cur := j\<rparr>, kill, csi (j - cur) 0x43) else same)
      else if key = KEY_M_BS \<or> key = 23 then
        (if 0 < cur then (let j = word_left b cur in painted (cut j cur e) (slice_of b j cur)) else same)
      else if key = 12 then (e, kill, ccp_puts ([0x1B] @ ascii ''[2J'' @ [0x1B] @ ascii ''[H'') @ repaint prompt e)
      else recall_key prompt s key e)"

text \<open>and the others.\<close>

definition line_key :: "cstring \<Rightarrow> ccp \<Rightarrow> nat \<Rightarrow> ed \<Rightarrow> ed \<times> cstring \<times> u8 list" where
  "line_key prompt s key e =
     (let b = e_buf e; len = e_len e; cur = e_cur e; kill = kill_buf s;
          same = (e, kill, []); painted = (\<lambda>e1 kill1. (e1, kill1, repaint prompt e1)) in
      if key = 0x08 \<or> key = 0x7F then (if 0 < cur then painted (cut (cur - 1) cur e) kill else same)
      else if key = KEY_DEL then (if cur < len then painted (cut cur (cur + 1) e) kill else same)
      else if key = KEY_LEFT then (if 0 < cur then (e\<lparr>e_cur := cur - 1\<rparr>, kill, [0x1B, 0x5B, 0x44]) else same)
      else if key = KEY_RIGHT then (if cur < len then (e\<lparr>e_cur := cur + 1\<rparr>, kill, [0x1B, 0x5B, 0x43]) else same)
      else if key = 1 \<or> key = KEY_HOME then (if 0 < cur then (e\<lparr>e_cur := 0\<rparr>, kill, csi cur 0x44) else same)
      else if key = 5 \<or> key = KEY_END then (if cur < len then (e\<lparr>e_cur := len\<rparr>, kill, csi (len - cur) 0x43) else same)
      else if key = 11 then
        (if cur < len then (e\<lparr>e_buf := b(cur := 0), e_len := cur\<rparr>, slice_of b cur len, [0x1B, 0x5B, 0x4B]) else same)
      else if key = 21 then (if 0 < cur then painted (cut 0 cur e) (slice_of b 0 cur) else same)
      else if key = 25 then
        (if 0 < length kill \<and> len + length kill < CCP_LINE_MAX - 1 then painted (insert_at kill e) kill else same)
      else word_key prompt s key e)"

lemmas line_key_defs = line_key_def word_key_def recall_key_def

section \<open>The buffer as a list\<close>

lemma move_fwd_blit: "i \<le> j \<Longrightarrow> move_fwd b i j n = blit b i b j n"
proof (induction n arbitrary: b i j)
  case (Suc n)
  have "move_fwd b i j (Suc n) = blit (b(i := b j)) (Suc i) (b(i := b j)) (Suc j) n"
    by (subst move_fwd.simps(2), rule Suc.IH) (simp add: Suc.prems)
  also have "\<dots> = blit b i b j (Suc n)"
  proof
    fix k show "blit (b(i := b j)) (Suc i) (b(i := b j)) (Suc j) n k = blit b i b j (Suc n) k"
      using Suc.prems by (cases "k = i") (auto simp: blit_def Suc_diff_le intro!: arg_cong [of _ _ b])
  qed
  finally show ?case .
qed simp

lemma move_bwd_blit: "j \<le> i \<Longrightarrow> move_bwd b i j n = blit b i b j n"
proof (induction n arbitrary: b)
  case (Suc n)
  have "move_bwd b i j (Suc n) = blit (b(i + n := b (j + n))) i (b(i + n := b (j + n))) j n" using Suc by simp
  also have "\<dots> = blit b i b j (Suc n)"
    using Suc.prems by (auto simp: blit_def fun_eq_iff not_less less_Suc_eq)
  finally show ?case .
qed simp

lemma fill_apply: "fill b i xs k = (if i \<le> k \<and> k < i + length xs then xs ! (k - i) else b k)"
proof (induction xs arbitrary: b i)
  case (Cons x xs)
  show ?case by (simp only: fill.simps Cons.IH) (auto simp: nth_Cons' not_le intro!: arg_cong [of _ _ "nth xs"])
qed auto

lemma length_slice_of [simp]: "length (slice_of b i j) = j - i"
  by (simp add: slice_of_def)

lemma slice_of_nth [simp]: "k < j - i \<Longrightarrow> slice_of b i j ! k = b (i + k)"
  by (simp add: slice_of_def)

lemma slice_of_eq: "j - i = m - l \<Longrightarrow> (\<And>k. k < j - i \<Longrightarrow> b (i + k) = c (l + k)) \<Longrightarrow> slice_of b i j = slice_of c l m"
  by (rule nth_equalityI) simp_all

lemma slice_of_list: "j - i = length xs \<Longrightarrow> (\<And>k. k < j - i \<Longrightarrow> b (i + k) = xs ! k) \<Longrightarrow> slice_of b i j = xs"
  by (rule nth_equalityI) simp_all

lemma slice_of_split: "i \<le> j \<Longrightarrow> j \<le> k \<Longrightarrow> slice_of b i j @ slice_of b j k = slice_of b i k"
  unfolding slice_of_def map_append [symmetric] by (metis le_add_diff_inverse upt_add_eq_append)

lemma slice_of_empty [simp]: "j \<le> i \<Longrightarrow> slice_of b i j = []"
  by (simp add: slice_of_def)

section \<open>Two strings around the cursor\<close>

definition ed_ok :: "ed \<Rightarrow> bool" where
  "ed_ok e \<longleftrightarrow> e_cur e \<le> e_len e \<and> e_len e < CCP_LINE_MAX \<and> length (saved e) < CCP_LINE_MAX \<and> saved_cur e \<le> length (saved e)"

definition before :: "ed \<Rightarrow> cstring" where
  "before e = slice_of (e_buf e) 0 (e_cur e)"

definition behind :: "ed \<Rightarrow> cstring" where
  "behind e = slice_of (e_buf e) (e_cur e) (e_len e)"

lemma before_behind: "ed_ok e \<Longrightarrow> before e @ behind e = e_text e"
  by (simp add: before_def behind_def e_text_def ed_ok_def slice_of_split)

lemma cut_text:
  assumes "i \<le> j" "j \<le> e_len e" "ed_ok e"
  shows "ed_ok (cut i j e)" "before (cut i j e) = slice_of (e_buf e) 0 i" "behind (cut i j e) = slice_of (e_buf e) j (e_len e)"
proof -
  show "ed_ok (cut i j e)" using assms by (auto simp: ed_ok_def cut_def)
  show "before (cut i j e) = slice_of (e_buf e) 0 i" unfolding before_def
    using assms by (intro slice_of_eq) (auto simp: cut_def move_fwd_blit blit_def)
  show "behind (cut i j e) = slice_of (e_buf e) j (e_len e)" unfolding behind_def
    using assms by (intro slice_of_eq) (auto simp: cut_def move_fwd_blit blit_def)
qed

lemma insert_text:
  assumes "ed_ok e" "e_len e + length xs < CCP_LINE_MAX"
  shows "ed_ok (insert_at xs e)" "before (insert_at xs e) = before e @ xs" "behind (insert_at xs e) = behind e"
proof -
  have c: "e_cur e \<le> e_len e" using assms by (simp add: ed_ok_def)
  show "ed_ok (insert_at xs e)" using assms by (auto simp: ed_ok_def insert_at_def Let_def)
  show "before (insert_at xs e) = before e @ xs" unfolding before_def
    using c by (intro slice_of_list)
      (auto simp: insert_at_def Let_def fill_apply move_bwd_blit blit_def nth_append not_less)
  show "behind (insert_at xs e) = behind e" unfolding behind_def
    using c by (intro slice_of_eq) (auto simp: insert_at_def Let_def fill_apply move_bwd_blit blit_def)
qed

lemma set_line_text:
  assumes "ed_ok e"
  shows "ed_ok (set_line h e)" "before (set_line h e) = take 79 h" "behind (set_line h e) = []"
proof -
  show "ed_ok (set_line h e)" using assms by (auto simp: ed_ok_def set_line_def Let_def)
  show "before (set_line h e) = take 79 h" unfolding before_def
    by (intro slice_of_list) (auto simp: set_line_def Let_def fill_apply)
  show "behind (set_line h e) = []" by (simp add: behind_def set_line_def Let_def)
qed

lemma slice_of_snoc: "slice_of b 0 (Suc j) = slice_of b 0 j @ [b j]"
  by (simp add: slice_of_def)

lemma slice_of_hd: "j < n \<Longrightarrow> slice_of b j n = b j # slice_of b (Suc j) n"
  by (simp add: slice_of_def upt_conv_Cons)

lemma back_over_le: "back_over P b j \<le> j"
  by (induction j) auto

lemma back_over_text: "slice_of b 0 (back_over P b j) = rev (dropWhile P (rev (slice_of b 0 j)))"
  by (induction j) (auto simp: slice_of_snoc)

lemma fwd_over_text:
  "j \<le> n \<Longrightarrow> j \<le> fwd_over P b j n \<and> fwd_over P b j n \<le> n
     \<and> slice_of b j (fwd_over P b j n) = takeWhile P (slice_of b j n)
     \<and> slice_of b (fwd_over P b j n) n = dropWhile P (slice_of b j n)"
proof (induction P b j n rule: fwd_over.induct)
  case (1 P b j n)
  show ?case
  proof (cases "j < n \<and> P (b j)")
    case True
    then have IH: "Suc j \<le> fwd_over P b (Suc j) n" "fwd_over P b (Suc j) n \<le> n"
      "slice_of b (Suc j) (fwd_over P b (Suc j) n) = takeWhile P (slice_of b (Suc j) n)"
      "slice_of b (fwd_over P b (Suc j) n) n = dropWhile P (slice_of b (Suc j) n)"
      using 1 by auto
    have "fwd_over P b j n = fwd_over P b (Suc j) n" using True by (subst fwd_over.simps) simp
    then show ?thesis using IH True by (simp add: slice_of_hd)
  next
    case False
    then have "fwd_over P b j n = j" by (subst fwd_over.simps) auto
    then show ?thesis using False 1(2) by (cases "j < n") (auto simp: slice_of_hd)
  qed
qed

text \<open>The text before the word that ends at the cursor, and the word behind the cursor with the blanks before it.\<close>

definition drop_word :: "cstring \<Rightarrow> cstring" where
  "drop_word x = rev (dropWhile (\<lambda>c. \<not> isspace c) (dropWhile isspace (rev x)))"

definition next_word :: "cstring \<Rightarrow> cstring" where
  "next_word y = takeWhile isspace y @ takeWhile (\<lambda>c. \<not> isspace c) (dropWhile isspace y)"

lemma word_left_text: "slice_of b 0 (word_left b j) = drop_word (slice_of b 0 j)" "word_left b j \<le> j"
  using order_trans [OF back_over_le back_over_le] by (auto simp: word_left_def drop_word_def back_over_text)

lemma word_right_text:
  assumes "j \<le> n"
  shows "j \<le> word_right b j n" "word_right b j n \<le> n" "slice_of b j (word_right b j n) = next_word (slice_of b j n)"
proof -
  let ?i = "fwd_over isspace b j n"
  have a: "j \<le> ?i" "?i \<le> n" "slice_of b j ?i = takeWhile isspace (slice_of b j n)" "slice_of b ?i n = dropWhile isspace (slice_of b j n)"
    using fwd_over_text [OF assms, of isspace b] by auto
  have c: "?i \<le> word_right b j n" "word_right b j n \<le> n"
    "slice_of b ?i (word_right b j n) = takeWhile (\<lambda>c. \<not> isspace c) (dropWhile isspace (slice_of b j n))"
    using fwd_over_text [OF a(2), of "\<lambda>c. \<not> isspace c" b] a(4) by (auto simp: word_right_def)
  show "j \<le> word_right b j n" "word_right b j n \<le> n" using a(1) c(1,2) by linarith+
  show "slice_of b j (word_right b j n) = next_word (slice_of b j n)"
    using slice_of_split [OF a(1) c(1), of b] a(3) c(3) by (simp add: next_word_def)
qed

lemma slice_of_tail: "i \<le> j \<Longrightarrow> j \<le> k \<Longrightarrow> slice_of b j k = drop (j - i) (slice_of b i k)"
  by (rule nth_equalityI) auto

text \<open>What a key does to the text before and behind the cursor and to the kill buffer.\<close>

definition text_key :: "cstring \<Rightarrow> nat \<Rightarrow> cstring \<times> cstring \<Rightarrow> (cstring \<times> cstring) \<times> cstring" where
  "text_key kill key xy =
     (case xy of (x, y) \<Rightarrow>
      if key = 0x08 \<or> key = 0x7F then ((butlast x, y), kill)
      else if key = KEY_DEL then ((x, tl y), kill)
      else if key = KEY_LEFT then (if x = [] then (xy, kill) else ((butlast x, last x # y), kill))
      else if key = KEY_RIGHT then (if y = [] then (xy, kill) else ((x @ [hd y], tl y), kill))
      else if key = 1 \<or> key = KEY_HOME then (([], x @ y), kill)
      else if key = 5 \<or> key = KEY_END then ((x @ y, []), kill)
      else if key = 11 then ((x, []), if y = [] then kill else y)
      else if key = 21 then (([], y), if x = [] then kill else x)
      else if key = 25 then (if length (x @ y) + length kill < 79 then ((x @ kill, y), kill) else (xy, kill))
      else if key = KEY_C_LEFT then ((drop_word x, drop (length (drop_word x)) x @ y), kill)
      else if key = KEY_C_RIGHT then ((x @ next_word y, drop (length (next_word y)) y), kill)
      else if key = KEY_M_BS \<or> key = 23 then ((drop_word x, y), if x = [] then kill else drop (length (drop_word x)) x)
      else if 0x20 \<le> key \<and> key < 0x7F \<and> length (x @ y) < 79 then ((x @ [of_nat key], y), kill)
      else (xy, kill))"

definition around :: "ed \<Rightarrow> cstring \<times> cstring" where
  "around e = (before e, behind e)"

lemma around_cursor [simp]:
  "around (e\<lparr>e_cur := j\<rparr>) = (slice_of (e_buf e) 0 j, slice_of (e_buf e) j (e_len e))"
  by (simp add: around_def before_def behind_def)

lemma around_facts:
  assumes "ed_ok e"
  shows "length (before e) = e_cur e" "length (behind e) = e_len e - e_cur e" "before e = [] \<longleftrightarrow> e_cur e = 0" "behind e = [] \<longleftrightarrow> \<not> e_cur e < e_len e"
    "slice_of (e_buf e) 0 (e_len e) = before e @ behind e" "e_cur e \<le> e_len e" "e_len e < CCP_LINE_MAX"
    "slice_of (e_buf e) 0 (e_cur e) = before e" "slice_of (e_buf e) (e_cur e) (e_len e) = behind e"
    "0 < e_cur e \<Longrightarrow> slice_of (e_buf e) 0 (e_cur e - 1) = butlast (before e)"
    "0 < e_cur e \<Longrightarrow> slice_of (e_buf e) (e_cur e - 1) (e_len e) = last (before e) # behind e"
    "e_cur e < e_len e \<Longrightarrow> slice_of (e_buf e) 0 (e_cur e + 1) = before e @ [hd (behind e)]"
    "e_cur e < e_len e \<Longrightarrow> slice_of (e_buf e) (e_cur e + 1) (e_len e) = tl (behind e)"
proof -
  show c: "e_cur e \<le> e_len e" and l: "e_len e < CCP_LINE_MAX" using assms by (simp_all add: ed_ok_def)
  show "length (before e) = e_cur e" "length (behind e) = e_len e - e_cur e" by (simp_all add: before_def behind_def)
  show "before e = [] \<longleftrightarrow> e_cur e = 0" "behind e = [] \<longleftrightarrow> \<not> e_cur e < e_len e"
    unfolding length_0_conv [symmetric] by (auto simp: before_def behind_def simp del: length_0_conv)
  show "slice_of (e_buf e) 0 (e_len e) = before e @ behind e" using before_behind [OF assms] by (simp add: e_text_def)
  show "slice_of (e_buf e) 0 (e_cur e) = before e" "slice_of (e_buf e) (e_cur e) (e_len e) = behind e"
    by (simp_all add: before_def behind_def)
  show "slice_of (e_buf e) 0 (e_cur e - 1) = butlast (before e)" "slice_of (e_buf e) (e_cur e - 1) (e_len e) = last (before e) # behind e"
    if p: "0 < e_cur e"
  proof -
    have b: "before e = slice_of (e_buf e) 0 (e_cur e - 1) @ [e_buf e (e_cur e - 1)]"
      using slice_of_snoc [of "e_buf e" "e_cur e - 1"] p by (simp add: before_def)
    then show "slice_of (e_buf e) 0 (e_cur e - 1) = butlast (before e)" by simp
    show "slice_of (e_buf e) (e_cur e - 1) (e_len e) = last (before e) # behind e"
      using slice_of_hd [of "e_cur e - 1" "e_len e" "e_buf e"] p c by (simp add: b behind_def)
  qed
  show "slice_of (e_buf e) 0 (e_cur e + 1) = before e @ [hd (behind e)]" "slice_of (e_buf e) (e_cur e + 1) (e_len e) = tl (behind e)"
    if "e_cur e < e_len e" using slice_of_hd [OF that, of "e_buf e"] slice_of_snoc [of "e_buf e" "e_cur e"]
    by (simp_all add: before_def behind_def)
qed

lemma around_edits:
  assumes "ed_ok e"
  shows "i \<le> j \<Longrightarrow> j \<le> e_len e \<Longrightarrow> around (cut i j e) = (slice_of (e_buf e) 0 i, slice_of (e_buf e) j (e_len e))"
    "e_len e + length xs < CCP_LINE_MAX \<Longrightarrow> around (insert_at xs e) = (before e @ xs, behind e)"
  using cut_text [OF _ _ assms] insert_text [OF assms] by (simp_all add: around_def)

lemma ed_ok_cursor: "ed_ok e \<Longrightarrow> j \<le> e_len e \<Longrightarrow> ed_ok (e\<lparr>e_cur := j\<rparr>)"
  by (simp add: ed_ok_def)

text \<open>Every key keeps the cursor inside the line and the line inside its buffer.\<close>

lemma set_line_ok: "ed_ok e \<Longrightarrow> ed_ok (set_line h e)"
  by (rule set_line_text)

lemma cut_ok: "ed_ok e \<Longrightarrow> i \<le> j \<Longrightarrow> j \<le> e_len e \<Longrightarrow> ed_ok (cut i j e)"
  by (rule cut_text)

lemma insert_ok: "ed_ok e \<Longrightarrow> e_len e + length xs < CCP_LINE_MAX \<Longrightarrow> ed_ok (insert_at xs e)"
  by (rule insert_text)

lemma save_ok: "ed_ok e \<Longrightarrow> ed_ok (e\<lparr>saved := e_text e, saved_cur := e_cur e, hist_pos := p\<rparr>)" "ed_ok e \<Longrightarrow> ed_ok (e\<lparr>hist_pos := p\<rparr>)"
  by (auto simp: ed_ok_def e_text_def)

lemma restore_ok:
  "ed_ok e \<Longrightarrow> ed_ok (e\<lparr>hist_pos := p, e_buf := b, e_len := length (saved e), e_cur := saved_cur e\<rparr>)"
  by (auto simp: ed_ok_def)

lemma trim_ok: "ed_ok e \<Longrightarrow> ed_ok (e\<lparr>e_buf := b, e_len := e_cur e\<rparr>)"
  by (auto simp: ed_ok_def)

lemma kill_slice: "ed_ok e \<Longrightarrow> j \<le> e_len e \<Longrightarrow> length (slice_of b i j) < CCP_LINE_MAX"
  by (simp add: ed_ok_def less_imp_diff_less)

lemmas ed_ok_intros = set_line_ok cut_ok insert_ok save_ok restore_ok trim_ok ed_ok_cursor kill_slice

lemma line_key_ok:
  assumes "ed_ok e" "length (kill_buf s) < CCP_LINE_MAX" "line_key prompt s key e = (e', kill', out)"
  shows "ed_ok e' \<and> length kill' < CCP_LINE_MAX"
proof -
  have c: "e_cur e \<le> e_len e" "e_len e < CCP_LINE_MAX" using assms(1) by (simp_all add: ed_ok_def)
  have w: "word_left (e_buf e) (e_cur e) \<le> e_cur e" "word_right (e_buf e) (e_cur e) (e_len e) \<le> e_len e"
    using word_left_text(2) word_right_text(2) [OF c(1)] by auto
  note r = assms(3) [unfolded line_key_defs Let_def, symmetric]
  show ?thesis
  proof (cases "key = KEY_UP \<or> key = KEY_DOWN \<or> key = KEY_F8")
    case True
    then show ?thesis using r assms(1,2) ed_ok_intros(1,4,5,6) [OF assms(1)] set_line_ok [OF ed_ok_intros(4) [OF assms(1)]]
      set_line_ok [OF ed_ok_intros(5) [OF assms(1)]]
      by (auto split: if_splits option.splits)
  next
    case False
    then show ?thesis using r assms(1,2) c w by (auto split: if_splits intro: ed_ok_intros)
  qed
qed

lemma around_words_left:
  assumes "ed_ok e"
  defines "j \<equiv> word_left (e_buf e) (e_cur e)"
  shows "j \<le> e_cur e" "slice_of (e_buf e) 0 j = drop_word (before e)" "slice_of (e_buf e) j (e_cur e) = drop (length (drop_word (before e))) (before e)"
    "slice_of (e_buf e) j (e_len e) = drop (length (drop_word (before e))) (before e) @ behind e" "j = e_cur e \<Longrightarrow> drop_word (before e) = before e"
proof -
  show j: "j \<le> e_cur e" unfolding j_def by (rule word_left_text)
  show w: "slice_of (e_buf e) 0 j = drop_word (before e)" unfolding j_def before_def by (rule word_left_text)
  have l: "length (drop_word (before e)) = j" using length_slice_of [of "e_buf e" 0 j] unfolding w by simp
  show t: "slice_of (e_buf e) j (e_cur e) = drop (length (drop_word (before e))) (before e)"
    unfolding l using slice_of_tail [OF le0 j, of "e_buf e"] by (simp add: before_def)
  show "slice_of (e_buf e) j (e_len e) = drop (length (drop_word (before e))) (before e) @ behind e"
    using slice_of_split [OF j around_facts(6) [OF assms(1)], of "e_buf e"] unfolding t behind_def by simp
  show "j = e_cur e \<Longrightarrow> drop_word (before e) = before e" using w by (simp add: before_def)
qed

lemma around_words_right:
  assumes "ed_ok e"
  defines "j \<equiv> word_right (e_buf e) (e_cur e) (e_len e)"
  shows "e_cur e \<le> j" "slice_of (e_buf e) 0 j = before e @ next_word (behind e)"
    "slice_of (e_buf e) j (e_len e) = drop (length (next_word (behind e))) (behind e)" "j = e_cur e \<Longrightarrow> next_word (behind e) = []"
proof -
  note r = word_right_text [OF around_facts(6) [OF assms(1)], of "e_buf e", folded j_def behind_def]
  show "e_cur e \<le> j" by (rule r)
  show "slice_of (e_buf e) 0 j = before e @ next_word (behind e)"
    using slice_of_split [OF le0 r(1), of "e_buf e"] unfolding r(3) before_def by simp
  have "length (next_word (behind e)) = j - e_cur e" using length_slice_of [of "e_buf e" "e_cur e" j] unfolding r(3) .
  then show "slice_of (e_buf e) j (e_len e) = drop (length (next_word (behind e))) (behind e)"
    using slice_of_tail [OF r(1,2), of "e_buf e"] by (simp only: behind_def)
  show "j = e_cur e \<Longrightarrow> next_word (behind e) = []" using r(3) by simp
qed

lemma around_trim: "around (e\<lparr>e_buf := (e_buf e)(e_cur e := 0), e_len := e_cur e\<rparr>) = (before e, [])"
proof -
  have "slice_of ((e_buf e)(e_cur e := 0)) 0 (e_cur e) = slice_of (e_buf e) 0 (e_cur e)" by (rule slice_of_eq) auto
  then show ?thesis by (simp add: around_def before_def behind_def)
qed

lemma line_key_text:
  assumes "ed_ok e" "key \<noteq> KEY_UP" "key \<noteq> KEY_DOWN" "key \<noteq> KEY_F8" "line_key prompt s key e = (e', kill', out)"
  shows "((before e', behind e'), kill') = text_key (kill_buf s) key (before e, behind e)"
proof -
  note f = around_facts [OF assms(1)] and wl = around_words_left [OF assms(1)] and wr = around_words_right [OF assms(1)]
  note edits = around_edits [OF assms(1)]
  consider "key = 0x08"
    | "key = 0x7F"
    | "key = KEY_DEL"
    | "key = KEY_LEFT"
    | "key = KEY_RIGHT"
    | "key = 1"
    | "key = KEY_HOME"
    | "key = 5"
    | "key = KEY_END"
    | "key = 11"
    | "key = 21"
    | "key = 25"
    | "key = KEY_C_LEFT"
    | "key = KEY_C_RIGHT"
    | "key = KEY_M_BS"
    | "key = 23"
    | "key \<notin> {0x08, 0x7F, KEY_DEL, KEY_LEFT, KEY_RIGHT, 1, KEY_HOME, 5, KEY_END, 11, 21, 25, KEY_C_LEFT, KEY_C_RIGHT, KEY_M_BS, 23}"
    unfolding insert_iff empty_iff by blast
  then have "(around e', kill') = text_key (kill_buf s) key (before e, behind e)"
  proof cases
    case 1
    show ?thesis using assms(5) around_def [of e] f(3,6,9,10) unfolding 1
      by (auto simp: line_key_defs Let_def text_key_def edits split: if_splits)
  next
    case 2
    show ?thesis using assms(5) around_def [of e] f(3,6,9,10) unfolding 2
      by (auto simp: line_key_defs Let_def text_key_def edits split: if_splits)
  next
    case 3
    show ?thesis using assms(5) around_def [of e] f(4,6,8,13) unfolding 3
      by (auto simp: line_key_defs Let_def text_key_def edits split: if_splits)
  next
    case 4
    show ?thesis using assms(5) around_def [of e] f(3,6,10,11) unfolding 4
      by (auto simp: line_key_defs Let_def text_key_def edits split: if_splits)
  next
    case 5
    show ?thesis using assms(5) around_def [of e] f(4,6,12,13) unfolding 5
      by (auto simp: line_key_defs Let_def text_key_def edits split: if_splits)
  next
    case 6
    show ?thesis using assms(5) around_def [of e] f(3,5) unfolding 6
      by (auto simp: line_key_defs Let_def text_key_def edits split: if_splits)
  next
    case 7
    show ?thesis using assms(5) around_def [of e] f(3,5) unfolding 7
      by (auto simp: line_key_defs Let_def text_key_def edits split: if_splits)
  next
    case 8
    show ?thesis using assms(5) around_def [of e] f(4,5) unfolding 8
      by (auto simp: line_key_defs Let_def text_key_def edits split: if_splits)
  next
    case 9
    show ?thesis using assms(5) around_def [of e] f(4,5) unfolding 9
      by (auto simp: line_key_defs Let_def text_key_def edits split: if_splits)
  next
    case 10
    show ?thesis using assms(5) around_def [of e] f(4,9) around_trim [of e] unfolding 10
      by (auto simp: line_key_defs Let_def text_key_def edits split: if_splits)
  next
    case 11
    show ?thesis using assms(5) around_def [of e] f(3,6,8,9) unfolding 11
      by (auto simp: line_key_defs Let_def text_key_def edits split: if_splits)
  next
    case 12
    show ?thesis using assms(5) around_def [of e] f(1,2,6,7) unfolding 12
      by (auto simp: line_key_defs Let_def text_key_def edits split: if_splits)
  next
    case 13
    show ?thesis using assms(5) around_def [of e] wl f(8,9) unfolding 13
      by (auto simp: line_key_defs Let_def text_key_def edits split: if_splits)
  next
    case 14
    show ?thesis using assms(5) around_def [of e] wr f(8,9) unfolding 14
      by (auto simp: line_key_defs Let_def text_key_def edits split: if_splits)
  next
    case 15
    show ?thesis using assms(5) around_def [of e] f(3,6,8,9) wl(1,2,3) unfolding 15
      by (auto simp: line_key_defs Let_def text_key_def edits split: if_splits)
  next
    case 16
    show ?thesis using assms(5) around_def [of e] f(3,6,8,9) wl(1,2,3) unfolding 16
      by (auto simp: line_key_defs Let_def text_key_def edits split: if_splits)
  next
    case 17
    then show ?thesis using assms(2-5) around_def [of e] f(1,2,6,7)
      by (auto simp: line_key_defs Let_def text_key_def edits split: if_splits)
  qed
  then show ?thesis by (simp add: around_def)
qed

text \<open>C36: the line editor refines a pair of strings, the text before and behind the cursor: whatever bytes its loops
  move in the buffer, every key that does not recall a line of the history does to the two strings, and to the
  kill buffer, what \<open>text_key\<close> says.\<close>

theorem line_key_refines:
  assumes "ed_ok e" "key \<noteq> KEY_UP" "key \<noteq> KEY_DOWN" "key \<noteq> KEY_F8" "line_key prompt s key e = (e', kill', out)"
  shows "((before e', behind e'), kill') = text_key (kill_buf s) key (before e, behind e)"
  by (rule line_key_text [OF assms])

definition ed_start :: "mem \<Rightarrow> ed" where
  "ed_start b = \<lparr>e_buf = b(0 := 0), e_len = 0, e_cur = 0, hist_pos = 0, saved = [], saved_cur = 0, last_tab = False\<rparr>"

lemma ed_ok_start: "ed_ok (ed_start b)"
  by (simp add: ed_ok_def ed_start_def)

lemma line_key_refines_witness:
  "before (fst (line_key [] ccp_start 0x41 (ed_start (\<lambda>_. 0)))) = [0x41]"
proof -
  have "((before (fst (line_key [] ccp_start 0x41 (ed_start (\<lambda>_. 0)))), behind (fst (line_key [] ccp_start 0x41 (ed_start (\<lambda>_. 0))))),
      fst (snd (line_key [] ccp_start 0x41 (ed_start (\<lambda>_. 0)))))
    = text_key (kill_buf ccp_start) 0x41 (before (ed_start (\<lambda>_. 0)), behind (ed_start (\<lambda>_. 0)))"
    by (rule line_key_refines [OF ed_ok_start]) (simp_all add: prod_eq_iff)
  moreover have "before (ed_start (\<lambda>_. 0)) = []" "behind (ed_start (\<lambda>_. 0)) = []" by (simp_all add: before_def behind_def ed_start_def)
  ultimately show ?thesis by (simp add: text_key_def)
qed

end
