(* ===== verification/Ccp_Line.thy ===== *)
theory Ccp_Line
  imports Ccp_Edit Bdos_Facts Bdos_Inv
begin

text \<open>
  Reading a line (\<open>ccpmain.c\<close>): completion of command and file names, the selection of a line of the history, and the
  loop of the editor. The buffers of the code lie at addresses the compiler chooses, which are parameters
  (\<open>addrs\<close>); a write behind the end of the line buffer is \<open>None\<close>.
\<close>

section \<open>System calls\<close>

record addrs =
  at_fcb :: u32
  at_dma :: u32
  at_name :: u32
  at_name2 :: u32
  at_pair :: u32
  at_cwd :: u32

text \<open>A system call that comes back to the caller; the calls that may leave through the warm boot are made directly.\<close>

definition sys :: "app \<Rightarrow> u32 \<Rightarrow> u32 \<Rightarrow> u32 \<Rightarrow> kernel \<Rightarrow> (u32 \<times> kernel) option" where
  "sys app f a b k = (case bdos_dispatch app f a b k of Some (Ret v, k1) \<Rightarrow> Some (v, k1) | _ \<Rightarrow> None)"

definition put_str :: "u32 \<Rightarrow> cstring \<Rightarrow> kernel \<Rightarrow> kernel" where
  "put_str a cs k = k\<lparr>k_mem := put_bytes a (cs @ [0]) (k_mem k)\<rparr>"

text \<open>A control block that holds only a name, and the start of a search for it.\<close>

definition put_fcb :: "u32 \<Rightarrow> u8 list \<Rightarrow> kernel \<Rightarrow> kernel" where
  "put_fcb a raw k = k\<lparr>k_mem := put_bytes a ([0] @ raw @ replicate 24 0) (k_mem k)\<rparr>"

definition search_first :: "app \<Rightarrow> addrs \<Rightarrow> u8 list \<Rightarrow> kernel \<Rightarrow> (u32 \<times> kernel) option" where
  "search_first app ad pat k =
     do { (r, k1) \<leftarrow> sys app 26 (at_dma ad) 0 (put_fcb (at_fcb ad) pat k); sys app 17 (at_fcb ad) 0 k1 }"

text \<open>\<open>BASE.EXT\<close> from the entry in the DMA buffer.\<close>

definition entry_text :: "u8 list \<Rightarrow> cstring" where
  "entry_text raw =
     takeWhile (\<lambda>c. c \<noteq> 0x20) (take 8 raw)
     @ (if list_ex (\<lambda>c. c \<noteq> 0x20) (take 3 (drop 8 raw)) then 0x2E # takeWhile (\<lambda>c. c \<noteq> 0x20) (take 3 (drop 8 raw)) else [])"

definition found_text :: "addrs \<Rightarrow> kernel \<Rightarrow> cstring" where
  "found_text ad k = entry_text (get_bytes (at_dma ad + 1) 11 (k_mem k))"

section \<open>Completion\<close>

definition builtin_names :: "cstring list" where
  "builtin_names = map ascii
     [''help'', ''?'', ''ver'', ''mem'', ''clear'', ''echo'', ''peek'', ''poke'', ''user'', ''history'', ''set'', ''prompt'',
      ''free'', ''uname'', ''expr'', ''seq'', ''factor'', ''printf'', ''true'', ''false'', ''yes'', ''test'', ''['', ''crc32'',
      ''hexdump'', ''base64'', ''uuencode'', ''uudecode'', ''stty'', ''srec'', ''nano'', ''edit'', ''mount'', ''ls'', ''cat'',
      ''rm'', ''cp'', ''mv'', ''mkdir'', ''rmdir'', ''cd'', ''pwd'', ''source'', ''save'', ''load'', ''exit'']"

text \<open>The length of the common prefix of two names, and of the first \<open>common\<close> characters of one.\<close>

definition shared :: "(u8 \<Rightarrow> u8 \<Rightarrow> bool) \<Rightarrow> cstring \<Rightarrow> cstring \<Rightarrow> nat \<Rightarrow> nat" where
  "shared same as bs common = min common (length (takeWhile (\<lambda>(a, b). a \<noteq> 0 \<and> same a b) (zip as bs)))"

text \<open>0: nothing found; 1: the name; otherwise minus the number of names, and what they have in common.\<close>

definition completed :: "(u8 \<Rightarrow> u8 \<Rightarrow> bool) \<Rightarrow> cstring list \<Rightarrow> int \<times> cstring" where
  "completed same names =
     (case names of [] \<Rightarrow> (0, [])
      | [n] \<Rightarrow> (1, n)
      | n # ns \<Rightarrow> (- int (length names), take (foldl (\<lambda>common m. shared same m n common) (length n) ns) n))"

definition complete_command :: "cstring \<Rightarrow> int \<times> cstring" where
  "complete_command prefix =
     completed (\<lambda>a b. to_upper a = to_upper b) (filter (\<lambda>n. ccp_strieqn n prefix (length prefix)) builtin_names)"

text \<open>The pattern of a search for names with a prefix: question marks fill it up.\<close>

definition prefix_pattern :: "cstring \<Rightarrow> u8 list" where
  "prefix_pattern prefix =
     (let base = takeWhile (\<lambda>c. c \<noteq> 0x2E) prefix; ext = take 3 (drop 1 (dropWhile (\<lambda>c. c \<noteq> 0x2E) prefix));
          pad = (\<lambda>n cs. map to_upper cs @ replicate (n - length cs) 0x3F) in
      pad 8 (take 8 base) @ pad 3 ext)"

text \<open>The loop over the matches, with the names found so far.\<close>

partial_function (option) find_names :: "app \<Rightarrow> addrs \<Rightarrow> u32 \<Rightarrow> cstring list \<Rightarrow> kernel \<Rightarrow> (cstring list \<times> kernel) option" where
  "find_names app ad r names k =
     (if r \<noteq> 0 then Some (names, k)
      else do { (r1, k1) \<leftarrow> sys app 18 (at_fcb ad) 0 k; find_names app ad r1 (names @ [found_text ad k]) k1 })"

definition complete_filename :: "app \<Rightarrow> addrs \<Rightarrow> cstring \<Rightarrow> kernel \<Rightarrow> ((int \<times> cstring) \<times> kernel) option" where
  "complete_filename app ad prefix k =
     do { (r, k1) \<leftarrow> search_first app ad (prefix_pattern prefix) k;
          (names, k2) \<leftarrow> find_names app ad r [] k1;
          Some (case completed (=) names of (rc, t) \<Rightarrow> (rc, cstr t), k2) }"

text \<open>The listings, five names a line; \<open>col\<close> counts the names of the line.\<close>

definition column :: "nat \<Rightarrow> u8 list \<Rightarrow> u8 list \<times> nat" where
  "column col name =
     (let out = name @ replicate (14 - length name) 0x20 in
      if 5 \<le> Suc col then (out @ nl, 0) else (out, Suc col))"

primrec name_columns :: "nat \<Rightarrow> cstring list \<Rightarrow> u8 list" where
  "name_columns col [] = (if 0 < col then nl else [])"
| "name_columns col (n # ns) = (case column col (ccp_puts n) of (out, col1) \<Rightarrow> out @ name_columns col1 ns)"

definition list_command_matches :: "cstring \<Rightarrow> u8 list" where
  "list_command_matches prefix = nl @ name_columns 0 (filter (\<lambda>n. ccp_strieqn n prefix (length prefix)) builtin_names)"

partial_function (option) list_found :: "app \<Rightarrow> addrs \<Rightarrow> u32 \<Rightarrow> nat \<Rightarrow> kernel \<Rightarrow> kernel option" where
  "list_found app ad r col k =
     (if r \<noteq> 0 then say (if 0 < col then nl else []) k
      else do { k1 \<leftarrow> say (fst (column col (found_text ad k))) k;
                (r1, k2) \<leftarrow> sys app 18 (at_fcb ad) 0 k1;
                list_found app ad r1 (snd (column col (found_text ad k))) k2 })"

definition list_filename_matches :: "app \<Rightarrow> addrs \<Rightarrow> cstring \<Rightarrow> kernel \<Rightarrow> kernel option" where
  "list_filename_matches app ad prefix k =
     do { (r, k1) \<leftarrow> sys app 26 (at_dma ad) 0 (put_fcb (at_fcb ad) (prefix_pattern prefix) k);
          k2 \<leftarrow> say nl k1;
          (r1, k3) \<leftarrow> sys app 17 (at_fcb ad) 0 k2;
          list_found app ad r1 0 k3 }"

section \<open>Choosing a line of the history\<close>

text \<open>The digits of the popup; \<open>None\<close> when it is left with escape.\<close>

partial_function (option) popup_loop :: "u8 list \<Rightarrow> kernel \<Rightarrow> (u8 list option \<times> kernel) option" where
  "popup_loop num k =
     do { (c, k1) \<leftarrow> ccp_getc k;
          if c = 0x1B then do { k2 \<leftarrow> say nl k1; Some (None, k2) }
          else if c = 0x0D \<or> c = 0x0A then Some (Some num, k1)
          else if 0x30 \<le> c \<and> c \<le> 0x39 \<and> length num < 7 then do { k2 \<leftarrow> say [c] k1; popup_loop (num @ [c]) k2 }
          else if (c = 0x08 \<or> c = 0x7F) \<and> num \<noteq> [] then do { k2 \<leftarrow> say [0x08, 0x20, 0x08] k1; popup_loop (butlast num) k2 }
          else popup_loop num k1 }"

definition popup_list :: "ccp \<Rightarrow> u8 list" where
  "popup_list s = nl @ concat (map (\<lambda>i. (if i < 10 then [0x20] else []) @ ccp_putdec (of_nat i) @ ccp_puts (ascii '': '')
       @ ccp_puts (hist_line i s) @ nl) [1..<hist_count s + 1])
     @ ccp_puts (ascii ''Pick (1-'') @ ccp_putdec (of_nat (hist_count s)) @ ccp_puts (ascii '') or ESC: '')"

text \<open>The line picked; the code counts from the oldest line although the list starts with the most recent one.\<close>

definition f7_popup :: "ccp \<Rightarrow> kernel \<Rightarrow> (cstring \<times> kernel) option" where
  "f7_popup s k =
     (if hist_count s = 0 then Some ([], k)
      else do { k1 \<leftarrow> say (popup_list s) k;
                (num, k2) \<leftarrow> popup_loop [] k1;
                (case num of None \<Rightarrow> Some ([], k2)
                 | Some ds \<Rightarrow> do { k3 \<leftarrow> say nl k2;
                     let idx = unat (num_arg ds);
                     Some (if ds = [] \<or> idx < 1 \<or> hist_count s < idx then [] else take (CCP_LINE_MAX - 1) (hist_line (hist_count s - idx + 1) s), k3) }) })"

definition contains_ccp :: "cstring \<Rightarrow> cstring \<Rightarrow> bool" where
  "contains_ccp hay needle \<longleftrightarrow> list_ex (\<lambda>i. ccp_strieqn (drop i hay) needle (length needle)) [0..<length hay + 1 - length needle]"

partial_function (option) reverse_isearch :: "ccp \<Rightarrow> cstring \<Rightarrow> nat \<Rightarrow> cstring option \<Rightarrow> kernel \<Rightarrow> (cstring \<times> kernel) option" where
  "reverse_isearch s query back found k =
     do { k1 \<leftarrow> say ([0x0D, 0x1B, 0x5B, 0x4B] @ ccp_puts (ascii ''(reverse-i-search)`'') @ query @ [0x27, 0x3A, 0x20]
                @ (case found of None \<Rightarrow> [] | Some m \<Rightarrow> ccp_puts m)) k;
          (c, k2) \<leftarrow> ccp_getc k1;
          if c = 0x1B \<or> c = 0x07 then do { k3 \<leftarrow> say nl k2; Some ([], k3) }
          else if c = 0x0D \<or> c = 0x0A then
            do { k3 \<leftarrow> say nl k2; Some (case found of None \<Rightarrow> [] | Some m \<Rightarrow> take (CCP_LINE_MAX - 1) m, k3) }
          else if c = 3 then do { k3 \<leftarrow> say nl k2; Some ([], k3) }
          else let typed = (c \<noteq> 18 \<and> c \<noteq> 0x08 \<and> c \<noteq> 0x7F \<and> 0x20 \<le> c \<and> c < 0x7F \<and> length query < CCP_LINE_MAX - 1);
                   query1 = (if c = 18 then query else if c = 0x08 \<or> c = 0x7F then butlast query else if typed then query @ [c] else query);
                   back1 = (if c = 18 then back + 1 else if typed then 1 else back) in
            reverse_isearch s query1 back1
              (map_option (\<lambda>i. hist_line i s) (hist_search (\<lambda>h. contains_ccp h query1) back1 s)) k2 }"

section \<open>The loop\<close>

text \<open>
  The tab key: the token before the cursor is completed, as a command name at the start of the line and as a file
  name elsewhere. The single match is only put into the line when it fits; the common part of several matches is
  not checked against the size of the buffer: when it does not fit, the code writes behind the buffer. What that does depends on
  where the compiler puts the buffer, so the model stops there: the first component of the result is then \<open>None\<close>.
\<close>

definition replace_token :: "nat \<Rightarrow> nat \<Rightarrow> cstring \<Rightarrow> ed \<Rightarrow> ed" where
  "replace_token i j new e =
     (let tail = e_len e - j; n = length new in
      e\<lparr>e_buf := (fill (move_bwd (e_buf e) (i + n) j tail) i new)(i + n + tail := 0), e_len := i + n + tail, e_cur := i + n\<rparr>)"

definition tab_key :: "app \<Rightarrow> addrs \<Rightarrow> cstring \<Rightarrow> ed \<Rightarrow> kernel \<Rightarrow> (ed option \<times> kernel) option" where
  "tab_key app ad prompt e k =
     (let b = e_buf e; cur = e_cur e; i = back_over (\<lambda>c. \<not> isspace c) b cur; j = fwd_over (\<lambda>c. \<not> isspace c) b i cur;
          prefix = cstr (slice_of b i j); n = j - i; tail = e_len e - j in
      if j \<noteq> cur then Some (Some e, k)
      else do { ((rc, comp), k1) \<leftarrow> (if i = 0 then Some (complete_command prefix, k) else complete_filename app ad prefix k);
                if rc = 0 then map_option (\<lambda>k2. (Some e, k2)) (say [0x07] k1)
                else if rc = 1 then
                  (if CCP_LINE_MAX \<le> i + length comp + 1 + tail then Some (Some e, k1)
                   else let e1 = replace_token i j (comp @ [0x20]) e in map_option (\<lambda>k2. (Some e1, k2)) (say (repaint prompt e1) k1))
                else if n < length comp then
                  (if CCP_LINE_MAX \<le> i + length comp + tail then Some (None, k1)
                   else let e1 = replace_token i j comp e in map_option (\<lambda>k2. (Some e1, k2)) (say (repaint prompt e1) k1))
                else if last_tab e then
                  do { k2 \<leftarrow> (if i = 0 then say (list_command_matches prefix) k1 else list_filename_matches app ad prefix k1);
                       map_option (\<lambda>k3. (Some e, k3)) (say (repaint prompt e) k2) }
                else map_option (\<lambda>k2. (Some e, k2)) (say [0x07] k1) })"

text \<open>The result of reading a line: the line, the warm boot of Ctrl-D on an empty line, or a write behind the buffer.\<close>

datatype line_end = Line cstring | Rebooted | Overrun

text \<open>A line picked from the history replaces the line when it is not empty; the line is drawn again in any case.\<close>

definition picked :: "cstring \<Rightarrow> cstring \<Rightarrow> ed \<Rightarrow> kernel \<Rightarrow> (ed \<times> kernel) option" where
  "picked prompt l e k =
     (let e1 = (if l \<noteq> [] then set_line l e else e) in map_option (\<lambda>k1. (e1, k1)) (say (repaint prompt e1) k))"

partial_function (option) edit_loop :: "app \<Rightarrow> addrs \<Rightarrow> cstring \<Rightarrow> ccp \<Rightarrow> ed \<Rightarrow> kernel \<Rightarrow> (line_end \<times> ccp \<times> kernel) option" where
  "edit_loop app ad prompt s e k =
     do { (key, k1) \<leftarrow> read_key k;
          if key = 0x0D \<or> key = 0x0A then do { k2 \<leftarrow> say [0x0D, 0x0A] k1; Some (Line (e_text e), s, k2) }
          else if key = 18 then
            do { (l, k2) \<leftarrow> reverse_isearch s [] 1 None k1; (e1, k3) \<leftarrow> picked prompt l e k2;
                 edit_loop app ad prompt s (e1\<lparr>last_tab := False\<rparr>) k3 }
          else if key = KEY_F7 then
            do { (l, k2) \<leftarrow> f7_popup s k1; (e1, k3) \<leftarrow> picked prompt l e k2;
                 edit_loop app ad prompt s (e1\<lparr>last_tab := False\<rparr>) k3 }
          else if key = 3 then do { k2 \<leftarrow> say (ccp_puts (ascii ''^C'' @ [0x0D, 0x0A])) k1; Some (Line [], s, k2) }
          else if key = 4 \<and> e_len e = 0 then
            do { k2 \<leftarrow> say (ccp_puts (ascii ''^D'' @ [0x0D, 0x0A])) k1; (r, k3) \<leftarrow> bdos_dispatch app 0 0 0 k2;
                 (case r of Warmboot \<Rightarrow> Some (Rebooted, s, k3) | Ret v \<Rightarrow> edit_loop app ad prompt s (e\<lparr>last_tab := False\<rparr>) k3) }
          else if key = 0x09 then
            do { (e1, k2) \<leftarrow> tab_key app ad prompt e k1;
                 (case e1 of None \<Rightarrow> Some (Overrun, s, k2) | Some e2 \<Rightarrow> edit_loop app ad prompt s (e2\<lparr>last_tab := True\<rparr>) k2) }
          else case line_key prompt s key e of
            (e1, kill, out) \<Rightarrow>
              do { k2 \<leftarrow> say out k1; edit_loop app ad prompt (s\<lparr>kill_buf := kill\<rparr>) (e1\<lparr>last_tab := False\<rparr>) k2 } }"

definition read_line :: "app \<Rightarrow> addrs \<Rightarrow> cstring \<Rightarrow> mem \<Rightarrow> ccp \<Rightarrow> kernel \<Rightarrow> (line_end \<times> ccp \<times> kernel) option" where
  "read_line app ad prompt b s k =
     do { k1 \<leftarrow> say (repaint prompt (ed_start b)) k; edit_loop app ad prompt s (ed_start b) k1 }"

section \<open>The line stays inside its buffer\<close>

lemma say_ok: "say out k = Some k' \<Longrightarrow> kernel_ok k \<Longrightarrow> kernel_ok k'"
proof -
  have "ccp_putc = conout" by (simp add: fun_eq_iff ccp_putc_def)
  then show "say out k = Some k' \<Longrightarrow> kernel_ok k \<Longrightarrow> kernel_ok k'" by (auto simp: say_def dest: conouts_ok)
qed

lemma getc_ok: "ccp_getc k = Some (c, k') \<Longrightarrow> kernel_ok k \<Longrightarrow> kernel_ok k'"
  by (auto simp: ccp_getc_def dest: bios_ok)

lemma sys_ok: "sys app f a b k = Some (v, k') \<Longrightarrow> app_ok app \<Longrightarrow> kernel_ok k \<Longrightarrow> kernel_ok k'"
  by (auto simp: sys_def split: option.splits bres.splits intro: dispatch_ok)

lemma put_ok [simp]: "kernel_ok (put_fcb a raw k) = kernel_ok k" "kernel_ok (put_str a cs k) = kernel_ok k"
  by (simp_all add: put_fcb_def put_str_def)

lemma read_key_ok: "read_key k = Some (key, k') \<Longrightarrow> kernel_ok k \<Longrightarrow> kernel_ok k'"
  by (auto simp: read_key_def read_key_1_def tilde_key_def handler_simps split: if_splits dest!: getc_ok)

lemma search_first_ok: "search_first app ad pat k = Some (r, k') \<Longrightarrow> app_ok app \<Longrightarrow> kernel_ok k \<Longrightarrow> kernel_ok k'"
  by (auto simp: search_first_def handler_simps dest!: sys_ok)

lemma find_names_ok:
  assumes "find_names app ad r names k = Some res"
  shows "app_ok app \<longrightarrow> kernel_ok k \<longrightarrow> kernel_ok (snd res)"
  by (rule find_names.raw_induct [where P = "\<lambda>app ad r names k res. app_ok app \<longrightarrow> kernel_ok k \<longrightarrow> kernel_ok (snd res)", OF _ assms])
    (auto simp: handler_simps split: if_splits dest: sys_ok)

lemma complete_filename_ok:
  "complete_filename app ad prefix k = Some (r, k') \<Longrightarrow> app_ok app \<Longrightarrow> kernel_ok k \<Longrightarrow> kernel_ok k'"
  by (auto simp: complete_filename_def handler_simps dest!: search_first_ok find_names_ok)

lemma list_found_ok:
  assumes "list_found app ad r col k = Some k'"
  shows "app_ok app \<longrightarrow> kernel_ok k \<longrightarrow> kernel_ok k'"
  by (rule list_found.raw_induct [where P = "\<lambda>app ad r col k k'. app_ok app \<longrightarrow> kernel_ok k \<longrightarrow> kernel_ok k'", OF _ assms])
    (auto simp: handler_simps split: if_splits dest: sys_ok say_ok)

lemma list_files_ok: "list_filename_matches app ad prefix k = Some k' \<Longrightarrow> app_ok app \<Longrightarrow> kernel_ok k \<Longrightarrow> kernel_ok k'"
  by (auto simp: list_filename_matches_def handler_simps dest!: sys_ok say_ok list_found_ok)

lemma popup_loop_ok:
  assumes "popup_loop num k = Some r"
  shows "kernel_ok k \<longrightarrow> kernel_ok (snd r)"
  by (rule popup_loop.raw_induct [where P = "\<lambda>num k r. kernel_ok k \<longrightarrow> kernel_ok (snd r)", OF _ assms])
    (auto simp: handler_simps split: if_splits dest!: getc_ok say_ok)

lemma f7_ok: "f7_popup s k = Some (l, k') \<Longrightarrow> kernel_ok k \<Longrightarrow> kernel_ok k'"
  by (auto simp: f7_popup_def handler_simps split: if_splits option.splits dest!: popup_loop_ok say_ok)

lemma isearch_ok:
  assumes "reverse_isearch s query back found k = Some r"
  shows "kernel_ok k \<longrightarrow> kernel_ok (snd r)"
  by (rule reverse_isearch.raw_induct [where P = "\<lambda>s query back found k r. kernel_ok k \<longrightarrow> kernel_ok (snd r)", OF _ assms])
    (auto simp: handler_simps split: if_splits dest!: getc_ok say_ok)

lemma replace_ok: "ed_ok e \<Longrightarrow> i + length new + (e_len e - j) < CCP_LINE_MAX \<Longrightarrow> ed_ok (replace_token i j new e)"
  by (auto simp: ed_ok_def replace_token_def Let_def)

lemma tab_ok:
  assumes "tab_key app ad prompt e k = Some (e1, k')" "ed_ok e" "app_ok app" "kernel_ok k"
  shows "(\<forall>e2. e1 = Some e2 \<longrightarrow> ed_ok e2) \<and> kernel_ok k'"
  using assms by (auto simp: tab_key_def handler_simps not_le split: if_splits
      dest!: say_ok complete_filename_ok list_files_ok intro: replace_ok)

lemma picked_ok: "picked prompt l e k = Some (e1, k') \<Longrightarrow> ed_ok e \<Longrightarrow> kernel_ok k \<Longrightarrow> ed_ok e1 \<and> kernel_ok k'"
  by (auto simp: picked_def Let_def intro: set_line_ok dest!: say_ok split: if_splits)

lemma ed_ok_tab [simp]: "ed_ok (e\<lparr>last_tab := b\<rparr>) = ed_ok e"
  by (simp add: ed_ok_def)

lemma length_text: "ed_ok e \<Longrightarrow> length (e_text e) < CCP_LINE_MAX"
  by (simp add: ed_ok_def e_text_def)

definition reading_ok :: "app \<Rightarrow> ccp \<Rightarrow> ed \<Rightarrow> kernel \<Rightarrow> bool" where
  "reading_ok app s e k \<longleftrightarrow> app_ok app \<and> ed_ok e \<and> length (kill_buf s) < CCP_LINE_MAX \<and> kernel_ok k"

definition read_ok :: "line_end \<times> ccp \<times> kernel \<Rightarrow> bool" where
  "read_ok r \<longleftrightarrow> (\<forall>l. fst r = Line l \<longrightarrow> length l < CCP_LINE_MAX) \<and> length (kill_buf (fst (snd r))) < CCP_LINE_MAX
     \<and> kernel_ok (snd (snd r))"

lemma read_ok_simps [simp]:
  "read_ok (Line l, s, k) \<longleftrightarrow> length l < CCP_LINE_MAX \<and> length (kill_buf s) < CCP_LINE_MAX \<and> kernel_ok k"
  "read_ok (Rebooted, s, k) \<longleftrightarrow> length (kill_buf s) < CCP_LINE_MAX \<and> kernel_ok k"
  "read_ok (Overrun, s, k) \<longleftrightarrow> length (kill_buf s) < CCP_LINE_MAX \<and> kernel_ok k"
  by (simp_all add: read_ok_def)

lemma reset_boots: "bdos_dispatch app 0 0 0 k = Some (Warmboot, k)"
  by (simp add: bdos_dispatch_def bdos_table_def d_reset_def)

lemma line_key_keeps:
  "line_key prompt s key e = (e1, kill, out) \<Longrightarrow> reading_ok app s e k \<Longrightarrow> say out k = Some k1 \<Longrightarrow>
     reading_ok app (s\<lparr>kill_buf := kill\<rparr>) (e1\<lparr>last_tab := b\<rparr>) k1"
  using line_key_ok [of e s prompt key e1 kill out] say_ok [of out k k1] by (auto simp: reading_ok_def)

lemma edit_loop_ok:
  assumes "edit_loop app ad prompt s e k = Some r"
  shows "reading_ok app s e k \<longrightarrow> read_ok r"
proof (rule edit_loop.raw_induct [where P = "\<lambda>app ad prompt s e k r. reading_ok app s e k \<longrightarrow> read_ok r", OF _ assms], goal_cases)
  case (1 loop app ad prompt s e k r)
  note IH = 1(1) and body = 1(2)
  show "reading_ok app s e k \<longrightarrow> read_ok r"
  proof
    assume ok: "reading_ok app s e k"
    then have parts: "app_ok app" "ed_ok e" "length (kill_buf s) < CCP_LINE_MAX" "kernel_ok k" by (simp_all add: reading_ok_def)
    obtain key k1 where key: "read_key k = Some (key, k1)" using body by (auto simp: handler_simps)
    have k1: "kernel_ok k1" by (rule read_key_ok [OF key parts(4)])
    have IHs: "loop app ad prompt s e k = Some r \<Longrightarrow> app_ok app \<Longrightarrow> ed_ok e \<Longrightarrow> length (kill_buf s) < CCP_LINE_MAX \<Longrightarrow> kernel_ok k \<Longrightarrow> read_ok r"
      for app s e k using IH unfolding reading_ok_def by blast
    have IH': "reading_ok app s e k \<Longrightarrow> loop app ad prompt s e k = Some r \<Longrightarrow> read_ok r" for app s e k r using IH by blast
    note body = body [unfolded key, simplified]
    show "read_ok r"
    proof (cases "key \<in> {0x0D, 0x0A, 18, KEY_F7, 3, 9} \<or> (key = 4 \<and> e_len e = 0)")
      case True
      then show ?thesis using body parts k1 length_text [OF parts(2)]
        by (auto simp: handler_simps reset_boots case_Some_conv split: if_splits
          dest!: say_ok isearch_ok f7_ok picked_ok tab_ok intro: IHs)
    next
      case False
      obtain e1 kill out where lk: "line_key prompt s key e = (e1, kill, out)" by (metis prod_cases3)
      then obtain k2 where k2: "say out k1 = Some k2" "loop app ad prompt (s\<lparr>kill_buf := kill\<rparr>) (e1\<lparr>last_tab := False\<rparr>) k2 = Some r"
        using body False by (auto simp: handler_simps split: if_splits)
      have "reading_ok app s e k1" using parts k1 by (simp add: reading_ok_def)
      then show ?thesis using IH' [OF line_key_keeps [OF lk _ k2(1)] k2(2)] by blast
    qed
  qed
qed

lemma read_line_ok:
  assumes "read_line app ad prompt b s k = Some r" "length (kill_buf s) < CCP_LINE_MAX" "kernel_ok k" "app_ok app"
  shows "read_ok r"
proof -
  obtain k1 where k1: "say (repaint prompt (ed_start b)) k = Some k1" "edit_loop app ad prompt s (ed_start b) k1 = Some r"
    using assms(1) by (auto simp: read_line_def handler_simps)
  have "reading_ok app s (ed_start b) k1" using assms say_ok [OF k1(1)] ed_ok_start by (simp add: reading_ok_def)
  then show ?thesis using edit_loop_ok [OF k1(2)] by blast
qed

section \<open>Typing a line\<close>

lemma say_quiet: "quiet k \<Longrightarrow> say out k = Some (k\<lparr>k_out := k_out k @ out\<rparr>)"
proof -
  have "ccp_putc = conout" by (simp add: fun_eq_iff ccp_putc_def)
  then show "quiet k \<Longrightarrow> say out k = Some (k\<lparr>k_out := k_out k @ out\<rparr>)" by (simp add: say_def conouts_quiet)
qed

lemma read_key_plain: "quiet k \<Longrightarrow> k_in k = c # cs \<Longrightarrow> c \<noteq> 0x1B \<Longrightarrow> read_key k = Some (unat c, k\<lparr>k_in := cs\<rparr>)"
  using conin_quiet [of k c cs] by (simp add: read_key_def ccp_getc_def conin_def)

definition printable :: "u8 \<Rightarrow> bool" where
  "printable c \<longleftrightarrow> 0x20 \<le> c \<and> c < 0x7F"

lemma printable_key: "printable c \<Longrightarrow> 0x20 \<le> unat c \<and> unat c < 0x7F"
  by (auto simp: printable_def word_le_nat_alt word_less_nat_alt)

lemma line_key_types:
  assumes "printable c" "ed_ok e" "behind e = []" "length (before e) < 79" "line_key prompt s (unat c) e = (e1, kill, out)"
  shows "ed_ok e1" "before e1 = before e @ [c]" "behind e1 = []" "kill = kill_buf s"
proof -
  have u: "0x20 \<le> unat c" "unat c < 0x7F" using printable_key [OF assms(1)] by auto
  then have n: "unat c \<noteq> KEY_UP" "unat c \<noteq> KEY_DOWN" "unat c \<noteq> KEY_F8" by auto
  have t: "((before e1, behind e1), kill) = text_key (kill_buf s) (unat c) (before e, [])"
    using line_key_text [OF assms(2) n assms(5)] by (simp only: assms(3))
  have "text_key (kill_buf s) (unat c) (before e, []) = ((before e @ [c], []), kill_buf s)"
    using u assms(4) by (simp add: text_key_def)
  then show "before e1 = before e @ [c]" "behind e1 = []" "kill = kill_buf s" using t by simp_all
  have r: "line_key prompt s (unat c) e = (if e_len e < 79 then (insert_at [c] e, kill_buf s, repaint prompt (insert_at [c] e)) else (e, kill_buf s, []))"
    using u by (simp add: line_key_def word_key_def recall_key_def Let_def)
  have "e_len e < 79" using around_facts(1,2,4,6) [OF assms(2)] assms(3,4) by auto
  then show "ed_ok e1" using r assms(5) insert_ok [OF assms(2), of "[c]"] by simp
qed

lemma edit_loop_types:
  assumes "list_all printable line"
  shows "quiet k \<Longrightarrow> k_in k = line @ 0x0D # rest \<Longrightarrow> ed_ok e \<Longrightarrow> behind e = [] \<Longrightarrow> length (before e) + length line < 80
    \<Longrightarrow> \<exists>k'. edit_loop app ad prompt s e k = Some (Line (before e @ line), s, k') \<and> k_in k' = rest \<and> quiet k'"
  using assms
proof (induction line arbitrary: e k)
  case Nil
  have "read_key k = Some (unat (0x0D :: u8), k\<lparr>k_in := rest\<rparr>)" using Nil by (intro read_key_plain) simp_all
  moreover have "e_text e = before e" using before_behind [OF Nil.prems(3)] Nil.prems(4) by simp
  ultimately show ?case using Nil.prems(1) by (subst edit_loop.simps) (simp add: say_quiet)
next
  case (Cons c line)
  have p: "printable c" "list_all printable line" using Cons.prems(6) by simp_all
  then have u: "0x20 \<le> unat c" "unat c < 0x7F" "c \<noteq> 0x1B" using printable_key [of c] by (auto simp: printable_def)
  have rk: "read_key k = Some (unat c, k\<lparr>k_in := line @ 0x0D # rest\<rparr>)" using Cons.prems(1,2) u(3) by (intro read_key_plain) simp_all
  obtain e1 kill out where lk: "line_key prompt s (unat c) e = (e1, kill, out)" by (metis prod_cases3)
  have e1: "ed_ok e1" "before e1 = before e @ [c]" "behind e1 = []" "kill = kill_buf s"
    using line_key_types [OF p(1) Cons.prems(3,4) _ lk] Cons.prems(5) by simp_all
  define k1 where "k1 = k\<lparr>k_in := line @ 0x0D # rest, k_out := k_out k @ out\<rparr>"
  have q: "quiet k1" "k_in k1 = line @ 0x0D # rest" using Cons.prems(1) by (simp_all add: k1_def)
  have b: "before (e1\<lparr>last_tab := False\<rparr>) = before e1" "behind (e1\<lparr>last_tab := False\<rparr>) = behind e1" by (simp_all add: before_def behind_def)
  have "edit_loop app ad prompt s e k = edit_loop app ad prompt s (e1\<lparr>last_tab := False\<rparr>) k1"
    using u Cons.prems(1) by (subst edit_loop.simps) (simp add: rk lk say_quiet e1(4) k1_def)
  moreover have "\<exists>k'. edit_loop app ad prompt s (e1\<lparr>last_tab := False\<rparr>) k1 = Some (Line (before e1 @ line), s, k') \<and> k_in k' = rest \<and> quiet k'"
    using Cons.IH [OF q _ _ _ p(2), of "e1\<lparr>last_tab := False\<rparr>"] e1 b Cons.prems(5) by simp
  ultimately show ?case by (simp add: e1(2))
qed

lemma read_line_types:
  assumes "quiet k" "k_in k = line @ 0x0D # rest" "list_all printable line" "length line < 80"
  shows "\<exists>k'. read_line app ad prompt b s k = Some (Line line, s, k') \<and> k_in k' = rest \<and> quiet k'"
proof -
  have z: "before (ed_start b) = []" "behind (ed_start b) = []" by (simp_all add: before_def behind_def ed_start_def)
  show ?thesis using edit_loop_types [OF assms(3), of "k\<lparr>k_out := k_out k @ repaint prompt (ed_start b)\<rparr>" rest "ed_start b"]
    assms ed_ok_start z by (simp add: read_line_def say_quiet)
qed

text \<open>C37: a line of fewer than 80 printable characters that is typed and ended with return is read: the editor returns
  exactly the characters typed, and leaves the input behind them.\<close>

theorem read_line_typed:
  assumes "quiet k" "k_in k = line @ 0x0D # rest" "list_all printable line" "length line < 80"
  shows "\<exists>k'. read_line app ad prompt b s k = Some (Line line, s, k') \<and> k_in k' = rest"
  using read_line_types [OF assms] by blast

text \<open>Completion does write behind the buffer: \<open>r\<close> before 78 blanks is completed to \<open>rm\<close>, the common part of two commands.\<close>

lemma tab_overruns:
  "tab_key app ad prompt (e\<lparr>e_buf := (\<lambda>i. if i = 0 then 0x72 else if i < 79 then 0x20 else 0), e_len := 79, e_cur := 1\<rparr>) k = Some (None, k)"
proof -
  have "fwd_over (\<lambda>c. \<not> isspace c) (\<lambda>i. if i = 0 then 0x72 else if i < 79 then 0x20 else 0) 0 1 = 1"
    by (simp add: fwd_over.simps isspace_def)
  moreover have "complete_command [0x72] = (- 2, [0x72, 0x6D])"
    by (simp add: complete_command_def builtin_names_def ascii_def completed_def to_upper_def is_lower_def shared_def cstr_def)
  ultimately show ?thesis
    by (simp add: tab_key_def Let_def slice_of_def cstr_def isspace_def)
qed

section \<open>Reading without the Tab key\<close>

text \<open>The console is not redirected and no Tab byte waits on the line.\<close>

definition tabless :: "kernel \<Rightarrow> bool" where
  "tabless k \<longleftrightarrow> quiet k \<and> 9 \<notin> set (k_in k)"

lemma say_tabless: "say out k = Some k' \<Longrightarrow> tabless k \<Longrightarrow> tabless k'"
  by (auto simp: tabless_def say_quiet)

lemma getc_tabless:
  assumes "ccp_getc k = Some (c, k')" "tabless k"
  shows "tabless k' \<and> c \<noteq> 9"
proof (cases "k_in k")
  case Nil
  then have "conin k = None"
    using assms(2) by (simp add: conin_def bios_dispatch_def bios_table_def b_conin_def bdos_redir_getc_def tabless_def quiet_def
        k_getc_def Let_def)
  then show ?thesis using assms(1) by (simp add: ccp_getc_def conin_def)
next
  case (Cons b bs)
  then show ?thesis using assms conin_quiet [of k b bs] by (auto simp: ccp_getc_def conin_def tabless_def)
qed

lemma unat_tab: "(c :: u8) \<noteq> 9 \<Longrightarrow> unat c \<noteq> 9"
  by (simp add: word_unat_eq_iff)

lemma tilde_key_tabless: "tilde_key n k = Some (key, k') \<Longrightarrow> tabless k \<Longrightarrow> n \<noteq> 9 \<Longrightarrow> tabless k' \<and> key \<noteq> 9"
  by (auto simp: tilde_key_def handler_simps split: if_splits dest!: getc_tabless)

lemma read_key_1_tabless: "read_key_1 k = Some (key, k') \<Longrightarrow> tabless k \<Longrightarrow> tabless k' \<and> key \<noteq> 9"
proof -
  assume r: "read_key_1 k = Some (key, k')" and k: "tabless k"
  obtain c k1 where c: "ccp_getc k = Some (c, k1)" using r by (auto simp: read_key_1_def handler_simps)
  have "tabless k1" using getc_tabless [OF c k] by simp
  then show ?thesis using r unfolding read_key_1_def c
    by (cases "c = 0x3B") (auto simp: handler_simps split: if_splits dest: getc_tabless tilde_key_tabless)
qed

lemma read_key_tabless: "read_key k = Some (key, k') \<Longrightarrow> tabless k \<Longrightarrow> tabless k' \<and> key \<noteq> 9"
proof -
  assume r: "read_key k = Some (key, k')" and k: "tabless k"
  obtain c k1 where c: "ccp_getc k = Some (c, k1)" using r by (auto simp: read_key_def handler_simps)
  have k1: "tabless k1" "c \<noteq> 9" using getc_tabless [OF c k] by simp_all
  show ?thesis
  proof (cases "c = 0x1B")
    case False
    then show ?thesis using r c k1 unat_tab by (auto simp: read_key_def)
  next
    case True
    note r = r [unfolded read_key_def c, simplified, unfolded True, simplified]
    obtain c2 k2 where c2: "ccp_getc k1 = Some (c2, k2)" using r by (auto simp: handler_simps)
    have k2: "tabless k2" using getc_tabless [OF c2 k1(1)] by simp
    note r = r [unfolded c2, simplified]
    show ?thesis
    proof (cases "c2 \<in> {0x5B, 0x4F}")
      case False
      then show ?thesis using r k2 by (auto split: if_splits)
    next
      case True
      then obtain c3 k3 where c3: "ccp_getc k2 = Some (c3, k3)" using r by (auto simp: handler_simps split: if_splits)
      have k3: "tabless k3" using getc_tabless [OF c3 k2] by simp
      show ?thesis using True r k3 read_key_1_tabless [of k3 key k'] tilde_key_tabless [of _ k3 key k'] unfolding c3
        by (auto split: if_splits)
    qed
  qed
qed

lemma popup_loop_tabless:
  assumes "popup_loop num k = Some r"
  shows "tabless k \<longrightarrow> tabless (snd r)"
  by (rule popup_loop.raw_induct [where P = "\<lambda>num k r. tabless k \<longrightarrow> tabless (snd r)", OF _ assms])
    (auto simp: handler_simps split: if_splits dest!: getc_tabless say_tabless)

lemma f7_tabless: "f7_popup s k = Some (l, k') \<Longrightarrow> tabless k \<Longrightarrow> tabless k'"
  by (auto simp: f7_popup_def handler_simps split: if_splits option.splits dest!: popup_loop_tabless say_tabless)

lemma isearch_tabless:
  assumes "reverse_isearch s query back found k = Some r"
  shows "tabless k \<longrightarrow> tabless (snd r)"
  by (rule reverse_isearch.raw_induct [where P = "\<lambda>s query back found k r. tabless k \<longrightarrow> tabless (snd r)", OF _ assms])
    (auto simp: handler_simps split: if_splits dest!: getc_tabless say_tabless)

lemma picked_tabless: "picked prompt l e k = Some (e1, k') \<Longrightarrow> tabless k \<Longrightarrow> tabless k'"
  by (auto simp: picked_def Let_def dest!: say_tabless split: if_splits)

lemma edit_loop_tabless:
  assumes "edit_loop app ad prompt s e k = Some r"
  shows "tabless k \<longrightarrow> fst r \<noteq> Overrun"
proof (rule edit_loop.raw_induct [where P = "\<lambda>app ad prompt s e k r. tabless k \<longrightarrow> fst r \<noteq> Overrun", OF _ assms], goal_cases)
  case (1 loop app ad prompt s e k r)
  note IH = 1(1) and body = 1(2)
  show ?case
  proof
    assume k: "tabless k"
    obtain key k1 where key: "read_key k = Some (key, k1)" using body by (auto simp: handler_simps)
    have k1: "tabless k1" "key \<noteq> 9" using read_key_tabless [OF key k] by simp_all
    have IH': "loop app ad prompt s e k = Some r \<Longrightarrow> tabless k \<Longrightarrow> fst r \<noteq> Overrun" for s e k
      using IH by blast
    note body = body [unfolded key, simplified]
    show "fst r \<noteq> Overrun"
    proof (cases "key \<in> {0x0D, 0x0A, 18, KEY_F7, 3} \<or> (key = 4 \<and> e_len e = 0)")
      case True
      then show ?thesis using body k1
        by (auto simp: handler_simps reset_boots split: if_splits
          dest!: say_tabless isearch_tabless f7_tabless picked_tabless dest: IH')
    next
      case False
      obtain e1 kill out where lk: "line_key prompt s key e = (e1, kill, out)" by (metis prod_cases3)
      then obtain k2 where k2: "say out k1 = Some k2" "loop app ad prompt (s\<lparr>kill_buf := kill\<rparr>) (e1\<lparr>last_tab := False\<rparr>) k2 = Some r"
        using body False k1(2) by (auto simp: handler_simps split: if_splits)
      show ?thesis by (rule IH' [OF k2(2) say_tabless [OF k2(1) k1(1)]])
    qed
  qed
qed

lemma read_line_tabless: "read_line app ad prompt b s k = Some (r, s', k') \<Longrightarrow> tabless k \<Longrightarrow> r \<noteq> Overrun"
  by (auto simp: read_line_def handler_simps dest!: say_tabless edit_loop_tabless)

text \<open>C38: whatever is typed -- editing, completion, recalled lines, searches -- when the editor returns a line, the line fits
  its buffer of 80 bytes, and when it returns at all, the kill buffer fits too and the kernel is left in a state that
  satisfies its invariant, provided that it started in one and that programs keep it (\<open>app_ok\<close>). The editor may also end by writing
  behind the line buffer, but only when a Tab byte is waiting on the line or the console is redirected: it is the completion that
  does not check the room for the common part of several names.\<close>

theorem read_line_fits:
  assumes "read_line app ad prompt b s k = Some (r, s', k')" "length (kill_buf s) < CCP_LINE_MAX" "kernel_ok k" "app_ok app"
  shows "(case r of Line l \<Rightarrow> length l < CCP_LINE_MAX | Rebooted \<Rightarrow> True | Overrun \<Rightarrow> 9 \<in> set (k_in k) \<or> \<not> quiet k)
    \<and> length (kill_buf s') < CCP_LINE_MAX \<and> kernel_ok k'"
  using read_line_ok [OF assms] read_line_tabless [OF assms(1)] by (cases r) (auto simp: tabless_def)

definition demo_addrs :: addrs where
  "demo_addrs = \<lparr>at_fcb = 0x0EC10000, at_dma = 0x0EC10030, at_name = 0x0EC10100, at_name2 = 0x0EC10200, at_pair = 0x0EC10300,
     at_cwd = 0x0EC10400\<rparr>"

lemma read_line_typed_witness:
  "\<exists>k'. read_line (\<lambda>base n t k. None) demo_addrs [] (\<lambda>_. 0) ccp_start (demo_term\<lparr>k_in := [0x6C, 0x73, 0x0D]\<rparr>) = Some (Line [0x6C, 0x73], ccp_start, k')
     \<and> k_in k' = []"
proof -
  have "quiet (demo_term\<lparr>k_in := [0x6C, 0x73, 0x0D]\<rparr>)"
    by (simp add: quiet_def demo_term_def boot_kernel_def bdos_init_def inrd_def mem32_def)
  moreover have "list_all printable [0x6C, 0x73]" by (simp add: printable_def)
  ultimately show ?thesis by (intro read_line_typed) simp_all
qed

lemma demo_term_ok: "kernel_ok (demo_term\<lparr>k_in := i\<rparr>)"
  using boot_ok by (simp add: demo_term_def)

lemma read_line_fits_witness:
  "\<exists>l s' k'. read_line (\<lambda>base n t k. None) demo_addrs [] (\<lambda>_. 0) ccp_start (demo_term\<lparr>k_in := [0x6C, 0x73, 0x0D]\<rparr>) = Some (Line l, s', k')
     \<and> length l < 80 \<and> kernel_ok k'"
proof -
  have "quiet (demo_term\<lparr>k_in := [0x6C, 0x73, 0x0D]\<rparr>)"
    by (simp add: quiet_def demo_term_def boot_kernel_def bdos_init_def inrd_def mem32_def)
  then obtain k' where r: "read_line (\<lambda>base n t k. None) demo_addrs [] (\<lambda>_. 0) ccp_start (demo_term\<lparr>k_in := [0x6C, 0x73, 0x0D]\<rparr>) = Some (Line [0x6C, 0x73], ccp_start, k')"
    using read_line_types [of "demo_term\<lparr>k_in := [0x6C, 0x73, 0x0D]\<rparr>" "[0x6C, 0x73]" "[]" "\<lambda>base n t k. None" demo_addrs "[]" "\<lambda>_. 0" ccp_start]
    by (auto simp: printable_def)
  have "length (kill_buf ccp_start) < 80" "app_ok (\<lambda>base n t k. None)" by (simp_all add: ccp_start_def app_ok_def)
  from read_line_fits [OF r this(1) demo_term_ok this(2)] r show ?thesis by auto
qed

end
