(* ===== verification/Ccp_Cmd.thy ===== *)
theory Ccp_Cmd
  imports Ccp_Line
begin

text \<open>
  The commands of the command processor that use the kernel (\<open>ccpmain.c\<close>): files, memory, S-records, the text editor.
  A command ends with a result code, or through the warm boot. Where a command passes the address of a string or
  structure, the model stores it at an address of \<open>addrs\<close> or of \<open>blobs\<close> first.
\<close>

datatype cmd_end = Rc int | Boots

type_synonym cmd = "cstring list \<Rightarrow> ccp \<Rightarrow> kernel \<Rightarrow> (cmd_end \<times> ccp \<times> kernel) option"

text \<open>The compressed texts linked into the image, a second structure, and what the line buffer of \<open>srec\<close> holds before.\<close>

record blobs = addrs +
  help_lz :: u32
  help_size :: u32
  stty_lz :: u32
  stty_size :: u32
  at_pair2 :: u32
  line_bytes :: mem

definition msg :: "string \<Rightarrow> u8 list" where
  "msg t = ccp_puts (ascii t @ [0x0D, 0x0A])"

definition say_rc :: "u8 list \<Rightarrow> int \<Rightarrow> ccp \<Rightarrow> kernel \<Rightarrow> (cmd_end \<times> ccp \<times> kernel) option" where
  "say_rc out rc s k = map_option (\<lambda>k1. (Rc rc, s, k1)) (say out k)"

text \<open>A command that only prints, and one that also changes the state of the command processor.\<close>

definition printing :: "pure_cmd \<Rightarrow> cmd" where
  "printing f argv s k = (case f argv of (out, rc) \<Rightarrow> say_rc out rc s k)"

definition printing_opt :: "(cstring list \<Rightarrow> (u8 list \<times> int) option) \<Rightarrow> cmd" where
  "printing_opt f argv s k = do { (out, rc) \<leftarrow> f argv; say_rc out rc s k }"

definition stating :: "state_cmd \<Rightarrow> cmd" where
  "stating f argv s k = (case f argv s of (out, rc, s1) \<Rightarrow> say_rc out rc s1 k)"

section \<open>Information\<close>

definition cmd_help :: "app \<Rightarrow> blobs \<Rightarrow> cmd" where
  "cmd_help app ad argv s k =
     do { k1 \<leftarrow> say (msg ''XCP/M-68K commands:'') k; (r, k2) \<leftarrow> sys app 127 (help_lz ad) (help_size ad) k1; Some (Rc 0, s, k2) }"

definition cmd_ver :: "app \<Rightarrow> blobs \<Rightarrow> cmd" where
  "cmd_ver app ad argv s k =
     do { k1 \<leftarrow> say (msg ''XCP/M-68K v0.1 (compressed CCP)'' @ ccp_puts (ascii ''BDOS version (BDOS 12) = 0x'')) k;
          (v, k2) \<leftarrow> sys app 12 0 0 k1;
          k3 \<leftarrow> say (ccp_puthex v 4 @ nl @ ccp_puts (ascii ''XCP/M magic   (BDOS 100) = 0x'')) k2;
          (w, k4) \<leftarrow> sys app 100 0 0 k3;
          say_rc (ccp_puthex w 8 @ nl) 0 s k4 }"

text \<open>The table of memory regions: a 16-bit count and pairs of start and length.\<close>

definition region :: "(u32 \<Rightarrow> u8) \<Rightarrow> u32 \<Rightarrow> nat \<Rightarrow> u32 \<times> u32" where
  "region m addr i = (mem32 m (addr + 2 + of_nat (8 * i)), mem32 m (addr + 2 + of_nat (8 * i) + 4))"

definition region_line :: "(u32 \<Rightarrow> u8) \<Rightarrow> u32 \<Rightarrow> nat \<Rightarrow> u8 list" where
  "region_line m addr i =
     (case region m addr i of (start, len) \<Rightarrow>
        ccp_puts (ascii ''  ['') @ ccp_putdec (of_nat i) @ ccp_puts (ascii ''] 0x'') @ ccp_puthex start 6
        @ ccp_puts (ascii '' .. 0x'') @ ccp_puthex (start + len - 1) 6 @ ccp_puts (ascii '' ('') @ ccp_putdec len @ msg '' bytes)'')"

definition cmd_mem :: "app \<Rightarrow> blobs \<Rightarrow> cmd" where
  "cmd_mem app ad argv s k =
     do { (addr, k1) \<leftarrow> bios_dispatch 18 0 0 k;
          let m = k_mem k1; let n = unat (push_bit 8 (ucast (m addr)) OR ucast (m (addr + 1)) :: u16);
          say_rc (ccp_puts (ascii ''Memory regions ('') @ ccp_putdec (of_nat n) @ msg ''):''
            @ concat (map (region_line m addr) [0..<n])) 0 s k1 }"

definition cmd_free :: "app \<Rightarrow> blobs \<Rightarrow> cmd" where
  "cmd_free app ad argv s k =
     do { (mr, k1) \<leftarrow> bios_dispatch 18 0 0 k;
          let (start, len) = region (k_mem k1) mr 0;
          say_rc (ccp_puts (ascii ''TPA  : 0x'') @ ccp_puthex start 6 @ ccp_puts (ascii '' - 0x'') @ ccp_puthex (start + len - 1) 6
            @ ccp_puts (ascii '' ('') @ ccp_putdec len @ msg '' bytes)''
            @ ccp_puts (ascii ''History buffer slots: '') @ ccp_putdec (of_nat (hist_count s)) @ ccp_puts (ascii ''/'') @ ccp_putdec 8 @ nl
            @ ccp_puts (ascii ''Env block:            '') @ ccp_putdec (of_nat (length (env_block s))) @ ccp_puts (ascii ''/'') @ ccp_putdec 256
            @ msg '' bytes'') 0 s k1 }"

definition cmd_user :: "app \<Rightarrow> blobs \<Rightarrow> cmd" where
  "cmd_user app ad argv s k =
     (if length argv < 2
      then do { k1 \<leftarrow> say (ccp_puts (ascii ''user = '')) k; (u, k2) \<leftarrow> sys app 32 0xFF 0 k1; say_rc (ccp_putdec (u AND 0xFF) @ nl) 0 s k2 }
      else case parse_num (argv ! 1) of
        None \<Rightarrow> say_rc (msg ''?usage: user 0..15'') 1 s k
      | Some v \<Rightarrow> if 15 < v then say_rc (msg ''?usage: user 0..15'') 1 s k
                  else do { (r, k1) \<leftarrow> sys app 32 v 0 k; Some (Rc 0, s, k1) })"

definition cmd_stty :: "app \<Rightarrow> blobs \<Rightarrow> cmd" where
  "cmd_stty app ad argv s k =
     (if 2 \<le> length argv \<and> ccp_strieq (argv ! 1) (ascii ''-a'')
      then do { (r, k1) \<leftarrow> sys app 127 (stty_lz ad) (stty_size ad) k; Some (Rc 0, s, k1) }
      else say_rc (msg ''speed 9600 baud; line = 0'') 0 s k)"

definition cmd_exit :: "app \<Rightarrow> blobs \<Rightarrow> cmd" where
  "cmd_exit app ad argv s k =
     do { k1 \<leftarrow> say (msg ''warm boot'') k; (r, k2) \<leftarrow> bdos_dispatch app 0 0 0 k1;
          Some (case r of Warmboot \<Rightarrow> Boots | Ret v \<Rightarrow> Rc 0, s, k2) }"

section \<open>Memory\<close>

definition dump_line :: "(u32 \<Rightarrow> u8) \<Rightarrow> u32 \<Rightarrow> nat \<Rightarrow> nat \<Rightarrow> u8 list" where
  "dump_line m addr count i =
     (let p = (\<lambda>j. m (addr + of_nat (i + j))) in
      ccp_puthex (addr + of_nat i) 6 @ ccp_puts (ascii '': '')
      @ concat (map (\<lambda>j. if i + j < count then ccp_puthex (ucast (p j)) 2 @ [0x20] else ccp_puts (ascii ''   '')) [0..<16])
      @ [0x20]
      @ map (\<lambda>j. if 0x20 \<le> p j \<and> p j < 0x7F then p j else 0x2E) [0..<min 16 (count - i)] @ nl)"

definition cmd_dump :: "app \<Rightarrow> blobs \<Rightarrow> cmd" where
  "cmd_dump app ad argv s k =
     (case (if length argv < 2 then None else parse_num (argv ! 1)) of
        None \<Rightarrow> say_rc (usage argv ''<addr> [count]'') 1 s k
      | Some addr \<Rightarrow>
          let asked = (if 3 \<le> length argv then (case parse_num (argv ! 2) of None \<Rightarrow> 64 | Some c \<Rightarrow> c) else 64);
              count = unat (if 256 < asked then 256 else asked) in
          say_rc (concat (map (\<lambda>l. dump_line (k_mem k) addr count (16 * l)) [0..<(count + 15) div 16])) 0 s k)"

definition cmd_peek :: "app \<Rightarrow> blobs \<Rightarrow> cmd" where
  "cmd_peek app ad argv s k =
     (case (if length argv < 2 then None else parse_num (argv ! 1)) of
        None \<Rightarrow> say_rc (usage argv ''<addr>'') 1 s k
      | Some addr \<Rightarrow>
          let m = k_mem k; a2 = addr AND NOT 1; a4 = addr AND NOT 3 in
          say_rc (ccp_puts (ascii ''0x'') @ ccp_puthex addr 6 @ ccp_puts (ascii '':  b=0x'') @ ccp_puthex (ucast (m addr)) 2
            @ ccp_puts (ascii ''  w=0x'') @ ccp_puthex (push_bit 8 (ucast (m a2)) OR ucast (m (a2 + 1))) 4
            @ ccp_puts (ascii ''  l=0x'') @ ccp_puthex (mem32 m a4) 8 @ nl) 0 s k)"

definition cmd_poke :: "app \<Rightarrow> blobs \<Rightarrow> cmd" where
  "cmd_poke app ad argv s k =
     (case (if length argv < 3 then None else parse_num (argv ! 1), if length argv < 3 then None else parse_num (argv ! 2)) of
        (Some addr, Some val) \<Rightarrow> say_rc (msg ''ok'') 0 s (setb addr (ucast val) k)
      | _ \<Rightarrow> say_rc (usage argv ''<addr> <byte>'') 1 s k)"

section \<open>Files\<close>

text \<open>Whether the volume is mounted; it is mounted on the first use.\<close>

definition ccp_ensure_mounted :: "app \<Rightarrow> ccp \<Rightarrow> kernel \<Rightarrow> (bool \<times> ccp \<times> kernel) option" where
  "ccp_ensure_mounted app s k =
     (if ccp_mounted s then Some (True, s, k)
      else do { (r, k1) \<leftarrow> sys app 112 0 0 k;
                if r = 0 then map_option (\<lambda>k2. (False, s, k2)) (say (msg ''?no volume mounted'') k1)
                else Some (True, s\<lparr>ccp_mounted := True\<rparr>, k1) })"

definition cmd_mount :: "app \<Rightarrow> blobs \<Rightarrow> cmd" where
  "cmd_mount app ad argv s k =
     do { (t, k1) \<leftarrow> sys app 112 0 0 k;
          if t = 0 then say_rc (msg ''?mount failed'') 1 s k1
          else say_rc (ccp_puts (ascii ''FAT'') @ ccp_putdec t @ msg '' volume mounted'') 0 s k1 }"

definition cmd_ls :: "app \<Rightarrow> blobs \<Rightarrow> cmd" where
  "cmd_ls app ad argv s k =
     do { (ok, s1, k1) \<leftarrow> ccp_ensure_mounted app s k;
          if \<not> ok then Some (Rc 1, s1, k1)
          else do { (r, k2) \<leftarrow> sys app 110 0 0 k1;
                    if r = 0xFFFFFFFF then say_rc (errf (ascii ''ls'') None ''failed'') 1 s1 k2
                    else say_rc (ccp_puts (ascii ''('') @ ccp_putdec r @ msg '' entries)'') 0 s1 k2 } }"

text \<open>The input is echoed until its end, by the call that reads it.\<close>

partial_function (option) cat_input :: "app \<Rightarrow> kernel \<Rightarrow> kernel option" where
  "cat_input app k =
     do { (r, k1) \<leftarrow> sys app 1 0 0 k; if r AND 0xFF = 0x1A \<or> r AND 0xFF = 0 then Some k1 else cat_input app k1 }"

primrec cat_files :: "app \<Rightarrow> blobs \<Rightarrow> bool \<Rightarrow> cstring list \<Rightarrow> int \<Rightarrow> kernel \<Rightarrow> (int \<times> kernel) option" where
  "cat_files app ad many [] err k = Some (err, k)"
| "cat_files app ad many (a # as) err k =
     do { k1 \<leftarrow> say (if many then ccp_puts (ascii ''==> '') @ ccp_puts a @ msg '' <=='' else []) k;
          (r, k2) \<leftarrow> sys app 111 (at_name ad) 0 (put_str (at_name ad) a k1);
          if r = 0xFFFFFFFF then do { k3 \<leftarrow> say (errf (ascii ''cat'') (Some a) ''not found'') k2; cat_files app ad many as 1 k3 }
          else cat_files app ad many as err k2 }"

definition cmd_cat :: "app \<Rightarrow> blobs \<Rightarrow> cmd" where
  "cmd_cat app ad argv s k =
     (if length argv < 2 then map_option (\<lambda>k1. (Rc 0, s, k1)) (cat_input app k)
      else do { (ok, s1, k1) \<leftarrow> ccp_ensure_mounted app s k;
                if \<not> ok then Some (Rc 1, s1, k1)
                else map_option (\<lambda>(err, k2). (Rc err, s1, k2)) (cat_files app ad (2 < length argv) (tl argv) 0 k1) })"

definition pad_name :: "nat \<Rightarrow> cstring \<Rightarrow> u8 list" where
  "pad_name n cs = map to_upper cs @ replicate (n - length cs) 0x20"

definition fcb_pack_name :: "cstring \<Rightarrow> u8 list" where
  "fcb_pack_name name =
     (let base = take 8 (takeWhile (\<lambda>c. c \<noteq> 0x2E) name); r = drop (length base) name;
          ext = take 3 (case r of [] \<Rightarrow> [] | c # r1 \<Rightarrow> if c = 0x2E then r1 else r) in
      pad_name 8 base @ pad_name 3 ext)"

definition build_fcb :: "u32 \<Rightarrow> cstring \<Rightarrow> kernel \<Rightarrow> kernel" where
  "build_fcb fcb name k = put_fcb fcb (fcb_pack_name name) k"

primrec rm_files :: "app \<Rightarrow> blobs \<Rightarrow> cstring list \<Rightarrow> int \<Rightarrow> kernel \<Rightarrow> (int \<times> kernel) option" where
  "rm_files app ad [] err k = Some (err, k)"
| "rm_files app ad (a # as) err k =
     do { (r, k1) \<leftarrow> sys app 19 (at_fcb ad) 0 (build_fcb (at_fcb ad) a k);
          if r \<noteq> 0 then do { k2 \<leftarrow> say (errf (ascii ''rm'') (Some a) ''not found'') k1; rm_files app ad as 1 k2 }
          else rm_files app ad as err k1 }"

definition cmd_rm :: "app \<Rightarrow> blobs \<Rightarrow> cmd" where
  "cmd_rm app ad argv s k =
     (if length argv < 2 then say_rc (usage argv ''<name>'') 1 s k
      else map_option (\<lambda>(err, k1). (Rc err, s, k1)) (rm_files app ad (tl argv) 0 k))"

definition cmd_cp :: "app \<Rightarrow> blobs \<Rightarrow> cmd" where
  "cmd_cp app ad argv s k =
     (if length argv < 3 then say_rc (usage argv ''<src> <dst>'') 1 s k
      else do { (ok, s1, k1) \<leftarrow> ccp_ensure_mounted app s k;
                if \<not> ok then Some (Rc 1, s1, k1)
                else do { (r, k2) \<leftarrow> sys app 123 (at_name ad) (at_name2 ad)
                            (put_str (at_name2 ad) (argv ! 2) (put_str (at_name ad) (argv ! 1) k1));
                          if r = 0xFFFFFFFF then say_rc (errf (ascii ''cp'') (Some (argv ! 1)) ''failed'') 1 s1 k2
                          else say_rc (msg ''ok'') 0 s1 k2 } })"

text \<open>The old name at offset 1, the new one at offset 17.\<close>

definition cmd_mv :: "app \<Rightarrow> blobs \<Rightarrow> cmd" where
  "cmd_mv app ad argv s k =
     (if length argv < 3 then say_rc (usage argv ''<old> <new>'') 1 s k
      else do { (r, k1) \<leftarrow> sys app 23 (at_fcb ad) 0
                  (k\<lparr>k_mem := put_bytes (at_fcb ad) ([0] @ fcb_pack_name (argv ! 1) @ replicate 5 0 @ fcb_pack_name (argv ! 2) @ replicate 8 0) (k_mem k)\<rparr>);
                if r \<noteq> 0 then say_rc (errf (ascii ''mv'') None ''failed'') 1 s k1 else say_rc (msg ''ok'') 0 s k1 })"

definition cmd_mkdir :: "app \<Rightarrow> blobs \<Rightarrow> cmd" where
  "cmd_mkdir app ad argv s k =
     (if length argv < 2 then say_rc (usage argv ''<name>'') 1 s k
      else do { (r, k1) \<leftarrow> sys app 118 (at_name ad) 0 (put_str (at_name ad) (argv ! 1) k);
                if r \<noteq> 0 then say_rc (errf (ascii ''mkdir'') (Some (argv ! 1)) ''failed'') 1 s k1 else say_rc (msg ''ok'') 0 s k1 })"

definition cmd_rmdir :: "app \<Rightarrow> blobs \<Rightarrow> cmd" where
  "cmd_rmdir app ad argv s k =
     (if length argv < 2 then say_rc (usage argv ''<name>'') 1 s k
      else do { (r, k1) \<leftarrow> sys app 119 (at_name ad) 0 (put_str (at_name ad) (argv ! 1) k);
                if r = 1 then say_rc (errf (ascii ''rmdir'') (Some (argv ! 1)) ''not empty'') 1 s k1
                else if r \<noteq> 0 then say_rc (errf (ascii ''rmdir'') (Some (argv ! 1)) ''failed'') 1 s k1
                else say_rc (msg ''ok'') 0 s k1 })"

text \<open>The drive, the user number and the current path, as the kernel reports them.\<close>

definition where_am_i :: "app \<Rightarrow> blobs \<Rightarrow> kernel \<Rightarrow> (u32 \<times> u32 \<times> cstring \<times> kernel) option" where
  "where_am_i app ad k =
     do { (d, k1) \<leftarrow> sys app 25 0 0 k; (u, k2) \<leftarrow> sys app 32 0xFF 0 k1; (r, k3) \<leftarrow> sys app 125 (at_cwd ad) 40 k2;
          cwd \<leftarrow> cstr_at (k_mem k3) (at_cwd ad); Some (d, u AND 0xFF, cwd, k3) }"

definition drive_char :: "u32 \<Rightarrow> u8" where
  "drive_char d = 0x41 + ucast (d AND 0x0F)"

definition user_digits :: "u32 \<Rightarrow> u8 list" where
  "user_digits u = (if u = 0 then [] else (if 10 \<le> u then [0x30 + ucast (u div 10)] else []) @ [0x30 + ucast (u mod 10)])"

definition cmd_pwd :: "app \<Rightarrow> blobs \<Rightarrow> cmd" where
  "cmd_pwd app ad argv s k =
     do { (d, u, cwd, k1) \<leftarrow> where_am_i app ad k;
          say_rc ([drive_char d, 0x3A] @ user_digits u @ ccp_puts (if cwd \<noteq> [] then cwd else [0x2F]) @ nl) 0 s k1 }"

text \<open>\<open>B:\<close> or a user number; the number is an \<open>int\<close> and must not overflow. Whether the argument was handled.\<close>

definition cd_try_drive_or_user :: "app \<Rightarrow> cstring \<Rightarrow> kernel \<Rightarrow> (bool \<times> kernel) option" where
  "cd_try_drive_or_user app t k =
     (if length t = 2 \<and> t ! 1 = 0x3A
      then (let c = to_upper (t ! 0) in
        if c < 0x41 \<or> 0x50 < c then map_option (\<lambda>k1. (True, k1)) (say (msg ''?cd: bad drive'') k)
        else map_option (\<lambda>(r, k1). (True, k1)) (sys app 14 (ucast (c - 0x41)) 0 k))
      else let ds = takeWhile (\<lambda>c. 0x30 \<le> c \<and> c \<le> 0x39) t; u = dec_value 0 ds in
        if 2 ^ 31 \<le> u then None
        else if ds = t \<and> u \<le> 15 then map_option (\<lambda>(r, k1). (True, k1)) (sys app 32 (of_nat u) 0 k)
        else Some (False, k))"

definition cmd_cd :: "app \<Rightarrow> blobs \<Rightarrow> cmd" where
  "cmd_cd app ad argv s k =
     (if length argv < 2 then cmd_pwd app ad [] s k
      else let name = take 39 (argv ! 1) in
        do { (handled, k1) \<leftarrow> cd_try_drive_or_user app name k;
             if handled then Some (Rc 0, s, k1)
             else do { (r, k2) \<leftarrow> sys app 124 (at_name ad) 0 (put_str (at_name ad) name k1);
                       if r \<noteq> 0 then say_rc (msg ''?cd: no such directory'') 1 s k2 else Some (Rc 0, s, k2) } })"

text \<open>A structure of a pointer and a size.\<close>

definition put_pair :: "u32 \<Rightarrow> u32 \<Rightarrow> u32 \<Rightarrow> kernel \<Rightarrow> kernel" where
  "put_pair a p n k = k\<lparr>k_mem := put32 (a + 4) n (put32 a p (k_mem k))\<rparr>"

definition cmd_load :: "app \<Rightarrow> blobs \<Rightarrow> cmd" where
  "cmd_load app ad argv s k =
     (if length argv < 3 then say_rc (usage argv ''<addr> <file> [maxlen]'') 1 s k
      else do { (ok, s1, k1) \<leftarrow> ccp_ensure_mounted app s k;
                if \<not> ok then Some (Rc 1, s1, k1)
                else case parse_num (argv ! 1) of
                  None \<Rightarrow> say_rc (errf (argv ! 0) (Some (argv ! 1)) ''bad addr'') 1 s1 k1
                | Some addr \<Rightarrow>
                  (case (if 4 \<le> length argv then parse_num (argv ! 3) else Some 0x8000) of
                     None \<Rightarrow> say_rc (errf (argv ! 0) (Some (argv ! 3)) ''bad maxlen'') 1 s1 k1
                   | Some mx \<Rightarrow>
                       do { (r, k2) \<leftarrow> sys app 121 (at_name ad) (at_pair ad) (put_pair (at_pair ad) addr mx (put_str (at_name ad) (argv ! 2) k1));
                            if r = 0xFFFFFFFF then say_rc (errf (argv ! 0) (Some (argv ! 2)) ''load failed'') 1 s1 k2
                            else say_rc (ccp_puts (ascii ''ok ('') @ ccp_putdec r @ ccp_puts (ascii '' bytes at 0x'') @ ccp_puthex addr 6
                                   @ msg '')'') 0 s1 k2 }) })"

definition cmd_save :: "app \<Rightarrow> blobs \<Rightarrow> cmd" where
  "cmd_save app ad argv s k =
     (if length argv < 4 then say_rc (usage argv ''<addr> <len> <file>'') 1 s k
      else do { (ok, s1, k1) \<leftarrow> ccp_ensure_mounted app s k;
                if \<not> ok then Some (Rc 1, s1, k1)
                else case parse_num (argv ! 1) of
                  None \<Rightarrow> say_rc (errf (argv ! 0) (Some (argv ! 1)) ''bad addr'') 1 s1 k1
                | Some addr \<Rightarrow>
                  (case parse_num (argv ! 2) of
                     None \<Rightarrow> say_rc (errf (argv ! 0) (Some (argv ! 2)) ''bad len'') 1 s1 k1
                   | Some n \<Rightarrow>
                       do { (r, k2) \<leftarrow> sys app 120 (at_name ad) (at_pair ad) (put_pair (at_pair ad) addr n (put_str (at_name ad) (argv ! 3) k1));
                            if r \<noteq> 0 then say_rc (errf (argv ! 0) (Some (argv ! 3)) ''save failed'') 1 s1 k2
                            else say_rc (ccp_puts (ascii ''ok ('') @ ccp_putdec n @ msg '' bytes)'') 0 s1 k2 }) })"

end
