(* ===== verification/Ccp_Srec.thy ===== *)
theory Ccp_Srec
  imports Ccp_Cmd
begin

text \<open>
  Two commands that work on memory through the console (\<open>ccpmain.c\<close>): the transfer of S-records in both directions,
  and the text editor. What \<open>srec -w\<close> sends is shown to restore the memory when it is received.
\<close>

type_synonym amem = "u32 \<Rightarrow> u8"

section \<open>Sending S-records\<close>

text \<open>One byte: two digits, and the sum.\<close>

definition srec_putb :: "u8 \<Rightarrow> u8 list \<times> u8 \<Rightarrow> u8 list \<times> u8" where
  "srec_putb b = (\<lambda>(out, ck). (out @ ccp_puthex (ucast b) 2, ck + b))"

definition srec_record :: "amem \<Rightarrow> u32 \<Rightarrow> nat \<Rightarrow> u8 list" where
  "srec_record m a chunk =
     (let bytes = [of_nat (chunk + 4), ucast (drop_bit 16 a), ucast (drop_bit 8 a), ucast a] @ get_bytes a chunk m in
      case fold srec_putb bytes ([], 0) of (out, ck) \<Rightarrow> ccp_puts (ascii ''S2'') @ out @ ccp_puthex (ucast (NOT ck)) 2 @ nl)"

definition srec_send :: "amem \<Rightarrow> u32 \<Rightarrow> nat \<Rightarrow> u8 list" where
  "srec_send m addr n =
     concat (map (\<lambda>i. srec_record m (addr + of_nat (16 * i)) (if 16 < n - 16 * i then 16 else n - 16 * i)) [0..<(n + 15) div 16])
     @ msg ''S804000000FB''"

section \<open>Receiving\<close>

definition hex_nibble :: "u8 \<Rightarrow> int" where
  "hex_nibble c =
     (if 0x30 \<le> c \<and> c \<le> 0x39 then uint c - 0x30
      else if 0x41 \<le> c \<and> c \<le> 0x46 then uint c - 0x41 + 10
      else if 0x61 \<le> c \<and> c \<le> 0x66 then uint c - 0x61 + 10
      else -1)"

text \<open>The line buffer holds 256 bytes; \<open>n\<close> of them have been read. \<open>None\<close> in the result: Ctrl-C.\<close>

partial_function (option) srec_read_line :: "mem \<Rightarrow> nat \<Rightarrow> kernel \<Rightarrow> (nat option \<times> mem \<times> kernel) option" where
  "srec_read_line b n k =
     do { (c, k1) \<leftarrow> ccp_getc k;
          if c = 0x0D \<or> c = 0x0A then (if 0 < n then Some (Some n, b(n := 0), k1) else srec_read_line b n k1)
          else if c = 0x03 then Some (None, b, k1)
          else if n < 255 then srec_read_line (b(n := c)) (Suc n) k1
          else srec_read_line b n k1 }"

text \<open>Two digits at a position.\<close>

definition srec_byte :: "mem \<Rightarrow> nat \<Rightarrow> u8 option" where
  "srec_byte b p =
     (let hi = hex_nibble (b p); lo = hex_nibble (b (p + 1)) in
      if hi < 0 \<or> lo < 0 then None else Some (word_of_int (push_bit 4 hi OR lo)))"

text \<open>An address of \<open>n\<close> bytes.\<close>

primrec srec_addr_loop :: "mem \<Rightarrow> nat \<Rightarrow> nat \<Rightarrow> u32 \<Rightarrow> u32 option" where
  "srec_addr_loop b p 0 a = Some a"
| "srec_addr_loop b p (Suc n) a =
     (case srec_byte b p of None \<Rightarrow> None | Some v \<Rightarrow> srec_addr_loop b (p + 2) n (push_bit 8 a OR ucast v))"

definition srec_addr :: "mem \<Rightarrow> nat \<Rightarrow> nat \<Rightarrow> u32 option" where
  "srec_addr b p alen = srec_addr_loop b p (alen div 2) 0"

text \<open>The data bytes: whether all were read, the position behind them, the sum, and the memory they were stored in.\<close>

primrec srec_data :: "mem \<Rightarrow> nat \<Rightarrow> nat \<Rightarrow> u32 \<Rightarrow> u8 \<Rightarrow> amem \<Rightarrow> bool \<times> nat \<times> u8 \<times> amem" where
  "srec_data b p 0 a ck m = (True, p, ck, m)"
| "srec_data b p (Suc n) a ck m =
     (case srec_byte b p of
        None \<Rightarrow> (False, p + 2, ck, m)
      | Some v \<Rightarrow> srec_data b (p + 2) n (a + 1) (ck + v) (m(a := v)))"

text \<open>A line: what is printed, whether it ends the transfer (with the entry when its address was read), and the memory.\<close>

definition srec_end_line :: "mem \<Rightarrow> amem \<Rightarrow> u8 list \<times> u32 option option \<times> amem" where
  "srec_end_line b m =
     (case srec_addr b 4 (if b 1 = 0x37 then 8 else if b 1 = 0x38 then 6 else 4) of
        None \<Rightarrow> (msg ''?bad hex'', Some None, m)
      | Some e \<Rightarrow> (ccp_puts (ascii ''end record, entry=0x'') @ ccp_puthex e 6 @ nl, Some (Some e), m))"

definition srec_data_line :: "mem \<Rightarrow> amem \<Rightarrow> u8 list \<times> u32 option option \<times> amem" where
  "srec_data_line b m =
     (let alen = (if b 1 = 0x31 then 4 else if b 1 = 0x32 then 6 else if b 1 = 0x33 then 8 else 0 :: nat) in
      case srec_byte b 2 of
        None \<Rightarrow> (msg ''?bad count'', None, m)
      | Some count \<Rightarrow>
          if count = 0 then (msg ''?bad count'', None, m)
          else if alen = 0 then ([], None, m)
          else case srec_addr b 4 alen of
            None \<Rightarrow> (msg ''?bad hex'', None, m)
          | Some a \<Rightarrow>
              let ck = count + ucast (drop_bit 24 a) + ucast (drop_bit 16 a) + ucast (drop_bit 8 a) + ucast a in
              case srec_data b (4 + alen) (unat count - alen div 2 - 1) a ck m of
                (ok, p, ck1, m1) \<Rightarrow>
                  if \<not> ok then (msg ''?bad hex'', None, m1)
                  else if srec_byte b p \<noteq> Some (NOT ck1) then (ccp_puts (ascii ''?cksum @ 0x'') @ ccp_puthex a 6 @ nl, None, m1)
                  else ([], None, m1))"

definition srec_line :: "mem \<Rightarrow> amem \<Rightarrow> u8 list \<times> u32 option option \<times> amem" where
  "srec_line b m =
     (if b 0 \<noteq> 0x53 then (msg ''?expected S-record'', None, m)
      else if b 1 \<in> {0x37, 0x38, 0x39} then srec_end_line b m
      else if b 1 < 0x30 \<or> 0x35 < b 1 then ([], None, m)
      else srec_data_line b m)"

text \<open>The loop over the lines. The result is the entry of the end record, or \<open>None\<close> when it was aborted.\<close>

partial_function (option) srec_loop :: "mem \<Rightarrow> kernel \<Rightarrow> (u32 option option \<times> kernel) option" where
  "srec_loop b k =
     do { (n, b1, k1) \<leftarrow> srec_read_line b 0 k;
          if n = None then Some (None, k1)
          else case srec_line b1 (k_mem k1) of
            (out, stop, m) \<Rightarrow>
              do { k2 \<leftarrow> say out (k1\<lparr>k_mem := m\<rparr>);
                   (case stop of None \<Rightarrow> srec_loop b1 k2 | Some e \<Rightarrow> Some (Some e, k2)) } }"

text \<open>\<open>--exec\<close> calls the entry, a program that got no arguments and whose size is not known.\<close>

definition cmd_srec :: "app \<Rightarrow> blobs \<Rightarrow> cmd" where
  "cmd_srec app ad argv s k =
     (if 2 \<le> length argv \<and> ccp_strieq (argv ! 1) (ascii ''-w'')
      then (case (if length argv < 4 then None else parse_num (argv ! 2), if length argv < 4 then None else parse_num (argv ! 3)) of
              (Some addr, Some n) \<Rightarrow> say_rc (srec_send (k_mem k) addr (unat n)) 0 s k
            | _ \<Rightarrow> say_rc (usage argv ''-w addr len'') 1 s k)
      else do { k1 \<leftarrow> say (msg ''Send S-records (Ctrl-C to abort):'') k;
                (r, k2) \<leftarrow> srec_loop (line_bytes ad) k1;
                (case r of
                   None \<Rightarrow> say_rc (nl @ msg ''?aborted'') 1 s k2
                 | Some e \<Rightarrow>
                     if 2 \<le> length argv \<and> ccp_strieq (argv ! 1) (ascii ''--exec'') \<and> e \<noteq> None \<and> e \<noteq> Some 0
                     then do { k3 \<leftarrow> say (msg ''transferring control...'') k2; (x, k4) \<leftarrow> app (the e) 0 [] k3;
                               Some (case x of Exits v \<Rightarrow> Rc 0 | Leaves \<Rightarrow> Boots, s, k4) }
                     else Some (Rc 0, s, k2)) })"

section \<open>The text editor\<close>

text \<open>The text lies at \<open>addr\<close>; its length, and the cursor.\<close>

record nano =
  n_len :: u32
  n_cur :: u32

definition esc :: "string \<Rightarrow> u8 list" where
  "esc t = ccp_puts (0x1B # ascii t)"

function text_len :: "amem \<Rightarrow> u32 \<Rightarrow> u32 \<Rightarrow> u32 \<Rightarrow> u32" where
  "text_len m addr sz i = (if i < sz \<and> m (addr + i) \<noteq> 0 then text_len m addr sz (i + 1) else i)"
  by auto
termination
proof (relation "measure (\<lambda>(m, addr, sz, i). unat (sz - i))")
  fix m :: amem and addr sz i :: u32
  assume "i < sz \<and> m (addr + i) \<noteq> 0"
  then have "0 < unat (sz - i)" by (metis gr0I unsigned_eq_0_iff eq_iff_diff_eq_0 less_irrefl)
  then have "unat (sz - i - 1) < unat (sz - i)"
    by (metis diff_less less_numeral_extra(1) unat_minus_one unsigned_0 less_irrefl)
  then show "((m, addr, sz, i + 1), m, addr, sz, i) \<in> measure (\<lambda>(m, addr, sz, i). unat (sz - i))"
    by (simp add: diff_diff_eq)
qed simp

declare text_len.simps [simp del]

text \<open>Row and column of the cursor behind a text, the text as it is drawn, and the whole screen.\<close>

definition row_col :: "u8 list \<Rightarrow> u32 \<times> u32" where
  "row_col t = foldl (\<lambda>(row, col) c. if c = 0x0A then (row + 1, 1) else (row, col + 1)) (2, 1) t"

definition draw_text :: "(u8 \<Rightarrow> bool) \<Rightarrow> u8 list \<Rightarrow> u8 list" where
  "draw_text shown t = concat (map (\<lambda>c. if c = 0x0A then nl else if shown c then [c] else [0x2E]) t)"

definition go_to :: "u8 list \<Rightarrow> u8 list" where
  "go_to t = (case row_col t of (row, col) \<Rightarrow> esc ''['' @ ccp_putdec row @ [0x3B] @ ccp_putdec col @ [0x48])"

definition nano_first :: "u32 \<Rightarrow> u32 \<Rightarrow> u8 list \<Rightarrow> u8 list" where
  "nano_first addr sz t =
     esc ''[2J'' @ esc ''[H'' @ esc ''[7m  XCP/M-68K nano  ^X exit  ^G help  buf=0x'' @ ccp_puthex addr 6
     @ ccp_puts (ascii '' size='') @ ccp_putdec sz @ esc ''[0m'' @ nl @ esc ''[2;1H''
     @ draw_text (\<lambda>c. 0x20 \<le> c \<and> c < 0x7F) t @ go_to []"

definition nano_screen :: "u8 list \<Rightarrow> nat \<Rightarrow> u8 list" where
  "nano_screen t cur =
     esc ''[2J'' @ esc ''[H'' @ esc ''[7m  XCP/M-68K nano  ^X exit  ^G help'' @ esc ''[0m'' @ nl @ esc ''[2;1H''
     @ draw_text (\<lambda>c. 0x20 \<le> c) t @ go_to (take cur t)"

definition nano_text :: "u32 \<Rightarrow> nano \<Rightarrow> amem \<Rightarrow> u8 list" where
  "nano_text addr e m = get_bytes addr (unat (n_len e)) m"

text \<open>A byte put in before the cursor, and the byte before the cursor taken out; the bytes behind it move.\<close>

definition nano_put :: "u32 \<Rightarrow> u8 \<Rightarrow> nano \<Rightarrow> amem \<Rightarrow> nano \<times> amem" where
  "nano_put addr c e m =
     (\<lparr>n_len = n_len e + 1, n_cur = n_cur e + 1\<rparr>,
      put_bytes (addr + n_cur e) (c # get_bytes (addr + n_cur e) (unat (n_len e - n_cur e)) m) m)"

definition nano_del :: "u32 \<Rightarrow> nano \<Rightarrow> amem \<Rightarrow> nano \<times> amem" where
  "nano_del addr e m =
     (\<lparr>n_len = n_len e - 1, n_cur = n_cur e - 1\<rparr>,
      put_bytes (addr + n_cur e - 1) (get_bytes (addr + n_cur e) (unat (n_len e - n_cur e)) m) m)"

text \<open>One key: the editor, the memory and what is printed.\<close>

definition nano_key :: "u32 \<Rightarrow> u32 \<Rightarrow> nat \<Rightarrow> nano \<Rightarrow> amem \<Rightarrow> nano \<times> amem \<times> u8 list" where
  "nano_key addr sz key e m =
     (let screen = (\<lambda>(e1, m1). (e1, m1, nano_screen (nano_text addr e1 m1) (unat (n_cur e1)))) in
      if key = 7 then (e, m, esc ''[24;1H'' @ esc ''[K'' @ esc ''[7m^X exit  ^G help  arrows move  ^A home  ^E end'' @ esc ''[0m'')
      else if key = 0x0D \<or> key = 0x0A then (if n_len e < sz then screen (nano_put addr 0x0A e m) else (e, m, []))
      else if key = 0x08 \<or> key = 0x7F then (if 0 < n_cur e then screen (nano_del addr e m) else (e, m, []))
      else if key = KEY_LEFT then (if 0 < n_cur e then (e\<lparr>n_cur := n_cur e - 1\<rparr>, m, esc ''[D'') else (e, m, []))
      else if key = KEY_RIGHT then (if n_cur e < n_len e then (e\<lparr>n_cur := n_cur e + 1\<rparr>, m, esc ''[C'') else (e, m, []))
      else if key = KEY_UP then (e, m, esc ''[A'')
      else if key = KEY_DOWN then (e, m, esc ''[B'')
      else if key = 1 \<or> key = KEY_HOME then (e, m, [0x0D])
      else if 0x20 \<le> key \<and> key < 0x7F \<and> n_len e < sz - 1
      then (case nano_put addr (of_nat key) e m of
              (e1, m1) \<Rightarrow> (e1, m1, [of_nat key] @ esc ''[s''
                @ map (\<lambda>c. if 0x20 \<le> c then c else 0x2E) (drop (unat (n_cur e1)) (nano_text addr e1 m1)) @ esc ''[u''))
      else (e, m, []))"

partial_function (option) nano_loop :: "u32 \<Rightarrow> u32 \<Rightarrow> nano \<Rightarrow> kernel \<Rightarrow> (u32 \<times> kernel) option" where
  "nano_loop addr sz e k =
     do { (key, k1) \<leftarrow> read_key k;
          if key = 24 then Some (n_len e, k1)
          else case nano_key addr sz key e (k_mem k1) of
            (e1, m, out) \<Rightarrow> do { k2 \<leftarrow> say out (k1\<lparr>k_mem := m\<rparr>); nano_loop addr sz e1 k2 } }"

definition cmd_nano :: "app \<Rightarrow> blobs \<Rightarrow> cmd" where
  "cmd_nano app ad argv s k =
     (if length argv < 2 then say_rc (usage argv ''<addr> [size]'') 1 s k
      else case parse_num (argv ! 1) of
        None \<Rightarrow> say_rc (msg ''?bad addr'') 1 s k
      | Some addr \<Rightarrow>
          let asked = (if 3 \<le> length argv then (case parse_num (argv ! 2) of None \<Rightarrow> 4096 | Some v \<Rightarrow> v) else 4096);
              sz = (if 32768 < asked then 32768 else asked); e = \<lparr>n_len = text_len (k_mem k) addr sz 0, n_cur = 0\<rparr> in
          do { k1 \<leftarrow> say (nano_first addr sz (nano_text addr e (k_mem k))) k;
               (n, k2) \<leftarrow> nano_loop addr sz e k1;
               say_rc (esc ''[24;1H'' @ nl @ ccp_puts (ascii ''nano: '') @ ccp_putdec n @ ccp_puts (ascii '' bytes left at 0x'')
                 @ ccp_puthex addr 6 @ nl) 0 s k2 })"

section \<open>What is sent is received\<close>

definition hexed :: "u8 list \<Rightarrow> u8 list" where
  "hexed bs = concat (map (\<lambda>v. hex_digits 2 (ucast v)) bs)"

lemma hexed_simps [simp]: "hexed [] = []" "hexed (v # vs) = hex_digits 2 (ucast v) @ hexed vs" "hexed (as @ bs) = hexed as @ hexed bs"
  by (simp_all add: hexed_def)

lemma length_hexed [simp]: "length (hexed bs) = 2 * length bs"
  by (induction bs) simp_all

lemma put_fold: "fold srec_putb bs (out, ck) = (out @ hexed bs, ck + sum_list bs)"
  by (induction bs arbitrary: out ck) (simp_all add: srec_putb_def ccp_puthex_def add.assoc)

lemma nibble_table: "k < 16 \<Longrightarrow> hex_nibble (hex_char (of_nat k)) = int k \<and> hex_char (of_nat k) \<notin> {0x0D, 0x0A, 0x03}"
proof -
  assume k: "k < 16"
  then have a: "unat ((of_nat k :: u32) AND 0xF) = k"
  proof -
    have "(of_nat k :: u32) AND 0xF = take_bit 4 (of_nat k)" by (simp add: take_bit_eq_mask mask_eq_exp_minus_1)
    then show ?thesis using k by (simp add: unsigned_take_bit_eq unat_of_nat_small take_bit_nat_eq_self)
  qed
  have "k \<in> set [0, 1, 2, 3, 4, 5, 6, 7, 8, 9, 10, 11, 12, 13, 14, 15]" using k by (simp only: set_simps insert_iff empty_iff) presburger
  moreover have "\<forall>k \<in> set [0, 1, 2, 3, 4, 5, 6, 7, 8, 9, 10, 11, 12, 13, 14, 15].
      (let c = [0x30, 0x31, 0x32, 0x33, 0x34, 0x35, 0x36, 0x37, 0x38, 0x39, 0x41, 0x42, 0x43, 0x44, 0x45, 0x46] ! k in
       hex_nibble c = int k \<and> c \<noteq> 0x0D \<and> c \<noteq> 0x0A \<and> c \<noteq> 0x03)"
    by code_simp
  ultimately show ?thesis unfolding hex_char_def a Let_def by blast
qed

lemma nibble_char: "hex_nibble (hex_char v) = uint (v AND 0xF)" "hex_char v \<notin> {0x0D, 0x0A, 0x03}"
proof -
  have t: "v AND 0xF = take_bit 4 v" by (simp add: take_bit_eq_mask mask_eq_exp_minus_1)
  then have m: "unat (v AND 0xF) < 16" using take_bit_nat_less_exp [of 4 "unat v"] by (simp add: unsigned_take_bit_eq)
  have "hex_char v = hex_char (of_nat (unat (v AND 0xF)))" by (simp add: hex_char_def)
  then show "hex_nibble (hex_char v) = uint (v AND 0xF)" "hex_char v \<notin> {0x0D, 0x0A, 0x03}"
    using nibble_table [OF m] by simp_all
qed

lemma hex_pair: "hex_digits 2 v = [hex_char (drop_bit 4 v), hex_char v]"
  by (simp add: numeral_2_eq_2)

lemma byte_pair:
  assumes "b p = hex_char (drop_bit 4 (ucast v))" "b (p + 1) = hex_char (ucast v)"
  shows "srec_byte b p = Some v"
proof -
  have f: "uint (w AND 0xF) = take_bit 4 (uint w)" for w :: u32
  proof -
    have "w AND 0xF = take_bit 4 w" by (simp add: take_bit_eq_mask mask_eq_exp_minus_1)
    then show ?thesis by (simp add: unsigned_take_bit_eq)
  qed
  have "uint v < 256" using unsigned_less [of v, where ?'a = int] by simp
  then have u: "uint (ucast v :: u32) = uint v" by (simp add: unsigned_ucast_eq take_bit_int_eq_self)
  have "take_bit 8 (uint v) = uint v" using \<open>uint v < 256\<close> by (simp add: take_bit_int_eq_self)
  then have hi: "take_bit 4 (uint (drop_bit 4 (ucast v :: u32))) = drop_bit 4 (uint v)"
    by (simp add: unsigned_drop_bit_eq u take_bit_drop_bit)
  have "push_bit 4 (drop_bit 4 (uint v)) OR take_bit 4 (uint v) = uint v"
    by (rule bit_eqI) (auto simp: bit_simps)
  then have "(word_of_int (push_bit 4 (drop_bit 4 (uint v)) OR take_bit 4 (uint v)) :: u8) = v" by simp
  then show ?thesis using assms by (simp add: srec_byte_def nibble_char(1) hi f u not_less)
qed


text \<open>Bytes that can be read from a position of the line on.\<close>

primrec bytes_at :: "mem \<Rightarrow> nat \<Rightarrow> u8 list \<Rightarrow> bool" where
  "bytes_at b p [] = True"
| "bytes_at b p (v # vs) = (srec_byte b p = Some v \<and> bytes_at b (p + 2) vs)"

lemma bytes_at_append: "bytes_at b p (as @ bs) \<longleftrightarrow> bytes_at b p as \<and> bytes_at b (p + 2 * length as) bs"
  by (induction as arbitrary: p) (auto simp: algebra_simps)

lemma bytes_at_hexed: "\<forall>i < 2 * length bs. b (p + i) = hexed bs ! i \<Longrightarrow> bytes_at b p bs"
proof (induction bs arbitrary: p)
  case (Cons v vs)
  have "b (p + 2 + i) = hexed vs ! i" if "i < 2 * length vs" for i
    using that Cons.prems [rule_format, of "Suc (Suc i)"] by (simp add: hex_pair add.commute)
  then have "bytes_at b (p + 2) vs" using Cons.IH by blast
  moreover have "srec_byte b p = Some v"
    using Cons.prems [rule_format, of 0] Cons.prems [rule_format, of 1] by (intro byte_pair) (simp_all add: hex_pair)
  ultimately show ?case by simp
qed simp

lemma addr_at: "bytes_at b p vs \<Longrightarrow> srec_addr_loop b p (length vs) a = Some (foldl (\<lambda>a v. push_bit 8 a OR ucast v) a vs)"
  by (induction vs arbitrary: p a) simp_all

lemma data_at: "bytes_at b p vs \<Longrightarrow> srec_data b p (length vs) a ck m = (True, p + 2 * length vs, ck + sum_list vs, put_bytes a vs m)"
  by (induction vs arbitrary: p a ck m) (simp_all add: add.assoc)

text \<open>A record, as it is sent and as its line is taken apart.\<close>

definition record_bytes :: "u32 \<Rightarrow> u8 list \<Rightarrow> u8 list" where
  "record_bytes a vs = [of_nat (length vs + 4), ucast (drop_bit 16 a), ucast (drop_bit 8 a), ucast a] @ vs"

definition record_text :: "u32 \<Rightarrow> u8 list \<Rightarrow> u8 list" where
  "record_text a vs = ascii ''S2'' @ hexed (record_bytes a vs @ [NOT (sum_list (record_bytes a vs))])"

lemma srec_record_text: "srec_record m a n = record_text a (get_bytes a n m) @ nl"
proof -
  have "ccp_puts (ascii ''S2'') = ascii ''S2''" by (simp add: ascii_def)
  then show ?thesis
    by (simp add: srec_record_def record_text_def put_fold record_bytes_def get_bytes_def ccp_puthex_def Let_def)
qed

lemma addr_bytes:
  fixes a :: u32
  assumes "unat a < 2 ^ 24"
  shows "foldl (\<lambda>a v. push_bit 8 a OR ucast v) 0 [ucast (drop_bit 16 a), ucast (drop_bit 8 a), ucast a :: u8] = a"
    "ucast (drop_bit 24 a) = (0 :: u8)"
proof -
  have n: "\<not> bit a i" if "24 \<le> i" for i
  proof -
    have "take_bit 24 a = a" using assms by (simp add: word_unat_eq_iff unsigned_take_bit_eq take_bit_nat_eq_self)
    then show ?thesis using that by (metis bit_take_bit_iff not_less)
  qed
  show "ucast (drop_bit 24 a) = (0 :: u8)" by (rule bit_word_eqI) (simp add: bit_simps n)
  show "foldl (\<lambda>a v. push_bit 8 a OR ucast v) 0 [ucast (drop_bit 16 a), ucast (drop_bit 8 a), ucast a :: u8] = a"
  proof (rule bit_word_eqI)
    fix i assume "i < LENGTH(32)"
    then show "bit (foldl (\<lambda>a v. push_bit 8 a OR ucast v) (0 :: u32) [ucast (drop_bit 16 a), ucast (drop_bit 8 a), ucast a :: u8]) i = bit a i"
      using n [of i] by (cases "i < 8"; cases "i < 16"; cases "i < 24") (auto simp: bit_simps not_less)
  qed
qed

lemma record_line:
  assumes "b 0 = 0x53" "b 1 = 0x32" "unat a < 2 ^ 24" "length vs \<le> 16"
    "bytes_at b 2 (record_bytes a vs @ [NOT (sum_list (record_bytes a vs))])"
  shows "srec_line b m = ([], None, put_bytes a vs m)"
proof -
  let ?ad = "[ucast (drop_bit 16 a), ucast (drop_bit 8 a), ucast a :: u8]"
  have c: "unat (of_nat (length vs + 4) :: u8) = length vs + 4" using assms(4) by (intro unat_of_nat_small) simp
  then have z: "(of_nat (length vs + 4) :: u8) \<noteq> 0" by (metis add_eq_0_iff_both_eq_0 unsigned_0 zero_neq_numeral)
  have at: "srec_byte b 2 = Some (of_nat (length vs + 4))" "bytes_at b 4 ?ad" "bytes_at b 10 vs"
    "srec_byte b (10 + 2 * length vs) = Some (NOT (sum_list (record_bytes a vs)))"
    using assms(5) by (simp_all add: record_bytes_def bytes_at_append)
  have "srec_addr b 4 6 = Some a"
    proof -
    have "length ?ad = 6 div 2" by simp
    then show ?thesis using addr_at [OF at(2), of 0] unfolding srec_addr_def addr_bytes(1) [OF assms(3)] by (simp only:)
  qed
  moreover have "sum_list (record_bytes a vs) =
      of_nat (length vs + 4) + 0 + ucast (drop_bit 16 a) + ucast (drop_bit 8 a) + ucast a + sum_list vs"
    by (simp add: record_bytes_def algebra_simps)
  ultimately show ?thesis
    using assms(1,2) at(1,4) z c data_at [OF at(3)] addr_bytes(2) [OF assms(3)]
    by (simp add: srec_line_def srec_data_line_def Let_def)
qed


text \<open>Reading a line from the queue of received bytes.\<close>

lemma getc_quiet: "quiet k \<Longrightarrow> k_in k = c # cs \<Longrightarrow> ccp_getc k = Some (c, k\<lparr>k_in := cs\<rparr>)"
  using conin_quiet [of k c cs] by (simp add: ccp_getc_def conin_def)

lemma read_line_text:
  assumes "quiet k" "k_in k = cs @ 0x0D # r" "set cs \<inter> {0x0D, 0x0A, 0x03} = {}" "n + length cs \<le> 255" "0 < n + length cs"
  shows "srec_read_line b n k = Some (Some (n + length cs), (fill b n cs)(n + length cs := 0), k\<lparr>k_in := r\<rparr>)"
  using assms
proof (induction cs arbitrary: b n k)
  case Nil
  then show ?case by (subst srec_read_line.simps) (simp add: getc_quiet [OF Nil.prems(1)])
next
  case (Cons c cs)
  have "srec_read_line b n k = srec_read_line (b(n := c)) (Suc n) (k\<lparr>k_in := cs @ 0x0D # r\<rparr>)"
    using Cons.prems by (subst srec_read_line.simps) (simp add: getc_quiet [OF Cons.prems(1)])
  also have "\<dots> = Some (Some (Suc n + length cs), (fill (b(n := c)) (Suc n) cs)(Suc n + length cs := 0), k\<lparr>k_in := cs @ 0x0D # r\<rparr>\<lparr>k_in := r\<rparr>)"
    by (rule Cons.IH) (use Cons.prems in simp_all)
  finally show ?case by (simp add: fun_upd_def)
qed

lemma loop_blank: "quiet k \<Longrightarrow> k_in k = c # r \<Longrightarrow> c = 0x0D \<or> c = 0x0A \<Longrightarrow> srec_loop b k = srec_loop b (k\<lparr>k_in := r\<rparr>)"
  by (subst (1 2) srec_loop.simps, subst srec_read_line.simps) (auto simp: getc_quiet)

lemma hexed_chars: "set (hexed bs) \<inter> {0x0D, 0x0A, 0x03} = {}"
  using nibble_char(2) by (auto simp: hexed_def hex_pair) 

lemma loop_record:
  assumes "quiet k" "k_in k = record_text a vs @ nl @ r" "unat a < 2 ^ 24" "length vs \<le> 16"
    "quiet (k\<lparr>k_mem := put_bytes a vs (k_mem k)\<rparr>)"
  shows "\<exists>b'. srec_loop b k = srec_loop b' (k\<lparr>k_mem := put_bytes a vs (k_mem k), k_in := r\<rparr>)"
proof -
  let ?t = "record_text a vs" and ?bs = "record_bytes a vs @ [NOT (sum_list (record_bytes a vs))]"
  let ?b = "(fill b 0 ?t)(length ?t := 0)" and ?k = "k\<lparr>k_in := 0x0D # 0x0A # r, k_mem := put_bytes a vs (k_mem k)\<rparr>"
  have t: "?t = [0x53, 0x32] @ hexed ?bs" by (simp add: record_text_def ascii_def)
  have l: "length ?t = 2 + 2 * length ?bs" "length ?bs \<le> 21" using assms(4) unfolding t by (simp_all add: record_bytes_def)
  have i: "k_in k = ?t @ 0x0D # 0x0D # 0x0A # r" using assms(2) by (simp add: nl_def)
  have "set ?t \<inter> {0x0D, 0x0A, 0x03} = {}" using hexed_chars [of ?bs] unfolding t by auto
  then have rd: "srec_read_line b 0 k = Some (Some (length ?t), ?b, k\<lparr>k_in := 0x0D # 0x0A # r\<rparr>)"
    using read_line_text [OF assms(1) i, of 0 b] l by simp
  have "bytes_at ?b 2 ?bs"
  proof (rule bytes_at_hexed, intro allI impI)
    fix i assume "i < 2 * length ?bs"
    then show "?b (2 + i) = hexed ?bs ! i" unfolding fun_upd_def fill_apply l(1) by (simp add: t)
  qed
  then have "srec_line ?b m = ([], None, put_bytes a vs m)" for m
    using assms(3,4) l by (intro record_line) (simp_all add: fill_apply t)
  then have "srec_loop b k = srec_loop ?b ?k"
    using assms(5) by (subst srec_loop.simps) (simp add: rd say_def)
  also have "\<dots> = srec_loop ?b (?k\<lparr>k_in := r\<rparr>)"
    using assms(5) loop_blank [of ?k "0x0D" "0x0A # r" ?b] loop_blank [of "?k\<lparr>k_in := 0x0A # r\<rparr>" "0x0A" r ?b]
    by (simp add: quiet_def inrd_def)
  finally have "srec_loop b k = srec_loop ?b (k\<lparr>k_mem := put_bytes a vs (k_mem k), k_in := r\<rparr>)" by simp
  then show ?thesis by blast
qed

text \<open>The end record.\<close>

lemma srec_loop_end:
  assumes "quiet k" "k_in k = msg ''S804000000FB'' @ r"
  shows "srec_loop b k = Some (Some (Some 0), k\<lparr>k_in := [0x0D, 0x0A] @ r,
    k_out := k_out k @ ccp_puts (ascii ''end record, entry=0x'') @ ccp_puthex 0 6 @ nl\<rparr>)"
proof -
  let ?t = "ascii ''S804000000FB''"
  let ?b = "(fill b 0 ?t)(length ?t := 0)"
  have i: "k_in k = ?t @ 0x0D # 0x0D # 0x0A # r" using assms(2) by (simp add: msg_def ascii_def)
  then have rd: "srec_read_line b 0 k = Some (Some (length ?t), ?b, k\<lparr>k_in := 0x0D # 0x0A # r\<rparr>)"
    using read_line_text [OF assms(1) i, of 0 b] by (simp add: ascii_def)
  have "srec_addr ?b 4 6 = Some 0"
    by (simp add: srec_addr_def ascii_def numeral_3_eq_3 srec_byte_def hex_nibble_def)
  then have "srec_line ?b m = (ccp_puts (ascii ''end record, entry=0x'') @ ccp_puthex 0 6 @ nl, Some (Some 0), m)" for m
    by (simp add: srec_line_def srec_end_line_def ascii_def)
  then show ?thesis using assms(1) by (subst srec_loop.simps) (simp add: rd say_quiet)
qed


text \<open>All records: the memory is cut into pieces of sixteen bytes.\<close>

lemma put_bytes_append: "put_bytes a (xs @ ys) m = put_bytes (a + of_nat (length xs)) ys (put_bytes a xs m)"
  by (induction xs arbitrary: a m) (simp_all add: algebra_simps)

lemma get_bytes_split: "k \<le> n \<Longrightarrow> get_bytes a n m = get_bytes a k m @ get_bytes (a + of_nat k) (n - k) m"
proof -
  assume k: "k \<le> n"
  have "[0..<n] = [0..<k] @ [k..<n]" using k upt_add_eq_append [of 0 k "n - k"] by simp
  moreover have "[k..<n] = map (\<lambda>i. i + k) [0..<n - k]" using k by (simp add: map_add_upt)
  ultimately show ?thesis by (simp add: get_bytes_def comp_def ac_simps)
qed

lemma send_step: "0 < n \<Longrightarrow> srec_send m a n = srec_record m a (min 16 n) @ srec_send m (a + 16) (n - 16)"
proof -
  assume n: "0 < n"
  then have k: "(n + 15) div 16 = Suc ((n - 16 + 15) div 16)" by (cases "16 \<le> n") (simp_all add: le_div_geq div_eq_0_iff not_le)
  let ?f = "\<lambda>a n i. srec_record m (a + of_nat (16 * i)) (if 16 < n - 16 * i then 16 else n - 16 * i)"
  have "n - 16 * Suc i = n - 16 - 16 * i" "a + of_nat (16 * Suc i) = a + 16 + of_nat (16 * i)" for i by simp_all
  then have s: "?f a n (Suc i) = ?f (a + 16) (n - 16) i" for i by (simp only:)
  have "[0..<Suc j] = 0 # map Suc [0..<j]" for j by (simp only: upt_conv_Cons map_Suc_upt zero_less_Suc)
  then have "map (?f a n) [0..<Suc j] = ?f a n 0 # map (?f (a + 16) (n - 16)) [0..<j]" for j
    by (simp only: list.map map_map comp_def s)
  then show ?thesis unfolding srec_send_def k by (simp only: concat.simps append_assoc) (simp add: min_def)
qed

lemma quiet_put: "quiet k \<Longrightarrow> inrd_clear a (length vs) k \<Longrightarrow> quiet (k\<lparr>k_mem := put_bytes a vs (k_mem k)\<rparr>)"
proof -
  assume q: "quiet k" and c: "inrd_clear a (length vs) k"
  have "put_bytes a vs (k_mem k) (inrd k + j) = k_mem k (inrd k + j)" if "j \<in> {0, 1, 2, 3}" for j
    using c that by (intro put_bytes_other) (metis inrd_clear_def)
  from this [of 0] this [of 1] this [of 2] this [of 3]
  show ?thesis using q by (simp add: quiet_def mem32_def inrd_def)
qed

lemma clear_part: "inrd_clear a n k \<Longrightarrow> i + j \<le> n \<Longrightarrow> inrd_clear (a + of_nat i) j (k\<lparr>k_mem := m, k_in := r\<rparr>)"
proof -
  assume c: "inrd_clear a n k" and "i + j \<le> n"
  then have "i + l < n" if "l < j" for l using that by simp
  then have "inrd k + h \<noteq> a + of_nat (i + l)" if "h \<in> {0, 1, 2, 3}" "l < j" for h l
    using c that unfolding inrd_clear_def by blast
  then show ?thesis by (auto simp: inrd_clear_def inrd_def add.assoc)
qed

lemma loop_records:
  assumes "quiet k" "inrd_clear a n k" "unat a + n \<le> 2 ^ 24" "k_in k = srec_send m a n @ r"
  shows "srec_loop b k = Some (Some (Some 0), k\<lparr>k_mem := put_bytes a (get_bytes a n m) (k_mem k), k_in := [0x0D, 0x0A] @ r,
    k_out := k_out k @ ccp_puts (ascii ''end record, entry=0x'') @ ccp_puthex 0 6 @ nl\<rparr>)"
  using assms
proof (induction n arbitrary: a k b rule: less_induct)
  case (less n)
  show ?case
  proof (cases "n = 0")
    case True
    then show ?thesis using less.prems srec_loop_end [of k r b] by (simp add: srec_send_def get_bytes_def)
  next
    case False
    let ?n = "min 16 n"
    let ?v = "get_bytes a ?n m" and ?r = "srec_send m (a + 16) (n - 16) @ r"
    let ?k = "k\<lparr>k_mem := put_bytes a ?v (k_mem k), k_in := ?r\<rparr>"
    have l: "length ?v = ?n" by (simp add: get_bytes_def)
    have c: "inrd_clear a ?n k" using less.prems(2) by (simp add: inrd_clear_def)
    then have q: "quiet (k\<lparr>k_mem := put_bytes a ?v (k_mem k)\<rparr>)" using quiet_put [OF less.prems(1), of a ?v] l by simp
    have i: "k_in k = record_text a ?v @ nl @ ?r" using False less.prems(4) by (simp add: send_step srec_record_text)
    obtain b' where b: "srec_loop b k = srec_loop b' ?k"
      using loop_record [OF less.prems(1) i _ _ q] less.prems(3) False l by auto
    show ?thesis
    proof (cases "n \<le> 16")
      case True
      then have "k_in ?k = msg ''S804000000FB'' @ r" by (simp add: srec_send_def)
      then show ?thesis using srec_loop_end [of ?k r b'] q True unfolding b by (simp add: min_def)
    next
      case False
      have u: "unat (a + 16) = unat a + 16" using False less.prems(3) by (subst unat_add_lem [THEN iffD1]) simp_all
      have "inrd_clear (a + of_nat 16) (n - 16) ?k" by (rule clear_part [OF less.prems(2)]) (use False in simp)
      then show ?thesis using False u q less.prems(3) get_bytes_split [of 16 n a m] less.IH [of "n - 16" ?k "a + 16" b'] l
        unfolding b by (simp add: put_bytes_append min_def)
    qed
  qed
qed


lemma dec_digits_num [simp]: "parse_num (dec_digits v) = Some v"
  by (rule parse_dec_digits)

lemma cmd_send:
  assumes "quiet k"
  shows "cmd_srec app ad [ascii ''srec'', ascii ''-w'', dec_digits addr, dec_digits (of_nat n)] s k
    = Some (Rc 0, s, k\<lparr>k_out := k_out k @ srec_send (k_mem k) addr (unat (of_nat n :: u32))\<rparr>)"
proof -
  have "ccp_strieq (ascii ''-w'') (ascii ''-w'')" by (simp add: ascii_def)
  then show ?thesis using assms by (simp add: cmd_srec_def say_rc_def say_quiet)
qed

text \<open>C29: what \<open>srec -w\<close> prints of a region of memory below 16 MB is accepted by \<open>srec\<close> on another machine, which then
  holds the same bytes at the same addresses, and changes no other byte of its memory.\<close>

theorem srec_roundtrip:
  assumes "quiet k" "unat addr + n \<le> 2 ^ 24"
  shows "\<exists>k1 out. cmd_srec app ad [ascii ''srec'', ascii ''-w'', dec_digits addr, dec_digits (of_nat n)] s k = Some (Rc 0, s, k1)
      \<and> k_out k1 = k_out k @ out
      \<and> (\<forall>k2 rest s2. quiet k2 \<longrightarrow> inrd_clear addr n k2 \<longrightarrow> k_in k2 = out @ rest
          \<longrightarrow> (\<exists>k3. cmd_srec app ad [ascii ''srec''] s2 k2 = Some (Rc 0, s2, k3)
               \<and> k_mem k3 = put_bytes addr (get_bytes addr n (k_mem k)) (k_mem k2)))"
proof -
  have n: "unat (of_nat n :: u32) = n" using assms(2) by (intro unat_of_nat_small) simp
  have "\<exists>k3. cmd_srec app ad [ascii ''srec''] s2 k2 = Some (Rc 0, s2, k3)
      \<and> k_mem k3 = put_bytes addr (get_bytes addr n (k_mem k)) (k_mem k2)"
    if q: "quiet k2" "inrd_clear addr n k2" "k_in k2 = srec_send (k_mem k) addr n @ rest" for k2 rest s2
  proof -
    let ?k = "k2\<lparr>k_out := k_out k2 @ msg ''Send S-records (Ctrl-C to abort):''\<rparr>"
    have "inrd_clear addr n ?k" using q(2) by (simp add: inrd_clear_def inrd_def)
    then show ?thesis using loop_records [of ?k addr n "k_mem k" rest "line_bytes ad"] q assms(2)
      by (simp add: cmd_srec_def say_quiet)
  qed
  then show ?thesis using cmd_send [OF assms(1), of app ad addr n s] unfolding n by auto
qed

definition demo_blobs :: blobs where
  "demo_blobs = \<lparr>at_fcb = 0x0EC10000, at_dma = 0x0EC10030, at_name = 0x0EC10100, at_name2 = 0x0EC10200, at_pair = 0x0EC10300,
     at_cwd = 0x0EC10400, help_lz = 0x0EC20000, help_size = 0, stty_lz = 0x0EC20000, stty_size = 0, at_pair2 = 0x0EC10310,
     line_bytes = (\<lambda>_. 0)\<rparr>"

lemma demo_quiet: "quiet (demo_term\<lparr>k_in := i\<rparr>)"
  by (simp add: quiet_def demo_term_def boot_kernel_def bdos_init_def inrd_def mem32_def)

lemma srec_roundtrip_witness:
  "\<exists>out k3. cmd_srec (\<lambda>base n t k. None) demo_blobs [ascii ''srec''] ccp_start (demo_term\<lparr>k_in := out\<rparr>) = Some (Rc 0, ccp_start, k3)
     \<and> k_mem k3 = put_bytes 0xFE [0, 0, 10] (k_mem demo_term)"
proof -
  have "quiet demo_term" using demo_quiet [of "k_in demo_term"] by simp
  moreover have "unat (0xFE :: u32) + 3 \<le> 2 ^ 24" by simp
  ultimately obtain out where out: "\<And>k2 rest s2. quiet k2 \<Longrightarrow> inrd_clear 0xFE 3 k2 \<Longrightarrow> k_in k2 = out @ rest
      \<Longrightarrow> \<exists>k3. cmd_srec (\<lambda>base n t k. None) demo_blobs [ascii ''srec''] s2 k2 = Some (Rc 0, s2, k3)
           \<and> k_mem k3 = put_bytes 0xFE (get_bytes 0xFE 3 (k_mem demo_term)) (k_mem k2)"
    using srec_roundtrip [of demo_term "0xFE" 3 "\<lambda>base n t k. None" demo_blobs ccp_start] by blast
  have "(0x0EC00800 :: u32) + j \<noteq> 0xFE + of_nat i" if "i < 3" "j \<in> {0, 1, 2, 3}" for i j
    using that by (auto simp: less_Suc_eq numeral_3_eq_3)
  moreover have "inrd (demo_term\<lparr>k_in := out\<rparr>) = 0x0EC00800" by (simp add: inrd_def demo_term_def boot_kernel_def bdos_init_def)
  ultimately have "inrd_clear 0xFE 3 (demo_term\<lparr>k_in := out\<rparr>)" unfolding inrd_clear_def by metis
  moreover have "get_bytes 0xFE 3 (k_mem demo_term) = [0, 0, 10]"
    by (simp add: get_bytes_def demo_term_def boot_kernel_def bdos_init_def numeral_3_eq_3)
  ultimately show ?thesis using out [OF demo_quiet, of out "[]" ccp_start] by auto
qed

section \<open>The editor stays inside its buffer\<close>

lemma put_inside:
  assumes "unat i + length xs \<le> unat sz" "\<forall>j < unat sz. b \<noteq> addr + of_nat j"
  shows "put_bytes (addr + i) xs m b = m b"
proof (rule put_bytes_other, intro allI impI)
  fix j assume "j < length xs"
  then have "b \<noteq> addr + of_nat (unat i + j)" using assms by (metis add_less_cancel_left order_less_le_trans)
  moreover have "addr + of_nat (unat i + j) = addr + i + of_nat j" by simp
  ultimately show "addr + i + of_nat j \<noteq> b" by metis
qed

definition nano_ok :: "u32 \<Rightarrow> nano \<Rightarrow> bool" where
  "nano_ok sz e \<longleftrightarrow> n_cur e \<le> n_len e \<and> n_len e \<le> sz"

text \<open>The bytes outside a buffer.\<close>

definition same_outside :: "u32 \<Rightarrow> u32 \<Rightarrow> amem \<Rightarrow> amem \<Rightarrow> bool" where
  "same_outside addr sz m m1 \<longleftrightarrow> (\<forall>b. (\<forall>j < unat sz. b \<noteq> addr + of_nat j) \<longrightarrow> m1 b = m b)"

lemma put_key_ok:
  assumes "nano_ok sz e" "n_len e < sz"
  shows "nano_ok sz (fst (nano_put addr c e m))" "same_outside addr sz m (snd (nano_put addr c e m))"
proof -
  have n: "unat (n_len e) < unat sz" "unat (n_cur e) \<le> unat (n_len e)" using assms by (simp_all add: nano_ok_def word_le_nat_alt word_less_nat_alt)
  then have "unat (n_len e + 1) = Suc (unat (n_len e))" "unat (n_cur e + 1) = Suc (unat (n_cur e))"
    using unsigned_less [of sz, where ?'a = nat] by (auto simp: unat_word_ariths)
  then show "nano_ok sz (fst (nano_put addr c e m))" using n by (simp add: nano_put_def nano_ok_def word_le_nat_alt)
  have "unat (n_len e - n_cur e) = unat (n_len e) - unat (n_cur e)" using assms(1) by (simp add: nano_ok_def unat_sub)
  then show "same_outside addr sz m (snd (nano_put addr c e m))"
    using n by (auto simp: same_outside_def nano_put_def get_bytes_def simp del: put_bytes.simps intro!: put_inside)
qed

lemma del_key_ok:
  assumes "nano_ok sz e" "0 < n_cur e"
  shows "nano_ok sz (fst (nano_del addr e m))" "same_outside addr sz m (snd (nano_del addr e m))"
proof -
  have n: "unat (n_len e) \<le> unat sz" "unat (n_cur e) \<le> unat (n_len e)" "0 < unat (n_cur e)"
    using assms by (simp_all add: nano_ok_def word_le_nat_alt word_less_nat_alt)
  then have d: "unat (n_len e - 1) = unat (n_len e) - 1" "unat (n_cur e - 1) = unat (n_cur e) - 1"
    by (metis less_irrefl less_le_trans unat_minus_one unsigned_0)+
  then show "nano_ok sz (fst (nano_del addr e m))" using n by (simp add: nano_del_def nano_ok_def word_le_nat_alt) linarith
  have "unat (n_len e - n_cur e) = unat (n_len e) - unat (n_cur e)" using assms(1) by (simp add: nano_ok_def unat_sub)
  then show "same_outside addr sz m (snd (nano_del addr e m))"
    using n d unfolding same_outside_def nano_del_def snd_conv add_diff_eq [symmetric]
    by (intro allI impI put_inside [where sz = sz]) (simp_all add: get_bytes_def)
qed

lemma move_key_ok:
  assumes "nano_ok sz e"
  shows "0 < n_cur e \<Longrightarrow> nano_ok sz (e\<lparr>n_cur := n_cur e - 1\<rparr>)" "n_cur e < n_len e \<Longrightarrow> nano_ok sz (e\<lparr>n_cur := n_cur e + 1\<rparr>)"
proof -
  have n: "n_cur e \<le> n_len e" "n_len e \<le> sz" using assms by (simp_all add: nano_ok_def)
  show "nano_ok sz (e\<lparr>n_cur := n_cur e - 1\<rparr>)" if "0 < n_cur e"
  proof -
    have "unat (n_cur e - 1) = unat (n_cur e) - 1" using that by (metis less_irrefl unat_minus_one)
    then show ?thesis using n by (simp add: nano_ok_def word_le_nat_alt)
  qed
  show "nano_ok sz (e\<lparr>n_cur := n_cur e + 1\<rparr>)" if "n_cur e < n_len e" using that n by (simp add: nano_ok_def inc_le)
qed

lemma same_outside_refl [simp]: "same_outside addr sz m m"
  by (simp add: same_outside_def)

text \<open>C31: the text editor keeps to its buffer: no key moves the cursor or the end of the text behind the size of the
  buffer, or changes a byte outside it, when the buffer has at least one byte; with the size 0, which the command accepts,
  every printable key is stored.\<close>

theorem nano_in_buffer:
  assumes "nano_ok sz e" "nano_key addr sz key e m = (e1, m1, out)"
  shows "(sz \<noteq> 0 \<longrightarrow> nano_ok sz e1 \<and> same_outside addr sz m m1)
    \<and> (sz = 0 \<longrightarrow> 0x20 \<le> key \<longrightarrow> key < 0x7F \<longrightarrow> n_len e1 = 1 \<and> m1 addr = of_nat key)"
proof (intro conjI impI)
  assume z: "sz \<noteq> 0"
  have less: "n_len e < sz" if "n_len e < sz - 1"
  proof -
    have "unat (sz - 1) = unat sz - 1" using z by (metis unat_minus_one)
    then show ?thesis using that by (simp add: word_less_nat_alt)
  qed
  have "nano_ok sz e1 \<and> same_outside addr sz m m1"
    using assms unfolding nano_key_def Let_def split_beta
    by (auto simp: put_key_ok del_key_ok move_key_ok less split: if_splits)
  then show "nano_ok sz e1" "same_outside addr sz m m1" by simp_all
next
  assume z: "sz = 0" "0x20 \<le> key" "key < 0x7F"
  then have l: "n_len e = 0" using assms(1) by (simp add: nano_ok_def)
  have pos: "(0 :: u32) < - 1" by (simp add: word_less_nat_alt unsigned_minus_1_eq_mask mask_eq_exp_minus_1)
  have "n_cur e = 0" using assms(1) l unfolding nano_ok_def by (metis order_antisym word_zero_le)
  then show "n_len e1 = 1" "m1 addr = of_nat key"
    using assms(2) z l pos by (auto simp: nano_key_def nano_put_def get_bytes_def)
qed

lemma nano_in_buffer_witness:
  "nano_ok 16 (fst (nano_key 0x1000 16 0x41 \<lparr>n_len = 2, n_cur = 1\<rparr> (\<lambda>_. 0)))
    \<and> same_outside 0x1000 16 (\<lambda>_. 0) (fst (snd (nano_key 0x1000 16 0x41 \<lparr>n_len = 2, n_cur = 1\<rparr> (\<lambda>_. 0))))"
proof -
  obtain e1 m1 out where k: "nano_key 0x1000 16 0x41 \<lparr>n_len = 2, n_cur = 1\<rparr> (\<lambda>_. 0) = (e1, m1, out)" by (metis prod_cases3)
  have "nano_ok 16 \<lparr>n_len = 2, n_cur = 1\<rparr>" by (simp add: nano_ok_def)
  from nano_in_buffer [OF this k] show ?thesis by (simp add: k)
qed

end
