(* ===== verification/Ccp_Shell.thy ===== *)
theory Ccp_Shell
  imports Ccp_Srec
begin

text \<open>
  The main loop of the command processor (\<open>ccpmain.c\<close>): taking a line apart, wildcards, redirection, the search for a
  command, scripts, the prompt and pipes. A script, redirected input, and the two halves of a pipe lie in the window
  of the decompressor, which other calls write to, so they are read from memory when the code reads them.
\<close>

section \<open>Wildcards\<close>

abbreviation "STAR \<equiv> 0x2A :: u8"
abbreviation "QUERY \<equiv> 0x3F :: u8"

definition has_wildcard :: "cstring \<Rightarrow> bool" where
  "has_wildcard cs \<longleftrightarrow> STAR \<in> set cs \<or> QUERY \<in> set cs"

text \<open>A field of the pattern: a star fills it up with question marks.\<close>

definition glob_field :: "nat \<Rightarrow> cstring \<Rightarrow> u8 list" where
  "glob_field n cs =
     (let cs1 = take n cs; pre = takeWhile (\<lambda>c. c \<noteq> STAR) cs1 in
      map to_upper pre @ replicate (n - length pre) (if STAR \<in> set cs1 then QUERY else 0x20))"

text \<open>Whether a wildcard was seen, and the pattern.\<close>

definition glob_pattern_to_11 :: "cstring \<Rightarrow> bool \<times> u8 list" where
  "glob_pattern_to_11 pat =
     (let base = takeWhile (\<lambda>c. c \<noteq> 0x2E) pat; ext = drop 1 (dropWhile (\<lambda>c. c \<noteq> 0x2E) pat) in
      (has_wildcard (take 8 base) \<or> has_wildcard (take 3 ext), glob_field 8 base @ glob_field 3 ext))"

text \<open>
  The loop over the matches, for a buffer of \<open>sz\<close> bytes that is filled up to \<open>boff\<close>: the names, and the offset behind
  the last of them. The last byte of the buffer is zero and is never written, so a name cut there ends there.
\<close>

partial_function (option) glob_loop ::
  "app \<Rightarrow> addrs \<Rightarrow> nat \<Rightarrow> nat \<Rightarrow> u32 \<Rightarrow> nat \<Rightarrow> nat \<Rightarrow> cstring list \<Rightarrow> kernel \<Rightarrow> (cstring list \<times> nat \<times> kernel) option" where
  "glob_loop app ad sz max_args r boff past names k =
     (if r \<noteq> 0 \<or> max_args \<le> length names then Some (names, past, k)
      else let w = take (sz - 1 - boff) (found_text ad k); n = length w + (if boff + length w < sz - 1 then 1 else 0) in
        do { (r1, k1) \<leftarrow> sys app 18 (at_fcb ad) 0 k;
             glob_loop app ad sz max_args r1 (boff + n) (boff + length (cstr w) + 1) (names @ [cstr w]) k1 })"

definition glob_expand :: "app \<Rightarrow> addrs \<Rightarrow> cstring \<Rightarrow> nat \<Rightarrow> nat \<Rightarrow> kernel \<Rightarrow> (cstring list \<times> nat \<times> kernel) option" where
  "glob_expand app ad pat sz max_args k =
     (case glob_pattern_to_11 pat of (saw, raw) \<Rightarrow>
        if \<not> saw then let w = take (sz - 1) pat in Some ([w], length w + 1, k)
        else do { (r, k1) \<leftarrow> search_first app ad raw k; glob_loop app ad sz max_args r 0 0 [] k1 })"

section \<open>The arguments of a line\<close>

abbreviation "EXPANDED \<equiv> 4 * CCP_LINE_MAX"

text \<open>Up to 16 arguments in a buffer of 320 bytes; \<open>eoff\<close> of them are used.\<close>

partial_function (option) line_args :: "app \<Rightarrow> addrs \<Rightarrow> ccp \<Rightarrow> cstring \<Rightarrow> nat \<Rightarrow> cstring list \<Rightarrow> kernel \<Rightarrow> (cstring list \<times> kernel) option" where
  "line_args app ad s p eoff argv k =
     (if 16 \<le> length argv then Some (argv, k)
      else case next_token p of
        None \<Rightarrow> Some (argv, k)
      | Some (t, r) \<Rightarrow>
          if EXPANDED < eoff + CCP_LINE_MAX then Some (argv, k)
          else let tmp = expand_token s t CCP_LINE_MAX; w = take (EXPANDED - 1 - eoff) tmp in
            if argv \<noteq> [] \<and> has_wildcard tmp
            then do { (names, n, k1) \<leftarrow> glob_expand app ad tmp (EXPANDED - eoff) (16 - length argv) k;
                      if names = [] then line_args app ad s r (eoff + length w + 1) (argv @ [w]) k1
                      else line_args app ad s r (eoff + n) (argv @ names) k1 }
            else line_args app ad s r (eoff + length w + 1) (argv @ [w]) k)"

definition try_drive_switch :: "app \<Rightarrow> cstring \<Rightarrow> kernel \<Rightarrow> (bool \<times> kernel) option" where
  "try_drive_switch app tok k =
     (if length tok \<noteq> 2 \<or> tok ! 1 \<noteq> 0x3A then Some (False, k)
      else let c = to_upper (tok ! 0) in
        if c < 0x41 \<or> 0x50 < c then Some (False, k)
        else do { (r, k1) \<leftarrow> sys app 14 (ucast (c - 0x41)) 0 k; Some (True, k1) })"

text \<open>The arguments without the redirections, where output goes (and whether it is appended), and where input comes from.\<close>

record redirs =
  rd_args :: "cstring list"
  rd_out :: "(cstring \<times> bool) option"
  rd_in :: "cstring option"

fun strip_redirs :: "cstring list \<Rightarrow> redirs \<Rightarrow> redirs" where
  "strip_redirs [] d = d"
| "strip_redirs (a # f # as) d =
     (if a = ascii ''>'' \<or> a = ascii ''>>'' then strip_redirs as (d\<lparr>rd_out := Some (f, a = ascii ''>>'')\<rparr>)
      else if a = ascii ''<'' then strip_redirs as (d\<lparr>rd_in := Some f\<rparr>)
      else strip_redirs (f # as) (d\<lparr>rd_args := rd_args d @ [a]\<rparr>))"
| "strip_redirs [a] d = d\<lparr>rd_args := rd_args d @ [a]\<rparr>"

text \<open>The window of the decompressor, and the copies of the arguments at its end: their addresses, and the strings left where they were.\<close>

definition window_of :: "app \<Rightarrow> addrs \<Rightarrow> kernel \<Rightarrow> (u32 \<times> u32 \<times> kernel) option" where
  "window_of app ad k =
     do { (r, k1) \<leftarrow> sys app 122 (at_pair ad) 0 k; Some (mem32 (k_mem k1) (at_pair ad), mem32 (k_mem k1) (at_pair ad + 4), k1) }"

abbreviation "ARGV_SAFE_SIZE \<equiv> 2 * CCP_LINE_MAX"

definition argv_safe_ptr :: "app \<Rightarrow> addrs \<Rightarrow> kernel \<Rightarrow> (u32 \<times> kernel) option" where
  "argv_safe_ptr app ad k = do { (buf, len, k1) \<leftarrow> window_of app ad k; Some (buf + len - of_nat ARGV_SAFE_SIZE, k1) }"

primrec save_args :: "u32 \<Rightarrow> nat \<Rightarrow> cstring list \<Rightarrow> kernel \<Rightarrow> (cstring + u32) list \<times> kernel" where
  "save_args safe off [] k = ([], k)"
| "save_args safe off (a # as) k =
     (if off < ARGV_SAFE_SIZE - 1
      then let w = take (ARGV_SAFE_SIZE - 1 - off) a in
        (case save_args safe (off + length w + 1) as (put_str (safe + of_nat off) w k) of
           (rs, k1) \<Rightarrow> (Inr (safe + of_nat off) # rs, k1))
      else (map Inl (a # as), k))"

primrec read_args :: "(u32 \<Rightarrow> u8) \<Rightarrow> (cstring + u32) list \<Rightarrow> cstring list option" where
  "read_args m [] = Some []"
| "read_args m (r # rs) = do { a \<leftarrow> (case r of Inl a \<Rightarrow> Some a | Inr p \<Rightarrow> cstr_at m p); as \<leftarrow> read_args m rs; Some (a # as) }"

text \<open>Redirection: whether output and input were opened, and the arguments as the commands find them.\<close>

definition open_redirs :: "app \<Rightarrow> addrs \<Rightarrow> redirs \<Rightarrow> kernel \<Rightarrow> (bool \<times> bool \<times> cstring list \<times> kernel) option" where
  "open_redirs app ad d k =
     (if rd_out d = None \<and> rd_in d = None then Some (False, False, rd_args d, k)
      else do { (safe, k0) \<leftarrow> argv_safe_ptr app ad k;
                let (refs, k1) = save_args safe 0 (rd_args d) k0;
                (oo, k2) \<leftarrow> (case rd_out d of None \<Rightarrow> Some (False, k1)
                   | Some (f, apnd) \<Rightarrow> do { (r, k2) \<leftarrow> sys app 114 (at_name ad) (if apnd then 1 else 0) (put_str (at_name ad) f k1);
                                              Some (r = 0, k2) });
                (io, k3) \<leftarrow> (case rd_in d of None \<Rightarrow> Some (False, k2)
                   | Some f \<Rightarrow> do { (r, k3) \<leftarrow> sys app 116 (at_name ad) 0 (put_str (at_name ad) f k2); Some (r = 0, k3) });
                args \<leftarrow> read_args (k_mem k3) refs;
                Some (oo, io, args, k3) })"

definition close_redirs :: "app \<Rightarrow> bool \<Rightarrow> bool \<Rightarrow> kernel \<Rightarrow> kernel option" where
  "close_redirs app oo io k =
     do { k1 \<leftarrow> (if oo then map_option snd (sys app 115 0 0 k) else Some k);
          if io then map_option snd (sys app 117 0 0 k1) else Some k1 }"

section \<open>Scripts\<close>

text \<open>In the window: the words \<open>active\<close>, \<open>pos\<close> and \<open>len\<close>, and the script from offset 16 on.\<close>

abbreviation "SUBMIT_DATA_OFFSET \<equiv> 16 :: u32"

definition cmd_submit :: "app \<Rightarrow> blobs \<Rightarrow> cmd" where
  "cmd_submit app ad argv s k =
     (if length argv < 2 then say_rc (usage argv ''<script>'') 1 s k
      else do { (ok, s1, k1) \<leftarrow> ccp_ensure_mounted app s k;
                if \<not> ok then Some (Rc 1, s1, k1)
                else do { (buf, len, k2) \<leftarrow> window_of app (addrs.truncate ad) k1;
                          let room = len - SUBMIT_DATA_OFFSET;
                          (n, k3) \<leftarrow> sys app 121 (at_name ad) (at_pair2 ad)
                             (put_pair (at_pair2 ad) (buf + SUBMIT_DATA_OFFSET) room (put_str (at_name ad) (argv ! 1) k2));
                          if n = 0xFFFFFFFF then say_rc (errf (ascii ''submit'') (Some (argv ! 1)) ''not found'') 1 s1 k3
                          else if room \<le> n then say_rc (errf (ascii ''submit'') (Some (argv ! 1)) ''too big'') 1 s1 k3
                          else Some (Rc 0, s1, k3\<lparr>k_mem := put32 buf 1 (put32 (buf + 4) 0 (put32 (buf + 8) n (k_mem k3)))\<rparr>) } })"

definition submit_is_active :: "app \<Rightarrow> addrs \<Rightarrow> kernel \<Rightarrow> (bool \<times> kernel) option" where
  "submit_is_active app ad k = do { (buf, len, k1) \<leftarrow> window_of app ad k; Some (mem32 (k_mem k1) buf \<noteq> 0, k1) }"

text \<open>
  The loop over the bytes of the script: the line, whether its end was found before the end of the script, and the
  number of bytes read; \<open>None\<close> when the code writes the zero at the end of the line behind the 80 bytes of the buffer.
\<close>

primrec script_line :: "u8 list \<Rightarrow> cstring \<Rightarrow> nat \<Rightarrow> (cstring \<times> bool \<times> nat) option" where
  "script_line [] out n = Some (out, False, n)"
| "script_line (c # cs) out n =
     (if c = 0x1A \<or> c = 0 then Some (out, False, Suc n)
      else if c = 0x0D then script_line cs out (Suc n)
      else if c = 0x0A
      then (if CCP_LINE_MAX \<le> length out then None
            else if out = [] \<or> hd out = 0x23 then script_line cs [] (Suc n)
            else Some (out, True, Suc n))
      else script_line cs (if length out < CCP_LINE_MAX then out @ [c] else out) (Suc n))"

text \<open>
  The next line, without the mark \<open>@\<close>, and whether it had one; or the end of the script; or a line too long for the buffer,
  which the code writes past. What that does depends on the layout of the memory: the state is then the one before the line was read.
\<close>

datatype script_end = Script_line cstring bool | Script_done | Script_overrun

definition submit_next_line :: "app \<Rightarrow> addrs \<Rightarrow> kernel \<Rightarrow> (script_end \<times> kernel) option" where
  "submit_next_line app ad k =
     do { (h, len, k1) \<leftarrow> window_of app ad k;
          let m = k_mem k1;
          let pos = mem32 m (h + 4);
          let stop = mem32 m (h + 8);
          Some (if mem32 m h = 0 then (Script_done, k1)
                else case script_line (get_bytes (h + SUBMIT_DATA_OFFSET + pos) (unat stop - unat pos) m) [] 0 of
                  None \<Rightarrow> (Script_overrun, k1)
                | Some (out, found, n) \<Rightarrow>
                    let line = (if out \<noteq> [] \<and> hd out = 0x40 then Script_line (tl out) True else Script_line out False);
                        m1 = put32 (h + 4) (pos + of_nat n) m in
                    if found then (line, k1\<lparr>k_mem := m1\<rparr>)
                    else if out = [] \<or> hd out = 0x23 then (Script_done, k1\<lparr>k_mem := put32 h 0 m1\<rparr>)
                    else if CCP_LINE_MAX \<le> length out then (Script_overrun, k1)
                    else (line, k1\<lparr>k_mem := put32 h 0 m1\<rparr>)) }"

section \<open>Commands\<close>

definition builtins :: "app \<Rightarrow> blobs \<Rightarrow> cmd list" where
  "builtins app ad =
     [cmd_help app ad, cmd_help app ad, cmd_ver app ad, cmd_mem app ad, printing cmd_cls, printing cmd_echo, cmd_peek app ad,
      cmd_poke app ad, cmd_user app ad, stating cmd_history, stating cmd_set, stating cmd_prompt, cmd_free app ad,
      printing cmd_uname, printing cmd_expr, printing_opt cmd_seq, printing_opt cmd_factor, printing cmd_printf,
      printing cmd_true, printing cmd_false, printing cmd_yes, printing cmd_test, printing cmd_test, printing cmd_crc32,
      cmd_dump app ad, printing cmd_base64, printing cmd_uue, printing_opt cmd_uud, cmd_stty app ad, cmd_srec app ad,
      cmd_nano app ad, cmd_nano app ad, cmd_mount app ad, cmd_ls app ad, cmd_cat app ad, cmd_rm app ad, cmd_cp app ad,
      cmd_mv app ad, cmd_mkdir app ad, cmd_rmdir app ad, cmd_cd app ad, cmd_pwd app ad, cmd_submit app ad, cmd_save app ad,
      cmd_load app ad, cmd_exit app ad]"

definition find_builtin :: "app \<Rightarrow> blobs \<Rightarrow> cstring \<Rightarrow> cmd option" where
  "find_builtin app ad name = map_option snd (find (\<lambda>b. ccp_strieq name (fst b)) (zip builtin_names (builtins app ad)))"

text \<open>A program of the volume; the result is \<open>Boots\<close> when it ran, and otherwise whether it was found.\<close>

definition auto_load :: "app \<Rightarrow> addrs \<Rightarrow> cstring \<Rightarrow> cstring list \<Rightarrow> kernel \<Rightarrow> (bres \<times> kernel) option" where
  "auto_load app ad name args k =
     bdos_dispatch app 113 (at_name ad) (at_name2 ad) (put_str (at_name2 ad) (join_args (CCP_LINE_MAX - 1) True args []) (put_str (at_name ad) name k))"

definition unknown_text :: "cstring \<Rightarrow> u8 list" where
  "unknown_text name =
     (if needs_fs name
      then ccp_puts (ascii ''?'') @ ccp_puts name @ msg '': filesystem not available yet (FAT32 layer pending)''
      else ccp_puts (ascii ''?unknown command: '') @ ccp_puts name @ nl @ ccp_puts (ascii ''Type `help` for a list.'' @ [0x0D, 0x0A]))"

text \<open>The search for the command, and the redirection closed behind it. Whether the machine boots again.\<close>

type_synonym shell_state = "bool \<times> ccp \<times> kernel"

definition dispatch_cmd :: "app \<Rightarrow> blobs \<Rightarrow> cstring \<Rightarrow> cstring list \<Rightarrow> bool \<Rightarrow> bool \<Rightarrow> ccp \<Rightarrow> kernel \<Rightarrow> shell_state option" where
  "dispatch_cmd app ad name argv oo io s k =
     (case find_builtin app ad (resolve_alias name) of
        Some f \<Rightarrow>
          do { (r, s1, k1) \<leftarrow> f argv s k;
               (case r of Boots \<Rightarrow> Some (True, s1, k1) | Rc v \<Rightarrow> do { k2 \<leftarrow> close_redirs app oo io k1; Some (False, s1, k2) }) }
      | None \<Rightarrow>
          do { (r, k1) \<leftarrow> auto_load app (addrs.truncate ad) name (tl argv) k;
               (case r of
                  Warmboot \<Rightarrow> Some (True, s, k1)
                | Ret v \<Rightarrow> do { k2 \<leftarrow> (if v = 0 then Some k1 else say (unknown_text name) k1);
                                 k3 \<leftarrow> close_redirs app oo io k2; Some (False, s, k3) }) })"

definition run_line :: "app \<Rightarrow> blobs \<Rightarrow> cstring \<Rightarrow> ccp \<Rightarrow> kernel \<Rightarrow> shell_state option" where
  "run_line app ad line s k =
     do { (argv, k1) \<leftarrow> line_args app (addrs.truncate ad) s line 0 [] k;
          if argv = [] then Some (False, s, k1)
          else do { (switched, k2) \<leftarrow> try_drive_switch app (hd argv) k1;
                    if switched then Some (False, s, k2)
                    else let d = strip_redirs argv \<lparr>rd_args = [], rd_out = None, rd_in = None\<rparr> in
                      do { (oo, io, args, k3) \<leftarrow> open_redirs app (addrs.truncate ad) d k2;
                           dispatch_cmd app ad (if args = [] then hd argv else hd args) args oo io s k3 } } }"

section \<open>The prompt\<close>

text \<open>The path in the prompt, cut where the text has 30 characters.\<close>

definition prompt_path :: "u32 \<Rightarrow> u32 \<Rightarrow> cstring \<Rightarrow> cstring \<Rightarrow> cstring" where
  "prompt_path d u cwd out =
     (let out1 = out @ [drive_char d] @ user_digits u @ [0x3A] in out1 @ take (30 - length out1) cwd @ [0x5C])"

definition prompt_token :: "u32 \<Rightarrow> u32 \<Rightarrow> cstring \<Rightarrow> u8 \<Rightarrow> cstring \<Rightarrow> cstring" where
  "prompt_token d u cwd tok out =
     (if tok = 0x50 then prompt_path d u cwd out
      else out @ (if tok = 0x4E then [drive_char d] else if tok = 0x47 then [0x3E] else if tok = 0x4C then [0x3C]
        else if tok = 0x53 then [0x20] else if tok = 0x45 then [0x1B] else if tok = 0x5F then [0x0D, 0x0A] else [tok]))"

fun prompt_loop :: "u32 \<Rightarrow> u32 \<Rightarrow> cstring \<Rightarrow> cstring \<Rightarrow> cstring \<Rightarrow> cstring" where
  "prompt_loop d u cwd [] out = out"
| "prompt_loop d u cwd (c # fmt) out =
     (if 30 \<le> length out then out
      else if c \<noteq> 0x24 then prompt_loop d u cwd fmt (out @ [c])
      else case fmt of [] \<Rightarrow> out | tok # fmt1 \<Rightarrow> prompt_loop d u cwd fmt1 (prompt_token d u cwd tok out))"

text \<open>The buffer for it has 16 bytes; a longer prompt, which the code writes past the buffer, is \<open>None\<close>.\<close>

definition prompt_text :: "ccp \<Rightarrow> u32 \<Rightarrow> u32 \<Rightarrow> cstring \<Rightarrow> cstring" where
  "prompt_text s d u cwd =
     prompt_loop d u cwd (case env_get (ascii ''PROMPT'') s of None \<Rightarrow> ascii ''$P$G$S'' | Some p \<Rightarrow> p) []"

definition build_prompt :: "app \<Rightarrow> blobs \<Rightarrow> ccp \<Rightarrow> kernel \<Rightarrow> (cstring option \<times> kernel) option" where
  "build_prompt app ad s k =
     do { (d, u, cwd, k1) \<leftarrow> where_am_i app ad k;
          Some (if 16 \<le> length (prompt_text s d u cwd) then None else Some (prompt_text s d u cwd), k1) }"

section \<open>Pipes\<close>

text \<open>The offset of the first bar between blanks and outside quotes; \<open>prev\<close> is the character before.\<close>

primrec find_bar :: "u8 \<Rightarrow> bool \<Rightarrow> bool \<Rightarrow> nat \<Rightarrow> cstring \<Rightarrow> nat option" where
  "find_bar prev sq dq i [] = None"
| "find_bar prev sq dq i (c # cs) =
     (if c = 0x27 \<and> \<not> dq then find_bar c (\<not> sq) dq (Suc i) cs
      else if c = 0x22 \<and> \<not> sq then find_bar c sq (\<not> dq) (Suc i) cs
      else if c = 0x7C \<and> \<not> sq \<and> \<not> dq \<and> prev = 0x20 \<and> cs \<noteq> [] \<and> hd cs = 0x20 then Some i
      else find_bar c sq dq (Suc i) cs)"

definition pipe_left :: "cstring \<Rightarrow> nat \<Rightarrow> cstring" where
  "pipe_left line i = take 144 (rev (dropWhile (\<lambda>c. c = 0x20) (rev (take i line)))) @ ascii '' > PIPE.TMP''"

definition pipe_right :: "cstring \<Rightarrow> nat \<Rightarrow> cstring" where
  "pipe_right line i = take 144 (dropWhile (\<lambda>c. c = 0x20) (drop (Suc i) line)) @ ascii '' < PIPE.TMP''"

text \<open>The right half is read from the window after the left one has run.\<close>

definition handle_pipe :: "app \<Rightarrow> blobs \<Rightarrow> cstring \<Rightarrow> ccp \<Rightarrow> kernel \<Rightarrow> (bool \<times> shell_state) option" where
  "handle_pipe app ad line s k =
     (case find_bar 0 False False 0 line of
        None \<Rightarrow> Some (False, False, s, k)
      | Some i \<Rightarrow>
          do { (buf, len, k1) \<leftarrow> window_of app (addrs.truncate ad) k;
               (boots, s2, k2) \<leftarrow> run_line app ad (pipe_left line i) s
                  (put_str (buf + 3776) (pipe_right line i) (put_str (buf + 3616) (pipe_left line i) k1));
               if boots then Some (True, True, s2, k2)
               else do { right \<leftarrow> cstr_at (k_mem k2) (buf + 3776);
                         (boots, s3, k3) \<leftarrow> run_line app ad right s2 k2;
                         if boots then Some (True, True, s3, k3)
                         else do { (r, k4) \<leftarrow> sys app 19 (at_fcb ad) 0 (build_fcb (at_fcb ad) (ascii ''PIPE.TMP'') k3);
                                   Some (True, False, s3, k4) } } })"

section \<open>The main loop\<close>

text \<open>A line is obtained from the script or from the console; \<open>None\<close> when there is none in this turn.\<close>

definition typed_line :: "cstring \<Rightarrow> ccp \<Rightarrow> kernel \<Rightarrow> (cstring option \<times> ccp \<times> kernel) option" where
  "typed_line line s k =
     (case (if line \<noteq> [] \<and> hd line = 0x21 then hist_substitute s line else ([], 0, line)) of
        (out, rc, line1) \<Rightarrow>
          do { k1 \<leftarrow> say out k;
               Some (if rc < 0 then (None, s, k1)
                     else (Some line1, if line1 \<noteq> [] \<and> hd line1 \<noteq> 0x20 then history_add line1 s else s, k1)) })"

definition run_or_pipe :: "app \<Rightarrow> blobs \<Rightarrow> cstring \<Rightarrow> ccp \<Rightarrow> kernel \<Rightarrow> shell_state option" where
  "run_or_pipe app ad line s k =
     do { (piped, st) \<leftarrow> handle_pipe app ad line s k; if piped then Some st else run_line app ad line s k }"

text \<open>
  How a turn ends: the loop goes on, the machine boots again, or a turn writes behind the prompt or the line buffer. After
  that the memory of the processor is not known any more, and the model stops.
\<close>

datatype turn_end = Goes_on | Boots_again | Overruns

type_synonym turn_state = "turn_end \<times> ccp \<times> kernel"

definition ran :: "shell_state \<Rightarrow> turn_state" where
  "ran st = (case st of (boots, s, k) \<Rightarrow> (if boots then Boots_again else Goes_on, s, k))"

text \<open>A turn with a line of the script, and a turn with a line that is typed; the line buffer still holds \<open>b\<close>.\<close>

definition script_turn :: "app \<Rightarrow> blobs \<Rightarrow> cstring \<Rightarrow> ccp \<Rightarrow> kernel \<Rightarrow> turn_state option" where
  "script_turn app ad prompt s k =
     do { (next, k1) \<leftarrow> submit_next_line app (addrs.truncate ad) k;
          (case next of
             Script_done \<Rightarrow> Some (Goes_on, s, k1)
           | Script_overrun \<Rightarrow> Some (Overruns, s, k1)
           | Script_line line silent \<Rightarrow>
               do { k2 \<leftarrow> (if silent then Some k1 else say (ccp_puts prompt @ ccp_puts line @ nl) k1);
                    map_option ran (run_or_pipe app ad line s k2) }) }"

definition typed_turn :: "app \<Rightarrow> blobs \<Rightarrow> cstring \<Rightarrow> mem \<Rightarrow> ccp \<Rightarrow> kernel \<Rightarrow> turn_state option" where
  "typed_turn app ad prompt b s k =
     do { (r, s1, k1) \<leftarrow> read_line app (addrs.truncate ad) prompt (b(0 := 0)) s k;
          (case r of
             Rebooted \<Rightarrow> Some (Boots_again, s1, k1)
           | Overrun \<Rightarrow> Some (Overruns, s1, k1)
           | Line line \<Rightarrow>
               do { (l, s2, k2) \<leftarrow> typed_line line s1 k1;
                    (case l of None \<Rightarrow> Some (Goes_on, s2, k2) | Some line1 \<Rightarrow> map_option ran (run_or_pipe app ad line1 s2 k2)) }) }"

definition ccp_turn :: "app \<Rightarrow> blobs \<Rightarrow> mem \<Rightarrow> ccp \<Rightarrow> kernel \<Rightarrow> turn_state option" where
  "ccp_turn app ad b s k =
     do { (room, k1) \<leftarrow> build_prompt app ad s k;
          (case room of
             None \<Rightarrow> Some (Overruns, s, k1)
           | Some prompt \<Rightarrow>
               do { (scripted, k2) \<leftarrow> submit_is_active app (addrs.truncate ad) k1;
                    if scripted then script_turn app ad prompt s k2 else typed_turn app ad prompt b s k2 }) }"

text \<open>The loop: turns as long as it goes on; the buffers at the start of the turns are arbitrary.\<close>

inductive ccp_runs :: "app \<Rightarrow> blobs \<Rightarrow> turn_state \<Rightarrow> bool" for app ad where
  start: "say (nl @ msg ''[CCP loaded into TPA from compressed ROM image]'') k = Some k1 \<Longrightarrow> kernel_ok k \<Longrightarrow> ccp_runs app ad (Goes_on, ccp_start, k1)"
| turn: "ccp_runs app ad (Goes_on, s, k) \<Longrightarrow> ccp_turn app ad b s k = Some st \<Longrightarrow> ccp_runs app ad st"

end
