(* ===== verification/Ccp_Turn.thy ===== *)
theory Ccp_Turn
  imports Ccp_Shell
begin

text \<open>
  What holds of the main loop of the command processor: every command and every turn keep the state well formed, a
  line reaches its command unchanged, and the prompt fits its buffer only for short paths.
\<close>

section \<open>What every command keeps\<close>

definition shell_ok :: "ccp \<Rightarrow> kernel \<Rightarrow> bool" where
  "shell_ok s k \<longleftrightarrow> kernel_ok k \<and> hist_ok s \<and> length (kill_buf s) < CCP_LINE_MAX \<and> length (env_block s) < ENV_BLOCK_SIZE"

definition cmd_keeps :: "cmd \<Rightarrow> bool" where
  "cmd_keeps f \<longleftrightarrow> (\<forall>argv s k r s' k'. f argv s k = Some (r, s', k') \<longrightarrow> shell_ok s k \<longrightarrow> shell_ok s' k')"

lemma shell_step: "shell_ok s k \<Longrightarrow> (kernel_ok k \<Longrightarrow> kernel_ok k') \<Longrightarrow> shell_ok s k'"
  by (simp add: shell_ok_def)

lemma shell_mem [simp]: "shell_ok s (k\<lparr>k_mem := m\<rparr>) = shell_ok s k" "shell_ok s (put_fcb a raw k) = shell_ok s k"
  "shell_ok s (put_str a cs k) = shell_ok s k" "shell_ok s (put_pair a p n k) = shell_ok s k" "shell_ok s (build_fcb a cs k) = shell_ok s k"
  "shell_ok s (setb a v k) = shell_ok s k" "shell_ok (s\<lparr>ccp_mounted := b\<rparr>) k = shell_ok s k"
  by (simp_all add: shell_ok_def put_pair_def build_fcb_def setb_def hist_ok_def)

lemma say_rc_shell: "say_rc out rc s k = Some (r, s', k') \<Longrightarrow> shell_ok s k \<Longrightarrow> shell_ok s' k'"
  by (auto simp: say_rc_def shell_ok_def dest: say_ok)

lemma say_shell: "say out k = Some k' \<Longrightarrow> shell_ok s k \<Longrightarrow> shell_ok s k'"
  by (auto simp: shell_ok_def dest: say_ok)

lemma sys_shell: "sys app f a b k = Some (v, k') \<Longrightarrow> app_ok app \<Longrightarrow> shell_ok s k \<Longrightarrow> shell_ok s k'"
  by (auto simp: shell_ok_def dest: sys_ok)

lemma bios_shell: "bios_dispatch f a b k = Some (v, k') \<Longrightarrow> shell_ok s k \<Longrightarrow> shell_ok s k'"
  by (auto simp: shell_ok_def dest: bios_ok)

lemma bdos_shell: "bdos_dispatch app f a b k = Some (v, k') \<Longrightarrow> app_ok app \<Longrightarrow> shell_ok s k \<Longrightarrow> shell_ok s k'"
  by (auto simp: shell_ok_def intro: dispatch_ok)

lemma mounted_shell: "ccp_ensure_mounted app s k = Some (b, s', k') \<Longrightarrow> app_ok app \<Longrightarrow> shell_ok s k \<Longrightarrow> shell_ok s' k'"
  by (auto simp: ccp_ensure_mounted_def handler_simps split: if_splits intro: sys_shell say_shell)

lemmas shell_keeps = say_rc_shell say_shell sys_shell bios_shell bdos_shell mounted_shell

lemma printing_keeps: "cmd_keeps (printing f)"
  unfolding cmd_keeps_def printing_def by (auto split: prod.splits intro: say_rc_shell)

lemma printing_opt_keeps: "cmd_keeps (printing_opt f)"
  unfolding cmd_keeps_def printing_opt_def by (auto simp: handler_simps intro: say_rc_shell)

lemmas cmd_simps = handler_simps split_beta cmd_keeps_def

lemma info_keeps:
  assumes "app_ok app"
  shows "cmd_keeps (cmd_help app ad)" "cmd_keeps (cmd_ver app ad)" "cmd_keeps (cmd_mem app ad)" "cmd_keeps (cmd_free app ad)"
    "cmd_keeps (cmd_user app ad)" "cmd_keeps (cmd_stty app ad)" "cmd_keeps (cmd_exit app ad)"
  using assms
  by (auto simp: cmd_help_def cmd_ver_def cmd_mem_def cmd_free_def cmd_user_def cmd_stty_def cmd_exit_def cmd_simps
      split: if_splits option.splits dest!: shell_keeps)

lemma memory_keeps: "cmd_keeps (cmd_dump app ad)" "cmd_keeps (cmd_peek app ad)" "cmd_keeps (cmd_poke app ad)"
  by (auto simp: cmd_dump_def cmd_peek_def cmd_poke_def cmd_simps split: if_splits option.splits dest!: shell_keeps)

lemma cat_input_shell:
  assumes "cat_input app k = Some k'"
  shows "app_ok app \<longrightarrow> shell_ok s k \<longrightarrow> shell_ok s k'"
  by (rule cat_input.raw_induct [where P = "\<lambda>app k k'. app_ok app \<longrightarrow> shell_ok s k \<longrightarrow> shell_ok s k'", OF _ assms])
    (auto simp: handler_simps split: if_splits dest: sys_shell)

lemma files_shell:
  "cat_files app ad many as err k = Some (e, k') \<Longrightarrow> app_ok app \<Longrightarrow> shell_ok s k \<Longrightarrow> shell_ok s k'"
  "rm_files app ad as err k = Some (e, k') \<Longrightarrow> app_ok app \<Longrightarrow> shell_ok s k \<Longrightarrow> shell_ok s k'"
  by (induction as arbitrary: err k) (auto simp: cmd_simps split: if_splits dest!: shell_keeps)

lemma file_keeps:
  assumes "app_ok app"
  shows "cmd_keeps (cmd_mount app ad)" "cmd_keeps (cmd_ls app ad)" "cmd_keeps (cmd_rm app ad)" "cmd_keeps (cmd_cp app ad)"
    "cmd_keeps (cmd_mkdir app ad)" "cmd_keeps (cmd_rmdir app ad)"
  using assms
  by (auto simp: cmd_mount_def cmd_ls_def cmd_rm_def cmd_cp_def cmd_mkdir_def cmd_rmdir_def cmd_simps
      split: if_splits option.splits dest!: shell_keeps files_shell)

lemma cmd_mv_keeps: "app_ok app \<Longrightarrow> cmd_keeps (cmd_mv app ad)"
  by (auto simp: cmd_mv_def cmd_simps split: if_splits option.splits dest!: shell_keeps)

lemma save_keeps: "app_ok app \<Longrightarrow> cmd_keeps (cmd_load app ad)" "app_ok app \<Longrightarrow> cmd_keeps (cmd_save app ad)"
  by (auto simp: cmd_load_def cmd_save_def cmd_simps case_Some_conv dest!: shell_keeps)

lemma where_shell: "where_am_i app ad k = Some (d, u, cwd, k') \<Longrightarrow> app_ok app \<Longrightarrow> shell_ok s k \<Longrightarrow> shell_ok s k'"
  by (auto simp: where_am_i_def cmd_simps dest!: shell_keeps)

lemma pwd_keeps: "app_ok app \<Longrightarrow> cmd_keeps (cmd_pwd app ad)"
  by (auto simp: cmd_pwd_def cmd_simps dest!: shell_keeps where_shell)

lemma cd_keeps: "app_ok app \<Longrightarrow> cmd_keeps (cmd_cd app ad)"
  using pwd_keeps [of app ad]
  by (auto simp: cmd_cd_def cd_try_drive_or_user_def cmd_simps split: if_splits dest!: shell_keeps)

lemma window_shell: "window_of app ad k = Some (b, n, k') \<Longrightarrow> app_ok app \<Longrightarrow> shell_ok s k \<Longrightarrow> shell_ok s k'"
  by (auto simp: window_of_def cmd_simps dest!: shell_keeps)

lemma submit_keeps: "app_ok app \<Longrightarrow> cmd_keeps (cmd_submit app ad)"
  by (auto simp: cmd_submit_def cmd_simps split: if_splits dest!: shell_keeps window_shell)


lemma cat_keeps: "app_ok app \<Longrightarrow> cmd_keeps (cmd_cat app ad)"
  by (auto simp: cmd_cat_def cmd_simps split: if_splits dest!: shell_keeps files_shell cat_input_shell)

text \<open>The commands that read from the console.\<close>

lemma getc_shell: "ccp_getc k = Some (c, k') \<Longrightarrow> shell_ok s k \<Longrightarrow> shell_ok s k'"
  by (auto simp: shell_ok_def dest: getc_ok)

lemma key_shell: "read_key k = Some (c, k') \<Longrightarrow> shell_ok s k \<Longrightarrow> shell_ok s k'"
  by (auto simp: shell_ok_def dest: read_key_ok)

lemma srec_read_shell:
  assumes "srec_read_line b n k = Some r"
  shows "shell_ok s k \<longrightarrow> shell_ok s (snd (snd r))"
  by (rule srec_read_line.raw_induct [where P = "\<lambda>b n k r. shell_ok s k \<longrightarrow> shell_ok s (snd (snd r))", OF _ assms])
    (auto simp: handler_simps split: if_splits dest!: getc_shell)

lemma srec_loop_shell:
  assumes "srec_loop b k = Some r"
  shows "shell_ok s k \<longrightarrow> shell_ok s (snd r)"
  by (rule srec_loop.raw_induct [where P = "\<lambda>b k r. shell_ok s k \<longrightarrow> shell_ok s (snd r)", OF _ assms])
    (auto simp: handler_simps split_beta split: if_splits option.splits dest!: srec_read_shell say_shell)

lemma nano_loop_shell:
  assumes "nano_loop addr sz e k = Some r"
  shows "shell_ok s k \<longrightarrow> shell_ok s (snd r)"
  by (rule nano_loop.raw_induct [where P = "\<lambda>addr sz e k r. shell_ok s k \<longrightarrow> shell_ok s (snd r)", OF _ assms])
    (auto simp: handler_simps split_beta split: if_splits dest!: key_shell say_shell)

lemma app_shell: "app a n t k = Some (x, k') \<Longrightarrow> app_ok app \<Longrightarrow> shell_ok s k \<Longrightarrow> shell_ok s k'"
  unfolding app_ok_def shell_ok_def by blast

lemma srec_keeps: "app_ok app \<Longrightarrow> cmd_keeps (cmd_srec app ad)"
  by (auto simp: cmd_srec_def cmd_simps split: if_splits option.splits dest!: srec_loop_shell shell_keeps app_shell)

lemma nano_keeps: "cmd_keeps (cmd_nano app ad)"
  by (auto simp: cmd_nano_def cmd_simps split: if_splits option.splits dest!: nano_loop_shell shell_keeps)

text \<open>The commands on the environment and the history.\<close>

lemma env_set_size: "length (env_block s) < ENV_BLOCK_SIZE \<Longrightarrow> length (env_block (snd (env_set name val s))) < ENV_BLOCK_SIZE"
  by (auto simp: env_set_def Let_def not_le split: option.splits)

lemma env_set_other: "hist_ok (snd (env_set name val s)) = hist_ok s" "kill_buf (snd (env_set name val s)) = kill_buf s"
  by (simp_all add: env_set_def Let_def hist_ok_def)

lemma env_set_shell: "shell_ok s k \<Longrightarrow> shell_ok (snd (env_set name val s)) k"
  by (simp add: shell_ok_def env_set_size env_set_other)

lemma state_keeps: "cmd_keeps (stating cmd_history)" "cmd_keeps (stating cmd_set)" "cmd_keeps (stating cmd_prompt)"
proof -
  have "shell_ok s k \<Longrightarrow> shell_ok (snd (snd (cmd_set argv s))) k" for argv s k
    using env_set_shell [of s k] by (auto simp: cmd_set_def Let_def split: prod.splits bool.splits) (metis snd_conv)+
  moreover have "shell_ok s k \<Longrightarrow> shell_ok (snd (snd (cmd_prompt argv s))) k" for argv s k
    by (auto simp: cmd_prompt_def env_set_shell split: option.splits)
  moreover have "snd (snd (cmd_history argv s)) = s" for argv s by (simp add: cmd_history_def)
  ultimately show "cmd_keeps (stating cmd_history)" "cmd_keeps (stating cmd_set)" "cmd_keeps (stating cmd_prompt)"
    unfolding cmd_keeps_def stating_def by (auto simp: split_beta dest: say_rc_shell)
qed

lemma builtins_keep: "app_ok app \<Longrightarrow> list_all cmd_keeps (builtins app ad)"
  unfolding builtins_def list.pred_inject
  by (intro conjI TrueI info_keeps memory_keeps file_keeps cmd_mv_keeps save_keeps pwd_keeps cd_keeps submit_keeps cat_keeps
      srec_keeps nano_keeps state_keeps printing_keeps printing_opt_keeps) (simp_all)

lemma find_builtin_keeps: "find_builtin app ad name = Some f \<Longrightarrow> app_ok app \<Longrightarrow> cmd_keeps f"
  using builtins_keep [of app ad]
  by (auto simp: find_builtin_def find_Some_iff list_all_iff dest: nth_mem)


section \<open>A turn keeps the state well formed\<close>

lemma search_shell: "search_first app ad pat k = Some (r, k') \<Longrightarrow> app_ok app \<Longrightarrow> shell_ok s k \<Longrightarrow> shell_ok s k'"
  by (auto simp: shell_ok_def dest: search_first_ok)

lemma glob_loop_shell:
  assumes "glob_loop app ad sz mx r boff past names k = Some res"
  shows "app_ok app \<longrightarrow> shell_ok s k \<longrightarrow> shell_ok s (snd (snd res))"
  by (rule glob_loop.raw_induct [where P = "\<lambda>app ad sz mx r boff past names k res. app_ok app \<longrightarrow> shell_ok s k \<longrightarrow> shell_ok s (snd (snd res))", OF _ assms])
    (auto simp: handler_simps split: if_splits dest: sys_shell)

lemma glob_shell: "glob_expand app ad pat sz mx k = Some (names, n, k') \<Longrightarrow> app_ok app \<Longrightarrow> shell_ok s k \<Longrightarrow> shell_ok s k'"
  by (auto simp: glob_expand_def handler_simps split_beta split: if_splits dest!: search_shell glob_loop_shell)

lemma line_args_shell:
  assumes "line_args app ad s0 p eoff argv k = Some res"
  shows "app_ok app \<longrightarrow> shell_ok s k \<longrightarrow> shell_ok s (snd res)"
  by (rule line_args.raw_induct [where P = "\<lambda>app ad s0 p eoff argv k res. app_ok app \<longrightarrow> shell_ok s k \<longrightarrow> shell_ok s (snd res)", OF _ assms])
    (auto simp: handler_simps case_Some_conv split_beta split: if_splits dest!: glob_shell)

lemmas line_args_keeps = line_args_shell [rule_format]

lemma switch_shell: "try_drive_switch app tok k = Some (b, k') \<Longrightarrow> app_ok app \<Longrightarrow> shell_ok s k \<Longrightarrow> shell_ok s k'"
  by (auto simp: try_drive_switch_def handler_simps split: if_splits dest!: sys_shell)

lemma save_args_shell: "shell_ok s (snd (save_args safe off as k)) = shell_ok s k"
  by (induction as arbitrary: off k) (auto simp: Let_def split_beta)

lemma open_shell: "open_redirs app ad d k = Some (oo, io, args, k') \<Longrightarrow> app_ok app \<Longrightarrow> shell_ok s k \<Longrightarrow> shell_ok s k'"
  by (auto simp: open_redirs_def argv_safe_ptr_def handler_simps split_beta case_Some_conv save_args_shell split: if_splits
      dest!: window_shell sys_shell)

lemma close_shell: "close_redirs app oo io k = Some k' \<Longrightarrow> app_ok app \<Longrightarrow> shell_ok s k \<Longrightarrow> shell_ok s k'"
  by (auto simp: close_redirs_def handler_simps split: if_splits dest!: sys_shell)

lemma case_bres_conv:
  "(case r of Ret v \<Rightarrow> f v | Warmboot \<Rightarrow> g) = Some z \<longleftrightarrow> (\<exists>v. r = Ret v \<and> f v = Some z) \<or> r = Warmboot \<and> g = Some z"
  by (cases r) auto

lemma dispatch_shell:
  assumes "dispatch_cmd app ad name argv oo io s k = Some (b, s', k')" "app_ok app" "shell_ok s k"
  shows "shell_ok s' k'"
proof (cases "find_builtin app ad (resolve_alias name)")
  case None
  then have "auto_load app (addrs.truncate ad) name (tl argv) k \<bind> (\<lambda>(r, k1). case r of Warmboot \<Rightarrow> Some (True, s, k1)
        | Ret v \<Rightarrow> do { k2 \<leftarrow> (if v = 0 then Some k1 else say (unknown_text name) k1); k3 \<leftarrow> close_redirs app oo io k2; Some (False, s, k3) })
       = Some (b, s', k')"
    using assms(1) by (simp only: dispatch_cmd_def option.case)
  then obtain r k1 where r: "auto_load app (addrs.truncate ad) name (tl argv) k = Some (r, k1)"
      "(case r of Warmboot \<Rightarrow> Some (True, s, k1)
        | Ret v \<Rightarrow> do { k2 \<leftarrow> (if v = 0 then Some k1 else say (unknown_text name) k1); k3 \<leftarrow> close_redirs app oo io k2; Some (False, s, k3) })
       = Some (b, s', k')"
    by (auto simp only: Option.bind_eq_Some_conv prod.case split: prod.splits)
  have k1: "shell_ok s k1" using bdos_shell [OF r(1) [unfolded auto_load_def] assms(2), of s] assms(3) by simp
  show ?thesis
  proof (cases r)
    case Warmboot
    then show ?thesis using r(2) k1 by simp
  next
    case (Ret v)
    then obtain k2 where k2: "(if v = 0 then Some k1 else say (unknown_text name) k1) = Some k2" "close_redirs app oo io k2 = Some k'" "s' = s"
      using r(2) by (auto simp: handler_simps)
    have "shell_ok s k2" using k2(1) k1 say_shell by (auto split: if_splits)
    then show ?thesis using close_shell [OF k2(2) assms(2)] k2(3) by simp
  qed
next
  case (Some f)
  then have f: "cmd_keeps f" using assms(2) by (rule find_builtin_keeps)
  have "f argv s k \<bind> (\<lambda>(r, s1, k1). case r of Boots \<Rightarrow> Some (True, s1, k1)
      | Rc v \<Rightarrow> do { k2 \<leftarrow> close_redirs app oo io k1; Some (False, s1, k2) }) = Some (b, s', k')"
    using assms(1) Some by (simp only: dispatch_cmd_def option.case)
  then obtain r s1 k1 where r: "f argv s k = Some (r, s1, k1)" "(case r of Boots \<Rightarrow> Some (True, s1, k1)
      | Rc v \<Rightarrow> do { k2 \<leftarrow> close_redirs app oo io k1; Some (False, s1, k2) }) = Some (b, s', k')"
    by (auto simp: Option.bind_eq_Some_conv)
  have "shell_ok s1 k1" using f r(1) assms(3) unfolding cmd_keeps_def by blast
  then show ?thesis using r(2) close_shell [OF _ assms(2)] by (cases r) (auto simp: handler_simps)
qed

lemma run_line_shell:
  "run_line app ad line s k = Some (b, s', k') \<Longrightarrow> app_ok app \<Longrightarrow> shell_ok s k \<Longrightarrow> shell_ok s' k'"
  by (auto simp: run_line_def handler_simps split: if_splits dest!: line_args_keeps switch_shell open_shell dispatch_shell)

lemma pipe_shell:
  "handle_pipe app ad line s k = Some (p, b, s', k') \<Longrightarrow> app_ok app \<Longrightarrow> shell_ok s k \<Longrightarrow> shell_ok s' k'"
  by (auto simp: handle_pipe_def handler_simps split: option.splits if_splits dest!: window_shell run_line_shell sys_shell)

lemma run_or_pipe_shell:
  "run_or_pipe app ad line s k = Some (b, s', k') \<Longrightarrow> app_ok app \<Longrightarrow> shell_ok s k \<Longrightarrow> shell_ok s' k'"
  by (auto simp: run_or_pipe_def handler_simps split: if_splits dest!: pipe_shell run_line_shell)

lemma history_shell: "shell_ok s k \<Longrightarrow> shell_ok (history_add line s) k"
  by (auto simp: shell_ok_def history_add_def hist_ok_def)

lemma typed_shell: "typed_line line s k = Some (l, s', k') \<Longrightarrow> shell_ok s k \<Longrightarrow> shell_ok s' k'"
  by (auto simp: typed_line_def handler_simps split_beta split: if_splits dest!: say_shell intro: history_shell)

lemma edit_loop_keeps:
  assumes "edit_loop app ad prompt s e k = Some r"
  shows "env_block (fst (snd r)) = env_block s \<and> hist_ok (fst (snd r)) = hist_ok s"
proof (rule edit_loop.raw_induct [where P = "\<lambda>app ad prompt s e k r. env_block (fst (snd r)) = env_block s \<and> hist_ok (fst (snd r)) = hist_ok s", OF _ assms], goal_cases)
  case (1 loop app ad prompt s e k r)
  note IH = 1(1)
  obtain key k1 where key: "read_key k = Some (key, k1)" using 1(2) by (auto simp: handler_simps)
  note body = 1(2) [unfolded key, simplified]
  show ?case
  proof (cases "key \<in> {0x0D, 0x0A, 18, KEY_F7, 3, 9} \<or> (key = 4 \<and> e_len e = 0)")
    case True
    then show ?thesis using body by (auto simp: handler_simps reset_boots split: if_splits option.splits dest!: IH)
  next
    case False
    obtain e1 kill out where lk: "line_key prompt s key e = (e1, kill, out)" by (metis prod_cases3)
    then obtain k2 where "loop app ad prompt (s\<lparr>kill_buf := kill\<rparr>) (e1\<lparr>last_tab := False\<rparr>) k2 = Some r"
      using body False by (auto simp: handler_simps split: if_splits)
    from IH [OF this] show ?thesis by (simp add: hist_ok_def)
  qed
qed

lemma read_line_shell:
  "read_line app ad prompt b s k = Some (r, s', k') \<Longrightarrow> app_ok app \<Longrightarrow> shell_ok s k \<Longrightarrow> shell_ok s' k'"
proof -
  assume r: "read_line app ad prompt b s k = Some (r, s', k')" and "app_ok app" "shell_ok s k"
  then have "read_ok (r, s', k')" by (intro read_line_ok [OF r]) (simp_all add: shell_ok_def)
  moreover have "env_block s' = env_block s" "hist_ok s' = hist_ok s"
    using r by (auto simp: read_line_def handler_simps dest!: edit_loop_keeps)
  ultimately show ?thesis using \<open>shell_ok s k\<close> by (simp add: shell_ok_def read_ok_def)
qed

lemma prompt_shell: "build_prompt app ad s k = Some (p, k') \<Longrightarrow> app_ok app \<Longrightarrow> shell_ok s k \<Longrightarrow> shell_ok s k'"
  by (auto simp: build_prompt_def handler_simps split: if_splits dest!: where_shell)

lemma active_shell: "submit_is_active app ad k = Some (p, k') \<Longrightarrow> app_ok app \<Longrightarrow> shell_ok s k \<Longrightarrow> shell_ok s k'"
  by (auto simp: submit_is_active_def handler_simps dest!: window_shell)

lemma next_shell: "submit_next_line app ad k = Some (p, k') \<Longrightarrow> app_ok app \<Longrightarrow> shell_ok s k \<Longrightarrow> shell_ok s k'"
  by (auto simp: submit_next_line_def handler_simps split: if_splits option.splits prod.splits dest!: window_shell)

lemma ran_shell:
  "run_or_pipe app ad line s k = Some st \<Longrightarrow> ran st = (t, s', k') \<Longrightarrow> app_ok app \<Longrightarrow> shell_ok s k \<Longrightarrow> shell_ok s' k'"
  by (cases st) (auto simp: ran_def dest: run_or_pipe_shell)

lemma script_turn_shell:
  assumes "script_turn app ad prompt s k = Some (t, s', k')" "app_ok app" "shell_ok s k"
  shows "shell_ok s' k'"
proof -
  obtain nxt k1 where k1: "submit_next_line app (addrs.truncate ad) k = Some (nxt, k1)"
    using assms(1) by (auto simp: script_turn_def handler_simps)
  have "shell_ok s k1" by (rule next_shell [OF k1 assms(2,3)])
  then show ?thesis using assms(1,2) unfolding script_turn_def k1
    by (cases nxt) (auto simp: handler_simps split: if_splits dest!: say_shell dest: ran_shell)
qed

lemma typed_turn_shell:
  assumes "typed_turn app ad prompt b s k = Some (t, s', k')" "app_ok app" "shell_ok s k"
  shows "shell_ok s' k'"
proof -
  obtain r s1 k1 where k1: "read_line app (addrs.truncate ad) prompt (b(0 := 0)) s k = Some (r, s1, k1)"
    using assms(1) by (auto simp: typed_turn_def handler_simps)
  have "shell_ok s1 k1" by (rule read_line_shell [OF k1 assms(2,3)])
  then show ?thesis using assms(1,2) unfolding typed_turn_def k1
    by (cases r) (auto simp: handler_simps split: option.splits dest!: typed_shell dest: ran_shell)
qed

lemma turn_shell:
  assumes "ccp_turn app ad b s k = Some (t, s', k')" "app_ok app" "shell_ok s k"
  shows "shell_ok s' k'"
proof -
  obtain room k1 where k1: "build_prompt app ad s k = Some (room, k1)" using assms(1) by (auto simp: ccp_turn_def handler_simps)
  have ok: "shell_ok s k1" by (rule prompt_shell [OF k1 assms(2,3)])
  show ?thesis
  proof (cases room)
    case None
    then show ?thesis using assms(1) ok by (simp add: ccp_turn_def k1)
  next
    case (Some prompt)
    then obtain scripted k2 where k2: "submit_is_active app (addrs.truncate ad) k1 = Some (scripted, k2)"
      and r: "(if scripted then script_turn app ad prompt s k2 else typed_turn app ad prompt b s k2) = Some (t, s', k')"
      using assms(1) by (auto simp: ccp_turn_def k1 handler_simps)
    have "shell_ok s k2" by (rule active_shell [OF k2 assms(2) ok])
    then show ?thesis using r assms(2) by (cases scripted) (auto dest: script_turn_shell typed_turn_shell)
  qed
qed

text \<open>When a turn writes behind a buffer: the prompt, the line of a script, or a line completed with the Tab key.\<close>

lemma turn_overruns:
  assumes "ccp_turn app ad b s k = Some (Overruns, s', k')"
  obtains k1 where "build_prompt app ad s k = Some (None, k1)"
  | k1 k2 where "submit_next_line app (addrs.truncate ad) k1 = Some (Script_overrun, k2)"
  | prompt k1 where "read_line app (addrs.truncate ad) prompt (b(0 := 0)) s k1 = Some (Overrun, s', k')"
proof -
  have *: "map_option ran x \<noteq> Some (Overruns, s', k')" for x by (auto simp: ran_def)
  obtain room k1 where k1: "build_prompt app ad s k = Some (room, k1)" using assms by (auto simp: ccp_turn_def handler_simps)
  show thesis
  proof (cases room)
    case None
    then show thesis using that(1) k1 by simp
  next
    case (Some prompt)
    then obtain scripted k2 where
      r: "(if scripted then script_turn app ad prompt s k2 else typed_turn app ad prompt b s k2) = Some (Overruns, s', k')"
      using assms by (auto simp: ccp_turn_def k1 handler_simps)
    show thesis
    proof (cases scripted)
      case True
      then have r: "script_turn app ad prompt s k2 = Some (Overruns, s', k')" using r by simp
      obtain nxt k3 where n: "submit_next_line app (addrs.truncate ad) k2 = Some (nxt, k3)"
        using r by (auto simp: script_turn_def handler_simps)
      have "nxt = Script_overrun" using r * unfolding script_turn_def n by (cases nxt) (auto simp: handler_simps)
      then show thesis using that(2) n by simp
    next
      case False
      then have r: "typed_turn app ad prompt b s k2 = Some (Overruns, s', k')" using r by simp
      obtain x s1 k3 where n: "read_line app (addrs.truncate ad) prompt (b(0 := 0)) s k2 = Some (x, s1, k3)"
        using r by (auto simp: typed_turn_def handler_simps)
      have "x = Overrun \<and> s1 = s' \<and> k3 = k'" using r * unfolding typed_turn_def n
        by (cases x) (auto simp: handler_simps split: option.splits)
      then show thesis using that(3) n by simp
    qed
  qed
qed

text \<open>C27: the main loop keeps the state of the command processor well formed. After any number of turns, whatever is typed, whatever
  a script holds and whatever the commands do, the kernel satisfies its invariant, the history ring is well
  formed, the kill buffer fits its 80 bytes and the environment its 256; the programs that commands start are assumed to keep the kernel's
  invariant (\<open>app_ok\<close>). This covers the turns that have a result in the model: a turn that waits for a byte that never comes, a
  command that never ends, and one that does what C leaves undefined (\<open>uudecode\<close> of a short group reads behind its argument, \<open>cd\<close> overflows on a long number)
  lead to no further state. A turn that writes behind the buffer of the prompt, of a script line
  or of the completed line ends the loop in the outcome \<open>Overruns\<close>, with the state before the write; nothing is claimed
  of what the machine does then.\<close>

theorem ccp_always_ok:
  assumes "ccp_runs app ad (t, s, k)" "app_ok app"
  shows "shell_ok s k"
proof -
  have "case st of (t, s, k) \<Rightarrow> shell_ok s k" if "ccp_runs app ad st" for st
    using that
  proof (induction rule: ccp_runs.induct)
    case (start k k1)
    then show ?case by (auto simp: shell_ok_def hist_ok_def ccp_start_def dest: say_ok)
  next
    case (turn s k b st)
    then show ?case using turn_shell [OF _ assms(2)] by (auto split: prod.splits)
  qed
  then show ?thesis using assms(1) by auto
qed

section \<open>From the line to the command\<close>

lemma expand_plain:
  "0x24 \<notin> set t \<Longrightarrow> 0x25 \<notin> set t \<Longrightarrow> length out + length t \<le> lim \<Longrightarrow> expand_loop s lim t out = out @ t"
proof (induction t arbitrary: out)
  case Nil
  then show ?case by (simp add: expand_loop.simps [of s lim "[]"])
next
  case (Cons c t)
  then show ?case by (subst expand_loop.simps) (simp add: Let_def)
qed

definition plain_arg :: "cstring \<Rightarrow> bool" where
  "plain_arg a \<longleftrightarrow> set a \<inter> {0x24, 0x25, STAR, QUERY} = {} \<and> length a < CCP_LINE_MAX \<and> a \<notin> {ascii ''>'', ascii ''>>'', ascii ''<''}"

abbreviation "stored args \<equiv> sum_list (map (\<lambda>a. length a + 1) args)"

lemma line_args_written:
  "list_all plain_arg args \<Longrightarrow> length argv + length args \<le> 16 \<Longrightarrow> eoff + stored args \<le> 240 \<Longrightarrow>
    line_args app ad s (concat (map (\<lambda>a. write_arg a @ [0x20]) args)) eoff argv k = Some (argv @ args, k)"
proof (induction args arbitrary: argv eoff)
  case Nil
  then show ?case by (subst line_args.simps) (simp add: next_token_def)
next
  case (Cons a args)
  have "expand_token s a 80 = a" using Cons.prems(1) by (simp add: plain_arg_def expand_token_def expand_plain)
  moreover have "\<not> has_wildcard a" using Cons.prems(1) by (simp add: plain_arg_def has_wildcard_def)
  ultimately show ?case using Cons.prems Cons.IH [of "argv @ [a]" "eoff + length a + 1"] next_written [of a "concat (map (\<lambda>a. write_arg a @ [0x20]) args)"]
    by (subst line_args.simps) (simp add: plain_arg_def Let_def)
qed

lemma strip_plain: "list_all plain_arg args \<Longrightarrow> strip_redirs args d = d\<lparr>rd_args := rd_args d @ args\<rparr>"
  by (induction args d rule: strip_redirs.induct) (auto simp: plain_arg_def)

lemma run_line_plain:
  assumes "list_all plain_arg args" "args \<noteq> []" "length args \<le> 16" "stored args \<le> 240"
    "\<not> (length (hd args) = 2 \<and> hd args ! 1 = 0x3A)"
  shows "run_line app ad (concat (map (\<lambda>a. write_arg a @ [0x20]) args)) s k = dispatch_cmd app ad (hd args) args False False s k"
proof -
  have "line_args app (addrs.truncate ad) s (concat (map (\<lambda>a. write_arg a @ [0x20]) args)) 0 [] k = Some (args, k)"
    using line_args_written [of args "[]" 0] assms by simp
  moreover have "try_drive_switch app (hd args) k = Some (False, k)" using assms(5) by (auto simp: try_drive_switch_def)
  ultimately show ?thesis using assms(1,2) by (simp add: run_line_def strip_plain open_redirs_def Let_def)
qed

text \<open>C28: a command line reaches its command unchanged. Take up to sixteen arguments, each of fewer than 80 characters, none with
  the characters of variables and wildcards (\<open>$\<close>, \<open>%\<close>, \<open>*\<close>, \<open>?\<close>), with at most 240 bytes in all (a byte more for each
  argument), the first not two characters with a colon second, like the selection of a drive. None of them is \<open>>\<close>, \<open>>>\<close> or \<open><\<close>: quotes
  do not protect these, they redirect. When such arguments are written on a line, in quotes where they need them, the line runs the command with
  exactly these arguments.\<close>

theorem run_line_written:
  assumes "list_all plain_arg args" "args \<noteq> []" "length args \<le> 16" "stored args \<le> 240"
    "\<not> (length (hd args) = 2 \<and> hd args ! 1 = 0x3A)"
  shows "run_line app ad (concat (map (\<lambda>a. write_arg a @ [0x20]) args)) s k = dispatch_cmd app ad (hd args) args False False s k"
  by (rule run_line_plain [OF assms])

lemma echo_builtin: "find_builtin app ad (resolve_alias (ascii ''echo'')) = Some (printing cmd_echo)"
  by (simp add: find_builtin_def builtin_names_def builtins_def resolve_alias_def aliases_def ascii_def to_upper_def is_lower_def)

lemma run_line_written_witness:
  "\<exists>k'. run_line (\<lambda>base n t k. None) demo_blobs (ascii ''echo \"a b\" '') ccp_start (demo_term\<lparr>k_in := []\<rparr>) = Some (False, ccp_start, k')
      \<and> k_out k' = ascii ''a b'' @ nl"
proof -
  let ?args = "[ascii ''echo'', ascii ''a b'']" and ?k = "demo_term\<lparr>k_in := []\<rparr>"
  have l: "concat (map (\<lambda>a. write_arg a @ [0x20]) ?args) = ascii ''echo \"a b\" ''"
    by (simp add: write_arg_def plain_def in_quotes_def ascii_def isspace_def)
  have o: "k_out ?k = []" by (simp add: demo_term_def boot_kernel_def bdos_init_def)
  have "run_line (\<lambda>base n t k. None) demo_blobs (concat (map (\<lambda>a. write_arg a @ [0x20]) ?args)) ccp_start ?k
      = dispatch_cmd (\<lambda>base n t k. None) demo_blobs (ascii ''echo'') ?args False False ccp_start ?k"
    by (subst run_line_written) (simp_all add: plain_arg_def ascii_def)
  also have "\<dots> = Some (False, ccp_start, ?k\<lparr>k_out := ccp_puts (ascii ''a b'') @ nl\<rparr>)"
    using demo_quiet [of "[]"] o
    by (simp add: dispatch_cmd_def echo_builtin printing_def cmd_echo_def say_rc_def say_quiet close_redirs_def)
  finally show ?thesis unfolding l by (simp add: ascii_def)
qed

section \<open>The room for the prompt\<close>

lemma user_digits_length: "length (user_digits u) \<le> 2"
  by (simp add: user_digits_def)

lemma token_length: "length out < 30 \<Longrightarrow> length (prompt_token d u cwd tok out) \<le> 34"
  using user_digits_length [of u] by (auto simp: prompt_token_def prompt_path_def Let_def)

lemma prompt_loop_length: "length out \<le> 34 \<Longrightarrow> length (prompt_loop d u cwd fmt out) \<le> 34"
proof (induction fmt arbitrary: out rule: length_induct)
  case (1 fmt)
  show ?case
  proof (cases fmt)
    case (Cons c r)
    show ?thesis
    proof (cases r)
      case Nil
      then show ?thesis using 1(2) Cons by auto
    next
      case r: (Cons tok r1)
      show ?thesis using 1(1) [rule_format, of r "out @ [c]"] 1(1) [rule_format, of r1 "prompt_token d u cwd tok out"] 1(2) token_length [of out]
        by (auto simp: Cons r simp del: prompt_loop.simps(2)) (auto simp: not_le)
    qed
  qed (use 1 in simp)
qed

lemma cstr_at_bytes:
  "\<forall>i < length cs. m (a + of_nat i) = cs ! i \<and> cs ! i \<noteq> 0 \<Longrightarrow> m (a + of_nat (length cs)) = 0 \<Longrightarrow> cstr_at m a = Some cs"
proof (induction cs arbitrary: a)
  case Nil
  then show ?case by (subst cstr_at.simps) simp
next
  case (Cons c cs)
  have "m a = c" "c \<noteq> 0" using Cons.prems(1) [rule_format, of 0] by simp_all
  moreover have "m (a + 1 + of_nat i) = cs ! i \<and> cs ! i \<noteq> 0" if "i < length cs" for i
    using Cons.prems(1) [rule_format, of "Suc i"] that by (simp add: add.assoc)
  moreover have "m (a + 1 + of_nat (length cs)) = 0" using Cons.prems(2) by (simp add: add.assoc)
  ultimately show ?case using Cons.IH [of "a + 1"] by (subst cstr_at.simps) simp
qed

lemma cstr_at_put:
  assumes "0 \<notin> set cs" "length cs < 2 ^ 32"
  shows "cstr_at (put_bytes a (cs @ [0]) m) a = Some cs"
proof (rule cstr_at_bytes)
  let ?m = "put_bytes a (cs @ [0]) m"
  have "get_bytes a (Suc (length cs)) ?m = cs @ [0]" using assms(2) by (intro get_put_bytes) simp_all
  then have e: "get_bytes a (Suc (length cs)) ?m ! i = (cs @ [0]) ! i" for i by simp
  have m: "?m (a + of_nat i) = (cs @ [0]) ! i" if "i < Suc (length cs)" for i
    using e [of i] that by (simp add: get_bytes_def del: upt_Suc)
  show "?m (a + of_nat (length cs)) = 0" by (simp add: m)
  show "\<forall>i < length cs. ?m (a + of_nat i) = cs ! i \<and> cs ! i \<noteq> 0"
  proof (intro allI impI)
    fix i assume i: "i < length cs"
    then have "cs ! i \<in> set cs" by simp
    then show "?m (a + of_nat i) = cs ! i \<and> cs ! i \<noteq> 0" using assms(1) i by (metis m less_SucI nth_append)
  qed
qed

lemma where_cwd:
  assumes "length (cur_subpath k) < 40" "0 \<notin> set (cur_subpath k)" "at_cwd ad \<noteq> 0"
  shows "where_am_i app ad k =
    Some (ucast (cur_drive k), ucast (cur_user k), cur_subpath k, k\<lparr>k_mem := put_bytes (at_cwd ad) (cur_subpath k @ [0]) (k_mem k)\<rparr>)"
proof -
  have m: "(0xFF :: u32) = mask 8" by (simp add: mask_eq_exp_minus_1)
  have "(ucast (cur_user k) AND 0xFF :: u32) = ucast (cur_user k)" unfolding m by (rule bit_word_eqI) (auto simp: bit_simps dest: bit_imp_le_length)
  moreover have "bdos_dispatch app 25 a b k = d_getdisk a b k" "bdos_dispatch app 32 a b k = d_user a b k"
      "bdos_dispatch app 125 a b k = d_ext_getcwd a b k" for a b k
    by (simp_all add: bdos_dispatch_def bdos_table_def)
  moreover have "cstr_at (put_bytes (at_cwd ad) (cur_subpath k @ [0]) (k_mem k)) (at_cwd ad) = Some (cur_subpath k)"
    using assms by (intro cstr_at_put) simp_all
  ultimately show ?thesis using assms
    by (simp add: where_am_i_def sys_def d_getdisk_def d_user_def d_ext_getcwd_def rv_def)
qed

lemma default_prompt:
  assumes "length (user_digits u) + length cwd \<le> 10"
  shows "prompt_loop d u cwd (ascii ''$P$G$S'') [] = [drive_char d] @ user_digits u @ [0x3A] @ cwd @ [0x5C, 0x3E, 0x20]"
  using assms by (simp add: ascii_def prompt_token_def prompt_path_def Let_def)

lemma default_prompt_long:
  "10 < length (user_digits u) + length cwd \<Longrightarrow> 16 \<le> length (prompt_loop d u cwd (ascii ''$P$G$S'') [])"
  using user_digits_length [of u] by (auto simp: ascii_def prompt_token_def prompt_path_def Let_def min_def)

text \<open>C30: the prompt has at most 34 characters, whatever the variable PROMPT holds, but its buffer has room for 15. When
  the variable is not set, the prompt is the drive, the user number and the current directory when they fit,
  that is, when the digits of the user number and the path together have at most ten characters; with a longer path
  the prompt is written behind the buffer, which the model reports as the outcome \<open>None\<close> of a call that ends.\<close>

theorem prompt_room:
  assumes "kernel_ok k" "0 \<notin> set (cur_subpath k)" "at_cwd ad \<noteq> 0" "env_get (ascii ''PROMPT'') s = None"
  shows "(\<forall>s d u cwd. length (prompt_text s d u cwd) \<le> 34)
    \<and> (let digits = user_digits (ucast (cur_user k)) in
       map_option fst (build_prompt app ad s k) =
         Some (if length digits + length (cur_subpath k) \<le> 10
          then Some ([drive_char (ucast (cur_drive k))] @ digits @ [0x3A] @ cur_subpath k @ ascii (CHR 0x5C # ''> '')) else None))"
proof
  show "\<forall>s d u cwd. length (prompt_text s d u cwd) \<le> 34" unfolding prompt_text_def by (intro allI prompt_loop_length) simp
  have "length (cur_subpath k) < 40" using assms(1) by (simp add: kernel_ok_def)
  note w = where_cwd [OF this assms(2,3), of app]
  have p: "prompt_text s d u cwd = prompt_loop d u cwd (ascii ''$P$G$S'') []" for d u cwd by (simp add: prompt_text_def assms(4))
  have e: "ascii (CHR 0x5C # ''> '') = [0x5C, 0x3E, 0x20]" by (simp add: ascii_def)
  show "let digits = user_digits (ucast (cur_user k)) in
       map_option fst (build_prompt app ad s k) =
         Some (if length digits + length (cur_subpath k) \<le> 10
          then Some ([drive_char (ucast (cur_drive k))] @ digits @ [0x3A] @ cur_subpath k @ ascii (CHR 0x5C # ''> '')) else None)"
  proof (cases "length (user_digits (ucast (cur_user k))) + length (cur_subpath k) \<le> 10")
    case True
    show ?thesis using True by (simp add: build_prompt_def w p default_prompt [OF True] e)
  next
    case False
    then show ?thesis using default_prompt_long [of "ucast (cur_user k)" "cur_subpath k" "ucast (cur_drive k)"]
      by (simp add: build_prompt_def w p)
  qed
qed

lemma prompt_room_witness:
  "map_option fst (build_prompt (\<lambda>base n t k. None) demo_blobs ccp_start (demo_term\<lparr>k_in := []\<rparr>)) = Some (Some (ascii (''A:'' @ CHR 0x5C # ''> '')))"
proof -
  let ?k = "demo_term\<lparr>k_in := []\<rparr>"
  have f: "cur_subpath ?k = []" "cur_user ?k = 0" "cur_drive ?k = 0" by (simp_all add: demo_term_def boot_kernel_def bdos_init_def)
  have "env_get (ascii ''PROMPT'') ccp_start = None" by (simp add: env_get_def env_find_def env_find_from.simps ccp_start_def)
  moreover have "at_cwd demo_blobs \<noteq> 0" by (simp add: demo_blobs_def)
  ultimately show ?thesis using prompt_room [OF demo_term_ok, of "[]" demo_blobs ccp_start "\<lambda>base n t k. None", THEN conjunct2] f
    by (simp add: user_digits_def drive_char_def ascii_def)
qed

section \<open>A turn\<close>

text \<open>The loop starts, prompts, reads \<open>echo hi\<close> from the console and runs it.\<close>

lemma ccp_always_ok_witness:
  "\<exists>k0 s2 k2. ccp_runs (\<lambda>base n t k. None) demo_blobs (Goes_on, ccp_start, k0)
     \<and> ccp_turn (\<lambda>base n t k. None) demo_blobs (\<lambda>_. 0) ccp_start k0 = Some (Goes_on, s2, k2)
     \<and> hist_count s2 = 1 \<and> shell_ok s2 k2"
proof -
  let ?app = "\<lambda>base n t k. None" and ?args = "[ascii ''echo'', ascii ''hi'']" and ?k = "demo_term\<lparr>k_in := ascii ''echo hi '' @ [0x0D]\<rparr>"
  let ?line = "concat (map (\<lambda>a. write_arg a @ [0x20]) ?args)"
  have l: "?line = ascii ''echo hi ''" by (simp add: write_arg_def plain_def in_quotes_def ascii_def isspace_def)
  define k0 where "k0 = ?k\<lparr>k_out := k_out ?k @ (nl @ msg ''[CCP loaded into TPA from compressed ROM image]'')\<rparr>"
  have k0: "say (nl @ msg ''[CCP loaded into TPA from compressed ROM image]'') ?k = Some k0"
    unfolding k0_def by (rule say_quiet [OF demo_quiet])
  have f: "k_in k0 = ?line @ 0x0D # []" "k_mem k0 = k_mem demo_term" "cur_drive k0 = 0" "cur_user k0 = 0"
      "cur_subpath k0 = []" "at_window k0 = 0x0EC00000" "redir_active k0 = False"
    unfolding l by (simp_all add: k0_def demo_term_def boot_kernel_def bdos_init_def)
  have runs: "ccp_runs ?app demo_blobs (Goes_on, ccp_start, k0)" using k0 demo_term_ok by (rule ccp_runs.start)
  let ?m = "put_bytes 0x0EC10400 [0] (k_mem demo_term)"
  let ?m2 = "put32 0x0EC10304 4096 (put32 0x0EC10300 0x0EC00000 ?m)"
  have "env_get (ascii ''PROMPT'') ccp_start = None" by (simp add: env_get_def env_find_def env_find_from.simps ccp_start_def)
  then have "prompt_text ccp_start 0 0 [] = [0x41, 0x3A, 0x5C, 0x3E, 0x20]"
    using default_prompt [of 0 "[]" 0] by (simp add: prompt_text_def user_digits_def drive_char_def)
  then have 1: "build_prompt ?app demo_blobs ccp_start k0 = Some (Some [0x41, 0x3A, 0x5C, 0x3E, 0x20], k0\<lparr>k_mem := ?m\<rparr>)"
    using where_cwd [of k0 demo_blobs ?app] f by (simp add: build_prompt_def demo_blobs_def)
  have m2: "mem32 ?m2 0x0EC10300 = 0x0EC00000" "mem32 ?m2 0x0EC00000 = 0" "mem32 ?m2 0x0EC00800 = 0"
    by (simp_all add: mem32_def put32_def demo_term_def boot_kernel_def bdos_init_def)
  have "bdos_dispatch ?app 122 a b k = d_ext_scratch a b k" for a b k by (simp add: bdos_dispatch_def bdos_table_def)
  with m2(1,2) have 2: "submit_is_active ?app (addrs.truncate demo_blobs) (k0\<lparr>k_mem := ?m\<rparr>) = Some (False, k0\<lparr>k_mem := ?m2\<rparr>)"
    by (simp add: submit_is_active_def window_of_def sys_def d_ext_scratch_def rv_def f demo_blobs_def addrs.truncate_def)
  have p: "list_all printable ?line" "length ?line < 80" unfolding l by (simp_all add: ascii_def printable_def)
  have "quiet (k0\<lparr>k_mem := ?m2\<rparr>)" using m2(3) by (simp add: quiet_def inrd_def f)
  moreover have "k_in (k0\<lparr>k_mem := ?m2\<rparr>) = k_in k0" by simp
  ultimately obtain k1 where 3: "read_line ?app (addrs.truncate demo_blobs) [0x41, 0x3A, 0x5C, 0x3E, 0x20] ((\<lambda>_. 0)(0 := 0)) ccp_start (k0\<lparr>k_mem := ?m2\<rparr>)
      = Some (Line ?line, ccp_start, k1)" "quiet k1"
    using read_line_types [OF _ _ p] f(1) by metis
  let ?s = "history_add ?line ccp_start"
  have 4: "typed_line ?line ccp_start k1 = Some (Some ?line, ?s, k1)"
    using 3(2) unfolding l by (simp add: typed_line_def say_quiet ascii_def)
  have "run_line ?app demo_blobs ?line ?s k1 = dispatch_cmd ?app demo_blobs (ascii ''echo'') ?args False False ?s k1"
    by (subst run_line_plain) (simp_all add: plain_arg_def ascii_def)
  also have "\<dots> = Some (False, ?s, k1\<lparr>k_out := k_out k1 @ ccp_puts (ascii ''hi'') @ nl\<rparr>)"
    using 3(2) by (simp add: dispatch_cmd_def echo_builtin printing_def cmd_echo_def say_rc_def say_quiet close_redirs_def)
  finally have 5: "run_or_pipe ?app demo_blobs ?line ?s k1 = Some (False, ?s, k1\<lparr>k_out := k_out k1 @ ccp_puts (ascii ''hi'') @ nl\<rparr>)"
    unfolding l by (simp add: run_or_pipe_def handle_pipe_def ascii_def)
  have turn: "ccp_turn ?app demo_blobs (\<lambda>_. 0) ccp_start k0 = Some (Goes_on, ?s, k1\<lparr>k_out := k_out k1 @ ccp_puts (ascii ''hi'') @ nl\<rparr>)"
    by (simp only: ccp_turn_def typed_turn_def 1 2 3(1) 4 5 Option.bind.bind_lunit prod.case option.case line_end.case
        if_False option.map ran_def)
  have "app_ok ?app" by (simp add: app_ok_def)
  from ccp_always_ok [OF ccp_runs.turn [OF runs turn] this] turn runs show ?thesis
    unfolding l by (intro exI conjI) (auto simp: history_add_def ascii_def ccp_start_def)
qed

end
