(* ===== verification/Spec2Isabelle.thy ===== *)
theory Spec2Isabelle
  imports Nvram Ring Duart Lance Lance_Host Memory Lance_Glue Mips Disk Lzss Fat Fat_Dir Fat_File Console Bios Bdos_File Bdos Bdos_Inv Bdos_Facts
    Ccp_Text Ccp_Codec Ccp_Applets Ccp_State Ccp_Edit Ccp_Line Ccp_Cmd Ccp_Srec Ccp_Shell Ccp_Turn
begin

text \<open>
  A verification library for the NCD15 reverse-engineering repository: the emulator of the NCD15 X terminal
  (\<open>src/emulator/src\<close>) and the portable kernel of XCP/M that runs on it (\<open>src/xcpm-mips/src\<close>).

  \<^bold>\<open>The emulator.\<close> \<open>mips.c\<close> interprets MIPS-I instructions; every fetch, load and store goes to the bus in
  \<open>memory.c\<close>, which decodes the address into ROM, two RAM banks, a flash card and a table of device windows.
  The devices are the serial port with the serial EEPROM behind its output pins (\<open>duart.c\<close>, \<open>nvram.c\<close>), small
  register devices, and the Ethernet controller (\<open>lance.c\<close>), which is connected to the bus by \<open>lance_glue.c\<close>:
  the chip reads its descriptors and frames from the guest's memory through the bus, raises the interrupt
  line the processor samples, and hands frames to the host's network.

  \<^bold>\<open>XCP/M.\<close> The kernel's block devices are a FAT image copied to RAM and a 4 KB RAM disk
  (\<open>disk_ramfat.c\<close>, \<open>ramdisk.c\<close>); \<open>fat.c\<close> is the file system on the first; \<open>lzss.c\<close> decompresses images.
  The console driver talks to the emulated serial chip; \<open>bios.c\<close> and \<open>bdos.c\<close> are the system calls on top of
  it and of the file system, reached through two dispatch tables. The command processor
  (\<open>src_ccp/ccpmain.c\<close>) is a client of the system calls.

  \<^bold>\<open>Theories.\<close> Each follows one C file, in the order of its functions, under their C names.

  \<^item> \<open>Ncd_Prelude\<close>: the C integer types as words, byte buffers, joins of bytes, the interface \<open>codec\<close> of every
    byte encoding of the program.
  \<^item> \<open>Nvram\<close> (\<open>nvram.c\<close>): the EEPROM as a state machine driven by pin levels. Its lemmas lift the machine from
    single clock edges to whole commands: read, write, protection, the image file.
  \<^item> \<open>Ring\<close>: bounded queues in a ring buffer; the locale \<open>fifo\<close> is their interface.
  \<^item> \<open>Duart\<close> (\<open>duart.c\<close> and the stub devices of \<open>main.c\<close>): the register file, the receive queues (an
    interpretation of \<open>fifo\<close>) and the pins of the EEPROM.
  \<^item> \<open>Lance\<close> (\<open>lance.c\<close>): the controller over an arbitrary host, given by its four callbacks. The chip invariant
    \<open>lance_inv\<close> is kept by every operation and every run of operations.
  \<^item> \<open>Lance_Host\<close>: what a host must promise (locales \<open>lance_host\<close>, \<open>lance_host_inv\<close>), and what the chip then
    does with a frame in the host's memory.
  \<^item> \<open>Memory\<close> (\<open>memory.c\<close>, the structures of \<open>emu.h\<close>): the address decoder, byte order, the run-time intercepts,
    the flash preload. The lemmas classify addresses and relate loads to stores.
  \<^item> \<open>Lance_Glue\<close> (\<open>lance_glue.c\<close>): the chip on the bus; it interprets the host locales on \<open>memory.c\<close>, so that the
    facts about frames hold of the guest's memory.
  \<^item> \<open>Mips\<close> (\<open>mips.c\<close>): instructions, exceptions, the instruction cache, the run loop; \<open>next_insn\<close> is the instruction a
    step executes, in terms of which the control flow of successive steps is stated.
  \<^item> \<open>Disk\<close> (\<open>disk_ramfat.c\<close>, \<open>ramdisk.c\<close>): the two devices, both interpretations of the locale \<open>block_device\<close>.
  \<^item> \<open>Fat\<close> (\<open>fat.c\<close>, first part): the mount, the sector caches, the allocation table. The table is a
    function of the disk (\<open>fat_table\<close>); the lemmas say how each operation changes it, through the caches.
  \<^item> \<open>Fat_Dir\<close> (\<open>fat.c\<close>, second part): names, the directory iterator and the searches built on it. A directory is
    the list of its 32-byte records; the lemmas show that the iterator visits the live ones in order.
  \<^item> \<open>Fat_File\<close> (\<open>fat.c\<close>, third part): files and the operations that change directories.
  \<^item> \<open>Console\<close> (\<open>console_mc68681.c\<close>): the serial console of XCP/M on the emulated chip; the locale \<open>console\<close> is
    what the kernel above it relies on.
  \<^item> \<open>Bios\<close> (\<open>bios.c\<close>): the state of the kernel, the BIOS calls, redirected output and input.
  \<^item> \<open>Bdos_File\<close> (\<open>bdos.c\<close>, file functions): file control blocks and the calls on them.
  \<^item> \<open>Bdos\<close> (\<open>bdos.c\<close>, the rest): console calls, extensions, the program loader, the dispatcher.
  \<^item> \<open>Bdos_Inv\<close>: the invariant of the kernel's state, kept by every system call, in all reachable states.
  \<^item> \<open>Bdos_Facts\<close>: the line editor as an abstract editor, status calls, handles behind control blocks over runs of file calls
    that may reuse them, and the sequential reading of a file on a FAT volume, down to the sectors.
  \<^item> \<open>Ccp_Text\<close>, \<open>Ccp_Codec\<close>, \<open>Ccp_Applets\<close>, \<open>Ccp_State\<close> (\<open>ccpmain.c\<close>): text and the tokenizer, the encodings, the
    commands that need no file system, and what the command processor keeps: environment and history.
  \<^item> \<open>Ccp_Edit\<close>, \<open>Ccp_Line\<close> (\<open>ccpmain.c\<close>): the line editor as operations on its buffer and on two strings, and the
    reading of a line over the kernel's console, with completion through the kernel's directory searches. The completion
    that writes behind the line buffer is the outcome \<open>Overrun\<close>; only the Tab key leads to it.
  \<^item> \<open>Ccp_Cmd\<close>, \<open>Ccp_Srec\<close> (\<open>ccpmain.c\<close>): the commands on files and memory; S-records, with the proof that what is
    sent is received, and the text editor, which stays inside its buffer.
  \<^item> \<open>Ccp_Shell\<close>, \<open>Ccp_Turn\<close> (\<open>ccpmain.c\<close>): wildcards, redirection, scripts, pipes, the prompt and the main loop; every
    turn keeps the invariant of the kernel and the bounds of the command processor's buffers, and a line
    reaches its command unchanged. A turn that writes behind the prompt or the line buffer ends in the outcome \<open>Overruns\<close>.
  \<^item> \<open>Lzss\<close> (\<open>lzss.c\<close>): both decompressors, and the token format as their specification.

  \<^bold>\<open>Conventions.\<close> C structures are records, fixed-width integers are words, buffers are functions from an
  index or lists of bytes. Operations that C leaves undefined for some input (an access outside a buffer, an
  overflowing division), and loops that do not end, return \<open>None\<close>; theorems about safety and termination say
  when they do not. In the main loop of the command processor, where such writes do happen, they are outcomes of their own, apart
  from the absence of a result: \<open>Overrun\<close> (the line buffer), \<open>Script_overrun\<close> (a script line), no text for the prompt, and
  \<open>Overruns\<close> for the turn; what the machine does after them depends on the layout of its memory and is not modelled. Loops without an evident bound (descriptor chains, the run of the processor) are
  \<open>partial_function\<close>s; there is no fuel anywhere.

  \<^bold>\<open>Not modelled.\<close> Trace output, statistics and the switches read from the environment (all off); the SDL
  window, host networking and option parsing of \<open>fb.c\<close> and \<open>main.c\<close>; in \<open>bdos.c\<close> the code of the programs a
  loader starts, which is a parameter, and the 68K vector table of \<open>bios.c\<close>, which is not part of the MIPS
  build; the applications; the mini image, the disassemblies, the fonts and the Python scripts.
\<close>

end
